(* ===== verification/Prelude.thy ===== *)
theory Prelude
  imports Complex_Main "HOL-Library.Word"
begin

text \<open>
  Shared vocabulary of the development: the machine-integer types of the C code, the
  collections of simplification facts, and the generic facts about arrays that the plugin's
  bounded packet queue, the registry's slot arrays and the viewer's ring buffers have in
  common. Nothing here is about one component.
\<close>

section \<open>Machine integers\<close>

type_synonym u16 = "16 word"
type_synonym u32 = "32 word"
type_synonym u64 = "64 word"

text \<open>
  Signed 64-bit sequence numbers are \<^typ>\<open>int\<close>: the C code only adds and subtracts them, and
  signed overflow is undefined there, so there is no wrap-around to model. \<open>i64\<close> says
  which integers an \<open>int64_t\<close> holds.
\<close>

definition INT64_MAX :: int where
  "INT64_MAX = 9223372036854775807"

definition i64 :: "int \<Rightarrow> bool" where
  "i64 n \<longleftrightarrow> - INT64_MAX - 1 \<le> n \<and> n \<le> INT64_MAX"

text \<open>Collections: \<open>code_defs\<close> unfolds small definitions of the model, \<open>inv_defs\<close> the
  invariants, \<open>ring_simps\<close> are the index laws of the bounded queue.\<close>

named_theorems code_defs \<open>definitions unfolded when a component's code is evaluated\<close>
named_theorems inv_defs \<open>definitions of the component invariants\<close>
named_theorems ring_simps \<open>index laws of ring buffers\<close>

section \<open>Words below their bound\<close>

lemma unat_u32_of_nat: "n < 4294967296 \<Longrightarrow> unat (of_nat n :: u32) = n"
  by (simp add: unat_of_nat take_bit_nat_eq_self)

lemma u32_of_nat_eq_0: "n < 4294967296 \<Longrightarrow> (of_nat n :: u32) = 0 \<longleftrightarrow> n = 0"
  by (metis unat_u32_of_nat of_nat_0 unat_eq_zero)

lemma u32_of_nat_le:
  "n < 4294967296 \<Longrightarrow> m < 4294967296 \<Longrightarrow> (of_nat n :: u32) \<le> of_nat m \<longleftrightarrow> n \<le> m"
  by (simp add: word_le_nat_alt unat_u32_of_nat)

lemma u32_of_nat_less:
  "n < 4294967296 \<Longrightarrow> m < 4294967296 \<Longrightarrow> (of_nat n :: u32) < of_nat m \<longleftrightarrow> n < m"
  by (simp add: word_less_nat_alt unat_u32_of_nat)

lemma u32_of_nat_inj:
  "n < 4294967296 \<Longrightarrow> m < 4294967296 \<Longrightarrow> (of_nat n :: u32) = of_nat m \<longleftrightarrow> n = m"
  by (metis unat_u32_of_nat)

section \<open>Bounded queue: a ring with one unused slot\<close>

text \<open>
  \<open>ring_count\<close> and \<open>ring_items\<close> read a ring of length \<open>length slots\<close> from the read
  position \<open>r\<close> up to the write position \<open>w\<close>, oldest first. The ring is empty when the
  positions coincide and full when the next write position would reach the read position.
\<close>

definition ring_count :: "nat \<Rightarrow> nat \<Rightarrow> nat \<Rightarrow> nat" where
  "ring_count N r w = (w + N - r) mod N"

definition ring_items :: "'a list \<Rightarrow> nat \<Rightarrow> nat \<Rightarrow> 'a list" where
  "ring_items slots r w =
     map (\<lambda>k. slots ! ((r + k) mod length slots)) [0..<ring_count (length slots) r w]"

lemma ring_count_cases:
  "r < N \<Longrightarrow> w < N \<Longrightarrow> ring_count N r w = (if r \<le> w then w - r else w + N - r)"
  by (auto simp: ring_count_def mod_if)

lemma ring_count_less [ring_simps]: "0 < N \<Longrightarrow> ring_count N r w < N"
  by (simp add: ring_count_def)

lemma length_ring_items [simp]: "length (ring_items s r w) = ring_count (length s) r w"
  by (simp add: ring_items_def)

lemma ring_items_empty_iff:
  assumes "r < length s" and "w < length s"
  shows "ring_items s r w = [] \<longleftrightarrow> r = w"
proof -
  have "ring_count (length s) r w = 0 \<longleftrightarrow> r = w"
    using assms by (auto simp: ring_count_cases)
  then show ?thesis by (metis length_0_conv length_ring_items)
qed

lemma ring_full_iff:
  assumes "r < N" and "w < N"
  shows "Suc w mod N = r \<longleftrightarrow> ring_count N r w = N - 1"
  using assms by (cases "Suc w = N") (auto simp: ring_count_cases)

lemma ring_index:
  assumes "r < N" and "w < N" and "k < ring_count N r w"
  shows "(r + k) mod N = (if r + k < N then r + k else r + k - N)"
proof -
  have "r + k < N + N" using assms by (auto simp: ring_count_cases split: if_splits)
  then show ?thesis by (simp add: mod_if)
qed

lemma ring_index_live:
  assumes "r < N" and "w < N" and "k < ring_count N r w"
  shows "(r + k) mod N \<noteq> w"
  using assms by (auto simp: ring_index ring_count_cases split: if_splits)

text \<open>Filling the slot at the write position is invisible to the reader.\<close>

lemma ring_items_fill:
  assumes "r < length s" and "w < length s"
  shows "ring_items (s[w := x]) r w = ring_items s r w"
  using assms by (auto simp: ring_items_def dest: ring_index_live)

lemma ring_count_push:
  assumes "r < N" and "w < N" and "Suc w mod N \<noteq> r"
  shows "ring_count N r (Suc w mod N) = Suc (ring_count N r w)"
  using assms by (cases "Suc w = N") (auto simp: ring_count_cases)

lemma ring_count_end:
  assumes "r < N" and "w < N"
  shows "(r + ring_count N r w) mod N = w"
  using assms by (auto simp: ring_count_cases)

text \<open>Advancing the write position appends the slot that was filled.\<close>

lemma ring_items_push:
  assumes "r < length s" and "w < length s" and "Suc w mod length s \<noteq> r"
  shows "ring_items s r (Suc w mod length s) = ring_items s r w @ [s ! w]"
  using assms by (simp add: ring_items_def ring_count_push ring_count_end)

lemma ring_count_pop:
  assumes "r < N" and "w < N" and "r \<noteq> w"
  shows "ring_count N r w = Suc (ring_count N (Suc r mod N) w)"
  using assms by (cases "Suc r = N") (auto simp: ring_count_cases)

text \<open>Advancing the read position drops the oldest item.\<close>

lemma ring_items_pop:
  assumes "r < length s" and "w < length s" and "r \<noteq> w"
  shows "ring_items s r w = s ! r # ring_items s (Suc r mod length s) w"
proof -
  have c: "ring_count (length s) r w = Suc (ring_count (length s) (Suc r mod length s) w)"
    using assms by (rule ring_count_pop)
  have "map (\<lambda>k. s ! ((r + k) mod length s)) [0..<ring_count (length s) r w]
      = s ! r # map (\<lambda>k. s ! ((r + Suc k) mod length s))
          [0..<ring_count (length s) (Suc r mod length s) w]"
    using assms unfolding c by (simp add: upt_conv_Cons map_Suc_upt [symmetric] del: upt_Suc)
  then show ?thesis
    by (simp add: ring_items_def mod_simps ac_simps)
qed

section \<open>Stores into arrays\<close>

text \<open>A run of elements written from index \<open>i\<close> on, as the C loops and \<^verbatim>\<open>memcpy\<close> do.\<close>

fun store_at :: "nat \<Rightarrow> 'a list \<Rightarrow> 'a list \<Rightarrow> 'a list" where
  "store_at i [] a = a"
| "store_at i (x # xs) a = store_at (Suc i) xs (a[i := x])"

lemma length_store_at [simp]: "length (store_at i xs a) = length a"
  by (induction i xs a rule: store_at.induct) auto

lemma nth_store_at:
  "i + length xs \<le> length a \<Longrightarrow> k < length a \<Longrightarrow>
     store_at i xs a ! k = (if i \<le> k \<and> k < i + length xs then xs ! (k - i) else a ! k)"
proof (induction i xs a rule: store_at.induct)
  case (2 i x xs a)
  have "store_at (Suc i) xs (a[i := x]) ! k
      = (if Suc i \<le> k \<and> k < Suc i + length xs then xs ! (k - Suc i) else a[i := x] ! k)"
    using 2 by simp
  then show ?case using 2 by (cases "k = i") (auto simp: nth_Cons' not_less_eq_eq)
qed auto

lemma take_store_at:
  "i + length xs \<le> length a \<Longrightarrow> take (i + length xs) (store_at i xs a) = take i a @ xs"
  by (rule nth_equalityI) (auto simp: nth_store_at nth_append)

lemma take_store_at_before:
  "i + length xs \<le> length a \<Longrightarrow> take i (store_at i xs a) = take i a"
  by (rule nth_equalityI) (auto simp: nth_store_at)

lemma slice_store_before:
  "i + m \<le> k \<Longrightarrow> k + length xs \<le> length a \<Longrightarrow>
     take m (drop i (store_at k xs a)) = take m (drop i a)"
  by (rule nth_equalityI) (auto simp: nth_store_at)

lemma slice_store_within:
  "j + m \<le> length xs \<Longrightarrow> k + length xs \<le> length a \<Longrightarrow>
     take m (drop (k + j) (store_at k xs a)) = take m (drop j xs)"
  by (rule nth_equalityI) (auto simp: nth_store_at)

section \<open>Slot arrays of optional entries\<close>

text \<open>The first free slot of an array of pointers, as the C loops search it.\<close>

fun first_free :: "'a option list \<Rightarrow> nat option" where
  "first_free [] = None"
| "first_free (None # xs) = Some 0"
| "first_free (Some x # xs) = map_option Suc (first_free xs)"

lemma first_free_Some:
  "first_free xs = Some i \<Longrightarrow> i < length xs \<and> xs ! i = None"
  by (induction xs arbitrary: i rule: first_free.induct) auto

lemma first_free_None: "first_free xs = None \<longleftrightarrow> None \<notin> set xs"
  by (induction xs rule: first_free.induct) auto

lemma first_free_least:
  "first_free xs = Some i \<Longrightarrow> j < i \<Longrightarrow> xs ! j \<noteq> None"
proof (induction xs arbitrary: i j rule: first_free.induct)
  case (3 x xs)
  then show ?case by (cases j) auto
qed auto

text \<open>How many entries of a slot array are in use.\<close>

definition used_slots :: "'a option list \<Rightarrow> nat" where
  "used_slots xs = length (filter (\<lambda>x. x \<noteq> None) xs)"

lemma used_slots_le: "used_slots xs \<le> length xs"
  by (simp add: used_slots_def)

lemma used_slots_full: "used_slots xs = length xs \<Longrightarrow> None \<notin> set xs"
  unfolding used_slots_def by (metis (mono_tags, lifting) length_filter_less less_irrefl)

lemma used_slots_all: "None \<notin> set xs \<Longrightarrow> used_slots xs = length xs"
proof -
  assume "None \<notin> set xs"
  then have "filter (\<lambda>x. x \<noteq> None) xs = xs" by (intro filter_True ballI) metis
  then show ?thesis by (simp add: used_slots_def)
qed

lemma used_slots_Nil [simp]: "used_slots [] = 0"
  by (simp add: used_slots_def)

lemma used_slots_Cons [simp]:
  "used_slots (x # xs) = (if x = None then used_slots xs else Suc (used_slots xs))"
  by (simp add: used_slots_def)

lemma used_slots_fill:
  "i < length xs \<Longrightarrow> xs ! i = None \<Longrightarrow> used_slots (xs[i := Some y]) = Suc (used_slots xs)"
proof (induction xs arbitrary: i)
  case (Cons x xs)
  then show ?case by (cases i) auto
qed simp

lemma used_slots_clear:
  "i < length xs \<Longrightarrow> xs ! i \<noteq> None \<Longrightarrow> Suc (used_slots (xs[i := None])) = used_slots xs"
proof (induction xs arbitrary: i)
  case (Cons x xs)
  then show ?case by (cases i) auto
qed simp

lemma used_slots_replace:
  "i < length xs \<Longrightarrow> xs ! i \<noteq> None \<Longrightarrow> used_slots (xs[i := Some y]) = used_slots xs"
proof (induction xs arbitrary: i)
  case (Cons x xs)
  then show ?case by (cases i) auto
qed simp

lemma used_slots_0: "used_slots xs = 0 \<longleftrightarrow> (\<forall>x \<in> set xs. x = None)"
  by (simp add: used_slots_def filter_empty_conv)

section \<open>Tables of slots\<close>

text \<open>The contract of a table that is searched by key: the plugin's registry and the viewer's
  table of windows are two of them.\<close>

definition keys_unique :: "('e \<Rightarrow> 'k) \<Rightarrow> 'e option list \<Rightarrow> bool" where
  "keys_unique key xs \<longleftrightarrow> (\<forall>i j e e'. i < length xs \<longrightarrow> j < length xs \<longrightarrow> xs ! i = Some e \<longrightarrow>
     xs ! j = Some e' \<longrightarrow> key e = key e' \<longrightarrow> i = j)"

lemma keys_uniqueD:
  "keys_unique key xs \<Longrightarrow> i < length xs \<Longrightarrow> j < length xs \<Longrightarrow> xs ! i = Some e \<Longrightarrow>
     xs ! j = Some e' \<Longrightarrow> key e = key e' \<Longrightarrow> i = j"
  unfolding keys_unique_def by blast

lemma nth_clear_Some: "xs[i := None] ! j = Some e \<Longrightarrow> j < length xs \<Longrightarrow> j \<noteq> i \<and> xs ! j = Some e"
  by (cases "j = i") auto

lemma keys_unique_clear:
  assumes "keys_unique key xs"
  shows "keys_unique key (xs[i := None])"
  unfolding keys_unique_def
proof (intro allI impI)
  fix j k a b
  assume *: "j < length (xs[i := None])" "k < length (xs[i := None])"
    "xs[i := None] ! j = Some a" "xs[i := None] ! k = Some b" "key a = key b"
  then have "xs ! j = Some a" "xs ! k = Some b" using nth_clear_Some by fastforce+
  then show "j = k" using keys_uniqueD [OF assms, of j k a b] * by simp
qed

locale slot_table =
  fixes key :: "'e \<Rightarrow> 'k" and lookup :: "'e option list \<Rightarrow> 'k \<Rightarrow> nat option"
  assumes hit: "lookup xs k = Some i \<Longrightarrow> i < length xs \<and> (\<exists>e. xs ! i = Some e \<and> key e = k)"
    and miss: "lookup xs k = None \<longleftrightarrow> (\<forall>e. Some e \<in> set xs \<longrightarrow> key e \<noteq> k)"
begin

lemma miss_nth: "lookup xs k = None \<longleftrightarrow> (\<forall>i e. i < length xs \<longrightarrow> xs ! i = Some e \<longrightarrow> key e \<noteq> k)"
  unfolding miss by (metis in_set_conv_nth)

text \<open>With unique keys the search finds the entry, wherever it is.\<close>

lemma lookup_entry:
  assumes "keys_unique key xs" "i < length xs" "xs ! i = Some e"
  shows "lookup xs (key e) = Some i"
proof (cases "lookup xs (key e)")
  case None
  then show ?thesis using assms(2,3) miss_nth by blast
next
  case (Some j)
  then obtain e' where "j < length xs" "xs ! j = Some e'" "key e' = key e" using hit by blast
  then show ?thesis using Some keys_uniqueD [OF assms(1)] assms(2,3) by metis
qed

lemma unique_insert:
  assumes "keys_unique key xs" "lookup xs (key e) = None"
  shows "keys_unique key (xs[i := Some e])"
proof -
  have fresh: "key e' \<noteq> key e" if "j < length xs" "xs ! j = Some e'" for j e'
    using that assms(2) miss_nth by blast
  show ?thesis
    unfolding keys_unique_def
  proof (intro allI impI)
    fix j k a b
    assume "j < length (xs[i := Some e])" "k < length (xs[i := Some e])"
      "xs[i := Some e] ! j = Some a" "xs[i := Some e] ! k = Some b" "key a = key b"
    then show "j = k"
      using fresh keys_uniqueD [OF assms(1)]
      by (cases "j = i"; cases "k = i") (auto dest: fresh)
  qed
qed

text \<open>After an insertion the new key is found at its slot, and every other search is
  unchanged; after a removal the key is gone.\<close>

lemma lookup_insert:
  assumes "keys_unique key xs" "lookup xs (key e) = None" "i < length xs"
  shows "lookup (xs[i := Some e]) (key e) = Some i"
  using lookup_entry [OF unique_insert [OF assms(1,2)], of i i e] assms(3) by simp

lemma lookup_insert_other:
  assumes "keys_unique key xs" "lookup xs (key e) = None" "i < length xs" "xs ! i = None"
    and "k \<noteq> key e"
  shows "lookup (xs[i := Some e]) k = lookup xs k"
proof (cases "lookup xs k")
  case None
  then have "lookup (xs[i := Some e]) k = None"
    using assms(3,5) unfolding miss_nth by (metis length_list_update nth_list_update option.inject)
  then show ?thesis using None by simp
next
  case (Some j)
  then obtain e' where e': "j < length xs" "xs ! j = Some e'" "key e' = k" using hit by blast
  then have "xs[i := Some e] ! j = Some e'" using assms(4) by (metis nth_list_update_neq option.distinct(1))
  then show ?thesis
    using lookup_entry [OF unique_insert [OF assms(1,2)], of j i e'] e' Some by simp
qed

lemma lookup_remove:
  assumes "keys_unique key xs" "i < length xs" "xs ! i = Some e"
  shows "lookup (xs[i := None]) (key e) = None"
  unfolding miss_nth
proof (intro allI impI notI)
  fix j e'
  assume *: "j < length (xs[i := None])" "xs[i := None] ! j = Some e'" "key e' = key e"
  then have "j \<noteq> i" "xs ! j = Some e'" using nth_clear_Some by fastforce+
  then show False using keys_uniqueD [OF assms(1), of j i e' e] assms(2,3) * by simp
qed

end

end
