(* ===== verification/CFloat.thy ===== *)
theory CFloat
  imports Prelude "HOL-Library.Log_Nat"
begin

text \<open>
  The floating-point values of the C code. A value of \<open>float\<close> or \<open>double\<close> is a finite
  rational, an infinity or a NaN; the two zeros are one value, which no operation the code
  uses can tell apart. Every arithmetic operation is computed exactly and then rounded to
  nearest, ties to even, in the format of the expression (IEEE 754 binary32 or binary64,
  gradual underflow and overflow to infinity included), so absorption
  (\<open>x + 2 = x\<close> for a large \<open>x\<close>) and underflow are visible to the theorems.
  A conversion whose result C leaves undefined returns \<^const>\<open>None\<close>.
\<close>

section \<open>Values and comparisons\<close>

datatype cfloat = Fin rat | PInf | NInf | NaN

fun isfinite :: "cfloat \<Rightarrow> bool" where
  "isfinite (Fin q) = True"
| "isfinite _ = False"

fun isnan :: "cfloat \<Rightarrow> bool" where
  "isnan NaN = True"
| "isnan _ = False"

text \<open>C's \<open><\<close> and \<open><=\<close>: false as soon as an operand is a NaN.\<close>

instantiation cfloat :: ord
begin

fun less_cfloat :: "cfloat \<Rightarrow> cfloat \<Rightarrow> bool" where
  "less_cfloat (Fin a) (Fin b) = (a < b)"
| "less_cfloat (Fin a) PInf = True"
| "less_cfloat NInf (Fin b) = True"
| "less_cfloat NInf PInf = True"
| "less_cfloat _ _ = False"

definition less_eq_cfloat :: "cfloat \<Rightarrow> cfloat \<Rightarrow> bool" where
  "less_eq_cfloat x y \<longleftrightarrow> x < y \<or> x = y \<and> x \<noteq> NaN"

instance ..

end

text \<open>C's \<open>==\<close>.\<close>

definition feq :: "cfloat \<Rightarrow> cfloat \<Rightarrow> bool" where
  "feq x y \<longleftrightarrow> x = y \<and> x \<noteq> NaN"

lemma less_eq_Fin [simp]: "Fin a \<le> Fin b \<longleftrightarrow> a \<le> b"
  by (auto simp: less_eq_cfloat_def)

lemma feq_Fin [simp]: "feq (Fin a) (Fin b) \<longleftrightarrow> a = b"
  by (simp add: feq_def)

lemma isfinite_cases: "isfinite x \<longleftrightarrow> (\<exists>q. x = Fin q)"
  by (cases x) auto

lemma isfinite_between: "Fin a \<le> x \<Longrightarrow> x \<le> Fin b \<Longrightarrow> isfinite x"
  by (cases x) (auto simp: less_eq_cfloat_def)

section \<open>Formats and rounding\<close>

text \<open>\<open>prec\<close> significant bits, least exponent \<open>emin\<close> of the last place, and
  \<open>emax\<close> the exponent of the largest finite value.\<close>

record fformat =
  prec :: nat
  emin :: int
  emax :: int

definition f32 :: fformat where
  "f32 = \<lparr>prec = 24, emin = - 149, emax = 127\<rparr>"

definition f64 :: fformat where
  "f64 = \<lparr>prec = 53, emin = - 1074, emax = 1023\<rparr>"

definition max_finite :: "fformat \<Rightarrow> rat" where
  "max_finite fmt = of_int (2 ^ prec fmt - 1) * 2 powi (emax fmt - int (prec fmt) + 1)"

text \<open>The exponent of a positive rational: \<open>2 powi e \<le> q < 2 powi (e + 1)\<close>.\<close>

definition ilog2 :: "rat \<Rightarrow> int" where
  "ilog2 q =
     (let (n, d) = quotient_of q;
          k = int (floorlog 2 (nat n)) - int (floorlog 2 (nat d))
      in if 2 powi k \<le> q then k else k - 1)"

text \<open>Round to an integer, ties to even.\<close>

definition round_even :: "rat \<Rightarrow> int" where
  "round_even x =
     (let f = \<lfloor>x\<rfloor>; r = x - of_int f
      in if r < 1 / 2 then f else if r > 1 / 2 then f + 1 else if even f then f else f + 1)"

definition ulp_exp :: "fformat \<Rightarrow> rat \<Rightarrow> int" where
  "ulp_exp fmt q = max (emin fmt) (ilog2 \<bar>q\<bar> - int (prec fmt) + 1)"

definition round_rat :: "fformat \<Rightarrow> rat \<Rightarrow> rat" where
  "round_rat fmt q =
     (if q = 0 then 0
      else of_int (round_even (q / 2 powi ulp_exp fmt q)) * 2 powi ulp_exp fmt q)"

definition fround :: "fformat \<Rightarrow> rat \<Rightarrow> cfloat" where
  "fround fmt q =
     (let r = round_rat fmt q
      in if max_finite fmt < r then PInf else if r < - max_finite fmt then NInf else Fin r)"

definition FLT_MAX :: cfloat where
  "FLT_MAX = Fin (max_finite f32)"

section \<open>Conversions\<close>

text \<open>\<open>(float) x\<close> of a double; the conversion to double is the identity on values.\<close>

fun to_float :: "cfloat \<Rightarrow> cfloat" where
  "to_float (Fin q) = fround f32 q"
| "to_float x = x"

text \<open>\<open>(uint32_t) x\<close> and \<open>(uint64_t) x\<close>: truncation, undefined out of range.\<close>

definition trunc_rat :: "rat \<Rightarrow> int" where
  "trunc_rat q = (if 0 \<le> q then \<lfloor>q\<rfloor> else \<lceil>q\<rceil>)"

fun to_u32 :: "cfloat \<Rightarrow> u32 option" where
  "to_u32 (Fin q) = (if - 1 < q \<and> q < 4294967296 then Some (of_int (trunc_rat q)) else None)"
| "to_u32 _ = None"

definition of_u32 :: "fformat \<Rightarrow> u32 \<Rightarrow> cfloat" where
  "of_u32 fmt w = fround fmt (of_nat (unat w))"

section \<open>Arithmetic\<close>

fun fneg :: "cfloat \<Rightarrow> cfloat" where
  "fneg (Fin q) = Fin (- q)"
| "fneg PInf = NInf"
| "fneg NInf = PInf"
| "fneg NaN = NaN"

fun fabsf :: "cfloat \<Rightarrow> cfloat" where
  "fabsf (Fin q) = Fin \<bar>q\<bar>"
| "fabsf NaN = NaN"
| "fabsf _ = PInf"

fun fadd :: "fformat \<Rightarrow> cfloat \<Rightarrow> cfloat \<Rightarrow> cfloat" where
  "fadd fmt (Fin a) (Fin b) = fround fmt (a + b)"
| "fadd fmt NaN _ = NaN"
| "fadd fmt _ NaN = NaN"
| "fadd fmt PInf NInf = NaN"
| "fadd fmt NInf PInf = NaN"
| "fadd fmt PInf _ = PInf"
| "fadd fmt NInf _ = NInf"
| "fadd fmt _ PInf = PInf"
| "fadd fmt _ NInf = NInf"

definition fsub :: "fformat \<Rightarrow> cfloat \<Rightarrow> cfloat \<Rightarrow> cfloat" where
  "fsub fmt x y = fadd fmt x (fneg y)"

text \<open>The infinity of the sign of a non-zero rational; \<open>0 * inf\<close> is a NaN.\<close>

definition inf_signed :: "rat \<Rightarrow> cfloat" where
  "inf_signed s = (if 0 < s then PInf else if s < 0 then NInf else NaN)"

fun fsign :: "cfloat \<Rightarrow> rat" where
  "fsign (Fin q) = sgn q"
| "fsign PInf = 1"
| "fsign NInf = - 1"
| "fsign NaN = 0"

fun fmul :: "fformat \<Rightarrow> cfloat \<Rightarrow> cfloat \<Rightarrow> cfloat" where
  "fmul fmt (Fin a) (Fin b) = fround fmt (a * b)"
| "fmul fmt x y = inf_signed (fsign x * fsign y)"

text \<open>Division; the divisors of the code are never a negative zero.\<close>

fun fdiv :: "fformat \<Rightarrow> cfloat \<Rightarrow> cfloat \<Rightarrow> cfloat" where
  "fdiv fmt (Fin a) (Fin b) = (if b = 0 then inf_signed (sgn a) else fround fmt (a / b))"
| "fdiv fmt x (Fin b) = inf_signed (fsign x * (if b < 0 then - 1 else 1))"
| "fdiv fmt (Fin a) y = (if y = NaN then NaN else Fin 0)"
| "fdiv fmt _ _ = NaN"

text \<open>\<open>ceil\<close> and \<open>floor\<close> are exact.\<close>

fun fceil :: "cfloat \<Rightarrow> cfloat" where
  "fceil (Fin q) = Fin (of_int \<lceil>q\<rceil>)"
| "fceil x = x"

fun ffloor :: "cfloat \<Rightarrow> cfloat" where
  "ffloor (Fin q) = Fin (of_int \<lfloor>q\<rfloor>)"
| "ffloor x = x"

text \<open>\<open>fmin\<close> and \<open>fmax\<close> prefer the operand that is a number.\<close>

definition fmin :: "cfloat \<Rightarrow> cfloat \<Rightarrow> cfloat" where
  "fmin x y = (if isnan x then y else if isnan y then x else if y < x then y else x)"

definition fmax :: "cfloat \<Rightarrow> cfloat \<Rightarrow> cfloat" where
  "fmax x y = (if isnan x then y else if isnan y then x else if x < y then y else x)"

section \<open>Rounding: facts\<close>

lemma floorlog2_bounds:
  "0 < n \<Longrightarrow> 2 powi (int (floorlog 2 (nat n)) - 1) \<le> (of_int n :: rat)
     \<and> (of_int n :: rat) < 2 powi int (floorlog 2 (nat n))"
proof -
  assume n: "0 < n"
  then have "floorlog 2 (nat n) > 0" by (simp add: floorlog_def)
  then obtain k where k: "floorlog 2 (nat n) = Suc k" by (cases "floorlog 2 (nat n)") auto
  have "2 ^ k \<le> nat n" and "nat n < 2 ^ Suc k"
    using floorlog_bounds [of "nat n" 2] n k by auto
  then have "2 ^ k \<le> n" and "n < 2 ^ Suc k"
    using n by (simp_all add: nat_less_iff le_nat_iff del: power_Suc)
  then have "(of_int (2 ^ k) :: rat) \<le> of_int n" and "(of_int n :: rat) < of_int (2 ^ Suc k)"
    by (simp_all only: of_int_le_iff of_int_less_iff)
  then show ?thesis using k by (simp add: power_int_def nat_add_distrib)
qed

lemma ilog2_bounds:
  assumes "0 < q"
  shows "2 powi ilog2 q \<le> q \<and> q < 2 powi (ilog2 q + 1)"
proof -
  obtain n d where nd: "quotient_of q = (n, d)" by (cases "quotient_of q")
  have d: "0 < d" using nd by (rule quotient_of_denom_pos)
  have q: "q = of_int n / of_int d" using nd by (rule quotient_of_div)
  have n: "0 < n" using assms d by (simp add: q zero_less_divide_iff)
  let ?a = "int (floorlog 2 (nat n))" and ?b = "int (floorlog 2 (nat d))"
  note bn = floorlog2_bounds [OF n] and bd = floorlog2_bounds [OF d]
  have "(2 :: rat) powi (?a - 1) / 2 powi ?b \<le> q"
    unfolding q using bn bd d n by (intro frac_le) (simp_all add: less_imp_le del: of_int_less_iff)
  moreover have "(2 :: rat) powi (?a - 1) / 2 powi ?b = 2 powi (?a - 1 - ?b)"
    by (rule power_int_diff [symmetric]) simp
  ultimately have lo: "2 powi (?a - 1 - ?b) \<le> q" by (simp only:)
  have "q < (2 :: rat) powi ?a / 2 powi (?b - 1)"
    unfolding q using bn bd n by (intro frac_less) auto
  moreover have "(2 :: rat) powi ?a / 2 powi (?b - 1) = 2 powi (?a - (?b - 1))"
    by (rule power_int_diff [symmetric]) simp
  ultimately have hi: "q < 2 powi (?a - (?b - 1))" by (simp only:)
  have e: "?a - 1 - ?b = ?a - ?b - 1" "?a - (?b - 1) = ?a - ?b + 1" by auto
  show ?thesis using lo hi unfolding e by (auto simp: ilog2_def nd Let_def)
qed

lemma ilog2_less: "0 < q \<Longrightarrow> q < 2 powi e \<Longrightarrow> ilog2 q < e"
  using ilog2_bounds [of q] power_int_increasing [of e "ilog2 q" "2::rat"] by force

lemma ilog2_mono: "0 < q \<Longrightarrow> q \<le> r \<Longrightarrow> ilog2 q \<le> ilog2 r"
  using ilog2_less [of q "ilog2 r + 1"] ilog2_bounds [of r] by force

lemma round_even_of_int [simp]: "round_even (of_int n) = n"
  by (simp add: round_even_def)

lemma round_even_0 [simp]: "round_even 0 = 0"
  by (simp add: round_even_def)

lemma round_even_mono:
  assumes "x \<le> y" shows "round_even x \<le> round_even y"
proof (cases "\<lfloor>x\<rfloor> = \<lfloor>y\<rfloor>")
  case True
  then show ?thesis using assms by (auto simp: round_even_def Let_def)
next
  case False
  then have "\<lfloor>x\<rfloor> + 1 \<le> \<lfloor>y\<rfloor>" using floor_mono [OF assms] by linarith
  moreover have "round_even x \<le> \<lfloor>x\<rfloor> + 1" and "\<lfloor>y\<rfloor> \<le> round_even y"
    by (auto simp: round_even_def Let_def)
  ultimately show ?thesis by linarith
qed

lemma round_even_minus: "round_even (- x) = - round_even x"
proof (cases "x = of_int \<lfloor>x\<rfloor>")
  case True
  then show ?thesis by (metis of_int_minus round_even_of_int)
next
  case False
  then have "\<lfloor>- x\<rfloor> = - \<lfloor>x\<rfloor> - 1" by linarith
  then show ?thesis by (auto simp: round_even_def Let_def)
qed

lemma round_rat_0 [simp]: "round_rat fmt 0 = 0"
  by (simp add: round_rat_def)

lemma round_rat_minus: "round_rat fmt (- q) = - round_rat fmt q"
  by (simp add: round_rat_def ulp_exp_def round_even_minus)

lemma round_rat_mono_pos:
  assumes q: "0 < q" and le: "q \<le> r" and p: "0 < prec fmt"
  shows "round_rat fmt q \<le> round_rat fmt r"
proof -
  let ?u = "ulp_exp fmt q" and ?v = "ulp_exp fmt r" and ?p = "int (prec fmt)"
  have uv: "?u \<le> ?v" using ilog2_mono [OF q le] q le by (simp add: ulp_exp_def)
  show ?thesis
  proof (cases "?u = ?v")
    case True
    have "round_even (q / 2 powi ?v) \<le> round_even (r / 2 powi ?v)"
      using le by (intro round_even_mono divide_right_mono) auto
    then show ?thesis using q le True by (simp add: round_rat_def mult_right_mono)
  next
    case False
    have v: "?v = ilog2 r - ?p + 1" using False uv q le by (auto simp: ulp_exp_def max_def split: if_splits)
    have ub: "ilog2 q + 1 \<le> ?u + ?p" using q by (simp add: ulp_exp_def)
    have "q < 2 powi (ilog2 q + 1)" using ilog2_bounds [OF q] by simp
    also have "\<dots> \<le> 2 powi (?u + ?p)" using ub by (intro power_int_increasing) auto
    finally have "q / 2 powi ?u \<le> 2 powi ?p" by (simp add: field_simps power_int_add)
    then have "q / 2 powi ?u \<le> of_int (2 ^ prec fmt)" by (simp add: power_int_def)
    from round_even_mono [OF this] have "round_even (q / 2 powi ?u) \<le> 2 ^ prec fmt"
      by (simp only: round_even_of_int)
    then have "(of_int (round_even (q / 2 powi ?u)) :: rat) \<le> of_int (2 ^ prec fmt)"
      by (simp only: of_int_le_iff)
    then have "(of_int (round_even (q / 2 powi ?u)) :: rat) \<le> 2 powi ?p"
      by (simp add: power_int_def)
    then have "round_rat fmt q \<le> 2 powi ?p * 2 powi ?u"
      using q by (simp add: round_rat_def mult_right_mono)
    also have "\<dots> = 2 powi (?p + ?u)" by (simp add: power_int_add)
    also have "\<dots> \<le> 2 powi (?v + ?p - 1)" using False uv by (intro power_int_increasing) auto
    also have "\<dots> = 2 powi (?p - 1) * 2 powi ?v"
      by (simp add: power_int_add [symmetric] algebra_simps)
    also have "\<dots> \<le> round_rat fmt r"
    proof -
      have "2 powi ilog2 r \<le> r" using ilog2_bounds [of r] q le by simp
      then have "2 powi (?p - 1) \<le> r / 2 powi ?v"
        by (simp add: v field_simps power_int_add [symmetric])
      then have "of_int (2 ^ (prec fmt - 1)) \<le> r / 2 powi ?v"
        using p by (simp add: power_int_def nat_diff_distrib)
      from round_even_mono [OF this] have "2 ^ (prec fmt - 1) \<le> round_even (r / 2 powi ?v)"
        by (simp only: round_even_of_int)
      then have "(of_int (2 ^ (prec fmt - 1)) :: rat) \<le> of_int (round_even (r / 2 powi ?v))"
        by (simp only: of_int_le_iff)
      then have "2 powi (?p - 1) \<le> (of_int (round_even (r / 2 powi ?v)) :: rat)"
        using p by (simp add: power_int_def nat_diff_distrib)
      then show ?thesis using q le by (simp add: round_rat_def mult_right_mono)
    qed
    finally show ?thesis .
  qed
qed

lemma round_rat_nonneg: "0 \<le> q \<Longrightarrow> 0 \<le> round_rat fmt q"
proof -
  assume "0 \<le> q"
  then have "0 \<le> round_even (q / 2 powi ulp_exp fmt q)"
    using round_even_mono [of 0 "q / 2 powi ulp_exp fmt q"] by simp
  then show ?thesis by (simp add: round_rat_def)
qed

lemma round_rat_mono:
  assumes le: "q \<le> r" and p: "0 < prec fmt"
  shows "round_rat fmt q \<le> round_rat fmt r"
proof -
  consider "0 < q" | "q \<le> 0" "0 \<le> r" | "r < 0" using le by linarith
  then show ?thesis
  proof cases
    case 1 then show ?thesis using le p by (rule round_rat_mono_pos)
  next
    case 2
    then have "0 \<le> round_rat fmt (- q)" and "0 \<le> round_rat fmt r"
      by (auto intro: round_rat_nonneg)
    then show ?thesis by (simp add: round_rat_minus)
  next
    case 3
    then have "round_rat fmt (- r) \<le> round_rat fmt (- q)"
      using le p by (intro round_rat_mono_pos) auto
    then show ?thesis by (simp add: round_rat_minus)
  qed
qed

text \<open>A value of the format is its own rounding.\<close>

lemma round_rat_representable:
  assumes m: "\<bar>m\<bar> < 2 ^ prec fmt" and e: "emin fmt \<le> e"
  shows "round_rat fmt (of_int m * 2 powi e) = of_int m * 2 powi e"
proof (cases "m = 0")
  case False
  let ?q = "of_int m * 2 powi e :: rat"
  have pos: "0 < \<bar>?q\<bar>" using False by simp
  have "\<bar>?q\<bar> = of_int \<bar>m\<bar> * 2 powi e" by (simp add: abs_mult)
  also have "(of_int \<bar>m\<bar> :: rat) < of_int (2 ^ prec fmt)" using m by (simp only: of_int_less_iff)
  then have "(of_int \<bar>m\<bar> :: rat) * 2 powi e < 2 powi int (prec fmt) * 2 powi e"
    by (intro mult_strict_right_mono) (auto simp: power_int_def)
  finally have "\<bar>?q\<bar> < 2 powi (int (prec fmt) + e)" by (simp add: power_int_add)
  then have "ilog2 \<bar>?q\<bar> < int (prec fmt) + e" by (rule ilog2_less [OF pos])
  then have u: "ulp_exp fmt ?q \<le> e" using e by (simp add: ulp_exp_def)
  let ?u = "ulp_exp fmt ?q"
  have "?q / 2 powi ?u = of_int m * 2 powi (e - ?u)" by (simp add: power_int_diff)
  also have "\<dots> = of_int (m * 2 ^ nat (e - ?u))" using u by (simp add: power_int_def)
  finally have int: "?q / 2 powi ?u = of_int (m * 2 ^ nat (e - ?u))" .
  have "of_int (round_even (?q / 2 powi ?u)) * 2 powi ?u = ?q / 2 powi ?u * 2 powi ?u"
    unfolding int round_even_of_int ..
  then show ?thesis using pos by (simp add: round_rat_def)
qed simp

lemma round_rat_max_finite:
  assumes "emin fmt \<le> emax fmt - int (prec fmt) + 1"
  shows "round_rat fmt (max_finite fmt) = max_finite fmt"
  unfolding max_finite_def using assms by (intro round_rat_representable) auto

lemma f32_simps [simp]: "prec f32 = 24" "emin f32 = - 149" "emax f32 = 127"
  by (simp_all add: f32_def)

lemma f64_simps [simp]: "prec f64 = 53" "emin f64 = - 1074" "emax f64 = 1023"
  by (simp_all add: f64_def)

lemma max_finite_f32_pos: "0 < max_finite f32"
  by (simp add: max_finite_def)

text \<open>Converting a value that lies in the finite range of \<open>float\<close> gives a finite
  \<open>float\<close>, and the conversion keeps the order.\<close>

lemma fround_f32_finite:
  assumes "\<bar>q\<bar> \<le> max_finite f32"
  shows "fround f32 q = Fin (round_rat f32 q)" "\<bar>round_rat f32 q\<bar> \<le> max_finite f32"
proof -
  have "round_rat f32 q \<le> round_rat f32 (max_finite f32)"
    and "round_rat f32 (- max_finite f32) \<le> round_rat f32 q"
    using assms by (auto intro: round_rat_mono)
  then have "round_rat f32 q \<le> max_finite f32" and "- max_finite f32 \<le> round_rat f32 q"
    by (simp_all add: round_rat_minus round_rat_max_finite)
  then show "fround f32 q = Fin (round_rat f32 q)" "\<bar>round_rat f32 q\<bar> \<le> max_finite f32"
    by (auto simp: fround_def Let_def)
qed

lemma fround_f32_int:
  assumes "\<bar>m\<bar> < 16777216"
  shows "fround f32 (of_int m) = Fin (of_int m)"
proof -
  have r: "round_rat f32 (of_int m) = of_int m"
    using round_rat_representable [of m f32 0] assms by simp
  have "(of_int \<bar>m\<bar> :: rat) \<le> of_int 16777215" using assms by (simp only: of_int_le_iff)
  also have "\<dots> \<le> max_finite f32" by (simp add: max_finite_def power_int_def)
  finally have "\<bar>of_int m\<bar> \<le> max_finite f32" by simp
  then show ?thesis using r by (simp add: fround_f32_finite)
qed

lemma to_float_numeral [simp]:
  "numeral n < (16777216 :: int) \<Longrightarrow> to_float (Fin (numeral n)) = Fin (numeral n)"
  "numeral n < (16777216 :: int) \<Longrightarrow> to_float (Fin (- numeral n)) = Fin (- numeral n)"
  "to_float (Fin 0) = Fin 0" "to_float (Fin 1) = Fin 1" "to_float (Fin (- 1)) = Fin (- 1)"
  using fround_f32_int [of "numeral n"] fround_f32_int [of "- numeral n"]
    fround_f32_int [of 0] fround_f32_int [of 1] fround_f32_int [of "-1"] by simp_all

end
