(* ===== verification/Protocol.thy ===== *)
theory Protocol
  imports CFloat
begin

text \<open>
  The wire protocol of \<^verbatim>\<open>src/src/watch_protocol.h\<close>, shared by the plugin and the viewer:
  limits, message types, the message structures with their fields at the width the header
  gives them, and the byte layout (\<^verbatim>\<open>offsetof\<close> and \<^verbatim>\<open>sizeof\<close>) the packet lengths
  are computed from.

  A C union is a record with one field per member, so that a packet can be read through any
  of them: the header says which one is meant, and nothing relates the others. A fixed array
  of a structure is a list; a packet that was cut to its payload when it was sent has
  the shorter lists \<open>datagram\<close> gives it.
\<close>

unbundle bit_operations_syntax

section \<open>Limits and codes\<close>

abbreviation MAX_STREAM_SAMPLES :: "'a::numeral" where "MAX_STREAM_SAMPLES \<equiv> 256"
abbreviation MAX_POINT_SAMPLES :: "'a::numeral" where "MAX_POINT_SAMPLES \<equiv> 128"
abbreviation MAX_SPECTRAL_BINS :: "'a::numeral" where "MAX_SPECTRAL_BINS \<equiv> 256"
abbreviation MAX_STREAMS :: "'a::numeral" where "MAX_STREAMS \<equiv> 64"
abbreviation MAX_METER_CHANNELS :: "'a::numeral" where "MAX_METER_CHANNELS \<equiv> 32"
abbreviation MAX_TITLE_SIZE :: "'a::numeral" where "MAX_TITLE_SIZE \<equiv> 384"
abbreviation MAX_FTABLE_SAMPLES :: "'a::numeral" where "MAX_FTABLE_SAMPLES \<equiv> 1073741824"
abbreviation MAX_GRID_TICKS :: "'a::numeral" where "MAX_GRID_TICKS \<equiv> 256"
abbreviation WATCH_VIEWER_REFRESH_HZ :: "'a::numeral" where "WATCH_VIEWER_REFRESH_HZ \<equiv> 60"
abbreviation PROT_VERSION :: u16 where "PROT_VERSION \<equiv> 6"
abbreviation WATCH_MAGIC :: u32 where "WATCH_MAGIC \<equiv> 0x57415448"

abbreviation WATCH_DOMAIN_OSCILLOSCOPE :: u32 where "WATCH_DOMAIN_OSCILLOSCOPE \<equiv> 0"
abbreviation WATCH_DOMAIN_SPECTRUM :: u32 where "WATCH_DOMAIN_SPECTRUM \<equiv> 1"
abbreviation WATCH_DOMAIN_CONTROL :: u32 where "WATCH_DOMAIN_CONTROL \<equiv> 2"
abbreviation WATCH_DOMAIN_SPECTROGRAM :: u32 where "WATCH_DOMAIN_SPECTROGRAM \<equiv> 3"
abbreviation WATCH_DOMAIN_FTABLE :: u32 where "WATCH_DOMAIN_FTABLE \<equiv> 4"
abbreviation WATCH_DOMAIN_POINT :: u32 where "WATCH_DOMAIN_POINT \<equiv> 5"
abbreviation WATCH_DOMAIN_METER :: u32 where "WATCH_DOMAIN_METER \<equiv> 6"

abbreviation WATCH_SPECTRAL_POWER :: u32 where "WATCH_SPECTRAL_POWER \<equiv> 0"

abbreviation WATCH_SCALE_LINEAR_GAIN :: u32 where "WATCH_SCALE_LINEAR_GAIN \<equiv> 0"
abbreviation WATCH_SCALE_LINEAR_POWER :: u32 where "WATCH_SCALE_LINEAR_POWER \<equiv> 1"
abbreviation WATCH_SCALE_DECIBEL :: u32 where "WATCH_SCALE_DECIBEL \<equiv> 2"

abbreviation WATCH_THEME_LIGHT :: u32 where "WATCH_THEME_LIGHT \<equiv> 0"
abbreviation WATCH_THEME_DARK :: u32 where "WATCH_THEME_DARK \<equiv> 1"

text \<open>\<open>MSG_TYPE\<close>; the header carries its code in sixteen bits.\<close>

datatype MSG_TYPE = CONFIG | DATA | ACK | SPECTRAL_DATA | SESSION_CLOSE | FTABLE_DATA
  | POINT_DATA | METER_DATA | GRAPH_CLOSE

primrec msg_code :: "MSG_TYPE \<Rightarrow> u16" where
  "msg_code CONFIG = 0"
| "msg_code DATA = 1"
| "msg_code ACK = 2"
| "msg_code SPECTRAL_DATA = 3"
| "msg_code SESSION_CLOSE = 4"
| "msg_code FTABLE_DATA = 5"
| "msg_code POINT_DATA = 6"
| "msg_code METER_DATA = 7"
| "msg_code GRAPH_CLOSE = 8"

section \<open>Messages\<close>

record WATCH_MSG_HEADER =
  magic :: u32
  version :: u16
  msg_type :: u16
  sequence :: int
  payload_size :: u32

record WATCH_MSG_DATA =
  data_graph_id :: u32
  data_stream_id :: u32
  data_sample_rate :: cfloat
  sample_count :: u32
  samples :: "cfloat list"

record WATCH_MSG_SPECTRAL_DATA =
  spec_graph_id :: u32
  spec_stream_id :: u32
  frame_id :: u32
  fft_size :: u32
  hop_size :: u32
  spec_sample_rate :: u32
  spec_format :: u32
  bin_offset :: u32
  bin_count :: u32
  total_bins :: u32
  bins :: "cfloat list"

record WATCH_MSG_FTABLE_DATA =
  ft_graph_id :: u32
  ft_stream_id :: u32
  transfer_id :: u32
  sample_offset :: u32
  ft_sample_count :: u32
  total_samples :: u32
  ft_samples :: "cfloat list"

record WATCH_MSG_METER_DATA =
  meter_graph_id :: u32
  meter_stream_id :: u32
  channel_count :: u32
  levels :: "cfloat list"

record WATCH_RANGE =
  is_min_auto :: int
  is_max_auto :: int
  range_min :: cfloat
  range_max :: cfloat

record WATCH_MSG_TIME_CONFIG =
  win_size :: cfloat
  time_nxticks :: u32
  time_nyticks :: u32
  time_yrange :: WATCH_RANGE

record WATCH_MSG_SPECTRAL_CONFIG =
  history_seconds :: cfloat
  spec_nxticks :: u32
  spec_nyticks :: u32
  spec_scale :: u32
  frequency_range :: WATCH_RANGE
  value_range :: WATCH_RANGE

record WATCH_MSG_FTABLE_CONFIG =
  ft_win_size :: u32
  ft_yrange :: WATCH_RANGE

record WATCH_MSG_POINT_CONFIG =
  point_xrange :: WATCH_RANGE
  point_yrange :: WATCH_RANGE

record WATCH_MSG_METER_CONFIG =
  nchnls :: u32
  meter_nyticks :: u32
  meter_scale :: u32
  meter_yrange :: WATCH_RANGE

record WATCH_MSG_GRAPH_SETTINGS =
  set_time :: WATCH_MSG_TIME_CONFIG
  set_spectral :: WATCH_MSG_SPECTRAL_CONFIG
  set_ftable :: WATCH_MSG_FTABLE_CONFIG
  set_point :: WATCH_MSG_POINT_CONFIG
  set_meter :: WATCH_MSG_METER_CONFIG

record WATCH_MSG_CONFIG =
  graph_id :: u32
  domain :: u32
  title :: "char list"
  settings :: WATCH_MSG_GRAPH_SETTINGS
  theme :: u32

record WATCH_MSG_CONFIG_ACK =
  ack_graph_id :: u32

record WATCH_MSG_SESSION_CLOSE =
  reserved :: u32

record WATCH_MSG_GRAPH_CLOSE =
  close_graph_id :: u32

section \<open>Packets\<close>

text \<open>A packet is a header and a payload that can be read as any of the messages.\<close>

record packet =
  header :: WATCH_MSG_HEADER
  pk_data :: WATCH_MSG_DATA
  pk_spectral :: WATCH_MSG_SPECTRAL_DATA
  pk_ftable :: WATCH_MSG_FTABLE_DATA
  pk_meter :: WATCH_MSG_METER_DATA
  pk_config :: WATCH_MSG_CONFIG
  pk_ack :: WATCH_MSG_CONFIG_ACK
  pk_close :: WATCH_MSG_SESSION_CLOSE
  pk_graph_close :: WATCH_MSG_GRAPH_CLOSE

text \<open>Zero initialisation (\<^verbatim>\<open>= {0}\<close>, \<^verbatim>\<open>Calloc\<close>).\<close>

definition zero_range :: WATCH_RANGE where
  "zero_range = \<lparr>is_min_auto = 0, is_max_auto = 0, range_min = Fin 0, range_max = Fin 0\<rparr>"

definition zero_settings :: WATCH_MSG_GRAPH_SETTINGS where
  "zero_settings =
     \<lparr>set_time = \<lparr>win_size = Fin 0, time_nxticks = 0, time_nyticks = 0, time_yrange = zero_range\<rparr>,
      set_spectral = \<lparr>history_seconds = Fin 0, spec_nxticks = 0, spec_nyticks = 0, spec_scale = 0,
        frequency_range = zero_range, value_range = zero_range\<rparr>,
      set_ftable = \<lparr>ft_win_size = 0, ft_yrange = zero_range\<rparr>,
      set_point = \<lparr>point_xrange = zero_range, point_yrange = zero_range\<rparr>,
      set_meter = \<lparr>nchnls = 0, meter_nyticks = 0, meter_scale = 0, meter_yrange = zero_range\<rparr>\<rparr>"

definition zero_config :: WATCH_MSG_CONFIG where
  "zero_config = \<lparr>graph_id = 0, domain = 0, title = replicate MAX_TITLE_SIZE (CHR 0x00),
     settings = zero_settings, theme = 0\<rparr>"

definition zero_header :: WATCH_MSG_HEADER where
  "zero_header = \<lparr>magic = 0, version = 0, msg_type = 0, sequence = 0, payload_size = 0\<rparr>"

definition zero_packet :: packet where
  "zero_packet =
     \<lparr>header = zero_header,
      pk_data = \<lparr>data_graph_id = 0, data_stream_id = 0, data_sample_rate = Fin 0,
        sample_count = 0, samples = replicate MAX_STREAM_SAMPLES (Fin 0)\<rparr>,
      pk_spectral = \<lparr>spec_graph_id = 0, spec_stream_id = 0, frame_id = 0, fft_size = 0,
        hop_size = 0, spec_sample_rate = 0, spec_format = 0, bin_offset = 0, bin_count = 0,
        total_bins = 0, bins = replicate MAX_SPECTRAL_BINS (Fin 0)\<rparr>,
      pk_ftable = \<lparr>ft_graph_id = 0, ft_stream_id = 0, transfer_id = 0, sample_offset = 0,
        ft_sample_count = 0, total_samples = 0,
        ft_samples = replicate MAX_STREAM_SAMPLES (Fin 0)\<rparr>,
      pk_meter = \<lparr>meter_graph_id = 0, meter_stream_id = 0, channel_count = 0,
        levels = replicate MAX_METER_CHANNELS (Fin 0)\<rparr>,
      pk_config = zero_config,
      pk_ack = \<lparr>ack_graph_id = 0\<rparr>,
      pk_close = \<lparr>reserved = 0\<rparr>,
      pk_graph_close = \<lparr>close_graph_id = 0\<rparr>\<rparr>"

section \<open>Layout\<close>

text \<open>
  \<open>SIZEOF_HEADER\<close> counts the four bytes of padding that the alignment of the 64-bit
  sequence number adds; it is also the offset of every payload, as the static assertions of
  \<^verbatim>\<open>watch.c\<close> require. The \<open>OFF_\<close> constants are the offsets of the trailing arrays.
\<close>

abbreviation SIZEOF_HEADER :: "'a::numeral" where "SIZEOF_HEADER \<equiv> 24"
abbreviation OFF_SAMPLES :: "'a::numeral" where "OFF_SAMPLES \<equiv> 16"
abbreviation OFF_BINS :: "'a::numeral" where "OFF_BINS \<equiv> 40"
abbreviation OFF_FT_SAMPLES :: "'a::numeral" where "OFF_FT_SAMPLES \<equiv> 24"
abbreviation OFF_LEVELS :: "'a::numeral" where "OFF_LEVELS \<equiv> 12"
abbreviation SIZEOF_DATA :: "'a::numeral" where "SIZEOF_DATA \<equiv> 1040"
abbreviation SIZEOF_SPECTRAL :: "'a::numeral" where "SIZEOF_SPECTRAL \<equiv> 1064"
abbreviation SIZEOF_FTABLE :: "'a::numeral" where "SIZEOF_FTABLE \<equiv> 1048"
abbreviation SIZEOF_METER :: "'a::numeral" where "SIZEOF_METER \<equiv> 140"
abbreviation SIZEOF_CONFIG :: "'a::numeral" where "SIZEOF_CONFIG \<equiv> 444"
abbreviation SIZEOF_ACK :: "'a::numeral" where "SIZEOF_ACK \<equiv> 4"
abbreviation SIZEOF_CLOSE :: "'a::numeral" where "SIZEOF_CLOSE \<equiv> 4"
abbreviation SIZEOF_FLOAT :: "'a::numeral" where "SIZEOF_FLOAT \<equiv> 4"

text \<open>What arrives of a packet of which \<open>n\<close> bytes were sent: the arrays hold only the
  elements those bytes carry.\<close>

definition floats_sent :: "nat \<Rightarrow> nat \<Rightarrow> nat" where
  "floats_sent n off = (n - SIZEOF_HEADER - off) div SIZEOF_FLOAT"

definition datagram :: "packet \<Rightarrow> nat \<Rightarrow> packet" where
  "datagram p n = p\<lparr>
     pk_data := (pk_data p)\<lparr>samples := take (floats_sent n OFF_SAMPLES) (samples (pk_data p))\<rparr>,
     pk_spectral := (pk_spectral p)\<lparr>bins := take (floats_sent n OFF_BINS) (bins (pk_spectral p))\<rparr>,
     pk_ftable := (pk_ftable p)\<lparr>ft_samples :=
       take (floats_sent n OFF_FT_SAMPLES) (ft_samples (pk_ftable p))\<rparr>,
     pk_meter := (pk_meter p)\<lparr>levels := take (floats_sent n OFF_LEVELS) (levels (pk_meter p))\<rparr>\<rparr>"

lemma datagram_header [simp]: "header (datagram p n) = header p"
  by (simp add: datagram_def)

lemma datagram_views [simp]:
  "pk_config (datagram p n) = pk_config p"
  "pk_ack (datagram p n) = pk_ack p"
  "pk_close (datagram p n) = pk_close p"
  "pk_graph_close (datagram p n) = pk_graph_close p"
  by (simp_all add: datagram_def)

lemma zero_packet_simps [simp]:
  "header zero_packet = zero_header"
  "length (samples (pk_data zero_packet)) = MAX_STREAM_SAMPLES"
  "length (bins (pk_spectral zero_packet)) = MAX_SPECTRAL_BINS"
  "length (ft_samples (pk_ftable zero_packet)) = MAX_STREAM_SAMPLES"
  "length (levels (pk_meter zero_packet)) = MAX_METER_CHANNELS"
  "payload_size zero_header = 0" "msg_type zero_header = 0"
  by (simp_all add: zero_packet_def zero_header_def)

text \<open>The codes identify the message types.\<close>

lemma msg_code_inj: "msg_code a = msg_code b \<longleftrightarrow> a = b"
  by (cases a; cases b) simp_all

end
