(* ===== verification/Validate.thy ===== *)
theory Validate
  imports Protocol
begin

text \<open>
  Packet validation in the viewer (\<^verbatim>\<open>src/src/watch_viewer.c\<close>, \<^verbatim>\<open>validate_header\<close> to
  \<^verbatim>\<open>validate_graph_close_packet\<close>): the predicates every received packet passes before a
  handler reads it, and what acceptance guarantees to the handlers. The received length is
  an integer, because a failed receive is negative.
\<close>

section \<open>Domains\<close>

definition is_time_domain :: "u32 \<Rightarrow> bool" where
  "is_time_domain d \<longleftrightarrow> d = WATCH_DOMAIN_OSCILLOSCOPE \<or> d = WATCH_DOMAIN_CONTROL"

definition is_spectral_domain :: "u32 \<Rightarrow> bool" where
  "is_spectral_domain d \<longleftrightarrow> d = WATCH_DOMAIN_SPECTRUM \<or> d = WATCH_DOMAIN_SPECTROGRAM"

definition is_ftable_domain :: "u32 \<Rightarrow> bool" where
  "is_ftable_domain d \<longleftrightarrow> d = WATCH_DOMAIN_FTABLE"

definition is_point_domain :: "u32 \<Rightarrow> bool" where
  "is_point_domain d \<longleftrightarrow> d = WATCH_DOMAIN_POINT"

definition is_meter_domain :: "u32 \<Rightarrow> bool" where
  "is_meter_domain d \<longleftrightarrow> d = WATCH_DOMAIN_METER"

lemmas domain_defs [code_defs] =
  is_time_domain_def is_spectral_domain_def is_ftable_domain_def is_point_domain_def
  is_meter_domain_def

section \<open>Header, title and range\<close>

definition validate_header :: "WATCH_MSG_HEADER \<Rightarrow> int \<Rightarrow> bool" where
  "validate_header h received \<longleftrightarrow>
     \<not> (received < SIZEOF_HEADER \<or> magic h \<noteq> WATCH_MAGIC \<or> version h \<noteq> PROT_VERSION)
     \<and> SIZEOF_HEADER + uint (payload_size h) = received"

definition valid_title :: "char list \<Rightarrow> bool" where
  "valid_title t \<longleftrightarrow> CHR 0x00 \<in> set (take MAX_TITLE_SIZE t)"

definition valid_range :: "WATCH_RANGE \<Rightarrow> bool \<Rightarrow> bool" where
  "valid_range r nonnegative =
     (if (is_min_auto r \<noteq> 0 \<and> is_min_auto r \<noteq> 1) \<or> (is_max_auto r \<noteq> 0 \<and> is_max_auto r \<noteq> 1)
      then False
      else if is_min_auto r = 0
        \<and> (\<not> isfinite (range_min r) \<or> nonnegative \<and> range_min r < Fin 0) then False
      else if is_max_auto r = 0
        \<and> (\<not> isfinite (range_max r) \<or> nonnegative \<and> range_max r < Fin 0) then False
      else is_min_auto r \<noteq> 0 \<or> is_max_auto r \<noteq> 0 \<or> range_min r < range_max r)"

section \<open>Packets\<close>

definition validate_config_packet :: "packet \<Rightarrow> int \<Rightarrow> bool" where
  "validate_config_packet p received =
     (let c = pk_config p in
      if \<not> validate_header (header p) received
         \<or> msg_type (header p) \<noteq> msg_code CONFIG
         \<or> payload_size (header p) \<noteq> SIZEOF_CONFIG
         \<or> graph_id c = 0
         \<or> domain c > WATCH_DOMAIN_METER
         \<or> theme c > WATCH_THEME_DARK
         \<or> \<not> valid_title (title c) then False
      else if is_time_domain (domain c) then
        (let t = set_time (settings c) in
         \<not> (\<not> isfinite (win_size t) \<or> win_size t \<le> Fin 0
            \<or> time_nxticks t > MAX_GRID_TICKS \<or> time_nyticks t > MAX_GRID_TICKS
            \<or> \<not> valid_range (time_yrange t) False))
      else if is_ftable_domain (domain c) then
        (let t = set_ftable (settings c) in
         \<not> (ft_win_size t = 0 \<or> ft_win_size t > MAX_FTABLE_SAMPLES
            \<or> \<not> valid_range (ft_yrange t) False))
      else if is_point_domain (domain c) then
        (let t = set_point (settings c) in
         \<not> (\<not> valid_range (point_xrange t) False \<or> \<not> valid_range (point_yrange t) False))
      else if is_meter_domain (domain c) then
        (let t = set_meter (settings c);
             value_is_nonnegative = (meter_scale t \<noteq> WATCH_SCALE_DECIBEL);
             scale_is_supported =
               (meter_scale t = WATCH_SCALE_LINEAR_GAIN \<or> meter_scale t = WATCH_SCALE_DECIBEL) in
         \<not> (nchnls t = 0 \<or> nchnls t > MAX_METER_CHANNELS \<or> meter_nyticks t > MAX_GRID_TICKS
            \<or> \<not> scale_is_supported \<or> \<not> valid_range (meter_yrange t) value_is_nonnegative))
      else
        (let t = set_spectral (settings c);
             value_is_nonnegative = (spec_scale t \<noteq> WATCH_SCALE_DECIBEL) in
         \<not> (spec_nxticks t > MAX_GRID_TICKS \<or> spec_nyticks t > MAX_GRID_TICKS
            \<or> spec_scale t > WATCH_SCALE_DECIBEL
            \<or> \<not> valid_range (frequency_range t) True
            \<or> \<not> valid_range (value_range t) value_is_nonnegative
            \<or> domain c = WATCH_DOMAIN_SPECTROGRAM
               \<and> (\<not> isfinite (history_seconds t) \<or> history_seconds t \<le> Fin 0))))"

definition validate_data_packet :: "packet \<Rightarrow> int \<Rightarrow> bool" where
  "validate_data_packet p received =
     (let d = pk_data p in
      if \<not> validate_header (header p) received
         \<or> msg_type (header p) \<noteq> msg_code DATA
         \<or> sequence (header p) < 0
         \<or> data_graph_id d = 0
         \<or> data_stream_id d \<ge> MAX_STREAMS
         \<or> \<not> isfinite (data_sample_rate d)
         \<or> data_sample_rate d \<le> Fin 0
         \<or> sample_count d = 0
         \<or> sample_count d > MAX_STREAM_SAMPLES then False
      else payload_size (header p) = OFF_SAMPLES + sample_count d * SIZEOF_FLOAT)"

definition validate_spectral_data_packet :: "packet \<Rightarrow> int \<Rightarrow> bool" where
  "validate_spectral_data_packet p received =
     (let d = pk_spectral p in
      if \<not> validate_header (header p) received
         \<or> msg_type (header p) \<noteq> msg_code SPECTRAL_DATA
         \<or> sequence (header p) < 0
         \<or> spec_graph_id d = 0
         \<or> spec_stream_id d \<ge> MAX_STREAMS
         \<or> spec_sample_rate d = 0
         \<or> spec_format d \<noteq> WATCH_SPECTRAL_POWER
         \<or> fft_size d = 0
         \<or> (fft_size d AND 1) \<noteq> 0
         \<or> hop_size d = 0
         \<or> hop_size d > fft_size d
         \<or> bin_count d = 0
         \<or> bin_count d > MAX_SPECTRAL_BINS
         \<or> total_bins d > 1048576
         \<or> total_bins d \<noteq> fft_size d div 2 + 1
         \<or> bin_offset d \<ge> total_bins d
         \<or> bin_count d > total_bins d - bin_offset d then False
      else payload_size (header p) = OFF_BINS + bin_count d * SIZEOF_FLOAT)"

definition validate_point_data_packet :: "packet \<Rightarrow> int \<Rightarrow> bool" where
  "validate_point_data_packet p received =
     (let d = pk_data p in
      if \<not> validate_header (header p) received
         \<or> msg_type (header p) \<noteq> msg_code POINT_DATA
         \<or> sequence (header p) < 0
         \<or> data_graph_id d = 0
         \<or> data_stream_id d \<ge> MAX_STREAMS
         \<or> \<not> isfinite (data_sample_rate d)
         \<or> data_sample_rate d \<le> Fin 0
         \<or> sample_count d = 0
         \<or> sample_count d > MAX_POINT_SAMPLES then False
      else payload_size (header p) = OFF_SAMPLES + sample_count d * 2 * SIZEOF_FLOAT)"

definition validate_ftable_data_packet :: "packet \<Rightarrow> int \<Rightarrow> bool" where
  "validate_ftable_data_packet p received =
     (let d = pk_ftable p in
      if \<not> validate_header (header p) received
         \<or> msg_type (header p) \<noteq> msg_code FTABLE_DATA
         \<or> sequence (header p) < 0
         \<or> ft_graph_id d = 0
         \<or> ft_stream_id d \<ge> MAX_STREAMS
         \<or> transfer_id d = 0
         \<or> ft_sample_count d = 0
         \<or> ft_sample_count d > MAX_STREAM_SAMPLES
         \<or> total_samples d = 0
         \<or> total_samples d > MAX_FTABLE_SAMPLES
         \<or> sample_offset d \<ge> total_samples d
         \<or> sample_offset d mod MAX_STREAM_SAMPLES \<noteq> 0
         \<or> ft_sample_count d > total_samples d - sample_offset d then False
      else
        (let remaining = total_samples d - sample_offset d;
             expected_count = (if remaining < MAX_STREAM_SAMPLES then remaining
                               else MAX_STREAM_SAMPLES) in
         if ft_sample_count d \<noteq> expected_count then False
         else payload_size (header p) = OFF_FT_SAMPLES + ft_sample_count d * SIZEOF_FLOAT))"

definition validate_meter_data_packet :: "packet \<Rightarrow> int \<Rightarrow> bool" where
  "validate_meter_data_packet p received =
     (let d = pk_meter p in
      if \<not> validate_header (header p) received
         \<or> msg_type (header p) \<noteq> msg_code METER_DATA
         \<or> sequence (header p) < 0
         \<or> meter_graph_id d = 0
         \<or> meter_stream_id d \<ge> MAX_STREAMS
         \<or> channel_count d = 0
         \<or> channel_count d > MAX_METER_CHANNELS then False
      else payload_size (header p) = OFF_LEVELS + channel_count d * SIZEOF_FLOAT)"

definition validate_session_close_packet :: "packet \<Rightarrow> int \<Rightarrow> bool" where
  "validate_session_close_packet p received \<longleftrightarrow>
     validate_header (header p) received
     \<and> msg_type (header p) = msg_code SESSION_CLOSE
     \<and> payload_size (header p) = SIZEOF_CLOSE
     \<and> reserved (pk_close p) = 0"

definition validate_graph_close_packet :: "packet \<Rightarrow> int \<Rightarrow> bool" where
  "validate_graph_close_packet p received \<longleftrightarrow>
     validate_header (header p) received
     \<and> msg_type (header p) = msg_code GRAPH_CLOSE
     \<and> payload_size (header p) = SIZEOF_CLOSE
     \<and> close_graph_id (pk_graph_close p) \<noteq> 0"

section \<open>What acceptance guarantees\<close>

lemma unat_u32_scaled:
  "(c :: u32) \<le> 256 \<Longrightarrow> k \<le> 64 \<Longrightarrow> unat (k + c * 4) = unat k + 4 * unat c"
proof -
  assume c: "c \<le> 256" and k: "k \<le> 64"
  have "unat c \<le> 256" "unat k \<le> 64" using c k by (simp_all add: word_le_nat_alt)
  then show ?thesis by (simp add: unat_word_ariths)
qed

lemma validate_header_length:
  "validate_header h received \<Longrightarrow> received = 24 + int (unat (payload_size h))"
  by (simp add: validate_header_def)

text \<open>The samples a time packet announces are exactly the ones it carries.\<close>

lemma validate_data_carried:
  assumes "validate_data_packet p received"
  shows "0 < unat (sample_count (pk_data p))" "unat (sample_count (pk_data p)) \<le> 256"
    and "received = 40 + 4 * int (unat (sample_count (pk_data p)))"
    and "unat (data_stream_id (pk_data p)) < 64" and "0 \<le> sequence (header p)"
proof -
  note d = assms [unfolded validate_data_packet_def Let_def]
  let ?c = "sample_count (pk_data p)"
  have c: "?c \<noteq> 0" "?c \<le> 256" using d by (auto split: if_splits)
  show "0 < unat ?c" "unat ?c \<le> 256"
    using c by (simp_all add: unat_gt_0 word_le_nat_alt)
  have "received = 24 + int (unat (16 + ?c * 4))"
    using d by (auto dest!: validate_header_length split: if_splits)
  then show "received = 40 + 4 * int (unat ?c)" using c by (simp add: unat_u32_scaled)
  show "unat (data_stream_id (pk_data p)) < 64" "0 \<le> sequence (header p)"
    using d by (auto simp: word_less_nat_alt word_le_nat_alt not_le split: if_splits)
qed

lemma validate_meter_carried:
  assumes "validate_meter_data_packet p received"
  shows "0 < unat (channel_count (pk_meter p))" "unat (channel_count (pk_meter p)) \<le> 32"
    and "received = 36 + 4 * int (unat (channel_count (pk_meter p)))"
proof -
  note d = assms [unfolded validate_meter_data_packet_def Let_def]
  let ?c = "channel_count (pk_meter p)"
  have c: "?c \<noteq> 0" "?c \<le> 32" using d by (auto split: if_splits)
  then have c': "?c \<le> 256" by (auto simp: word_le_nat_alt)
  show "0 < unat ?c" "unat ?c \<le> 32"
    using c by (simp_all add: unat_gt_0 word_le_nat_alt)
  have "received = 24 + int (unat (12 + ?c * 4))"
    using d by (auto dest!: validate_header_length split: if_splits)
  then show "received = 36 + 4 * int (unat ?c)" using c' by (simp add: unat_u32_scaled)
qed

lemma validate_point_carried:
  assumes "validate_point_data_packet p received"
  shows "0 < unat (sample_count (pk_data p))" "unat (sample_count (pk_data p)) \<le> 128"
    and "received = 40 + 8 * int (unat (sample_count (pk_data p)))"
    and "unat (data_stream_id (pk_data p)) < 64"
proof -
  note d = assms [unfolded validate_point_data_packet_def Let_def]
  let ?c = "sample_count (pk_data p)"
  have c: "?c \<noteq> 0" "?c \<le> 128" using d by (auto split: if_splits)
  show n: "0 < unat ?c" "unat ?c \<le> 128"
    using c by (simp_all add: unat_gt_0 word_le_nat_alt)
  have "received = 24 + int (unat (16 + ?c * 2 * 4))"
    using d by (auto dest!: validate_header_length split: if_splits)
  also have "unat (16 + ?c * 2 * 4) = 16 + 8 * unat ?c" using n by (simp add: unat_word_ariths)
  finally show "received = 40 + 8 * int (unat ?c)" by simp
  show "unat (data_stream_id (pk_data p)) < 64"
    using d by (auto simp: word_less_nat_alt word_le_nat_alt not_le split: if_splits)
qed

text \<open>The bins of a spectral packet fit the frame: the subtractions of the check do not wrap.\<close>

lemma validate_spectral_carried:
  assumes "validate_spectral_data_packet p received"
  shows "0 < unat (bin_count (pk_spectral p))" "unat (bin_count (pk_spectral p)) \<le> 256"
    and "received = 64 + 4 * int (unat (bin_count (pk_spectral p)))"
    and "unat (bin_offset (pk_spectral p)) + unat (bin_count (pk_spectral p))
           \<le> unat (total_bins (pk_spectral p))"
    and "unat (spec_stream_id (pk_spectral p)) < 64"
proof -
  note d = assms [unfolded validate_spectral_data_packet_def Let_def]
  let ?d = "pk_spectral p"
  have c: "bin_count ?d \<noteq> 0" "bin_count ?d \<le> 256" and o: "bin_offset ?d < total_bins ?d"
    and r: "bin_count ?d \<le> total_bins ?d - bin_offset ?d"
    using d by (auto simp: not_le not_less split: if_splits)
  show "0 < unat (bin_count ?d)" "unat (bin_count ?d) \<le> 256"
    using c by (simp_all add: unat_gt_0 word_le_nat_alt)
  have "received = 24 + int (unat (40 + bin_count ?d * 4))"
    using d by (auto dest!: validate_header_length split: if_splits)
  then show "received = 64 + 4 * int (unat (bin_count ?d))" using c by (simp add: unat_u32_scaled)
  have "unat (total_bins ?d - bin_offset ?d) = unat (total_bins ?d) - unat (bin_offset ?d)"
    using o by (intro unat_sub) simp
  then show "unat (bin_offset ?d) + unat (bin_count ?d) \<le> unat (total_bins ?d)"
    using o r by (simp add: word_le_nat_alt word_less_nat_alt)
  show "unat (spec_stream_id (pk_spectral p)) < 64"
    using d by (auto simp: word_less_nat_alt word_le_nat_alt not_le split: if_splits)
qed

text \<open>A function-table packet is one whole chunk of the table: all of 256 samples, or the rest.\<close>

lemma validate_ftable_carried:
  assumes "validate_ftable_data_packet p received"
  defines "off \<equiv> unat (sample_offset (pk_ftable p))"
    and "cnt \<equiv> unat (ft_sample_count (pk_ftable p))" and "tot \<equiv> unat (total_samples (pk_ftable p))"
  shows "off < tot" "tot \<le> 1073741824" "off mod 256 = 0" "cnt = min 256 (tot - off)"
    and "received = 48 + 4 * int cnt" and "transfer_id (pk_ftable p) \<noteq> 0"
    and "unat (ft_stream_id (pk_ftable p)) < 64"
proof -
  note d = assms(1) [unfolded validate_ftable_data_packet_def Let_def]
  let ?d = "pk_ftable p"
  have o: "sample_offset ?d < total_samples ?d" and m: "sample_offset ?d mod 256 = 0"
    and t: "total_samples ?d \<le> 1073741824" and c: "ft_sample_count ?d \<le> 256"
    and e: "ft_sample_count ?d = (if total_samples ?d - sample_offset ?d < 256
              then total_samples ?d - sample_offset ?d else 256)"
    using d by (auto simp: not_le not_less split: if_splits)
  show "off < tot" using o by (simp add: off_def tot_def word_less_nat_alt)
  show "tot \<le> 1073741824" using t by (simp add: tot_def word_le_nat_alt)
  have "unat (sample_offset ?d mod 256) = 0" using m by simp
  then show "off mod 256 = 0" by (simp add: off_def unat_mod)
  have s: "unat (total_samples ?d - sample_offset ?d) = tot - off"
    using o by (simp add: off_def tot_def unat_sub)
  show "cnt = min 256 (tot - off)"
    unfolding cnt_def e using s by (auto simp: word_less_nat_alt)
  have "received = 24 + int (unat (24 + ft_sample_count ?d * 4))"
    using d by (auto dest!: validate_header_length split: if_splits)
  then show "received = 48 + 4 * int cnt" using c by (simp add: unat_u32_scaled cnt_def)
  show "transfer_id (pk_ftable p) \<noteq> 0" "unat (ft_stream_id (pk_ftable p)) < 64"
    using d by (auto simp: word_less_nat_alt word_le_nat_alt not_le split: if_splits)
qed

end
