(* ===== verification/StreamQueue.thy ===== *)
theory StreamQueue
  imports Protocol
begin

text \<open>
  The per-stream packet queue of the plugin (\<^verbatim>\<open>WATCH_STREAM\<close> in \<^verbatim>\<open>src/src/watch.h\<close>): a
  ring of \<^verbatim>\<open>MAX_QUEUE_SIZE\<close> packets filled by the audio thread and drained by the sender
  thread of \<^verbatim>\<open>src/src/watch.c\<close>, the time packet under construction in its write slot, and
  the function-table transfer that bypasses the ring.

  \<open>bounded_fifo\<close> is the contract the two threads share; \<open>pktq\<close> is its interpretation
  on the ring. Ring positions, sample counts and table offsets are \<^typ>\<open>nat\<close>: the code
  keeps them below 50, 256 and \<open>2 ^ 30\<close>. The drop counter wraps at 64 bits.
\<close>

section \<open>A bounded queue\<close>

text \<open>One producer, one consumer: a script of what they do, and its outcome.\<close>

datatype 'a qop = Put 'a | Get

fun queue_run :: "('s \<Rightarrow> bool) \<Rightarrow> ('a \<Rightarrow> 's \<Rightarrow> 's) \<Rightarrow> ('s \<Rightarrow> bool) \<Rightarrow> ('s \<Rightarrow> 'a) \<Rightarrow> ('s \<Rightarrow> 's)
    \<Rightarrow> 'a qop list \<Rightarrow> 's \<Rightarrow> 's \<times> 'a list \<times> 'a list \<times> nat" where
  "queue_run full put vacant front pop [] s = (s, [], [], 0)"
| "queue_run full put vacant front pop (Put x # ops) s =
     (if full s
      then (case queue_run full put vacant front pop ops s of (s', ins, outs, lost) \<Rightarrow>
              (s', ins, outs, Suc lost))
      else (case queue_run full put vacant front pop ops (put x s) of (s', ins, outs, lost) \<Rightarrow>
              (s', x # ins, outs, lost)))"
| "queue_run full put vacant front pop (Get # ops) s =
     (if vacant s then queue_run full put vacant front pop ops s
      else (case queue_run full put vacant front pop ops (pop s) of (s', ins, outs, lost) \<Rightarrow>
              (s', ins, front s # outs, lost)))"

fun puts :: "'a qop list \<Rightarrow> 'a list" where
  "puts [] = []"
| "puts (Put x # ops) = x # puts ops"
| "puts (Get # ops) = puts ops"

locale bounded_fifo =
  fixes good :: "'s \<Rightarrow> bool" and items :: "'s \<Rightarrow> 'a list" and bound :: nat
    and full :: "'s \<Rightarrow> bool" and put :: "'a \<Rightarrow> 's \<Rightarrow> 's"
    and vacant :: "'s \<Rightarrow> bool" and front :: "'s \<Rightarrow> 'a" and pop :: "'s \<Rightarrow> 's"
  assumes put_good: "good s \<Longrightarrow> \<not> full s \<Longrightarrow> good (put x s)"
    and pop_good: "good s \<Longrightarrow> \<not> vacant s \<Longrightarrow> good (pop s)"
    and full_iff: "good s \<Longrightarrow> full s \<longleftrightarrow> length (items s) = bound"
    and items_le: "good s \<Longrightarrow> length (items s) \<le> bound"
    and empty_iff: "good s \<Longrightarrow> vacant s \<longleftrightarrow> items s = []"
    and put_items: "good s \<Longrightarrow> \<not> full s \<Longrightarrow> items (put x s) = items s @ [x]"
    and pop_items: "good s \<Longrightarrow> \<not> vacant s \<Longrightarrow> items s = front s # items (pop s)"
begin

text \<open>Any script: nothing is reordered, duplicated or invented, and the only losses are the
  packets counted as refused.\<close>

lemma run_fifo:
  "good s \<Longrightarrow> queue_run full put vacant front pop ops s = (s', ins, outs, lost) \<Longrightarrow>
     good s' \<and> items s @ ins = outs @ items s' \<and> length ins + lost = length (puts ops)"
proof (induction ops arbitrary: s s' ins outs lost)
  case (Cons op ops)
  note IH = Cons.IH and g = Cons.prems(1) and r = Cons.prems(2)
  show ?case
  proof (cases op)
    case (Put x)
    show ?thesis
    proof (cases "full s")
      case True
      then show ?thesis using r Put IH [OF g] by (auto split: prod.splits)
    next
      case False
      then show ?thesis
        using r Put IH [OF put_good [OF g False]] put_items [OF g False]
        by (auto split: prod.splits)
    qed
  next
    case Get
    show ?thesis
    proof (cases "vacant s")
      case True
      then show ?thesis using r Get IH [OF g] by auto
    next
      case False
      then show ?thesis
        using r Get IH [OF pop_good [OF g False]] pop_items [OF g False]
        by (auto split: prod.splits)
    qed
  qed
qed auto

text \<open>Nothing is refused while the queue has room for everything still to come.\<close>

lemma run_lossless:
  "good s \<Longrightarrow> queue_run full put vacant front pop ops s = (s', ins, outs, lost) \<Longrightarrow>
     length (items s) + length (puts ops) \<le> bound \<Longrightarrow> lost = 0 \<and> ins = puts ops"
proof (induction ops arbitrary: s s' ins outs lost)
  case (Cons op ops)
  note IH = Cons.IH and g = Cons.prems(1) and r = Cons.prems(2) and l = Cons.prems(3)
  show ?case
  proof (cases op)
    case (Put x)
    have nf: "\<not> full s" using l Put full_iff [OF g] by simp
    show ?thesis
      using r l Put nf IH [OF put_good [OF g nf]] put_items [OF g nf]
      by (auto split: prod.splits)
  next
    case Get
    show ?thesis
    proof (cases "vacant s")
      case True
      then show ?thesis using r l Get IH [OF g] by auto
    next
      case False
      then show ?thesis
        using r l Get IH [OF pop_good [OF g False]] pop_items [OF g False]
        by (auto split: prod.splits)
    qed
  qed
qed auto

end

section \<open>The stream\<close>

abbreviation MAX_QUEUE_SIZE :: "'a::numeral" where "MAX_QUEUE_SIZE \<equiv> 50"
abbreviation WATCH_PACKETS_PER_STREAM_PASS :: "'a::numeral" where
  "WATCH_PACKETS_PER_STREAM_PASS \<equiv> 8"

record WATCH_STREAM =
  st_graph_id :: u32
  st_stream_id :: u32
  st_sample_rate :: cfloat
  release_requested :: bool
  slots :: "packet list"
  pending_samples :: nat
  pending_time_sequence :: int
  write_pos :: nat
  read_pos :: nat
  dropped_samples :: u64
  ftable_samples :: "cfloat list option"
  ftable_total_samples :: nat
  ftable_next_sample :: nat
  ftable_transfer_id :: u32
  ftable_sequence :: int
  float_per_sample :: nat
  publish_threshold :: nat

text \<open>\<^verbatim>\<open>Calloc\<close>ed: everything zero.\<close>

definition zero_stream :: WATCH_STREAM where
  "zero_stream = \<lparr>st_graph_id = 0, st_stream_id = 0, st_sample_rate = Fin 0,
     release_requested = False, slots = replicate MAX_QUEUE_SIZE zero_packet,
     pending_samples = 0, pending_time_sequence = 0, write_pos = 0, read_pos = 0,
     dropped_samples = 0, ftable_samples = None, ftable_total_samples = 0,
     ftable_next_sample = 0, ftable_transfer_id = 0, ftable_sequence = 0,
     float_per_sample = 0, publish_threshold = 0\<rparr>"

definition next_pos :: "nat \<Rightarrow> nat" where
  "next_pos p = (p + 1) mod MAX_QUEUE_SIZE"

text \<open>The packet the producer is filling, and a store through its pointer.\<close>

definition write_slot :: "WATCH_STREAM \<Rightarrow> packet" where
  "write_slot st = slots st ! write_pos st"

definition update_slot :: "(packet \<Rightarrow> packet) \<Rightarrow> WATCH_STREAM \<Rightarrow> WATCH_STREAM" where
  "update_slot f st = st\<lparr>slots := (slots st)[write_pos st := f (write_slot st)]\<rparr>"

definition publish_time_packet :: "WATCH_STREAM \<Rightarrow> nat \<Rightarrow> WATCH_STREAM" where
  "publish_time_packet st next_write =
     (let pending = pending_samples st in
      (update_slot (\<lambda>p. p\<lparr>
          pk_data := (pk_data p)\<lparr>sample_count := of_nat pending\<rparr>,
          header := (header p)\<lparr>payload_size :=
            OFF_SAMPLES + of_nat pending * of_nat (float_per_sample st) * SIZEOF_FLOAT\<rparr>\<rparr>) st)
        \<lparr>pending_samples := 0, write_pos := next_write\<rparr>)"

definition publish_meter_packet :: "WATCH_STREAM \<Rightarrow> nat \<Rightarrow> u32 \<Rightarrow> WATCH_STREAM" where
  "publish_meter_packet st next_write channels =
     (update_slot (\<lambda>p. p\<lparr>
        pk_meter := (pk_meter p)\<lparr>channel_count := channels\<rparr>,
        header := (header p)\<lparr>payload_size := OFF_LEVELS + channels * SIZEOF_FLOAT\<rparr>\<rparr>) st)
       \<lparr>write_pos := next_write\<rparr>"

definition stream_transfer_complete :: "WATCH_STREAM \<Rightarrow> bool" where
  "stream_transfer_complete st \<longleftrightarrow>
     read_pos st = write_pos st \<and> pending_samples st = 0
     \<and> ftable_next_sample st \<ge> ftable_total_samples st"

section \<open>Sending\<close>

text \<open>
  The socket: how often \<^verbatim>\<open>send\<close> was called, and what it took, with the number of bytes.
  Whether a call takes the whole datagram is the environment's choice, \<open>ok\<close>, by call.
\<close>

record net =
  attempts :: nat
  sent :: "(packet \<times> nat) list"

definition send_packet :: "(nat \<Rightarrow> bool) \<Rightarrow> packet \<Rightarrow> nat \<Rightarrow> net \<Rightarrow> bool \<times> net" where
  "send_packet ok p n w =
     (if ok (attempts w)
      then (True, w\<lparr>attempts := attempts w + 1, sent := sent w @ [(datagram p n, n)]\<rparr>)
      else (False, w\<lparr>attempts := attempts w + 1\<rparr>))"

definition max_payload_size :: "u16 \<Rightarrow> u32" where
  "max_payload_size t =
     (if t = msg_code DATA \<or> t = msg_code POINT_DATA then SIZEOF_DATA
      else if t = msg_code METER_DATA then SIZEOF_METER
      else if t = msg_code SPECTRAL_DATA then SIZEOF_SPECTRAL
      else if t = msg_code FTABLE_DATA then SIZEOF_FTABLE
      else 0)"

definition advance_read :: "WATCH_STREAM \<Rightarrow> WATCH_STREAM" where
  "advance_read st = st\<lparr>read_pos := next_pos (read_pos st)\<rparr>"

definition packet_bytes :: "packet \<Rightarrow> nat" where
  "packet_bytes p = unat (SIZEOF_HEADER + payload_size (header p) :: u32)"

fun send_stream_loop ::
  "(nat \<Rightarrow> bool) \<Rightarrow> nat \<Rightarrow> WATCH_STREAM \<Rightarrow> net \<Rightarrow> WATCH_STREAM \<times> net" where
  "send_stream_loop ok 0 st w = (st, w)"
| "send_stream_loop ok (Suc n) st w =
     (if read_pos st = write_pos st then (st, w)
      else
        let p = slots st ! read_pos st in
        if payload_size (header p) > max_payload_size (msg_type (header p))
        then send_stream_loop ok n (advance_read st) w
        else case send_packet ok p (packet_bytes p) w of
               (True, w') \<Rightarrow> send_stream_loop ok n (advance_read st) w'
             | (False, w') \<Rightarrow> (st, w'))"

definition send_stream_packets ::
  "(nat \<Rightarrow> bool) \<Rightarrow> WATCH_STREAM \<Rightarrow> net \<Rightarrow> WATCH_STREAM \<times> net" where
  "send_stream_packets ok st w = send_stream_loop ok WATCH_PACKETS_PER_STREAM_PASS st w"

text \<open>
  The function-table transfer. \<open>ftable_packet\<close> is the packet of the next chunk; the loop
  reports whether it left through its early return, which skips the release of the copy.
\<close>

definition ftable_packet :: "WATCH_STREAM \<Rightarrow> cfloat list \<Rightarrow> packet" where
  "ftable_packet st table =
     (let offset = ftable_next_sample st;
          remaining = ftable_total_samples st - offset;
          count = (if remaining < MAX_STREAM_SAMPLES then remaining else MAX_STREAM_SAMPLES) in
      zero_packet\<lparr>
        header := \<lparr>magic = WATCH_MAGIC, version = PROT_VERSION, msg_type = msg_code FTABLE_DATA,
          sequence = ftable_sequence st,
          payload_size = OFF_FT_SAMPLES + of_nat count * SIZEOF_FLOAT\<rparr>,
        pk_ftable := \<lparr>ft_graph_id = st_graph_id st, ft_stream_id = st_stream_id st,
          transfer_id = ftable_transfer_id st, sample_offset = of_nat offset,
          ft_sample_count = of_nat count, total_samples = of_nat (ftable_total_samples st),
          ft_samples = store_at 0 (take count (drop offset table))
            (ft_samples (pk_ftable zero_packet))\<rparr>\<rparr>)"

definition ftable_advance :: "WATCH_STREAM \<Rightarrow> WATCH_STREAM" where
  "ftable_advance st = st\<lparr>ftable_next_sample := ftable_next_sample st +
     (let remaining = ftable_total_samples st - ftable_next_sample st in
      if remaining < MAX_STREAM_SAMPLES then remaining else MAX_STREAM_SAMPLES)\<rparr>"

fun send_ftable_loop ::
  "(nat \<Rightarrow> bool) \<Rightarrow> nat \<Rightarrow> WATCH_STREAM \<Rightarrow> net \<Rightarrow> WATCH_STREAM \<times> net \<times> bool" where
  "send_ftable_loop ok 0 st w = (st, w, False)"
| "send_ftable_loop ok (Suc n) st w =
     (case ftable_samples st of
        None \<Rightarrow> (st, w, False)
      | Some table \<Rightarrow>
          if ftable_next_sample st < ftable_total_samples st then
            (case send_packet ok (ftable_packet st table)
                    (packet_bytes (ftable_packet st table)) w of
               (True, w') \<Rightarrow> send_ftable_loop ok n (ftable_advance st) w'
             | (False, w') \<Rightarrow> (st, w', True))
          else (st, w, False))"

definition send_ftable_packets ::
  "(nat \<Rightarrow> bool) \<Rightarrow> WATCH_STREAM \<Rightarrow> net \<Rightarrow> WATCH_STREAM \<times> net" where
  "send_ftable_packets ok st w =
     (case send_ftable_loop ok WATCH_PACKETS_PER_STREAM_PASS st w of
        (st', w', returned) \<Rightarrow>
          if \<not> returned \<and> ftable_samples st' \<noteq> None
             \<and> ftable_next_sample st' = ftable_total_samples st'
          then (st'\<lparr>ftable_samples := None\<rparr>, w') else (st', w'))"

section \<open>The ring is a queue\<close>

definition queued :: "WATCH_STREAM \<Rightarrow> packet list" where
  "queued st = ring_items (slots st) (read_pos st) (write_pos st)"

definition queue_wf :: "WATCH_STREAM \<Rightarrow> bool" where
  "queue_wf st \<longleftrightarrow> length (slots st) = MAX_QUEUE_SIZE
     \<and> read_pos st < MAX_QUEUE_SIZE \<and> write_pos st < MAX_QUEUE_SIZE"

text \<open>The operations as the two threads perform them: filling the write slot and advancing
  the write position, reading the slot at the read position and advancing it.\<close>

definition queue_full :: "WATCH_STREAM \<Rightarrow> bool" where
  "queue_full st \<longleftrightarrow> next_pos (write_pos st) = read_pos st"

definition queue_put :: "packet \<Rightarrow> WATCH_STREAM \<Rightarrow> WATCH_STREAM" where
  "queue_put p st = (update_slot (\<lambda>_. p) st)\<lparr>write_pos := next_pos (write_pos st)\<rparr>"

definition queue_empty :: "WATCH_STREAM \<Rightarrow> bool" where
  "queue_empty st \<longleftrightarrow> read_pos st = write_pos st"

definition queue_front :: "WATCH_STREAM \<Rightarrow> packet" where
  "queue_front st = slots st ! read_pos st"

lemma queue_wfD:
  "queue_wf st \<Longrightarrow> length (slots st) = 50 \<and> read_pos st < 50 \<and> write_pos st < 50"
  by (simp add: queue_wf_def)

lemma queue_wf_put: "queue_wf st \<Longrightarrow> queue_wf (queue_put p st)"
  by (simp add: queue_wf_def queue_put_def update_slot_def next_pos_def)

lemma queue_wf_advance: "queue_wf st \<Longrightarrow> queue_wf (advance_read st)"
  by (simp add: queue_wf_def advance_read_def next_pos_def)

lemma queue_full_iff: "queue_wf st \<Longrightarrow> queue_full st \<longleftrightarrow> length (queued st) = 49"
  using ring_full_iff [of "read_pos st" 50 "write_pos st"]
  by (auto simp: queue_wf_def queued_def queue_full_def next_pos_def)

lemma queued_le: "queue_wf st \<Longrightarrow> length (queued st) \<le> 49"
  using ring_count_less [of 50 "read_pos st" "write_pos st"] by (simp add: queue_wf_def queued_def)

lemma queue_empty_iff: "queue_wf st \<Longrightarrow> queue_empty st \<longleftrightarrow> queued st = []"
  using ring_items_empty_iff [of "read_pos st" "slots st" "write_pos st"]
  by (simp add: queue_wf_def queued_def queue_empty_def)

lemma queued_fill: "queue_wf st \<Longrightarrow> queued (update_slot f st) = queued st"
  using ring_items_fill [of "read_pos st" "slots st" "write_pos st"]
  by (simp add: queue_wf_def queued_def update_slot_def)

lemma queued_put:
  assumes "queue_wf st" "\<not> queue_full st"
  shows "queued (queue_put p st) = queued st @ [p]"
proof -
  let ?s = "(slots st)[write_pos st := p]"
  have "ring_items ?s (read_pos st) (Suc (write_pos st) mod length ?s)
      = ring_items ?s (read_pos st) (write_pos st) @ [?s ! write_pos st]"
    using assms by (intro ring_items_push) (auto simp: queue_wf_def queue_full_def next_pos_def)
  then show ?thesis
    using assms(1) ring_items_fill [of "read_pos st" "slots st" "write_pos st" p]
    by (simp add: queued_def queue_put_def update_slot_def next_pos_def queue_wf_def)
qed

lemma queued_pop:
  assumes "queue_wf st" "\<not> queue_empty st"
  shows "queued st = queue_front st # queued (advance_read st)"
  using assms ring_items_pop [of "read_pos st" "slots st" "write_pos st"]
  by (simp add: queued_def advance_read_def next_pos_def queue_wf_def queue_front_def queue_empty_def)

interpretation pktq: bounded_fifo queue_wf queued 49 queue_full queue_put queue_empty
  queue_front advance_read
  by unfold_locales
    (simp_all add: queue_wf_put queue_wf_advance queue_full_iff queued_le queue_empty_iff
      queued_put queued_pop [symmetric])

section \<open>What a pass of the sender transmits\<close>

text \<open>Packets whose payload exceeds their type are skipped; the others reach the socket as
  header and announced payload.\<close>

definition sendable :: "packet \<Rightarrow> bool" where
  "sendable p \<longleftrightarrow> payload_size (header p) \<le> max_payload_size (msg_type (header p))"

definition on_wire :: "packet \<Rightarrow> packet \<times> nat" where
  "on_wire p = (datagram p (packet_bytes p), packet_bytes p)"

lemma send_packet_cases:
  obtains "ok (attempts w)"
    "send_packet ok p n w
       = (True, w\<lparr>attempts := attempts w + 1, sent := sent w @ [(datagram p n, n)]\<rparr>)"
  | "\<not> ok (attempts w)" "send_packet ok p n w = (False, w\<lparr>attempts := attempts w + 1\<rparr>)"
  by (auto simp: send_packet_def)

text \<open>\<open>sent_prefix st w k st' w'\<close>: the oldest \<open>k\<close> packets of the queue have gone to the
  socket, in order, and nothing but the read position changed.\<close>

definition sent_prefix ::
  "WATCH_STREAM \<Rightarrow> net \<Rightarrow> nat \<Rightarrow> WATCH_STREAM \<Rightarrow> net \<Rightarrow> bool" where
  "sent_prefix st w k st' w' \<longleftrightarrow> k \<le> length (queued st)
     \<and> queue_wf st' \<and> queued st' = drop k (queued st)
     \<and> sent w' = sent w @ map on_wire (filter sendable (take k (queued st)))
     \<and> st' = st\<lparr>read_pos := read_pos st'\<rparr>"

lemma sent_prefix_0: "queue_wf st \<Longrightarrow> sent w' = sent w \<Longrightarrow> sent_prefix st w 0 st w'"
  by (simp add: sent_prefix_def)

lemma sent_prefix_Suc:
  assumes "queue_wf st" "\<not> queue_empty st" "sent_prefix (advance_read st) w1 k st' w'"
    and "sent w1 = sent w @ map on_wire (filter sendable [queue_front st])"
  shows "sent_prefix st w (Suc k) st' w'"
proof -
  have "st' = (advance_read st)\<lparr>read_pos := read_pos st'\<rparr>"
    using assms(3) by (simp add: sent_prefix_def)
  also have "\<dots> = st\<lparr>read_pos := read_pos st'\<rparr>" by (simp add: advance_read_def)
  finally show ?thesis
    using assms queued_pop [OF assms(1,2)] by (simp add: sent_prefix_def)
qed

text \<open>The loop over the queue's operations.\<close>

lemma send_stream_loop_Suc:
  "send_stream_loop ok (Suc n) st w =
     (if queue_empty st then (st, w)
      else if \<not> sendable (queue_front st) then send_stream_loop ok n (advance_read st) w
      else if ok (attempts w) then
        send_stream_loop ok n (advance_read st)
          (w\<lparr>attempts := attempts w + 1, sent := sent w @ [on_wire (queue_front st)]\<rparr>)
      else (st, w\<lparr>attempts := attempts w + 1\<rparr>))"
  by (simp add: queue_empty_def queue_front_def sendable_def send_packet_def on_wire_def Let_def not_le)

text \<open>One pass sends a prefix of the queue, and stops early only at a send the socket
  refused.\<close>

lemma send_stream_loop_spec:
  "queue_wf st \<Longrightarrow> send_stream_loop ok n st w = (st', w') \<Longrightarrow>
     \<exists>k \<le> n. sent_prefix st w k st' w'
       \<and> (k < n \<and> k < length (queued st) \<longrightarrow> \<not> ok (attempts w' - 1))"
proof (induction n arbitrary: st w)
  case (Suc n)
  note wf = Suc.prems(1) and run = Suc.prems(2) [unfolded send_stream_loop_Suc]
  show ?case
  proof (cases "queue_empty st")
    case True
    then show ?thesis
      using run wf by (intro exI [of _ 0]) (simp add: queue_empty_iff sent_prefix_0)
  next
    case ne: False
    note len = queued_pop [OF wf ne]
    show ?thesis
    proof (cases "sendable (queue_front st) \<and> \<not> ok (attempts w)")
      case True
      then show ?thesis
        using run wf ne by (intro exI [of _ 0]) (auto intro: sent_prefix_0)
    next
      case False
      then obtain w1 where
          s: "sent w1 = sent w @ map on_wire (filter sendable [queue_front st])"
        and r: "send_stream_loop ok n (advance_read st) w1 = (st', w')"
        using run ne by (fastforce split: if_splits)
      from Suc.IH [OF queue_wf_advance [OF wf] r] obtain k where k: "k \<le> n"
        "sent_prefix (advance_read st) w1 k st' w'"
        "k < n \<and> k < length (queued (advance_read st)) \<longrightarrow> \<not> ok (attempts w' - 1)" by blast
      then show ?thesis
        using sent_prefix_Suc [OF wf ne k(2) s] len by (intro exI [of _ "Suc k"]) simp
    qed
  qed
qed (simp add: sent_prefix_0)

section \<open>The function-table transfer\<close>

text \<open>A transfer in progress: a copy of the whole table, an identifier, and a position on a
  chunk boundary or at the end.\<close>

definition transfer_wf :: "WATCH_STREAM \<Rightarrow> cfloat list \<Rightarrow> bool" where
  "transfer_wf st table \<longleftrightarrow>
     ftable_samples st = Some table \<and> ftable_total_samples st = length table
     \<and> 0 < length table \<and> length table \<le> MAX_FTABLE_SAMPLES
     \<and> ftable_transfer_id st \<noteq> 0 \<and> 0 \<le> ftable_sequence st
     \<and> st_graph_id st \<noteq> 0 \<and> st_stream_id st < MAX_STREAMS"

text \<open>The chunks a table is sent in, by offset.\<close>

definition table_chunk :: "cfloat list \<Rightarrow> nat \<Rightarrow> cfloat list" where
  "table_chunk table off = take MAX_STREAM_SAMPLES (drop off table)"

lemma length_table_chunk: "length (table_chunk table off) = min 256 (length table - off)"
  by (simp add: table_chunk_def)

lemma ftable_packet_eq:
  "ftable_packet st table =
     (let c = min 256 (ftable_total_samples st - ftable_next_sample st) in
      zero_packet\<lparr>
        header := \<lparr>magic = WATCH_MAGIC, version = PROT_VERSION, msg_type = msg_code FTABLE_DATA,
          sequence = ftable_sequence st, payload_size = OFF_FT_SAMPLES + of_nat c * SIZEOF_FLOAT\<rparr>,
        pk_ftable := \<lparr>ft_graph_id = st_graph_id st, ft_stream_id = st_stream_id st,
          transfer_id = ftable_transfer_id st, sample_offset = of_nat (ftable_next_sample st),
          ft_sample_count = of_nat c, total_samples = of_nat (ftable_total_samples st),
          ft_samples = store_at 0 (take c (drop (ftable_next_sample st) table))
            (ft_samples (pk_ftable zero_packet))\<rparr>\<rparr>)"
  by (simp add: ftable_packet_def Let_def min_def not_less)

lemma ftable_packet_header:
  "header (ftable_packet st table) = \<lparr>magic = WATCH_MAGIC, version = PROT_VERSION,
     msg_type = msg_code FTABLE_DATA, sequence = ftable_sequence st,
     payload_size = OFF_FT_SAMPLES
       + of_nat (min 256 (ftable_total_samples st - ftable_next_sample st)) * SIZEOF_FLOAT\<rparr>"
  by (simp add: ftable_packet_eq Let_def)

lemma ftable_packet_bytes:
  "packet_bytes (ftable_packet st table)
     = 48 + 4 * min 256 (ftable_total_samples st - ftable_next_sample st)"
proof -
  let ?c = "min 256 (ftable_total_samples st - ftable_next_sample st)"
  have "?c \<le> 256" by simp
  then have "unat (24 + (24 + of_nat ?c * 4) :: u32) = 48 + 4 * ?c"
    by (simp add: unat_word_ariths unat_u32_of_nat)
  then show ?thesis by (simp add: packet_bytes_def ftable_packet_header)
qed

text \<open>What a chunk's packet carries.\<close>

lemma ftable_packet_fields:
  assumes "transfer_wf st table"
  defines "c \<equiv> min 256 (length table - ftable_next_sample st)"
  shows "ft_graph_id (pk_ftable (ftable_packet st table)) = st_graph_id st"
    "ft_stream_id (pk_ftable (ftable_packet st table)) = st_stream_id st"
    "transfer_id (pk_ftable (ftable_packet st table)) = ftable_transfer_id st"
    "sample_offset (pk_ftable (ftable_packet st table)) = of_nat (ftable_next_sample st)"
    "ft_sample_count (pk_ftable (ftable_packet st table)) = of_nat c"
    "total_samples (pk_ftable (ftable_packet st table)) = of_nat (length table)"
    "length (ft_samples (pk_ftable (ftable_packet st table))) = 256"
    "take c (ft_samples (pk_ftable (ftable_packet st table)))
       = table_chunk table (ftable_next_sample st)"
proof -
  have tot: "ftable_total_samples st = length table" using assms(1) by (simp add: transfer_wf_def)
  show "ft_graph_id (pk_ftable (ftable_packet st table)) = st_graph_id st"
    "ft_stream_id (pk_ftable (ftable_packet st table)) = st_stream_id st"
    "transfer_id (pk_ftable (ftable_packet st table)) = ftable_transfer_id st"
    "sample_offset (pk_ftable (ftable_packet st table)) = of_nat (ftable_next_sample st)"
    "ft_sample_count (pk_ftable (ftable_packet st table)) = of_nat c"
    "total_samples (pk_ftable (ftable_packet st table)) = of_nat (length table)"
    "length (ft_samples (pk_ftable (ftable_packet st table))) = 256"
    by (simp_all add: ftable_packet_eq c_def tot Let_def)
  let ?xs = "take c (drop (ftable_next_sample st) table)"
  have l: "length ?xs = c" by (simp add: c_def)
  have "take (0 + length ?xs) (store_at 0 ?xs (ft_samples (pk_ftable zero_packet)))
      = take 0 (ft_samples (pk_ftable zero_packet)) @ ?xs"
    by (rule take_store_at) (simp add: c_def)
  moreover have "?xs = table_chunk table (ftable_next_sample st)"
    by (cases "length table - ftable_next_sample st \<le> 256") (simp_all add: c_def table_chunk_def)
  ultimately show "take c (ft_samples (pk_ftable (ftable_packet st table)))
      = table_chunk table (ftable_next_sample st)"
    using l by (simp add: ftable_packet_eq tot Let_def flip: c_def)
qed

text \<open>A pass sends consecutive chunks from the position it starts at.\<close>

definition chunk_packet :: "WATCH_STREAM \<Rightarrow> cfloat list \<Rightarrow> nat \<Rightarrow> packet" where
  "chunk_packet st table off = ftable_packet (st\<lparr>ftable_next_sample := off\<rparr>) table"

definition sent_chunks ::
  "WATCH_STREAM \<Rightarrow> cfloat list \<Rightarrow> net \<Rightarrow> nat \<Rightarrow> WATCH_STREAM \<Rightarrow> net \<Rightarrow> bool" where
  "sent_chunks st table w k st' w' \<longleftrightarrow>
     (\<forall>j < k. ftable_next_sample st + 256 * j < length table)
     \<and> sent w' = sent w
         @ map (\<lambda>j. on_wire (chunk_packet st table (ftable_next_sample st + 256 * j))) [0..<k]
     \<and> st' = st\<lparr>ftable_next_sample := min (length table) (ftable_next_sample st + 256 * k)\<rparr>"

lemma sent_chunks_0:
  "ftable_next_sample st \<le> length table \<Longrightarrow> sent w' = sent w \<Longrightarrow>
     sent_chunks st table w 0 st w'"
  by (simp add: sent_chunks_def min_def)

lemma ftable_advance_eq:
  "transfer_wf st table \<Longrightarrow> ftable_next_sample st \<le> length table \<Longrightarrow>
     ftable_advance st
       = st\<lparr>ftable_next_sample := min (length table) (ftable_next_sample st + 256)\<rparr>"
  by (auto simp: ftable_advance_def transfer_wf_def Let_def min_def)

lemma sent_chunks_Suc:
  assumes "transfer_wf st table" "ftable_next_sample st < length table"
    and "sent_chunks (ftable_advance st) table w1 k st' w'"
    and "sent w1 = sent w @ [on_wire (ftable_packet st table)]"
  shows "sent_chunks st table w (Suc k) st' w'"
proof (cases k)
  case 0
  then show ?thesis
    using assms by (auto simp: sent_chunks_def ftable_advance_eq chunk_packet_def)
next
  case (Suc m)
  let ?n = "ftable_next_sample st"
  have n: "ftable_next_sample (ftable_advance st) = ?n + 256" and lt: "?n + 256 < length table"
    using assms(1-3) Suc by (auto simp: sent_chunks_def ftable_advance_eq min_def split: if_splits)
  have c: "chunk_packet (ftable_advance st) table = chunk_packet st table"
    using assms(1,2) by (auto simp: fun_eq_iff chunk_packet_def ftable_advance_eq)
  have "map (\<lambda>j. on_wire (chunk_packet st table (?n + 256 * j))) [0..<Suc k]
      = on_wire (ftable_packet st table)
        # map (\<lambda>j. on_wire (chunk_packet st table (?n + 256 + 256 * j))) [0..<k]"
    by (simp add: upt_conv_Cons map_Suc_upt [symmetric] chunk_packet_def add.assoc
        del: upt_Suc)
  moreover have "\<forall>j < Suc k. ?n + 256 * j < length table"
    using assms(2,3) by (auto simp: sent_chunks_def n less_Suc_eq_0_disj)
  moreover have "st' = st\<lparr>ftable_next_sample := min (length table) (?n + 256 * Suc k)\<rparr>"
    using assms(1-3) by (simp add: sent_chunks_def ftable_advance_eq)
  ultimately show ?thesis
    using assms(3,4) by (simp add: sent_chunks_def n c)
qed

lemma transfer_wf_advance: "transfer_wf st table \<Longrightarrow> transfer_wf (ftable_advance st) table"
  by (simp add: transfer_wf_def ftable_advance_def)

lemma send_ftable_loop_spec:
  "transfer_wf st table \<Longrightarrow> ftable_next_sample st \<le> length table \<Longrightarrow>
     send_ftable_loop ok n st w = (st', w', returned) \<Longrightarrow>
     \<exists>k \<le> n. sent_chunks st table w k st' w'
       \<and> (if returned then ftable_next_sample st' < length table \<and> \<not> ok (attempts w' - 1)
          else k = n \<or> ftable_next_sample st' = length table)"
proof (induction n arbitrary: st w)
  case (Suc n)
  note wf = Suc.prems(1) and le = Suc.prems(2)
  have tbl: "ftable_samples st = Some table" and tot: "ftable_total_samples st = length table"
    using wf by (simp_all add: transfer_wf_def)
  show ?case
  proof (cases "ftable_next_sample st < length table \<and> ok (attempts w)")
    case False
    then show ?thesis
      using Suc.prems tbl tot
      by (intro exI [of _ 0]) (auto simp: send_packet_def intro: sent_chunks_0 split: if_splits)
  next
    case True
    let ?p = "ftable_packet st table"
    let ?w = "w\<lparr>attempts := attempts w + 1, sent := sent w @ [on_wire ?p]\<rparr>"
    have s: "sent ?w = sent w @ [on_wire ?p]" by simp
    have r: "send_ftable_loop ok n (ftable_advance st) ?w = (st', w', returned)"
      using Suc.prems(3) tbl tot True by (simp add: send_packet_def on_wire_def)
    have le': "ftable_next_sample (ftable_advance st) \<le> length table"
      using wf le by (simp add: ftable_advance_eq)
    show ?thesis
      using Suc.IH [OF transfer_wf_advance [OF wf] le' r] sent_chunks_Suc [OF wf _ _ s] True
      by (metis Suc_le_mono)
  qed
qed (auto intro: sent_chunks_0)

text \<open>A pass of \<^verbatim>\<open>send_ftable_packets\<close>: consecutive chunks, and the copy is released
  exactly when the last one has gone out.\<close>

lemma send_ftable_packets_spec:
  assumes "transfer_wf st table" "ftable_next_sample st \<le> length table"
    and "send_ftable_packets ok st w = (st', w')"
  shows "\<exists>k \<le> 8. \<exists>st1. sent_chunks st table w k st1 w'
    \<and> st' = st1\<lparr>ftable_samples :=
        (if ftable_next_sample st1 = length table then None else Some table)\<rparr>
    \<and> (k < 8 \<and> ftable_next_sample st1 < length table \<longrightarrow> \<not> ok (attempts w' - 1))"
proof -
  obtain st1 w1 ret where r: "send_ftable_loop ok 8 st w = (st1, w1, ret)"
    by (metis prod_cases3)
  from send_ftable_loop_spec [OF assms(1,2) r] obtain k where k: "k \<le> 8"
    "sent_chunks st table w k st1 w1"
    "if ret then ftable_next_sample st1 < length table \<and> \<not> ok (attempts w1 - 1)
     else k = 8 \<or> ftable_next_sample st1 = length table" by blast
  have f: "ftable_samples st1 = Some table" "ftable_total_samples st1 = length table"
    using k(2) assms(1) by (simp_all add: sent_chunks_def transfer_wf_def)
  have "w' = w1" "st' = st1\<lparr>ftable_samples :=
      (if ftable_next_sample st1 = length table then None else Some table)\<rparr>"
    using assms(3) r f k(3) by (auto simp: send_ftable_packets_def split: if_splits)
  then show ?thesis using k by (intro exI [of _ k]) (auto split: if_splits)
qed

section \<open>Frame rules\<close>

text \<open>The drop counter, which wraps at 64 bits.\<close>

definition drop_samples :: "nat \<Rightarrow> WATCH_STREAM \<Rightarrow> WATCH_STREAM" where
  "drop_samples n st = st\<lparr>dropped_samples := dropped_samples st + of_nat n\<rparr>"

lemma update_slot_simps [simp]:
  "st_graph_id (update_slot f st) = st_graph_id st"
  "st_stream_id (update_slot f st) = st_stream_id st"
  "st_sample_rate (update_slot f st) = st_sample_rate st"
  "pending_samples (update_slot f st) = pending_samples st"
  "pending_time_sequence (update_slot f st) = pending_time_sequence st"
  "write_pos (update_slot f st) = write_pos st"
  "read_pos (update_slot f st) = read_pos st"
  "float_per_sample (update_slot f st) = float_per_sample st"
  "publish_threshold (update_slot f st) = publish_threshold st"
  "dropped_samples (update_slot f st) = dropped_samples st"
  "release_requested (update_slot f st) = release_requested st"
  "queue_full (update_slot f st) = queue_full st"
  "queue_wf (update_slot f st) = queue_wf st"
  by (simp_all add: update_slot_def queue_full_def queue_wf_def)

lemma write_slot_update [simp]: "queue_wf st \<Longrightarrow> write_slot (update_slot f st) = f (write_slot st)"
  by (simp add: write_slot_def update_slot_def queue_wf_def)

lemma slots_update: "p \<in> set (slots (update_slot f st)) \<Longrightarrow> p \<in> set (slots st) \<or> p = f (write_slot st)"
  using set_update_subset_insert [of "slots st" "write_pos st" "f (write_slot st)"]
  by (auto simp: update_slot_def)

lemma pending_update_simps [simp]:
  "queued (st\<lparr>pending_samples := n\<rparr>) = queued st"
  "queued (st\<lparr>pending_time_sequence := s\<rparr>) = queued st"
  "queued (drop_samples n st) = queued st"
  "queue_wf (st\<lparr>pending_samples := n\<rparr>) = queue_wf st"
  "queue_wf (st\<lparr>pending_time_sequence := s\<rparr>) = queue_wf st"
  "queue_full (st\<lparr>pending_samples := n\<rparr>) = queue_full st"
  "queue_full (st\<lparr>pending_time_sequence := s\<rparr>) = queue_full st"
  "write_slot (st\<lparr>pending_samples := n\<rparr>) = write_slot st"
  "write_slot (st\<lparr>pending_time_sequence := s\<rparr>) = write_slot st"
  by (simp_all add: queued_def queue_wf_def queue_full_def write_slot_def drop_samples_def)

lemma write_slot_in: "queue_wf st \<Longrightarrow> write_slot st \<in> set (slots st)"
  by (simp add: write_slot_def queue_wf_def)

lemma queue_put_simps [simp]:
  "st_graph_id (queue_put p st) = st_graph_id st"
  "st_stream_id (queue_put p st) = st_stream_id st"
  "st_sample_rate (queue_put p st) = st_sample_rate st"
  "float_per_sample (queue_put p st) = float_per_sample st"
  "publish_threshold (queue_put p st) = publish_threshold st"
  "dropped_samples (queue_put p st) = dropped_samples st"
  "release_requested (queue_put p st) = release_requested st"
  "read_pos (queue_put p st) = read_pos st"
  "slots (queue_put p st) = (slots st)[write_pos st := p]"
  by (simp_all add: queue_put_def update_slot_def)

lemma drop_samples_simps [simp]:
  "st_graph_id (drop_samples n st) = st_graph_id st"
  "st_stream_id (drop_samples n st) = st_stream_id st"
  "st_sample_rate (drop_samples n st) = st_sample_rate st"
  "float_per_sample (drop_samples n st) = float_per_sample st"
  "publish_threshold (drop_samples n st) = publish_threshold st"
  "dropped_samples (drop_samples n st) = dropped_samples st + of_nat n"
  "release_requested (drop_samples n st) = release_requested st"
  "queue_full (drop_samples n st) = queue_full st"
  "queue_wf (drop_samples n st) = queue_wf st"
  "slots (drop_samples n st) = slots st"
  by (simp_all add: drop_samples_def queue_full_def queue_wf_def)

section \<open>Properties\<close>

text \<open>C5: The ring of \<^verbatim>\<open>WATCH_STREAM\<close> is a queue for every interleaving of its producer and
  its consumer: what is taken out followed by what is still inside is what was inside followed
  by what was put in, and the packets refused, which happens only when 49 are queued, are the
  only ones lost. As long as there is room for everything offered nothing is refused.\<close>

theorem stream_ring_fifo:
  assumes "queue_wf st"
    and "queue_run queue_full queue_put queue_empty queue_front advance_read ops st
           = (st', ins, outs, lost)"
  shows "queue_wf st' \<and> queued st @ ins = outs @ queued st'
    \<and> length ins + lost = length (puts ops)
    \<and> (length (queued st) + length (puts ops) \<le> 49 \<longrightarrow> lost = 0 \<and> ins = puts ops)"
  using pktq.run_fifo [OF assms] pktq.run_lossless [OF assms] by blast

lemma zero_stream_queue: "queue_wf zero_stream" "queued zero_stream = []"
  by (simp_all add: queue_wf_def zero_stream_def queued_def ring_items_def ring_count_def)

theorem stream_ring_fifo_witness:
  "\<exists>st' ins outs lost.
     queue_run queue_full queue_put queue_empty queue_front advance_read
       [Put zero_packet, Get, Get, Put zero_packet] zero_stream = (st', ins, outs, lost)
     \<and> queue_wf st' \<and> queued zero_stream @ ins = outs @ queued st'
     \<and> length ins + lost = length (puts [Put zero_packet, Get, Get, Put zero_packet])
     \<and> (length (queued zero_stream) + length (puts [Put zero_packet, Get, Get, Put zero_packet]) \<le> 49
          \<longrightarrow> lost = 0 \<and> ins = puts [Put zero_packet, Get, Get, Put zero_packet])"
proof -
  obtain st' ins outs lost where
    "queue_run queue_full queue_put queue_empty queue_front advance_read
       [Put zero_packet, Get, Get, Put zero_packet] zero_stream = (st', ins, outs, lost)"
    by (metis prod_cases4)
  with stream_ring_fifo [OF zero_stream_queue(1) this] show ?thesis by blast
qed

text \<open>C18: A pass of \<^verbatim>\<open>send_stream_packets\<close> takes the oldest packets of the ring, at most
  eight and in order; each reaches the socket with exactly its header and announced payload,
  except those whose payload is too large for their type, which are discarded; the pass ends
  early only at a send the socket refuses, whose packet stays in the ring.\<close>

theorem send_stream_packets_in_order:
  assumes "queue_wf st" "send_stream_packets ok st w = (st', w')"
  shows "\<exists>k \<le> 8. queue_wf st' \<and> queued st' = drop k (queued st)
    \<and> sent w' = sent w @ map (\<lambda>p. (datagram p (packet_bytes p), packet_bytes p))
        (filter (\<lambda>p. payload_size (header p) \<le> max_payload_size (msg_type (header p)))
           (take k (queued st)))
    \<and> (k < 8 \<and> k < length (queued st) \<longrightarrow> \<not> ok (attempts w' - 1))"
proof -
  obtain k where "k \<le> 8" "sent_prefix st w k st' w'"
    "k < 8 \<and> k < length (queued st) \<longrightarrow> \<not> ok (attempts w' - 1)"
    using send_stream_loop_spec [OF assms(1), of ok 8 w st' w'] assms(2)
    by (auto simp: send_stream_packets_def)
  then show ?thesis
    by (intro exI [of _ k])
      (simp add: sent_prefix_def on_wire_def [abs_def] sendable_def [abs_def])
qed

theorem send_stream_packets_in_order_witness:
  "\<exists>st' w' k. send_stream_packets (\<lambda>n. True) (queue_put zero_packet zero_stream)
        \<lparr>attempts = 0, sent = []\<rparr> = (st', w')
    \<and> k \<le> 8 \<and> queue_wf st' \<and> queued st' = drop k (queued (queue_put zero_packet zero_stream))
    \<and> sent w' = [] @ map (\<lambda>p. (datagram p (packet_bytes p), packet_bytes p))
        (filter (\<lambda>p. payload_size (header p) \<le> max_payload_size (msg_type (header p)))
           (take k (queued (queue_put zero_packet zero_stream))))
    \<and> (k < 8 \<and> k < length (queued (queue_put zero_packet zero_stream)) \<longrightarrow> \<not> True)"
proof -
  obtain st' w' where r: "send_stream_packets (\<lambda>n. True) (queue_put zero_packet zero_stream)
      \<lparr>attempts = 0, sent = []\<rparr> = (st', w')" by fastforce
  show ?thesis
    using r send_stream_packets_in_order [OF queue_wf_put [OF zero_stream_queue(1)] r] by auto
qed

text \<open>C19: A pass of \<^verbatim>\<open>send_ftable_packets\<close> sends consecutive chunks of the table from the
  position of the transfer on, at most eight, and moves the position behind them; it stops early
  only at the end of the table or at a send the socket refuses; the plugin's copy of the table is
  released exactly when its last chunk has gone out.\<close>

theorem send_ftable_packets_progress:
  assumes "transfer_wf st table" "ftable_next_sample st \<le> length table"
    and "send_ftable_packets ok st w = (st', w')"
  shows "\<exists>k \<le> 8. (\<forall>j < k. ftable_next_sample st + 256 * j < length table)
    \<and> sent w' = sent w
        @ map (\<lambda>j. on_wire (chunk_packet st table (ftable_next_sample st + 256 * j))) [0..<k]
    \<and> ftable_next_sample st' = min (length table) (ftable_next_sample st + 256 * k)
    \<and> (ftable_samples st' = None \<longleftrightarrow> ftable_next_sample st' = length table)
    \<and> (k < 8 \<and> ftable_next_sample st' < length table \<longrightarrow> \<not> ok (attempts w' - 1))"
proof -
  obtain k st1 where "k \<le> 8" "sent_chunks st table w k st1 w'"
    "st' = st1\<lparr>ftable_samples :=
        (if ftable_next_sample st1 = length table then None else Some table)\<rparr>"
    "k < 8 \<and> ftable_next_sample st1 < length table \<longrightarrow> \<not> ok (attempts w' - 1)"
    using send_ftable_packets_spec [OF assms] by blast
  then show ?thesis
    by (intro exI [of _ k]) (auto simp: sent_chunks_def min_def split: if_splits)
qed

definition transfer_sample :: WATCH_STREAM where
  "transfer_sample = zero_stream\<lparr>st_graph_id := 1, ftable_samples := Some [Fin 1, Fin 2],
     ftable_total_samples := 2, ftable_transfer_id := 1\<rparr>"

theorem send_ftable_packets_progress_witness:
  "\<exists>st' w' k. send_ftable_packets (\<lambda>n. n \<noteq> 0) transfer_sample \<lparr>attempts = 0, sent = []\<rparr> = (st', w')
    \<and> (\<forall>j < k. ftable_next_sample transfer_sample + 256 * j < length [Fin 1, Fin 2])
    \<and> sent w' = [] @ map (\<lambda>j. on_wire (chunk_packet transfer_sample [Fin 1, Fin 2]
          (ftable_next_sample transfer_sample + 256 * j))) [0..<k]
    \<and> ftable_next_sample st' = min (length [Fin 1, Fin 2]) (ftable_next_sample transfer_sample + 256 * k)
    \<and> (ftable_samples st' = None \<longleftrightarrow> ftable_next_sample st' = length [Fin 1, Fin 2])"
proof -
  obtain st' w' where r: "send_ftable_packets (\<lambda>n. n \<noteq> 0) transfer_sample
      \<lparr>attempts = 0, sent = []\<rparr> = (st', w')" by fastforce
  have "transfer_wf transfer_sample [Fin 1, Fin 2]" "ftable_next_sample transfer_sample \<le> length [Fin 1, Fin 2]"
    by (simp_all add: transfer_wf_def transfer_sample_def zero_stream_def)
  from send_ftable_packets_progress [OF this r] show ?thesis using r by auto
qed

end
