(* ===== verification/TimeFeed.thy ===== *)
theory TimeFeed
  imports Validate StreamQueue "HOL-Library.Sublist"
begin

text \<open>
  The opcodes that feed time streams (\<^verbatim>\<open>watch_add_a\<close>, \<^verbatim>\<open>watch_add_k\<close> and
  \<^verbatim>\<open>watch_add_p\<close> in \<^verbatim>\<open>src/src/watch.c\<close>): samples accumulate in the write slot of the
  stream's ring until the publish threshold or a gap in the sequence closes the packet. The
  loops are \<^theory_text>\<open>partial_function\<close>s: a run that does not return is \<^const>\<open>None\<close>, and
  the theorems show that it does not happen.

  The specification is the \<open>stream_log\<close>: the samples, with their sequence numbers, that the
  queue and the open packet hold. Every operation extends it or leaves it alone, and every
  packet that reaches the queue is one the viewer accepts.
\<close>

section \<open>The open packet\<close>

text \<open>Header and identification of a packet in the write slot; the payload size and the
  sample count are written when it is published.\<close>

definition open_time_packet :: "u16 \<Rightarrow> int \<Rightarrow> WATCH_STREAM \<Rightarrow> WATCH_STREAM" where
  "open_time_packet ty seq st =
     (update_slot (\<lambda>p. p\<lparr>
        header := (header p)\<lparr>magic := WATCH_MAGIC, msg_type := ty, version := PROT_VERSION,
          sequence := seq\<rparr>,
        pk_data := (pk_data p)\<lparr>data_graph_id := st_graph_id st,
          data_stream_id := st_stream_id st, data_sample_rate := st_sample_rate st\<rparr>\<rparr>) st)
       \<lparr>pending_time_sequence := seq\<rparr>"

text \<open>Values stored from an index of the sample array on, and the new number of samples.\<close>

definition store_samples :: "nat \<Rightarrow> cfloat list \<Rightarrow> WATCH_STREAM \<Rightarrow> WATCH_STREAM" where
  "store_samples base xs = update_slot (\<lambda>p. p\<lparr>pk_data := (pk_data p)
     \<lparr>samples := store_at base xs (samples (pk_data p))\<rparr>\<rparr>)"

section \<open>Audio rate\<close>

text \<open>One round of the loop of \<^verbatim>\<open>watch_add_a\<close>, at source position \<open>pos\<close>: the stream, the
  next position, and whether the loop was left by its \<^verbatim>\<open>break\<close>.\<close>

definition add_a_round ::
  "cfloat list \<Rightarrow> int \<Rightarrow> nat \<Rightarrow> nat \<Rightarrow> WATCH_STREAM \<Rightarrow> WATCH_STREAM \<times> nat \<times> bool" where
  "add_a_round signal bstart end_pos pos st =
     (let next_write = next_pos (write_pos st);
          seq = bstart + int pos;
          pending = pending_samples st in
      if pending > 0 \<and> seq \<noteq> pending_time_sequence st + int pending
      then (publish_time_packet st next_write, pos, False)
      else if pending = 0 \<and> next_write = read_pos st
      then (drop_samples (end_pos - pos) st, pos, True)
      else
        let st1 = (if pending = 0 then open_time_packet (msg_code DATA) seq st else st);
            remaining = end_pos - pos;
            available = publish_threshold st1 - pending;
            chunk = (if remaining < available then remaining else available);
            st2 = (store_samples pending (map to_float (take chunk (drop pos signal))) st1)
                    \<lparr>pending_samples := pending + chunk\<rparr> in
        ((if pending + chunk = publish_threshold st2 then publish_time_packet st2 next_write
          else st2), pos + chunk, False))"

partial_function (option) add_a_loop ::
  "cfloat list \<Rightarrow> int \<Rightarrow> nat \<Rightarrow> nat \<Rightarrow> WATCH_STREAM \<Rightarrow> WATCH_STREAM option" where
  "add_a_loop signal bstart end_pos pos st =
     (if pos < end_pos then
        (case add_a_round signal bstart end_pos pos st of
           (st', pos', left) \<Rightarrow>
             if left then Some st' else add_a_loop signal bstart end_pos pos' st')
      else Some st)"

text \<open>\<open>ksmps\<close>, \<open>offset\<close> and \<open>early\<close> are the block size of the instance and the
  parts of it before its start and after its end; \<open>now\<close> is the time of the block.\<close>

definition watch_add_a ::
  "nat \<Rightarrow> nat \<Rightarrow> nat \<Rightarrow> int \<Rightarrow> cfloat list \<Rightarrow> WATCH_STREAM \<Rightarrow> WATCH_STREAM option" where
  "watch_add_a ksmps offset early now signal st =
     (let end_pos = ksmps - early;
          nsamples = end_pos - offset in
      if nsamples = 0 then Some st else add_a_loop signal now end_pos offset st)"

section \<open>Control rate and points\<close>

text \<open>A value that is not finite is stored as zero.\<close>

definition control_value :: "cfloat \<Rightarrow> cfloat" where
  "control_value x = (if isfinite x then to_float x else Fin 0)"

text \<open>One round of the endless loops: the stream, and whether the round returned.\<close>

definition add_k_round :: "cfloat \<Rightarrow> int \<Rightarrow> WATCH_STREAM \<Rightarrow> WATCH_STREAM \<times> bool" where
  "add_k_round signal seq st =
     (let next_write = next_pos (write_pos st);
          pending = pending_samples st;
          off_pend = pending_time_sequence st + int pending in
      if pending > 0 \<and> seq \<noteq> off_pend then (publish_time_packet st next_write, False)
      else if pending = 0 \<and> next_write = read_pos st then (drop_samples 1 st, True)
      else
        let st1 = (if pending = 0 then open_time_packet (msg_code DATA) seq st else st);
            st2 = (store_samples pending [control_value signal] st1)
                    \<lparr>pending_samples := pending + 1\<rparr> in
        ((if pending + 1 = publish_threshold st2 then publish_time_packet st2 next_write
          else st2), True))"

partial_function (option) watch_add_k ::
  "cfloat \<Rightarrow> int \<Rightarrow> WATCH_STREAM \<Rightarrow> WATCH_STREAM option" where
  "watch_add_k signal seq st =
     (case add_k_round signal seq st of
        (st', returned) \<Rightarrow> if returned then Some st' else watch_add_k signal seq st')"

definition add_p_round :: "cfloat \<Rightarrow> cfloat \<Rightarrow> int \<Rightarrow> WATCH_STREAM \<Rightarrow> WATCH_STREAM \<times> bool" where
  "add_p_round x y seq st =
     (let next_write = next_pos (write_pos st);
          pending = pending_samples st;
          off_pend = pending_time_sequence st + int pending in
      if pending > 0 \<and> seq \<noteq> off_pend then (publish_time_packet st next_write, False)
      else if pending = 0 \<and> next_write = read_pos st then (drop_samples 1 st, True)
      else
        let st1 = (if pending = 0 then open_time_packet (msg_code POINT_DATA) seq st else st);
            base = pending * 2;
            st2 = (store_samples (base + 1) [control_value y]
                    (store_samples base [control_value x] st1))
                    \<lparr>pending_samples := pending + 1\<rparr> in
        ((if pending + 1 = publish_threshold st2 then publish_time_packet st2 next_write
          else st2), True))"

partial_function (option) watch_add_p ::
  "cfloat \<Rightarrow> cfloat \<Rightarrow> int \<Rightarrow> WATCH_STREAM \<Rightarrow> WATCH_STREAM option" where
  "watch_add_p x y seq st =
     (case add_p_round x y seq st of
        (st', returned) \<Rightarrow> if returned then Some st' else watch_add_p x y seq st')"

section \<open>Specification\<close>

text \<open>The frames of a packet, of \<open>fps\<close> values each, with their sequence numbers; the log of
  a stream is what its queue and its open packet hold.\<close>

definition frame :: "nat \<Rightarrow> packet \<Rightarrow> nat \<Rightarrow> cfloat list" where
  "frame fps p i = take fps (drop (i * fps) (samples (pk_data p)))"

definition frames_log :: "nat \<Rightarrow> packet \<Rightarrow> int \<Rightarrow> nat \<Rightarrow> (int \<times> cfloat list) list" where
  "frames_log fps p seq n = map (\<lambda>i. (seq + int i, frame fps p i)) [0..<n]"

definition packet_log :: "nat \<Rightarrow> packet \<Rightarrow> (int \<times> cfloat list) list" where
  "packet_log fps p =
     frames_log fps p (sequence (header p)) (unat (sample_count (pk_data p)))"

definition open_log :: "WATCH_STREAM \<Rightarrow> (int \<times> cfloat list) list" where
  "open_log st = frames_log (float_per_sample st) (write_slot st) (pending_time_sequence st)
     (pending_samples st)"

definition stream_log :: "WATCH_STREAM \<Rightarrow> (int \<times> cfloat list) list" where
  "stream_log st = concat (map (packet_log (float_per_sample st)) (queued st)) @ open_log st"

text \<open>The viewer's check of a packet of the stream's type, applied to what arrives of it.\<close>

definition validate_time :: "u16 \<Rightarrow> packet \<Rightarrow> int \<Rightarrow> bool" where
  "validate_time ty p received =
     (if ty = msg_code POINT_DATA then validate_point_data_packet p received
      else validate_data_packet p received)"

definition time_packet_ok :: "u16 \<Rightarrow> nat \<Rightarrow> packet \<Rightarrow> bool" where
  "time_packet_ok ty fps p \<longleftrightarrow>
     sendable p \<and> validate_time ty (fst (on_wire p)) (int (snd (on_wire p)))
     \<and> length (samples (pk_data (fst (on_wire p)))) = fps * unat (sample_count (pk_data p))"

text \<open>The invariant of a stream that carries packets of type \<open>ty\<close>.\<close>

definition time_ident :: "WATCH_STREAM \<Rightarrow> bool" where
  "time_ident st \<longleftrightarrow> st_graph_id st \<noteq> 0 \<and> st_stream_id st < MAX_STREAMS
     \<and> isfinite (st_sample_rate st) \<and> Fin 0 < st_sample_rate st"

definition slot_open :: "u16 \<Rightarrow> WATCH_STREAM \<Rightarrow> bool" where
  "slot_open ty st \<longleftrightarrow>
     (let h = header (write_slot st); d = pk_data (write_slot st) in
      magic h = WATCH_MAGIC \<and> version h = PROT_VERSION \<and> msg_type h = ty
      \<and> sequence h = pending_time_sequence st \<and> 0 \<le> sequence h
      \<and> data_graph_id d = st_graph_id st \<and> data_stream_id d = st_stream_id st
      \<and> data_sample_rate d = st_sample_rate st)"

definition time_ok :: "u16 \<Rightarrow> WATCH_STREAM \<Rightarrow> bool" where
  "time_ok ty st \<longleftrightarrow> queue_wf st \<and> time_ident st
     \<and> (\<forall>p \<in> set (slots st). length (samples (pk_data p)) = MAX_STREAM_SAMPLES)
     \<and> (ty = msg_code DATA \<and> float_per_sample st = 1
        \<or> ty = msg_code POINT_DATA \<and> float_per_sample st = 2)
     \<and> 0 < publish_threshold st \<and> publish_threshold st * float_per_sample st \<le> MAX_STREAM_SAMPLES
     \<and> pending_samples st \<le> publish_threshold st
     \<and> (0 < pending_samples st \<longrightarrow> \<not> queue_full st \<and> slot_open ty st)
     \<and> (\<forall>p \<in> set (queued st). time_packet_ok ty (float_per_sample st) p)"

text \<open>The checks read the header and the announced counts, which a truncated datagram keeps.\<close>

lemma validate_time_datagram:
  "validate_data_packet (datagram p n) r = validate_data_packet p r"
  "validate_point_data_packet (datagram p n) r = validate_point_data_packet p r"
  by (simp_all add: validate_data_packet_def validate_point_data_packet_def datagram_def Let_def)

section \<open>Publishing\<close>

definition closed_packet :: "WATCH_STREAM \<Rightarrow> packet" where
  "closed_packet st = (write_slot st)\<lparr>
     pk_data := (pk_data (write_slot st))\<lparr>sample_count := of_nat (pending_samples st)\<rparr>,
     header := (header (write_slot st))\<lparr>payload_size :=
       OFF_SAMPLES + of_nat (pending_samples st) * of_nat (float_per_sample st) * SIZEOF_FLOAT\<rparr>\<rparr>"

lemma publish_time_packet_eq:
  "publish_time_packet st (next_pos (write_pos st))
     = (queue_put (closed_packet st) st)\<lparr>pending_samples := 0\<rparr>"
  by (simp add: publish_time_packet_def queue_put_def closed_packet_def update_slot_def Let_def)

lemma time_okD:
  assumes "time_ok ty st"
  shows "queue_wf st" "time_ident st" "0 < publish_threshold st"
    "publish_threshold st * float_per_sample st \<le> 256" "pending_samples st \<le> publish_threshold st"
    "\<And>p. p \<in> set (slots st) \<Longrightarrow> length (samples (pk_data p)) = 256"
    "\<And>p. p \<in> set (queued st) \<Longrightarrow> time_packet_ok ty (float_per_sample st) p"
    "0 < pending_samples st \<Longrightarrow> \<not> queue_full st" "0 < pending_samples st \<Longrightarrow> slot_open ty st"
    "0 < float_per_sample st" "pending_samples st * float_per_sample st \<le> 256"
    "pending_samples st \<le> 256"
proof -
  note d = assms [unfolded time_ok_def]
  show "queue_wf st" "time_ident st" "0 < publish_threshold st"
    and l: "publish_threshold st * float_per_sample st \<le> 256" "pending_samples st \<le> publish_threshold st"
    using d by auto
  show "\<And>p. p \<in> set (slots st) \<Longrightarrow> length (samples (pk_data p)) = 256"
    "\<And>p. p \<in> set (queued st) \<Longrightarrow> time_packet_ok ty (float_per_sample st) p"
    "0 < pending_samples st \<Longrightarrow> \<not> queue_full st" "0 < pending_samples st \<Longrightarrow> slot_open ty st"
    and f: "0 < float_per_sample st"
    using d by auto
  show m: "pending_samples st * float_per_sample st \<le> 256"
    using l by (meson le_trans mult_le_mono1)
  then show "pending_samples st \<le> 256"
    using f by (metis One_nat_def Suc_leI le_trans mult.right_neutral mult_le_mono2)
qed

lemma closed_packet_bytes:
  assumes "pending_samples st * float_per_sample st \<le> 256"
  shows "unat (payload_size (header (closed_packet st)))
      = 16 + 4 * (pending_samples st * float_per_sample st)"
    and "packet_bytes (closed_packet st) = 40 + 4 * (pending_samples st * float_per_sample st)"
proof -
  let ?n = "pending_samples st * float_per_sample st"
  have e: "payload_size (header (closed_packet st)) = of_nat (16 + 4 * ?n)"
    by (simp add: closed_packet_def)
  show u: "unat (payload_size (header (closed_packet st))) = 16 + 4 * ?n"
    unfolding e using assms by (intro unat_u32_of_nat) linarith
  have "(24 + of_nat (16 + 4 * ?n) :: u32) = of_nat (40 + 4 * ?n)" by simp
  then show "packet_bytes (closed_packet st) = 40 + 4 * ?n"
    unfolding packet_bytes_def e using assms by (simp only: unat_u32_of_nat)
qed

text \<open>The packet that publishing closes is accepted by the viewer's check of its type, and
  carries exactly the samples it announces.\<close>

lemma closed_packet_ok:
  assumes ok: "time_ok ty st" and pos: "0 < pending_samples st"
  shows "time_packet_ok ty (float_per_sample st) (closed_packet st)"
proof -
  let ?p = "closed_packet st" and ?n = "pending_samples st * float_per_sample st"
  note d = time_okD [OF ok]
  note bytes = closed_packet_bytes [OF d(11)]
  have so: "slot_open ty st" using d(9) pos .
  have cnt: "sample_count (pk_data ?p) = of_nat (pending_samples st)"
    by (simp add: closed_packet_def)
  have u: "unat (sample_count (pk_data ?p)) = pending_samples st"
    unfolding cnt using d(12) by (intro unat_u32_of_nat) linarith
  have kind: "ty = msg_code DATA \<and> float_per_sample st = 1
      \<or> ty = msg_code POINT_DATA \<and> float_per_sample st = 2"
    using ok by (auto simp: time_ok_def)
  have ne: "(of_nat (pending_samples st) :: u32) \<noteq> 0"
    using d(12) pos by (subst u32_of_nat_eq_0) linarith+
  have le: "(of_nat (pending_samples st) :: u32) \<le> of_nat m"
    if "pending_samples st \<le> m" "m < 4294967296" for m
    using that by (subst u32_of_nat_le) linarith+
  have hdr: "validate_header (header ?p) (int (packet_bytes ?p))"
    using so unfolding validate_header_def bytes(2) uint_nat bytes(1)
    by (simp add: slot_open_def closed_packet_def Let_def del: of_nat_mult)
  have len: "length (samples (pk_data ?p)) = 256"
    using d(6) [OF write_slot_in [OF d(1)]] by (simp add: closed_packet_def)
  have snd: "sendable ?p"
    using bytes(1) d(11) so kind
    by (auto simp: sendable_def max_payload_size_def closed_packet_def slot_open_def
        word_le_nat_alt Let_def)
  have rate: "\<not> st_sample_rate st \<le> Fin 0"
    using d(2) by (cases "st_sample_rate st") (auto simp: time_ident_def less_eq_cfloat_def)
  have "validate_time ty ?p (int (packet_bytes ?p))"
    using kind
  proof
    assume k: "ty = msg_code DATA \<and> float_per_sample st = 1"
    then show ?thesis
      using hdr so d(2) rate ne le [of 256] d(12)
      by (auto simp: validate_time_def validate_data_packet_def slot_open_def time_ident_def
          closed_packet_def Let_def not_le)
  next
    assume k: "ty = msg_code POINT_DATA \<and> float_per_sample st = 2"
    then show ?thesis
      using hdr so d(2) rate ne le [of 128] d(11)
      by (auto simp: validate_time_def validate_point_data_packet_def slot_open_def time_ident_def
          closed_packet_def Let_def not_le)
  qed
  moreover have "length (samples (pk_data (datagram ?p (packet_bytes ?p)))) = ?n"
    using len bytes d(11) by (simp add: datagram_def floats_sent_def)
  ultimately show ?thesis
    using snd u by (simp add: time_packet_ok_def on_wire_def validate_time_def
        validate_time_datagram mult.commute)
qed

section \<open>Steps of the feeding loops\<close>

text \<open>\<open>appended ty st fs lost st'\<close>: \<open>st'\<close> is \<open>st\<close> with the frames \<open>fs\<close> added
  to its log and \<open>lost\<close> more samples counted as dropped, and it is a good stream with a
  packet that still has room.\<close>

definition appended ::
  "u16 \<Rightarrow> WATCH_STREAM \<Rightarrow> (int \<times> cfloat list) list \<Rightarrow> nat \<Rightarrow> WATCH_STREAM \<Rightarrow> bool" where
  "appended ty st fs lost st' \<longleftrightarrow> time_ok ty st' \<and> pending_samples st' < publish_threshold st'
     \<and> stream_log st' = stream_log st @ fs
     \<and> dropped_samples st' = dropped_samples st + of_nat lost
     \<and> st_graph_id st' = st_graph_id st \<and> st_stream_id st' = st_stream_id st
     \<and> st_sample_rate st' = st_sample_rate st \<and> read_pos st' = read_pos st
     \<and> float_per_sample st' = float_per_sample st
     \<and> publish_threshold st' = publish_threshold st
     \<and> release_requested st' = release_requested st"

lemma appended_trans:
  "appended ty st fs l st' \<Longrightarrow> appended ty st' fs' l' st'' \<Longrightarrow>
     appended ty st (fs @ fs') (l + l') st''"
  by (simp add: appended_def)

lemma slot_open_cong:
  "slot_open ty (st\<lparr>pending_samples := n\<rparr>) = slot_open ty st"
  by (simp add: slot_open_def)

lemma time_ident_cong:
  "time_ident (st\<lparr>pending_samples := n\<rparr>) = time_ident st"
  "time_ident (st\<lparr>pending_time_sequence := s\<rparr>) = time_ident st"
  "time_ident (update_slot f st) = time_ident st"
  by (simp_all add: time_ident_def)

text \<open>Publishing moves the open packet to the queue and leaves the log as it is.\<close>

lemma publish_step:
  assumes ok: "time_ok ty st" and pos: "0 < pending_samples st"
  shows "appended ty st [] 0 (publish_time_packet st (next_pos (write_pos st)))"
proof -
  note d = time_okD [OF ok]
  have nf: "\<not> queue_full st" using d(8) pos .
  have u: "unat (of_nat (pending_samples st) :: u32) = pending_samples st"
    using d(12) by (intro unat_u32_of_nat) linarith
  have log: "packet_log (float_per_sample st) (closed_packet st) = open_log st"
    using d(9) [OF pos] u
    by (simp add: packet_log_def open_log_def frames_log_def frame_def closed_packet_def
        slot_open_def Let_def)
  have len: "length (samples (pk_data (closed_packet st))) = 256"
    using d(6) [OF write_slot_in [OF d(1)]] by (simp add: closed_packet_def)
  have sl: "\<forall>p \<in> set ((slots st)[write_pos st := closed_packet st]).
      length (samples (pk_data p)) = 256"
    using set_update_subset_insert [of "slots st" "write_pos st" "closed_packet st"] d(6) len
    by auto
  have q: "queued (queue_put (closed_packet st) st) = queued st @ [closed_packet st]"
    using d(1) nf by (rule queued_put)
  have "time_ident (queue_put (closed_packet st) st)" using d(2) by (simp add: time_ident_def)
  then have "time_ok ty ((queue_put (closed_packet st) st)\<lparr>pending_samples := 0\<rparr>)"
    using ok sl closed_packet_ok [OF ok pos]
    by (auto simp: time_ok_def q time_ident_cong queue_wf_put)
  then show ?thesis
    using d(3) log q
    by (simp add: appended_def publish_time_packet_eq stream_log_def)
      (simp add: open_log_def frames_log_def)
qed

text \<open>Opening a packet in a free slot.\<close>

lemma open_step:
  assumes ok: "time_ok ty st" and "pending_samples st = 0" "\<not> queue_full st" "0 \<le> seq"
  shows "time_ok ty (open_time_packet ty seq st)" "slot_open ty (open_time_packet ty seq st)"
    "stream_log (open_time_packet ty seq st) = stream_log st"
proof -
  note d = time_okD [OF ok]
  let ?f = "\<lambda>p. p\<lparr>
        header := (header p)\<lparr>magic := WATCH_MAGIC, msg_type := ty, version := PROT_VERSION,
          sequence := seq\<rparr>,
        pk_data := (pk_data p)\<lparr>data_graph_id := st_graph_id st,
          data_stream_id := st_stream_id st, data_sample_rate := st_sample_rate st\<rparr>\<rparr>"
  have e: "open_time_packet ty seq st = (update_slot ?f st)\<lparr>pending_time_sequence := seq\<rparr>"
    by (simp add: open_time_packet_def)
  have sl: "\<forall>p \<in> set (slots (update_slot ?f st)). length (samples (pk_data p)) = 256"
    using slots_update [of _ ?f st] d(6) write_slot_in [OF d(1)] by fastforce
  show "slot_open ty (open_time_packet ty seq st)"
    using d(1) assms(4) by (simp add: e slot_open_def)
  show "time_ok ty (open_time_packet ty seq st)"
    using ok sl assms(2) unfolding e
    by (simp add: time_ok_def time_ident_cong queued_fill)
  show "stream_log (open_time_packet ty seq st) = stream_log st"
    using d(1) assms(2) by (simp add: e stream_log_def open_log_def frames_log_def queued_fill)
qed

text \<open>Storing frames behind the ones the open packet holds.\<close>

definition to_frames :: "nat \<Rightarrow> int \<Rightarrow> nat \<Rightarrow> cfloat list \<Rightarrow> (int \<times> cfloat list) list" where
  "to_frames fps seq n xs = map (\<lambda>i. (seq + int i, take fps (drop (i * fps) xs))) [0..<n]"

lemma frames_log_store:
  fixes p :: packet
  assumes "length xs = n * fps" "(k + n) * fps \<le> length (samples (pk_data p))"
  defines "p' \<equiv> p\<lparr>pk_data := (pk_data p)\<lparr>samples := store_at (k * fps) xs (samples (pk_data p))\<rparr>\<rparr>"
  shows "frames_log fps p' seq (k + n) = frames_log fps p seq k @ to_frames fps (seq + int k) n xs"
proof -
  let ?s = "samples (pk_data p)"
  have fit: "k * fps + length xs \<le> length ?s" using assms(1,2) by (simp add: add_mult_distrib)
  have before: "frame fps p' i = frame fps p i" if "i < k" for i
  proof -
    have "i * fps + fps \<le> k * fps" using that by (metis Suc_leI add.commute mult_Suc mult_le_mono1)
    then show ?thesis using fit by (simp add: frame_def p'_def slice_store_before)
  qed
  have within: "frame fps p' (k + j) = take fps (drop (j * fps) xs)" if "j < n" for j
  proof -
    have "j * fps + fps \<le> length xs"
      using that assms(1) by (metis Suc_leI add.commute mult_Suc mult_le_mono1)
    then show ?thesis
      using fit slice_store_within [of "j * fps" fps xs "k * fps" ?s]
      by (simp add: frame_def p'_def add_mult_distrib)
  qed
  have "frames_log fps p' seq (k + n) = frames_log fps p' seq k
      @ map (\<lambda>i. (seq + int i, frame fps p' i)) [k..<k + n]"
    by (simp add: frames_log_def upt_add_eq_append [of 0 k, simplified])
  also have "frames_log fps p' seq k = frames_log fps p seq k"
    by (simp add: frames_log_def before)
  also have "map (\<lambda>i. (seq + int i, frame fps p' i)) [k..<k + n]
      = map (\<lambda>j. (seq + int (k + j), frame fps p' (k + j))) [0..<n]"
    by (rule nth_equalityI) simp_all
  also have "\<dots> = to_frames fps (seq + int k) n xs"
    by (simp add: to_frames_def within add.assoc)
  finally show ?thesis .
qed

lemma store_step:
  assumes ok: "time_ok ty st" and op: "slot_open ty st" and nf: "\<not> queue_full st"
    and n: "0 < n" "pending_samples st + n \<le> publish_threshold st"
    and xs: "length xs = n * float_per_sample st"
  defines "st' \<equiv> (store_samples (pending_samples st * float_per_sample st) xs st)
      \<lparr>pending_samples := pending_samples st + n\<rparr>"
  shows "time_ok ty st'"
    and "stream_log st' = stream_log st
      @ to_frames (float_per_sample st) (pending_time_sequence st + int (pending_samples st)) n xs"
proof -
  let ?k = "pending_samples st" and ?fps = "float_per_sample st"
  let ?f = "\<lambda>p. p\<lparr>pk_data := (pk_data p)\<lparr>samples :=
    store_at (?k * ?fps) xs (samples (pk_data p))\<rparr>\<rparr>"
  note d = time_okD [OF ok]
  have e: "st' = (update_slot ?f st)\<lparr>pending_samples := ?k + n\<rparr>"
    by (simp add: st'_def store_samples_def)
  have fit: "(?k + n) * ?fps \<le> length (samples (pk_data (write_slot st)))"
    using d(4) d(6) [OF write_slot_in [OF d(1)]] n(2) by (metis le_trans mult_le_mono1)
  have sl: "\<forall>p \<in> set (slots (update_slot ?f st)). length (samples (pk_data p)) = 256"
    using slots_update [of _ ?f st] d(6) write_slot_in [OF d(1)] by fastforce
  have so: "slot_open ty ((update_slot ?f st)\<lparr>pending_samples := ?k + n\<rparr>)"
    using op d(1) by (simp add: slot_open_def Let_def)
  show "time_ok ty st'"
    using ok sl so nf n(2) d(1) unfolding e
    by (simp add: time_ok_def time_ident_cong queued_fill)
  show "stream_log st' = stream_log st
      @ to_frames ?fps (pending_time_sequence st + int ?k) n xs"
    using d(1) frames_log_store [OF xs fit]
    by (simp add: e stream_log_def open_log_def queued_fill)
qed

text \<open>The tail every round of the three loops shares: open if needed, store, publish at the
  threshold.\<close>

definition feed_frames :: "u16 \<Rightarrow> int \<Rightarrow> nat \<Rightarrow> cfloat list \<Rightarrow> WATCH_STREAM \<Rightarrow> WATCH_STREAM" where
  "feed_frames ty seq n xs st =
     (let st1 = (if pending_samples st = 0 then open_time_packet ty seq st else st);
          st2 = (store_samples (pending_samples st * float_per_sample st) xs st1)
                  \<lparr>pending_samples := pending_samples st + n\<rparr>
      in if pending_samples st + n = publish_threshold st
         then publish_time_packet st2 (next_pos (write_pos st)) else st2)"

lemma open_time_packet_simps [simp]:
  "st_graph_id (open_time_packet ty seq st) = st_graph_id st"
  "st_stream_id (open_time_packet ty seq st) = st_stream_id st"
  "st_sample_rate (open_time_packet ty seq st) = st_sample_rate st"
  "float_per_sample (open_time_packet ty seq st) = float_per_sample st"
  "publish_threshold (open_time_packet ty seq st) = publish_threshold st"
  "dropped_samples (open_time_packet ty seq st) = dropped_samples st"
  "release_requested (open_time_packet ty seq st) = release_requested st"
  "read_pos (open_time_packet ty seq st) = read_pos st"
  "write_pos (open_time_packet ty seq st) = write_pos st"
  "pending_samples (open_time_packet ty seq st) = pending_samples st"
  "pending_time_sequence (open_time_packet ty seq st) = seq"
  "queue_full (open_time_packet ty seq st) = queue_full st"
  by (simp_all add: open_time_packet_def queue_full_def)

lemma feed_frames_step:
  assumes ok: "time_ok ty st" and lt: "pending_samples st < publish_threshold st"
    and free: "pending_samples st = 0 \<Longrightarrow> \<not> queue_full st"
    and seq: "0 < pending_samples st \<Longrightarrow> seq = pending_time_sequence st + int (pending_samples st)"
    and "0 \<le> seq" "0 < n" and fit: "pending_samples st + n \<le> publish_threshold st"
    and xs: "length xs = n * float_per_sample st"
  shows "appended ty st (to_frames (float_per_sample st) seq n xs) 0 (feed_frames ty seq n xs st)"
proof -
  define st1 where "st1 = (if pending_samples st = 0 then open_time_packet ty seq st else st)"
  define st2 where "st2 = (store_samples (pending_samples st1 * float_per_sample st1) xs st1)
    \<lparr>pending_samples := pending_samples st1 + n\<rparr>"
  note d = time_okD [OF ok]
  have ok1: "time_ok ty st1" and op1: "slot_open ty st1" and nf1: "\<not> queue_full st1"
    and log1: "stream_log st1 = stream_log st"
    and seq1: "pending_time_sequence st1 + int (pending_samples st1) = seq"
    using ok open_step [OF ok _ free \<open>0 \<le> seq\<close>] d(8,9) free seq
    by (cases "pending_samples st = 0"; simp add: st1_def)+
  have same1: "pending_samples st1 = pending_samples st" "publish_threshold st1 = publish_threshold st"
    "float_per_sample st1 = float_per_sample st" "write_pos st1 = write_pos st"
    "st_graph_id st1 = st_graph_id st" "st_stream_id st1 = st_stream_id st"
    "st_sample_rate st1 = st_sample_rate st" "read_pos st1 = read_pos st"
    "release_requested st1 = release_requested st" "dropped_samples st1 = dropped_samples st"
    by (simp_all add: st1_def)
  have ok2: "time_ok ty st2" and log2: "stream_log st2 = stream_log st
      @ to_frames (float_per_sample st) seq n xs"
    using store_step [OF ok1 op1 nf1 \<open>0 < n\<close>] fit xs log1 seq1
    by (simp_all add: st2_def same1)
  have same2: "pending_samples st2 = pending_samples st + n"
    "publish_threshold st2 = publish_threshold st" "float_per_sample st2 = float_per_sample st"
    "write_pos st2 = write_pos st" "st_graph_id st2 = st_graph_id st"
    "st_stream_id st2 = st_stream_id st" "st_sample_rate st2 = st_sample_rate st"
    "read_pos st2 = read_pos st" "release_requested st2 = release_requested st"
    "dropped_samples st2 = dropped_samples st"
    by (simp_all add: st2_def store_samples_def same1)
  have f: "feed_frames ty seq n xs st = (if pending_samples st2 = publish_threshold st2
      then publish_time_packet st2 (next_pos (write_pos st2)) else st2)"
    by (simp add: feed_frames_def st2_def st1_def [symmetric] same1 Let_def store_samples_def)
  show ?thesis
    using publish_step [OF ok2] ok2 log2 same2 fit \<open>0 < n\<close> by (auto simp: f appended_def)
qed

section \<open>The loops\<close>

lemma to_frames_append:
  assumes "length xs = k * fps"
  shows "to_frames fps seq (k + n) (xs @ ys)
    = to_frames fps seq k xs @ to_frames fps (seq + int k) n ys"
proof -
  have before: "take fps (drop (i * fps) (xs @ ys)) = take fps (drop (i * fps) xs)" if "i < k" for i
  proof -
    have "i * fps + fps \<le> length xs"
      using that assms by (metis Suc_leI add.commute mult_Suc mult_le_mono1)
    then show ?thesis by simp
  qed
  have "map (\<lambda>i. (seq + int i, take fps (drop (i * fps) (xs @ ys)))) [k..<k + n]
      = to_frames fps (seq + int k) n ys"
    by (rule nth_equalityI) (simp_all add: to_frames_def assms add_mult_distrib)
  moreover have "map (\<lambda>i. (seq + int i, take fps (drop (i * fps) (xs @ ys)))) [0..<k]
      = to_frames fps seq k xs"
    by (simp add: to_frames_def before del: take_append drop_append)
  ultimately show ?thesis
    unfolding to_frames_def [of fps seq "k + n"] by (simp add: upt_add_eq_append [of 0 k, simplified]
      del: take_append drop_append)
qed

lemma to_frames_0 [simp]: "to_frames fps seq 0 xs = []"
  by (simp add: to_frames_def)

lemma drop_step:
  "time_ok ty st \<Longrightarrow> pending_samples st = 0 \<Longrightarrow> appended ty st [] n (drop_samples n st)"
  by (simp add: appended_def drop_samples_def time_ok_def queue_wf_def time_ident_def
      queued_def stream_log_def open_log_def frames_log_def)

text \<open>The rounds, by case.\<close>

lemma if_less_min: "(if a < b then a else b) = min a (b :: nat)"
  by simp

lemma add_a_round_cases:
  assumes "float_per_sample st = 1"
  shows "add_a_round signal bstart end_pos pos st =
    (let n = min (end_pos - pos) (publish_threshold st - pending_samples st) in
     if 0 < pending_samples st \<and> bstart + int pos \<noteq> pending_time_sequence st + int (pending_samples st)
     then (publish_time_packet st (next_pos (write_pos st)), pos, False)
     else if pending_samples st = 0 \<and> queue_full st then (drop_samples (end_pos - pos) st, pos, True)
     else (feed_frames (msg_code DATA) (bstart + int pos) n
             (map to_float (take n (drop pos signal))) st, pos + n, False))"
  unfolding add_a_round_def feed_frames_def queue_full_def Let_def if_less_min
  by (cases "pending_samples st = 0") (simp_all add: store_samples_def assms)

lemma add_a_round_step:
  assumes ok: "time_ok (msg_code DATA) st" and lt: "pending_samples st < publish_threshold st"
    and "0 \<le> bstart" and pos: "pos < end_pos" and len: "end_pos \<le> length signal"
    and r: "add_a_round signal bstart end_pos pos st = (st', pos', left)"
  shows "pos \<le> pos' \<and> pos' \<le> end_pos"
    and "appended (msg_code DATA) st (to_frames 1 (bstart + int pos) (pos' - pos)
           (map to_float (take (pos' - pos) (drop pos signal))))
           (if left then end_pos - pos' else 0) st'"
    and "left \<Longrightarrow> queue_full st'"
    and "\<not> left \<Longrightarrow> pos < pos' \<or> 0 < pending_samples st \<and> pending_samples st' = 0"
proof -
  have fps: "float_per_sample st = 1" using ok by (auto simp: time_ok_def)
  define n where "n = min (end_pos - pos) (publish_threshold st - pending_samples st)"
  have n: "0 < n" "n \<le> end_pos - pos" "pending_samples st + n \<le> publish_threshold st"
    using lt pos by (auto simp: n_def)
  note run = r [unfolded add_a_round_cases [OF fps] Let_def, folded n_def]
  show "pos \<le> pos' \<and> pos' \<le> end_pos" "left \<Longrightarrow> queue_full st'"
    using run n pos by (auto split: if_splits simp: drop_samples_def queue_full_def)
  show "\<not> left \<Longrightarrow> pos < pos' \<or> 0 < pending_samples st \<and> pending_samples st' = 0"
    using run n by (auto split: if_splits simp: publish_time_packet_def Let_def)
  have feed: "appended (msg_code DATA) st
      (to_frames 1 (bstart + int pos) n (map to_float (take n (drop pos signal)))) 0
      (feed_frames (msg_code DATA) (bstart + int pos) n (map to_float (take n (drop pos signal))) st)"
    if "pending_samples st = 0 \<longrightarrow> \<not> queue_full st"
      and "0 < pending_samples st \<longrightarrow> bstart + int pos = pending_time_sequence st + int (pending_samples st)"
    using feed_frames_step [OF ok lt, of "bstart + int pos" n] that n fps len pos \<open>0 \<le> bstart\<close> by simp
  show "appended (msg_code DATA) st (to_frames 1 (bstart + int pos) (pos' - pos)
           (map to_float (take (pos' - pos) (drop pos signal))))
           (if left then end_pos - pos' else 0) st'"
    using run feed publish_step [OF ok] drop_step [OF ok, of "end_pos - pos"]
    by (auto split: if_splits)
qed

lemma add_a_loop_spec:
  assumes "time_ok (msg_code DATA) st" "pending_samples st < publish_threshold st"
    and "0 \<le> bstart" "pos \<le> end_pos" "end_pos \<le> length signal"
  shows "\<exists>st' k. add_a_loop signal bstart end_pos pos st = Some st' \<and> k \<le> end_pos - pos
    \<and> appended (msg_code DATA) st (to_frames 1 (bstart + int pos) k
         (map to_float (take k (drop pos signal)))) (end_pos - pos - k) st'
    \<and> (k < end_pos - pos \<longrightarrow> queue_full st')"
  using assms
proof (induction "2 * (end_pos - pos) + (if pending_samples st = 0 then 0 else 1)"
    arbitrary: pos st rule: less_induct)
  case less
  show ?case
  proof (cases "pos < end_pos")
    case False
    then show ?thesis
      using less.prems by (simp add: add_a_loop.simps appended_def)
  next
    case pos: True
    obtain st1 pos1 left where r: "add_a_round signal bstart end_pos pos st = (st1, pos1, left)"
      by (metis prod_cases3)
    note step = add_a_round_step [OF less.prems(1,2,3) pos less.prems(5) r]
    show ?thesis
    proof (cases left)
      case True
      then show ?thesis
        using r pos step(1-3)
        by (intro exI [of _ st1] exI [of _ "pos1 - pos"]) (auto simp: add_a_loop.simps)
    next
      case False
      have ok1: "time_ok (msg_code DATA) st1" "pending_samples st1 < publish_threshold st1"
        using step(2) by (simp_all add: appended_def)
      have "2 * (end_pos - pos1) + (if pending_samples st1 = 0 then 0 else 1)
          < 2 * (end_pos - pos) + (if pending_samples st = 0 then 0 else 1)"
        using step(1,4) False pos by (auto split: if_splits)
      from less.hyps [OF this ok1 less.prems(3) conjunct2 [OF step(1)] less.prems(5)]
      obtain st' k where k: "add_a_loop signal bstart end_pos pos1 st1 = Some st'"
        "k \<le> end_pos - pos1" "k < end_pos - pos1 \<longrightarrow> queue_full st'"
        "appended (msg_code DATA) st1 (to_frames 1 (bstart + int pos1) k
           (map to_float (take k (drop pos1 signal)))) (end_pos - pos1 - k) st'" by blast
      obtain m where m: "pos1 = pos + m" using step(1) le_Suc_ex by blast
      have len: "length (map to_float (take m (drop pos signal))) = m * 1"
        using step(1) m less.prems(5) by simp
      have split: "map to_float (take (m + k) (drop pos signal))
          = map to_float (take m (drop pos signal)) @ map to_float (take k (drop pos1 signal))"
        unfolding take_add m by (simp add: add.commute)
      have "appended (msg_code DATA) st (to_frames 1 (bstart + int pos) (m + k)
          (map to_float (take (m + k) (drop pos signal)))) (end_pos - pos - (m + k)) st'"
        using appended_trans [OF step(2) k(4)] False
        unfolding split to_frames_append [OF len] by (simp add: m add.assoc)
      then show ?thesis
        using k(1-3) step(1) r pos False m
        by (intro exI [of _ st'] exI [of _ "m + k"]) (auto simp: add_a_loop.simps)
    qed
  qed
qed

lemma add_k_round_cases:
  assumes "float_per_sample st = 1"
  shows "add_k_round x seq st =
    (if 0 < pending_samples st \<and> seq \<noteq> pending_time_sequence st + int (pending_samples st)
     then (publish_time_packet st (next_pos (write_pos st)), False)
     else if pending_samples st = 0 \<and> queue_full st then (drop_samples 1 st, True)
     else (feed_frames (msg_code DATA) seq 1 [control_value x] st, True))"
  unfolding add_k_round_def feed_frames_def queue_full_def Let_def
  by (cases "pending_samples st = 0") (simp_all add: store_samples_def assms)

lemma store_samples_pair:
  assumes "queue_wf st"
  shows "store_samples (b + 1) [y] (store_samples b [x] st) = store_samples b [x, y] st"
  using assms by (simp add: store_samples_def update_slot_def write_slot_def queue_wf_def)

lemma add_p_round_cases:
  assumes "float_per_sample st = 2" "queue_wf st"
  shows "add_p_round x y seq st =
    (if 0 < pending_samples st \<and> seq \<noteq> pending_time_sequence st + int (pending_samples st)
     then (publish_time_packet st (next_pos (write_pos st)), False)
     else if pending_samples st = 0 \<and> queue_full st then (drop_samples 1 st, True)
     else (feed_frames (msg_code POINT_DATA) seq 1 [control_value x, control_value y] st, True))"
proof -
  let ?s1 = "if pending_samples st = 0 then open_time_packet (msg_code POINT_DATA) seq st else st"
  have wf: "queue_wf ?s1" using assms(2) by (simp add: open_time_packet_def)
  have thr: "publish_threshold (store_samples b xs s) = publish_threshold s" for b xs s
    by (simp add: store_samples_def)
  have "publish_threshold ?s1 = publish_threshold st" by simp
  then show ?thesis
    unfolding add_p_round_def feed_frames_def queue_full_def Let_def store_samples_pair [OF wf]
    by (simp add: assms(1) thr)
qed

text \<open>The endless loops return in their first or second round, with the frame stored or,
  when the queue is full, counted as dropped.\<close>

lemma feed_returns:
  assumes ok: "time_ok ty st" and lt: "pending_samples st < publish_threshold st"
    and seq: "0 \<le> seq" and xs: "length xs = float_per_sample st"
    and run: "\<And>s. time_ok ty s \<Longrightarrow> float_per_sample s = float_per_sample st \<Longrightarrow> f s =
      (if 0 < pending_samples s \<and> seq \<noteq> pending_time_sequence s + int (pending_samples s)
       then f (publish_time_packet s (next_pos (write_pos s)))
       else if pending_samples s = 0 \<and> queue_full s then Some (drop_samples 1 s)
       else Some (feed_frames ty seq 1 xs s))"
  shows "\<exists>st'. f st = Some st'
    \<and> (appended ty st [(seq, xs)] 0 st' \<or> queue_full st' \<and> appended ty st [] 1 st')"
proof -
  let ?gap = "\<lambda>s. 0 < pending_samples s \<and> seq \<noteq> pending_time_sequence s + int (pending_samples s)"
  have here: "\<exists>st'. f s = Some st'
      \<and> (appended ty s [(seq, xs)] 0 st' \<or> queue_full st' \<and> appended ty s [] 1 st')"
    if s: "time_ok ty s" "pending_samples s < publish_threshold s"
        "float_per_sample s = float_per_sample st" and nogap: "\<not> ?gap s" for s
  proof (cases "pending_samples s = 0 \<and> queue_full s")
    case True
    then have "f s = Some (drop_samples 1 s)" using run [OF s(1,3)] by simp
    then show ?thesis
      using drop_step [OF s(1), of 1] True by (simp add: drop_samples_def queue_full_def)
  next
    case False
    then have "f s = Some (feed_frames ty seq 1 xs s)" using run [OF s(1,3)] nogap by auto
    moreover have "appended ty s [(seq, xs)] 0 (feed_frames ty seq 1 xs s)"
      using feed_frames_step [OF s(1,2), of seq 1 xs] False nogap s(2,3) seq xs
      by (auto simp: to_frames_def)
    ultimately show ?thesis by simp
  qed
  show ?thesis
  proof (cases "?gap st")
    case True
    let ?s = "publish_time_packet st (next_pos (write_pos st))"
    have p: "appended ty st [] 0 ?s" using ok True by (auto intro: publish_step)
    then have "time_ok ty ?s" "pending_samples ?s < publish_threshold ?s"
      "float_per_sample ?s = float_per_sample st" by (simp_all add: appended_def)
    moreover have "pending_samples ?s = 0" by (simp add: publish_time_packet_def Let_def)
    moreover have "f st = f ?s" using True run [OF ok] by simp
    ultimately show ?thesis using here [of ?s] appended_trans [OF p] by fastforce
  qed (use here ok lt in blast)
qed

lemma watch_add_k_spec:
  assumes "time_ok (msg_code DATA) st" "pending_samples st < publish_threshold st" "0 \<le> seq"
  shows "\<exists>st'. watch_add_k x seq st = Some st'
    \<and> (appended (msg_code DATA) st [(seq, [control_value x])] 0 st'
       \<or> queue_full st' \<and> appended (msg_code DATA) st [] 1 st')"
proof -
  have fps: "float_per_sample st = 1" using assms(1) by (auto simp: time_ok_def)
  have "watch_add_k x seq s =
      (if 0 < pending_samples s \<and> seq \<noteq> pending_time_sequence s + int (pending_samples s)
       then watch_add_k x seq (publish_time_packet s (next_pos (write_pos s)))
       else if pending_samples s = 0 \<and> queue_full s then Some (drop_samples 1 s)
       else Some (feed_frames (msg_code DATA) seq 1 [control_value x] s))"
    if "float_per_sample s = 1" for s
    using that by (subst watch_add_k.simps) (simp add: add_k_round_cases)
  then show ?thesis
    by (intro feed_returns [OF assms]) (simp_all only: fps list.size)
qed

lemma watch_add_p_spec:
  assumes "time_ok (msg_code POINT_DATA) st" "pending_samples st < publish_threshold st" "0 \<le> seq"
  shows "\<exists>st'. watch_add_p x y seq st = Some st'
    \<and> (appended (msg_code POINT_DATA) st [(seq, [control_value x, control_value y])] 0 st'
       \<or> queue_full st' \<and> appended (msg_code POINT_DATA) st [] 1 st')"
proof -
  have fps: "float_per_sample st = 2" using assms(1) by (auto simp: time_ok_def)
  have "watch_add_p x y seq s =
      (if 0 < pending_samples s \<and> seq \<noteq> pending_time_sequence s + int (pending_samples s)
       then watch_add_p x y seq (publish_time_packet s (next_pos (write_pos s)))
       else if pending_samples s = 0 \<and> queue_full s then Some (drop_samples 1 s)
       else Some (feed_frames (msg_code POINT_DATA) seq 1 [control_value x, control_value y] s))"
    if "float_per_sample s = 2" "time_ok (msg_code POINT_DATA) s" for s
    using that time_okD(1) [OF that(2)]
    by (subst watch_add_p.simps) (simp add: add_p_round_cases)
  then show ?thesis
    by (intro feed_returns [OF assms]) (simp_all only: fps list.size)
qed

section \<open>The sender's side\<close>

text \<open>A pass of the sender keeps the invariant: it only frees slots.\<close>

lemma time_ok_sent_prefix:
  assumes ok: "time_ok ty st" and s: "sent_prefix st w k st' w'"
  shows "time_ok ty st'"
proof -
  note d = time_okD [OF ok]
  obtain r where e: "st' = st\<lparr>read_pos := r\<rparr>" using s by (auto simp: sent_prefix_def)
  have wf: "queue_wf st'" and q: "queued st' = drop k (queued st)"
    using s by (simp_all add: sent_prefix_def)
  have "\<not> queue_full st'" if "\<not> queue_full st"
    using that queued_le [OF d(1)] queue_full_iff [OF d(1)] queue_full_iff [OF wf] q by simp
  moreover have "\<forall>p \<in> set (queued st'). time_packet_ok ty (float_per_sample st) p"
    using d(7) q by (auto dest: in_set_dropD)
  ultimately show ?thesis
    using ok wf by (simp add: time_ok_def e time_ident_def slot_open_def write_slot_def)
qed

text \<open>What the pass takes from the log is what it hands to the socket.\<close>

definition wire_log :: "nat \<Rightarrow> net \<Rightarrow> (int \<times> cfloat list) list" where
  "wire_log fps w = concat (map (packet_log fps \<circ> fst) (sent w))"

lemma take_frame:
  assumes "i < n" "fps * n \<le> m"
  shows "take fps (drop (i * fps) (take m xs)) = take fps (drop (i * fps) xs)"
proof -
  have "i * fps + fps \<le> m"
    using assms by (metis Suc_leI add.commute le_trans mult.commute mult_Suc mult_le_mono1)
  then show ?thesis by (simp add: drop_take min_def)
qed

lemma packet_log_on_wire:
  assumes "time_packet_ok ty fps p"
  shows "packet_log fps (fst (on_wire p)) = packet_log fps p"
proof -
  let ?n = "unat (sample_count (pk_data p))" and ?m = "floats_sent (packet_bytes p) 16"
  have "min (length (samples (pk_data p))) ?m = fps * ?n"
    using assms by (simp add: time_packet_ok_def on_wire_def datagram_def)
  then have "fps * ?n \<le> ?m" by simp
  then show ?thesis
    by (simp add: packet_log_def frames_log_def frame_def on_wire_def datagram_def take_frame)
qed

lemma sent_prefix_log:
  assumes ok: "time_ok ty st" and s: "sent_prefix st w k st' w'"
  shows "wire_log (float_per_sample st) w' @ stream_log st'
    = wire_log (float_per_sample st) w @ stream_log st"
proof -
  let ?l = "packet_log (float_per_sample st)"
  note d = time_okD [OF ok]
  obtain r where e: "st' = st\<lparr>read_pos := r\<rparr>" using s by (auto simp: sent_prefix_def)
  have good: "time_packet_ok ty (float_per_sample st) p" if "p \<in> set (take k (queued st))" for p
    using that d(7) by (meson in_set_takeD)
  then have "filter sendable (take k (queued st)) = take k (queued st)"
    by (intro filter_True) (simp add: time_packet_ok_def)
  then have "sent w' = sent w @ map on_wire (take k (queued st))"
    using s by (simp add: sent_prefix_def)
  moreover have "map (?l \<circ> fst) (map on_wire (take k (queued st))) = map ?l (take k (queued st))"
    unfolding map_map by (rule map_cong [OF refl]) (simp only: comp_def packet_log_on_wire [OF good])
  moreover have "open_log st' = open_log st" by (simp add: e open_log_def write_slot_def)
  moreover have "concat (map ?l (take k (queued st))) @ concat (map ?l (queued st'))
      = concat (map ?l (queued st))"
    using s by (simp add: sent_prefix_def take_map [symmetric] drop_map [symmetric]
        concat_append [symmetric] del: concat_append)
  ultimately show ?thesis by (simp add: wire_log_def stream_log_def e del: map_map)
qed

section \<open>Fresh streams\<close>

lemma time_ok_fresh:
  assumes "time_ident st" "slots st = replicate MAX_QUEUE_SIZE zero_packet"
    and "write_pos st = 0" "read_pos st = 0" "pending_samples st = 0"
    and "ty = msg_code DATA \<and> float_per_sample st = 1
      \<or> ty = msg_code POINT_DATA \<and> float_per_sample st = 2"
    and "0 < publish_threshold st" "publish_threshold st * float_per_sample st \<le> MAX_STREAM_SAMPLES"
  shows "time_ok ty st" "stream_log st = []"
proof -
  have "queued st = []" using assms(2-4) by (simp add: queued_def ring_items_def ring_count_def)
  then show "time_ok ty st" "stream_log st = []"
    using assms by (auto simp: time_ok_def queue_wf_def stream_log_def open_log_def frames_log_def)
qed

text \<open>A small stream of each kind, on which the theorems are instantiated.\<close>

definition sample_stream :: "nat \<Rightarrow> nat \<Rightarrow> WATCH_STREAM" where
  "sample_stream fps threshold = zero_stream\<lparr>st_graph_id := 1, st_stream_id := 2,
     st_sample_rate := Fin 1000, float_per_sample := fps, publish_threshold := threshold\<rparr>"

lemma sample_stream_simps:
  "time_ident (sample_stream fps n)" "slots (sample_stream fps n) = replicate 50 zero_packet"
  "write_pos (sample_stream fps n) = 0" "read_pos (sample_stream fps n) = 0"
  "pending_samples (sample_stream fps n) = 0" "float_per_sample (sample_stream fps n) = fps"
  "publish_threshold (sample_stream fps n) = n"
  by (simp_all add: sample_stream_def zero_stream_def time_ident_def)

lemma sample_stream_ok:
  "time_ok (msg_code DATA) (sample_stream 1 3)" "time_ok (msg_code POINT_DATA) (sample_stream 2 3)"
  "stream_log (sample_stream 1 3) = []" "stream_log (sample_stream 2 3) = []"
  by (rule time_ok_fresh [where ty = "msg_code DATA"] time_ok_fresh [where ty = "msg_code POINT_DATA"];
      simp add: sample_stream_simps)+

section \<open>Properties\<close>

lemma take_1_drop: "i < length ys \<Longrightarrow> take 1 (drop i ys) = [ys ! i]"
  by (simp add: Cons_nth_drop_Suc [symmetric])

lemma to_frames_1:
  "pos + k \<le> length xs \<Longrightarrow> to_frames 1 (s + int pos) k (map f (take k (drop pos xs)))
     = map (\<lambda>i. (s + int (pos + i), [f (xs ! (pos + i))])) [0..<k]"
  unfolding to_frames_def by (rule map_cong [OF refl]) (simp add: take_1_drop del: One_nat_def)

text \<open>A block, with the drop count and the end of the block explicit.\<close>

lemma watch_add_a_block:
  assumes "time_ok (msg_code DATA) st" "pending_samples st < publish_threshold st"
    and "0 \<le> now" "early \<le> ksmps" "length signal = ksmps"
  shows "\<exists>st' k. watch_add_a ksmps offset early now signal st = Some st'
    \<and> k \<le> ksmps - early - offset
    \<and> appended (msg_code DATA) st
        (map (\<lambda>i. (now + int (offset + i), [to_float (signal ! (offset + i))])) [0..<k])
        (ksmps - early - offset - k) st'
    \<and> (k < ksmps - early - offset \<longrightarrow> queue_full st')"
proof (cases "offset < ksmps - early")
  case False
  then have "watch_add_a ksmps offset early now signal st = Some st"
    unfolding watch_add_a_def Let_def by (intro if_P) simp
  then show ?thesis
    using assms False by (intro exI [of _ st] exI [of _ 0]) (simp add: appended_def)
next
  case True
  let ?n = "ksmps - early - offset"
  have e: "watch_add_a ksmps offset early now signal st
      = add_a_loop signal now (ksmps - early) offset st"
    unfolding watch_add_a_def Let_def using True by (intro if_not_P) simp
  have len: "ksmps - early \<le> length signal" using assms(5) by simp
  from add_a_loop_spec [OF assms(1-3) less_imp_le [OF True] len] obtain st' k where
    "add_a_loop signal now (ksmps - early) offset st = Some st'" and k: "k \<le> ?n"
    and "appended (msg_code DATA) st (to_frames 1 (now + int offset) k
       (map to_float (take k (drop offset signal)))) (?n - k) st'"
    and "k < ?n \<longrightarrow> queue_full st'" by blast
  moreover have "offset + k \<le> length signal" using k True assms(5) by linarith
  ultimately show ?thesis
    unfolding e using to_frames_1 [of offset k signal now to_float]
    by (intro exI [of _ st'] exI [of _ k]) simp
qed

text \<open>C1: A block of \<^verbatim>\<open>watch_add_a\<close> returns, whatever the ring holds. It appends a
  prefix of the block to the stream, every sample under its own sample time and converted to
  \<^verbatim>\<open>float\<close>; the rest is counted as dropped, and samples are dropped only when the ring is
  full. The stream stays one whose queued packets the viewer accepts.\<close>

theorem watch_add_a_conserves:
  assumes "time_ok (msg_code DATA) st" "pending_samples st < publish_threshold st"
    and "0 \<le> now" "early \<le> ksmps" "length signal = ksmps"
  shows "\<exists>st' k. watch_add_a ksmps offset early now signal st = Some st'
    \<and> k \<le> ksmps - early - offset
    \<and> time_ok (msg_code DATA) st' \<and> pending_samples st' < publish_threshold st'
    \<and> stream_log st' = stream_log st
        @ map (\<lambda>i. (now + int (offset + i), [to_float (signal ! (offset + i))])) [0..<k]
    \<and> dropped_samples st' = dropped_samples st + of_nat (ksmps - early - offset - k)
    \<and> (k < ksmps - early - offset \<longrightarrow> queue_full st')"
  using watch_add_a_block [OF assms, of offset] by (auto simp: appended_def)

theorem watch_add_a_conserves_witness:
  "\<exists>st' k. watch_add_a 4 1 0 100 [Fin 0, Fin 1, Fin 2, Fin 3] (sample_stream 1 3) = Some st'
    \<and> k \<le> 4 - 0 - 1
    \<and> time_ok (msg_code DATA) st' \<and> pending_samples st' < publish_threshold st'
    \<and> stream_log st' = stream_log (sample_stream 1 3)
        @ map (\<lambda>i. (100 + int (1 + i), [to_float ([Fin 0, Fin 1, Fin 2, Fin 3] ! (1 + i))])) [0..<k]
    \<and> dropped_samples st' = dropped_samples (sample_stream 1 3) + of_nat (4 - 0 - 1 - k)
    \<and> (k < 4 - 0 - 1 \<longrightarrow> queue_full st')"
  by (rule watch_add_a_conserves) (simp_all add: sample_stream_ok [simplified] sample_stream_simps)

text \<open>A cycle of \<^verbatim>\<open>watch_add_k\<close> returns; it appends the value, zero in place of one
  that is not finite, under the cycle's number, or counts it as dropped because the ring is
  full.\<close>

theorem watch_add_k_conserves:
  assumes "time_ok (msg_code DATA) st" "pending_samples st < publish_threshold st" "0 \<le> seq"
  shows "\<exists>st'. watch_add_k x seq st = Some st'
    \<and> time_ok (msg_code DATA) st' \<and> pending_samples st' < publish_threshold st'
    \<and> (stream_log st' = stream_log st @ [(seq, [if isfinite x then to_float x else Fin 0])]
         \<and> dropped_samples st' = dropped_samples st
       \<or> stream_log st' = stream_log st \<and> queue_full st'
         \<and> dropped_samples st' = dropped_samples st + 1)"
  using watch_add_k_spec [OF assms, of x] by (auto simp: appended_def control_value_def)

theorem watch_add_k_conserves_witness:
  "\<exists>st'. watch_add_k PInf 7 (sample_stream 1 3) = Some st'
    \<and> time_ok (msg_code DATA) st' \<and> pending_samples st' < publish_threshold st'
    \<and> (stream_log st' = stream_log (sample_stream 1 3)
           @ [(7, [if isfinite PInf then to_float PInf else Fin 0])]
         \<and> dropped_samples st' = dropped_samples (sample_stream 1 3)
       \<or> stream_log st' = stream_log (sample_stream 1 3) \<and> queue_full st'
         \<and> dropped_samples st' = dropped_samples (sample_stream 1 3) + 1)"
  by (rule watch_add_k_conserves) (simp_all add: sample_stream_ok [simplified] sample_stream_simps)

text \<open>A cycle of \<^verbatim>\<open>watch_add_p\<close> returns; it appends the pair of coordinates, zero in
  place of one that is not finite, under the cycle's number, or counts the point as dropped
  because the ring is full.\<close>

theorem watch_add_p_conserves:
  assumes "time_ok (msg_code POINT_DATA) st" "pending_samples st < publish_threshold st" "0 \<le> seq"
  shows "\<exists>st'. watch_add_p x y seq st = Some st'
    \<and> time_ok (msg_code POINT_DATA) st' \<and> pending_samples st' < publish_threshold st'
    \<and> (stream_log st' = stream_log st @ [(seq, [if isfinite x then to_float x else Fin 0,
           if isfinite y then to_float y else Fin 0])]
         \<and> dropped_samples st' = dropped_samples st
       \<or> stream_log st' = stream_log st \<and> queue_full st'
         \<and> dropped_samples st' = dropped_samples st + 1)"
  using watch_add_p_spec [OF assms, of x y] by (auto simp: appended_def control_value_def)

theorem watch_add_p_conserves_witness:
  "\<exists>st'. watch_add_p (Fin 1) NaN 7 (sample_stream 2 3) = Some st'
    \<and> time_ok (msg_code POINT_DATA) st' \<and> pending_samples st' < publish_threshold st'
    \<and> (stream_log st' = stream_log (sample_stream 2 3) @ [(7, [if isfinite (Fin 1) then to_float (Fin 1) else Fin 0,
           if isfinite NaN then to_float NaN else Fin 0])]
         \<and> dropped_samples st' = dropped_samples (sample_stream 2 3)
       \<or> stream_log st' = stream_log (sample_stream 2 3) \<and> queue_full st'
         \<and> dropped_samples st' = dropped_samples (sample_stream 2 3) + 1)"
  by (rule watch_add_p_conserves) (simp_all add: sample_stream_ok [simplified] sample_stream_simps)

section \<open>A performance\<close>

text \<open>
  The life of an audio stream: blocks fed by the opcode, passes of the sender in between, in
  any order. \<open>scope_run st0 st w offered lost\<close>: from \<open>st0\<close> and an empty socket the stream
  \<open>st\<close> and the socket \<open>w\<close> can be reached while the blocks offered \<open>offered\<close>.
\<close>

inductive scope_run ::
  "WATCH_STREAM \<Rightarrow> WATCH_STREAM \<Rightarrow> net \<Rightarrow> (int \<times> cfloat list) list \<Rightarrow> bool" for st0 where
  start: "scope_run st0 st0 \<lparr>attempts = 0, sent = []\<rparr> []"
| block: "\<lbrakk>scope_run st0 st w offered; 0 \<le> now; early \<le> ksmps; length signal = ksmps;
    watch_add_a ksmps offset early now signal st = Some st'\<rbrakk> \<Longrightarrow>
    scope_run st0 st' w (offered @ map (\<lambda>i. (now + int (offset + i),
      [to_float (signal ! (offset + i))])) [0..<ksmps - early - offset])"
| pass: "\<lbrakk>scope_run st0 st w offered; send_stream_packets ok st w = (st', w')\<rbrakk> \<Longrightarrow>
    scope_run st0 st' w' offered"

text \<open>What was offered, split into what was kept and how many were dropped.\<close>

lemma scope_run_invariant:
  assumes "scope_run st0 st w offered"
    and "time_ok (msg_code DATA) st0" "pending_samples st0 < publish_threshold st0"
    and "stream_log st0 = []"
  shows "time_ok (msg_code DATA) st \<and> pending_samples st < publish_threshold st
    \<and> float_per_sample st = 1
    \<and> subseq (wire_log 1 w @ stream_log st) offered
    \<and> dropped_samples st = dropped_samples st0
        + of_nat (length offered - length (wire_log 1 w @ stream_log st))"
  using assms
proof induction
  case start
  then show ?case by (auto simp: wire_log_def time_ok_def)
next
  case (block st w offered now early ksmps signal offset st')
  note inv = block.IH [OF block.prems]
  obtain k where k: "k \<le> ksmps - early - offset"
    "appended (msg_code DATA) st
       (map (\<lambda>i. (now + int (offset + i), [to_float (signal ! (offset + i))])) [0..<k])
       (ksmps - early - offset - k) st'"
    using watch_add_a_block [OF _ _ block.hyps(2,3,4), of st offset] inv block.hyps(5) by auto
  let ?g = "\<lambda>i. (now + int (offset + i), [to_float (signal ! (offset + i))])"
  let ?n = "ksmps - early - offset"
  have split: "map ?g [0..<?n] = map ?g [0..<k] @ map ?g [k..<?n]"
  proof -
    have "k + (?n - k) = ?n" using k(1) by simp
    then have "[0..<?n] = [0..<k] @ [k..<?n]" using upt_add_eq_append [of 0 k "?n - k"] by simp
    then show ?thesis by (simp only: map_append)
  qed
  have "subseq ((wire_log 1 w @ stream_log st) @ map ?g [0..<k]) (offered @ map ?g [0..<?n])"
    unfolding split using inv by (intro list_emb_append_mono) (auto intro: list_emb_append2)
  moreover have "length (wire_log 1 w @ stream_log st) \<le> length offered"
    using inv by (blast intro: list_emb_length)
  moreover have "of_nat (?n - k) = (of_nat ?n - of_nat k :: u64)"
    using k(1) by (rule of_nat_diff)
  ultimately show ?case
    using inv k by (simp add: appended_def of_nat_diff)
next
  case (pass st w offered ok st' w')
  note inv = pass.IH [OF pass.prems]
  obtain k where p: "sent_prefix st w k st' w'"
    using send_stream_loop_spec [of st ok 8 w st' w'] inv pass.hyps(2) time_okD(1)
    by (auto simp: send_stream_packets_def)
  then obtain r where e: "st' = st\<lparr>read_pos := r\<rparr>" by (auto simp: sent_prefix_def)
  have "wire_log 1 w' @ stream_log st' = wire_log 1 w @ stream_log st"
    using sent_prefix_log [OF _ p] inv by auto
  then show ?case
    using inv time_ok_sent_prefix [OF _ p] by (simp add: e)
qed

text \<open>C2: In every performance, blocks and sender passes interleaved in any order, what has
  reached the socket followed by what the stream still holds is a subsequence of the samples
  offered: nothing is reordered, repeated, altered or invented, and the drop counter counts what
  is missing (modulo its 64 bits). Every packet still queued is one the viewer accepts.\<close>

theorem scope_run_conserves:
  assumes "scope_run st0 st w offered"
    and "time_ok (msg_code DATA) st0" "pending_samples st0 < publish_threshold st0"
    and "stream_log st0 = []"
  shows "subseq (wire_log 1 w @ stream_log st) offered
    \<and> dropped_samples st = dropped_samples st0
        + of_nat (length offered - length (wire_log 1 w @ stream_log st))
    \<and> list_all (time_packet_ok (msg_code DATA) 1) (queued st)"
  using scope_run_invariant [OF assms] by (auto simp: list_all_iff dest: time_okD(7))

theorem scope_run_conserves_witness:
  "\<exists>st st' w'. watch_add_a 4 0 0 7 [Fin 1, Fin 2, Fin 3, Fin 4] (sample_stream 1 3) = Some st
    \<and> send_stream_packets (\<lambda>n. n < 5) st \<lparr>attempts = 0, sent = []\<rparr> = (st', w')
    \<and> subseq (wire_log 1 w' @ stream_log st') ([] @ map (\<lambda>i. (7 + int (0 + i),
        [to_float ([Fin 1, Fin 2, Fin 3, Fin 4] ! (0 + i))])) [0..<4 - 0 - 0])
    \<and> list_all (time_packet_ok (msg_code DATA) 1) (queued st')"
proof -
  let ?st0 = "sample_stream 1 3" and ?sig = "[Fin 1, Fin 2, Fin 3, Fin 4]"
  have ok: "time_ok (msg_code DATA) ?st0" "pending_samples ?st0 < publish_threshold ?st0"
    "stream_log ?st0 = []"
    by (simp_all add: sample_stream_ok [simplified] sample_stream_simps)
  obtain st where st: "watch_add_a 4 0 0 7 ?sig ?st0 = Some st"
    using watch_add_a_block [OF ok(1,2), of 7 0 4 ?sig 0] by auto
  obtain st' w' where p: "send_stream_packets (\<lambda>n. n < 5) st \<lparr>attempts = 0, sent = []\<rparr> = (st', w')"
    by fastforce
  have "scope_run ?st0 st' w' ([] @ map (\<lambda>i. (7 + int (0 + i), [to_float (?sig ! (0 + i))]))
      [0..<4 - 0 - 0])"
    by (rule scope_run.pass [OF scope_run.block [OF scope_run.start _ _ _ st] p]) simp_all
  from scope_run_conserves [OF this ok] show ?thesis using st p by blast
qed

end
