(* ===== verification/Registry.thy ===== *)
theory Registry
  imports TimeFeed
begin

text \<open>
  The plugin's registry of graphs and streams (\<^verbatim>\<open>WATCH_MANAGER\<close> and \<^verbatim>\<open>WATCH_GRAPH\<close> in
  \<^verbatim>\<open>src/src/watch.h\<close>, with the operations of \<^verbatim>\<open>src/src/watch.c\<close> that work on them under the
  registry mutex; each is one atomic step).

  Streams are reached through pointers from two sides, the graph's slot array and the opcode
  instance that feeds them, so they live in an explicit \<open>heap\<close>: a freed stream is an address
  without contents, and a use after free is a lookup that fails. Graphs are reached only through
  the registry, by identifier; a graph pointer of the code is the index of its slot.
\<close>

section \<open>State\<close>

abbreviation REGISTRY_SIZE :: "'a::numeral" where "REGISTRY_SIZE \<equiv> 32"
abbreviation INVALID_HANDLE :: u32 where "INVALID_HANDLE \<equiv> 0"
abbreviation MAX_HANDLE_ID :: u32 where "MAX_HANDLE_ID \<equiv> 0x00FFFFFF"
abbreviation UINT64_MAX :: u64 where "UINT64_MAX \<equiv> - 1"

datatype GRAPH_REGISTER_RESULT = GRAPH_REGISTERED | GRAPH_REGISTRY_FULL
  | GRAPH_REGISTRY_INCONSISTENT | GRAPH_HANDLE_UNAVAILABLE

record WATCH_GRAPH =
  is_config_acked :: bool
  destroy_requested :: bool
  close_window_requested :: bool
  close_window_sent :: bool
  last_config_send_time :: u64
  data_config :: packet
  streams :: "nat option list"
  stream_count :: nat

record WATCH_MANAGER =
  graphs :: "WATCH_GRAPH option list"
  graph_count :: nat
  graph_capacity :: nat
  next_graph_id :: u32
  registry_mutex :: bool
  sender_thread :: bool
  socket_fd :: bool
  running :: bool
  viewer_probe_started_ms :: u64
  viewer_last_launch_ms :: u64
  viewer_last_launch_error :: int
  heap :: "nat \<rightharpoonup> WATCH_STREAM"
  next_addr :: nat

text \<open>Of the mutex, the thread and the socket only their presence is kept. \<open>heap\<close> and
  \<open>next_addr\<close> are the allocated streams and the next fresh address.

  \<open>handle_of g\<close> is \<^verbatim>\<open>graph->data_config.config.graph_id\<close>.\<close>

definition handle_of :: "WATCH_GRAPH \<Rightarrow> u32" where
  "handle_of g = graph_id (pk_config (data_config g))"

definition zero_graph :: WATCH_GRAPH where
  "zero_graph = \<lparr>is_config_acked = False, destroy_requested = False,
     close_window_requested = False, close_window_sent = False, last_config_send_time = 0,
     data_config = zero_packet, streams = replicate MAX_STREAMS None, stream_count = 0\<rparr>"

section \<open>Graphs\<close>

fun find_slot :: "WATCH_GRAPH option list \<Rightarrow> u32 \<Rightarrow> nat option" where
  "find_slot [] handle = None"
| "find_slot (g # gs) handle =
     (if (case g of None \<Rightarrow> False | Some c \<Rightarrow> handle_of c = handle) then Some 0
      else map_option Suc (find_slot gs handle))"

definition find_graph :: "WATCH_MANAGER \<Rightarrow> u32 \<Rightarrow> nat option" where
  "find_graph m handle = find_slot (take (graph_capacity m) (graphs m)) handle"

text \<open>A store through a graph pointer.\<close>

definition update_graph :: "nat \<Rightarrow> (WATCH_GRAPH \<Rightarrow> WATCH_GRAPH) \<Rightarrow> WATCH_MANAGER \<Rightarrow> WATCH_MANAGER" where
  "update_graph i f m = m\<lparr>graphs := (graphs m)[i := map_option f (graphs m ! i)]\<rparr>"

definition graph_at :: "WATCH_MANAGER \<Rightarrow> nat \<Rightarrow> WATCH_GRAPH" where
  "graph_at m i = the (graphs m ! i)"

definition request_graph_destroy :: "u32 \<Rightarrow> bool \<Rightarrow> WATCH_MANAGER option \<Rightarrow> WATCH_MANAGER option" where
  "request_graph_destroy handle close_window mo =
     (if handle = INVALID_HANDLE then mo
      else case mo of
        None \<Rightarrow> None
      | Some m \<Rightarrow>
          (case find_graph m handle of
             None \<Rightarrow> Some m
           | Some i \<Rightarrow> Some (update_graph i (\<lambda>g. g\<lparr>destroy_requested := True,
               close_window_requested := close_window \<or> close_window_requested g\<rparr>) m)))"

text \<open>The search for an identifier that no graph uses, from \<open>next_graph_id\<close> on; the counter
  wraps within the range of handles.\<close>

definition bump_graph_id :: "u32 \<Rightarrow> u32" where
  "bump_graph_id k =
     (let k' = k + 1 in if k' = INVALID_HANDLE \<or> k' > MAX_HANDLE_ID then 1 else k')"

definition handle_in_use :: "WATCH_MANAGER \<Rightarrow> u32 \<Rightarrow> bool" where
  "handle_in_use m k \<longleftrightarrow> find_graph m k \<noteq> None"

fun allocate_loop :: "nat \<Rightarrow> WATCH_MANAGER \<Rightarrow> u32 \<times> WATCH_MANAGER" where
  "allocate_loop 0 m = (INVALID_HANDLE, m)"
| "allocate_loop (Suc n) m =
     (let candidate = next_graph_id m;
          m' = m\<lparr>next_graph_id := bump_graph_id (next_graph_id m)\<rparr> in
      if \<not> handle_in_use m' candidate then (candidate, m') else allocate_loop n m')"

definition allocate_graph_id :: "WATCH_MANAGER \<Rightarrow> u32 \<times> WATCH_MANAGER" where
  "allocate_graph_id m = allocate_loop (graph_capacity m + 1) m"

text \<open>\<open>now\<close> is the current sample time. A graph that is not registered is dropped by the
  caller, so only the registered one is returned in the state.\<close>

definition register_graph :: "int \<Rightarrow> WATCH_GRAPH \<Rightarrow> WATCH_MANAGER
    \<Rightarrow> GRAPH_REGISTER_RESULT \<times> u32 \<times> WATCH_MANAGER" where
  "register_graph now g m =
     (if graph_count m \<ge> graph_capacity m then (GRAPH_REGISTRY_FULL, handle_of g, m)
      else case first_free (take (graph_capacity m) (graphs m)) of
        None \<Rightarrow> (GRAPH_REGISTRY_INCONSISTENT, handle_of g, m)
      | Some slot \<Rightarrow>
          (case allocate_graph_id m of (k, m') \<Rightarrow>
             if k = INVALID_HANDLE then (GRAPH_HANDLE_UNAVAILABLE, k, m')
             else
               let g' = g\<lparr>
                 data_config := (data_config g)\<lparr>
                   header := \<lparr>magic = WATCH_MAGIC, version = PROT_VERSION,
                     msg_type = msg_code CONFIG, sequence = now, payload_size = SIZEOF_CONFIG\<rparr>,
                   pk_config := (pk_config (data_config g))\<lparr>graph_id := k\<rparr>\<rparr>,
                 is_config_acked := False, last_config_send_time := UINT64_MAX\<rparr> in
               (GRAPH_REGISTERED, k,
                m'\<lparr>graphs := (graphs m')[slot := Some g'], graph_count := graph_count m' + 1\<rparr>)))"

section \<open>Releasing memory\<close>

definition free_stream :: "nat option \<Rightarrow> (nat \<rightharpoonup> WATCH_STREAM) \<Rightarrow> (nat \<rightharpoonup> WATCH_STREAM)" where
  "free_stream ref h = (case ref of None \<Rightarrow> h | Some a \<Rightarrow> h(a := None))"

text \<open>Freeing a graph frees the streams its slots still point to.\<close>

definition free_graph :: "WATCH_GRAPH option \<Rightarrow> (nat \<rightharpoonup> WATCH_STREAM) \<Rightarrow> (nat \<rightharpoonup> WATCH_STREAM)" where
  "free_graph go h = (case go of None \<Rightarrow> h | Some g \<Rightarrow> fold free_stream (streams g) h)"

section \<open>Streams\<close>

text \<open>Errors of the initialisation passes. \<open>UndefinedConversion\<close> and \<open>DanglingStream\<close>
  are not messages: they stand for a float-to-integer conversion C leaves undefined and for an
  access to a freed stream.\<close>

datatype watch_error = UndefinedConversion | DanglingStream
  | ManagerInitFailed | ManagerNotFound | OutOfMemory | TitleTooLong | RegistryInconsistent
  | HandleAllocationFailed | InvalidGraphHandle | DomainMismatch | StreamRegistryFull
  | BadTickCount | RangeMinimum | RangeMaximum | RangeOrder | BadWindowSize | BadScale
  | BadHistory | BadTheme | NullSignal | SlidingSignal | BadFftSize | BadSpectralFormat
  | TableNotFound | TableTooLarge | BadLevels

type_synonym status = "watch_error + unit"

abbreviation OK :: status where "OK \<equiv> Inr ()"

text \<open>\<open>ref\<close> is the opcode's stream pointer, \<open>mo\<close> the manager if the session has one. The
  outcome is \<^const>\<open>None\<close> when the stream it refers to has been freed.\<close>

definition release_stream ::
  "nat option \<Rightarrow> WATCH_MANAGER option \<Rightarrow> (nat option \<times> WATCH_MANAGER option) option" where
  "release_stream ref mo =
     (case ref of
        None \<Rightarrow> Some (None, mo)
      | Some a \<Rightarrow>
          (case mo of
             None \<Rightarrow> Some (None, None)
           | Some m \<Rightarrow>
               (case heap m a of
                  None \<Rightarrow> None
                | Some st \<Rightarrow>
                    let st1 = (if pending_samples st > 0
                               then publish_time_packet st (next_pos (write_pos st)) else st) in
                    Some (None, Some (m\<lparr>heap := (heap m)(a \<mapsto> st1\<lparr>release_requested := True\<rparr>)\<rparr>)))))"

text \<open>How many samples a packet of the stream collects: as many as fit, except that points are
  published once per frame of the viewer and a meter publishes its own packets.\<close>

definition stream_threshold :: "u32 \<Rightarrow> cfloat \<Rightarrow> nat \<Rightarrow> nat" where
  "stream_threshold dmn sample_rate fps =
     (let max_samples = MAX_STREAM_SAMPLES div fps in
      if dmn = WATCH_DOMAIN_METER then 1
      else if dmn = WATCH_DOMAIN_POINT then
        let frame_samples = fceil (fdiv f64 sample_rate (Fin WATCH_VIEWER_REFRESH_HZ)) in
        if Fin 1 \<le> frame_samples \<and> frame_samples < Fin (of_nat max_samples)
        then unat (the (to_u32 frame_samples))
        else if frame_samples < Fin 1 then 1
        else max_samples
      else max_samples)"

definition new_stream :: "WATCH_GRAPH \<Rightarrow> nat \<Rightarrow> cfloat \<Rightarrow> nat \<Rightarrow> WATCH_STREAM" where
  "new_stream g slot sample_rate fps = zero_stream\<lparr>
     st_graph_id := handle_of g, st_stream_id := of_nat slot, st_sample_rate := sample_rate,
     float_per_sample := fps,
     publish_threshold := stream_threshold (domain (pk_config (data_config g))) sample_rate fps\<rparr>"

text \<open>\<open>mem\<close> says whether the allocation succeeds. The result has the new value of the
  opcode's pointer.\<close>

definition create_stream ::
  "bool \<Rightarrow> cfloat \<Rightarrow> u32 \<Rightarrow> u32 \<Rightarrow> cfloat \<Rightarrow> nat \<Rightarrow> nat option \<Rightarrow> WATCH_MANAGER option
     \<Rightarrow> status \<times> nat option \<times> WATCH_MANAGER option" where
  "create_stream mem handle first_domain second_domain sample_rate fps ref mo =
     (case release_stream ref mo of
        None \<Rightarrow> (Inl DanglingStream, ref, mo)
      | Some (ref', mo') \<Rightarrow>
     (case mo' of
        None \<Rightarrow> (Inl ManagerNotFound, ref', None)
      | Some m \<Rightarrow>
     if \<not> mem then (Inl OutOfMemory, ref', Some m) else
     (case to_u32 handle of
        None \<Rightarrow> (Inl UndefinedConversion, ref', Some m)
      | Some h \<Rightarrow>
     (case find_graph m h of
        None \<Rightarrow> (Inl InvalidGraphHandle, ref', Some m)
      | Some i \<Rightarrow>
     let g = graph_at m i in
     if destroy_requested g then (Inl InvalidGraphHandle, ref', Some m) else
     let dmn = domain (pk_config (data_config g)) in
     if dmn \<noteq> first_domain \<and> dmn \<noteq> second_domain then (Inl DomainMismatch, ref', Some m) else
     (case first_free (streams g) of
        None \<Rightarrow> (Inl StreamRegistryFull, ref', Some m)
      | Some slot \<Rightarrow>
          let a = next_addr m;
              m1 = m\<lparr>heap := (heap m)(a \<mapsto> new_stream g slot sample_rate fps), next_addr := a + 1\<rparr> in
          (OK, Some a, Some (update_graph i (\<lambda>g. g\<lparr>
             streams := (streams g)[slot := Some a], stream_count := stream_count g + 1\<rparr>) m1)))))))"

section \<open>Themes\<close>

text \<open>The checks of the arguments, which may be missing; then the change, which starts a new
  round of acknowledgement under a new sequence number.\<close>

definition integer_valued :: "cfloat \<Rightarrow> u32 option" where
  "integer_valued x = (case to_u32 x of None \<Rightarrow> None
     | Some w \<Rightarrow> if feq x (of_u32 f64 w) then Some w else None)"

definition theme_of :: "cfloat \<Rightarrow> u32 option" where
  "theme_of x = (if \<not> isfinite x \<or> (\<not> feq x (Fin 0) \<and> \<not> feq x (Fin 1)) then None
     else to_u32 x)"

definition set_theme :: "u32 \<Rightarrow> WATCH_GRAPH \<Rightarrow> WATCH_GRAPH" where
  "set_theme th g =
     (if theme (pk_config (data_config g)) = th then g
      else g\<lparr>
        data_config := (data_config g)\<lparr>
          pk_config := (pk_config (data_config g))\<lparr>theme := th\<rparr>,
          header := (header (data_config g))\<lparr>sequence :=
            (if sequence (header (data_config g)) = INT64_MAX then 0
             else sequence (header (data_config g)) + 1)\<rparr>\<rparr>,
        is_config_acked := False, last_config_send_time := UINT64_MAX\<rparr>)"

definition watch_theme ::
  "cfloat option \<Rightarrow> cfloat option \<Rightarrow> WATCH_MANAGER option \<Rightarrow> status \<times> WATCH_MANAGER option" where
  "watch_theme handle theme_value mo =
     (case mo of
        None \<Rightarrow> (Inl ManagerNotFound, None)
      | Some m \<Rightarrow>
     (case handle of
        None \<Rightarrow> (Inl InvalidGraphHandle, mo)
      | Some x \<Rightarrow>
     if \<not> isfinite x \<or> x < Fin 1 \<or> Fin 16777215 < x \<or> integer_valued x = None
     then (Inl InvalidGraphHandle, mo) else
     (case Option.bind theme_value theme_of of
        None \<Rightarrow> (Inl BadTheme, mo)
      | Some th \<Rightarrow>
     (case find_graph m (the (integer_valued x)) of
        None \<Rightarrow> (Inl InvalidGraphHandle, mo)
      | Some i \<Rightarrow> (OK, Some (update_graph i (set_theme th) m))))))"

section \<open>Titles\<close>

text \<open>The C string of a title argument, and its copy with a terminator into the title array;
  one that does not fit is refused.\<close>

definition c_string :: "char list \<Rightarrow> char list" where
  "c_string s = takeWhile (\<lambda>c. c \<noteq> CHR 0x00) s"

definition string_to_title :: "char list \<Rightarrow> char list option \<Rightarrow> char list option" where
  "string_to_title dest src =
     (case src of
        None \<Rightarrow> Some (dest[0 := CHR 0x00])
      | Some s \<Rightarrow>
          if length (c_string s) \<ge> MAX_TITLE_SIZE then None
          else Some (store_at 0 (c_string s @ [CHR 0x00]) dest))"

section \<open>Looking up graphs\<close>

lemma find_slot_Some:
  "find_slot gs h = Some i \<Longrightarrow> i < length gs \<and> (\<exists>g. gs ! i = Some g \<and> handle_of g = h)"
proof (induction gs h arbitrary: i rule: find_slot.induct)
  case (2 g gs h)
  then show ?case by (cases i) (auto split: if_splits option.splits)
qed simp

lemma find_slot_None:
  "find_slot gs h = None \<longleftrightarrow> (\<forall>g. Some g \<in> set gs \<longrightarrow> handle_of g \<noteq> h)"
  by (induction gs h rule: find_slot.induct) (auto split: option.splits)

lemma find_slot_replace:
  "i < length gs \<Longrightarrow> gs ! i = Some g0 \<Longrightarrow> handle_of g = handle_of g0 \<Longrightarrow>
     find_slot (gs[i := Some g]) h = find_slot gs h"
proof (induction gs h arbitrary: i rule: find_slot.induct)
  case (2 g1 gs h)
  then show ?case by (cases i) auto
qed simp

interpretation registry: slot_table handle_of find_slot
  by unfold_locales (auto dest: find_slot_Some simp: find_slot_None)

section \<open>The registry invariant\<close>

text \<open>A graph with its streams: the handle is one the code hands out, the slot array has its
  fixed size, the counter is right, and every slot in use points to a live stream that carries
  the graph's handle and the slot's number.\<close>

definition graph_ok :: "(nat \<rightharpoonup> WATCH_STREAM) \<Rightarrow> WATCH_GRAPH \<Rightarrow> bool" where
  "graph_ok h g \<longleftrightarrow> 1 \<le> handle_of g \<and> handle_of g \<le> MAX_HANDLE_ID
     \<and> length (streams g) = MAX_STREAMS \<and> stream_count g = used_slots (streams g)
     \<and> (\<forall>s a. s < MAX_STREAMS \<longrightarrow> streams g ! s = Some a \<longrightarrow>
          (\<exists>st. h a = Some st \<and> st_graph_id st = handle_of g \<and> st_stream_id st = of_nat s))"

definition owner_slot :: "WATCH_MANAGER \<Rightarrow> nat \<Rightarrow> nat \<Rightarrow> nat \<Rightarrow> bool" where
  "owner_slot m a i s \<longleftrightarrow> i < REGISTRY_SIZE \<and> s < MAX_STREAMS
     \<and> (\<exists>g. graphs m ! i = Some g \<and> streams g ! s = Some a)"

definition reg_ok :: "WATCH_MANAGER \<Rightarrow> bool" where
  "reg_ok m \<longleftrightarrow> graph_capacity m = REGISTRY_SIZE \<and> length (graphs m) = REGISTRY_SIZE
     \<and> graph_count m = used_slots (graphs m)
     \<and> 1 \<le> next_graph_id m \<and> next_graph_id m \<le> MAX_HANDLE_ID
     \<and> (\<forall>i g. i < REGISTRY_SIZE \<longrightarrow> graphs m ! i = Some g \<longrightarrow> graph_ok (heap m) g)
     \<and> keys_unique handle_of (graphs m)
     \<and> (\<forall>a st. heap m a = Some st \<longrightarrow> a < next_addr m \<and> (\<exists>i s. owner_slot m a i s))"

lemma reg_okD:
  assumes "reg_ok m"
  shows "graph_capacity m = 32" "length (graphs m) = 32" "graph_count m = used_slots (graphs m)"
    "1 \<le> next_graph_id m" "next_graph_id m \<le> MAX_HANDLE_ID"
    "\<And>i g. i < 32 \<Longrightarrow> graphs m ! i = Some g \<Longrightarrow> graph_ok (heap m) g"
    "\<And>i j g g'. i < 32 \<Longrightarrow> j < 32 \<Longrightarrow> graphs m ! i = Some g \<Longrightarrow> graphs m ! j = Some g' \<Longrightarrow>
       handle_of g = handle_of g' \<Longrightarrow> i = j"
    "\<And>a st. heap m a = Some st \<Longrightarrow> a < next_addr m"
    "\<And>a st. heap m a = Some st \<Longrightarrow> \<exists>i s. owner_slot m a i s"
  using assms keys_uniqueD [of handle_of "graphs m"] unfolding reg_ok_def by (metis | blast)+

lemma reg_okI:
  assumes "graph_capacity m = 32" "length (graphs m) = 32" "graph_count m = used_slots (graphs m)"
    "1 \<le> next_graph_id m" "next_graph_id m \<le> MAX_HANDLE_ID"
    "\<And>i g. i < 32 \<Longrightarrow> graphs m ! i = Some g \<Longrightarrow> graph_ok (heap m) g"
    "\<And>i j g g'. i < 32 \<Longrightarrow> j < 32 \<Longrightarrow> graphs m ! i = Some g \<Longrightarrow> graphs m ! j = Some g' \<Longrightarrow>
       handle_of g = handle_of g' \<Longrightarrow> i = j"
    "\<And>a st. heap m a = Some st \<Longrightarrow> a < next_addr m"
    "\<And>a st. heap m a = Some st \<Longrightarrow> \<exists>i s. owner_slot m a i s"
  shows "reg_ok m"
  using assms unfolding reg_ok_def keys_unique_def by (metis (no_types))

lemma graph_okD:
  assumes "graph_ok h g"
  shows "1 \<le> handle_of g" "handle_of g \<le> MAX_HANDLE_ID" "length (streams g) = 64"
    "stream_count g = used_slots (streams g)"
    "\<And>s a. s < 64 \<Longrightarrow> streams g ! s = Some a \<Longrightarrow>
       \<exists>st. h a = Some st \<and> st_graph_id st = handle_of g \<and> st_stream_id st = of_nat s"
  using assms unfolding graph_ok_def by blast+

lemma find_graph_Some:
  assumes "reg_ok m" "find_graph m h = Some i"
  shows "i < 32" "graphs m ! i = Some (graph_at m i)" "handle_of (graph_at m i) = h"
    "graph_ok (heap m) (graph_at m i)"
proof -
  have "i < 32 \<and> (\<exists>g. graphs m ! i = Some g \<and> handle_of g = h)"
    using find_slot_Some [of "graphs m" h i] assms reg_okD(1,2) [OF assms(1)]
    by (simp add: find_graph_def)
  then show "i < 32" "graphs m ! i = Some (graph_at m i)" "handle_of (graph_at m i) = h"
    "graph_ok (heap m) (graph_at m i)"
    using reg_okD(6) [OF assms(1)] by (auto simp: graph_at_def)
qed

lemma find_graph_None:
  assumes "reg_ok m"
  shows "find_graph m h = None \<longleftrightarrow> (\<forall>i g. i < 32 \<longrightarrow> graphs m ! i = Some g \<longrightarrow> handle_of g \<noteq> h)"
  using reg_okD(1,2) [OF assms]
  by (simp add: find_graph_def find_slot_None in_set_conv_nth) metis

text \<open>A stream has one place in the registry: its fields say which.\<close>

lemma owner_slot_unique:
  assumes ok: "reg_ok m" and "owner_slot m a i s" "owner_slot m a j t"
  shows "i = j \<and> s = t"
proof -
  from assms obtain g g' where
    g: "i < 32" "s < 64" "graphs m ! i = Some g" "streams g ! s = Some a" and
    g': "j < 32" "t < 64" "graphs m ! j = Some g'" "streams g' ! t = Some a"
    by (auto simp: owner_slot_def)
  obtain st where "heap m a = Some st" "st_graph_id st = handle_of g" "st_stream_id st = of_nat s"
    using graph_okD(5) [OF reg_okD(6) [OF ok g(1,3)] g(2,4)] by blast
  moreover obtain st' where "heap m a = Some st'" "st_graph_id st' = handle_of g'"
    "st_stream_id st' = of_nat t"
    using graph_okD(5) [OF reg_okD(6) [OF ok g'(1,3)] g'(2,4)] by blast
  ultimately have h: "handle_of g = handle_of g'" and "(of_nat s :: u32) = of_nat t" by auto
  then have "s = t" using g(2) g'(2) u32_of_nat_inj [of s t] by simp
  moreover have "i = j" using reg_okD(7) [OF ok g(1) g'(1) g(3) g'(3) h] .
  ultimately show ?thesis by simp
qed

text \<open>Preservation by stores through a graph pointer and through a stream pointer.\<close>

lemma reg_ok_update_graph:
  assumes ok: "reg_ok m" and i: "i < 32" "graphs m ! i = Some g"
    and f: "handle_of (f g) = handle_of g" "streams (f g) = streams g" "stream_count (f g) = stream_count g"
  shows "reg_ok (update_graph i f m)"
proof -
  note d = reg_okD [OF ok]
  have gr: "graphs (update_graph i f m) ! j = (if j = i then Some (f g) else graphs m ! j)"
    if "j < 32" for j using that i d(2) by (simp add: update_graph_def)
  have h: "heap (update_graph i f m) = heap m" "next_addr (update_graph i f m) = next_addr m"
    "graph_capacity (update_graph i f m) = 32" "length (graphs (update_graph i f m)) = 32"
    "next_graph_id (update_graph i f m) = next_graph_id m"
    using d by (simp_all add: update_graph_def)
  have cnt: "graph_count (update_graph i f m) = used_slots (graphs (update_graph i f m))"
    using d i used_slots_replace [of i "graphs m"] by (simp add: update_graph_def)
  have og: "graph_ok (heap m) (f g)" using d(6) [OF i] f by (simp add: graph_ok_def)
  have os: "owner_slot (update_graph i f m) a j s = owner_slot m a j s" for a j s
    using i f gr by (cases "j = i") (auto simp: owner_slot_def split: if_splits)
  have gs: "graphs (update_graph i f m) ! j = Some g' \<Longrightarrow> j < 32 \<Longrightarrow>
      graph_ok (heap m) g' \<and> (\<exists>g0. graphs m ! j = Some g0 \<and> handle_of g0 = handle_of g')" for j g'
    using gr [of j] og d(6) i f(1) by (auto split: if_splits)
  show ?thesis
  proof (rule reg_okI)
    fix j k g1 g2
    assume "j < 32" "k < 32" "graphs (update_graph i f m) ! j = Some g1"
      "graphs (update_graph i f m) ! k = Some g2" "handle_of g1 = handle_of g2"
    then show "j = k" using gs d(7) by metis
  qed (use d gs cnt in \<open>auto simp: h os\<close>)
qed

lemma reg_ok_update_stream:
  assumes ok: "reg_ok m" and a: "heap m a = Some st"
    and ids: "st_graph_id st' = st_graph_id st" "st_stream_id st' = st_stream_id st"
  shows "reg_ok (m\<lparr>heap := (heap m)(a \<mapsto> st')\<rparr>)"
proof -
  note d = reg_okD [OF ok]
  have g: "graph_ok ((heap m)(a \<mapsto> st')) g" if "graph_ok (heap m) g" for g
    using that a ids unfolding graph_ok_def by (metis fun_upd_apply option.inject)
  have os: "owner_slot (m\<lparr>heap := (heap m)(a \<mapsto> st')\<rparr>) = owner_slot m"
    by (simp add: owner_slot_def fun_eq_iff)
  show ?thesis
  proof (rule reg_okI)
    fix i j g g'
    assume "i < 32" "j < 32" "graphs (m\<lparr>heap := (heap m)(a \<mapsto> st')\<rparr>) ! i = Some g"
      "graphs (m\<lparr>heap := (heap m)(a \<mapsto> st')\<rparr>) ! j = Some g'" "handle_of g = handle_of g'"
    then show "i = j" using d(7) by simp
  qed (use d g a in \<open>auto simp: os split: if_splits\<close>)
qed

section \<open>Handles\<close>

text \<open>The candidates of the search are consecutive and, being fewer than there are handles,
  distinct; a registry of 32 graphs cannot occupy 33 of them.\<close>

lemma bump_graph_id_range:
  assumes "1 \<le> k" "k \<le> MAX_HANDLE_ID"
  shows "1 \<le> bump_graph_id k" "bump_graph_id k \<le> MAX_HANDLE_ID"
    "unat (bump_graph_id k) - 1 = (unat k - 1 + 1) mod 16777215"
proof -
  have k: "1 \<le> unat k" "unat k \<le> 16777215" using assms by (simp_all add: word_le_nat_alt)
  then have k1: "unat (k + 1) = unat k + 1" by (simp add: unat_word_ariths)
  have "k + 1 \<noteq> 0"
  proof
    assume "k + 1 = 0"
    then have "unat (k + 1) = 0" by simp
    then show False using k1 by simp
  qed
  moreover have "k + 1 > MAX_HANDLE_ID \<longleftrightarrow> unat k = 16777215"
    using k k1 by (auto simp: word_less_nat_alt)
  ultimately have b: "bump_graph_id k = (if unat k = 16777215 then 1 else k + 1)"
    by (simp add: bump_graph_id_def Let_def)
  show "1 \<le> bump_graph_id k" "bump_graph_id k \<le> MAX_HANDLE_ID"
    "unat (bump_graph_id k) - 1 = (unat k - 1 + 1) mod 16777215"
    unfolding b using k k1 by (auto simp: word_le_nat_alt)
qed

lemma bump_iter:
  assumes "1 \<le> k" "k \<le> MAX_HANDLE_ID"
  shows "1 \<le> (bump_graph_id ^^ i) k \<and> (bump_graph_id ^^ i) k \<le> MAX_HANDLE_ID
    \<and> unat ((bump_graph_id ^^ i) k) - 1 = (unat k - 1 + i) mod 16777215"
proof (induction i)
  case 0
  have "unat k \<le> 16777215" "1 \<le> unat k" using assms by (simp_all add: word_le_nat_alt)
  then show ?case using assms by simp
next
  case (Suc i)
  then show ?case using bump_graph_id_range [of "(bump_graph_id ^^ i) k"] by (simp add: mod_simps)
qed

lemma bump_iter_inj:
  assumes "1 \<le> k" "k \<le> MAX_HANDLE_ID" and "i < 33" "j < 33"
    and "(bump_graph_id ^^ i) k = (bump_graph_id ^^ j) k"
  shows "i = j"
proof -
  have "unat k \<le> 16777215" "1 \<le> unat k" using assms(1,2) by (simp_all add: word_le_nat_alt)
  then have lt: "unat k - 1 < 16777215" by linarith
  have "(unat k - 1 + i) mod 16777215 = (unat k - 1 + j) mod 16777215"
    using bump_iter [OF assms(1,2), of i] bump_iter [OF assms(1,2), of j] assms(5) by metis
  then show ?thesis using lt assms(3,4) by (auto simp: mod_if split: if_splits)
qed

text \<open>The search returns the first unused candidate.\<close>

lemma allocate_loop_spec:
  "allocate_loop n m = (k, m') \<Longrightarrow>
     (\<exists>i < n. k = (bump_graph_id ^^ i) (next_graph_id m) \<and> \<not> handle_in_use m k
        \<and> m' = m\<lparr>next_graph_id := (bump_graph_id ^^ Suc i) (next_graph_id m)\<rparr>)
     \<or> k = INVALID_HANDLE \<and> (\<forall>i < n. handle_in_use m ((bump_graph_id ^^ i) (next_graph_id m)))
        \<and> m' = m\<lparr>next_graph_id := (bump_graph_id ^^ n) (next_graph_id m)\<rparr>"
proof (induction n arbitrary: m)
  case (Suc n)
  let ?m = "m\<lparr>next_graph_id := bump_graph_id (next_graph_id m)\<rparr>"
  have u: "handle_in_use ?m h = handle_in_use m h" for h
    by (simp add: handle_in_use_def find_graph_def)
  show ?case
  proof (cases "handle_in_use m (next_graph_id m)")
    case False
    then have "allocate_loop (Suc n) m = (next_graph_id m, ?m)" using u by (simp add: Let_def)
    then have "(k, m') = (next_graph_id m, ?m)" using Suc.prems by (rule trans [OF sym, rotated])
    then have "k = next_graph_id m" "m' = ?m" by blast+
    then show ?thesis using False by (intro disjI1 exI [of _ 0]) simp
  next
    case True
    then have r: "allocate_loop n ?m = (k, m')" using Suc.prems u by simp
    have c: "(bump_graph_id ^^ i) (next_graph_id ?m) = (bump_graph_id ^^ Suc i) (next_graph_id m)" for i
      by (simp only: funpow_Suc_right o_apply select_convs update_convs) simp
    have s: "?m\<lparr>next_graph_id := x\<rparr> = m\<lparr>next_graph_id := x\<rparr>" for x by simp
    note IH = Suc.IH [OF r, unfolded c s u]
    show ?thesis
    proof (cases "k = INVALID_HANDLE \<and> (\<forall>i < n. handle_in_use m ((bump_graph_id ^^ Suc i) (next_graph_id m)))
        \<and> m' = m\<lparr>next_graph_id := (bump_graph_id ^^ Suc n) (next_graph_id m)\<rparr>")
      case ex: True
      have "handle_in_use m ((bump_graph_id ^^ i) (next_graph_id m))" if "i < Suc n" for i
        using that ex True by (cases i) (auto simp del: funpow.simps(2))
      then show ?thesis using ex by blast
    next
      case False
      with IH obtain i where "i < n" "k = (bump_graph_id ^^ Suc i) (next_graph_id m)"
        "\<not> handle_in_use m k" "m' = m\<lparr>next_graph_id := (bump_graph_id ^^ Suc (Suc i)) (next_graph_id m)\<rparr>"
        by (elim disjE exE conjE) (rule that, assumption+, simp only: simp_thms)
      then show ?thesis by (intro disjI1 exI [of _ "Suc i"] conjI) (simp_all only: Suc_less_eq simp_thms)
    qed
  qed
qed simp

lemma handles_in_use_bound:
  assumes ok: "reg_ok m" and S: "\<forall>k \<in> S. handle_in_use m k"
  shows "card S \<le> 32"
proof -
  have "S \<subseteq> (\<lambda>i. handle_of (graph_at m i)) ` {..<32}"
  proof
    fix k assume "k \<in> S"
    then obtain i where i: "find_graph m k = Some i" using S by (auto simp: handle_in_use_def)
    then show "k \<in> (\<lambda>i. handle_of (graph_at m i)) ` {..<32}"
      using find_graph_Some [OF ok i] by force
  qed
  then have "card S \<le> card ((\<lambda>i. handle_of (graph_at m i)) ` {..<32::nat})"
    by (intro card_mono) auto
  also have "\<dots> \<le> 32" using card_image_le [of "{..<32::nat}"] by force
  finally show ?thesis .
qed

lemma allocate_graph_id_spec:
  assumes ok: "reg_ok m" and r: "allocate_graph_id m = (k, m')"
  shows "1 \<le> k" "k \<le> MAX_HANDLE_ID" "\<not> handle_in_use m k"
    and "\<exists>nx. m' = m\<lparr>next_graph_id := nx\<rparr> \<and> 1 \<le> nx \<and> nx \<le> MAX_HANDLE_ID"
proof -
  note d = reg_okD [OF ok]
  let ?c = "\<lambda>i. (bump_graph_id ^^ i) (next_graph_id m)"
  have "\<not> (\<forall>i < 33. handle_in_use m (?c i))"
  proof
    assume all: "\<forall>i < 33. handle_in_use m (?c i)"
    have "\<forall>k \<in> ?c ` {..<33}. handle_in_use m k"
    proof
      fix k assume "k \<in> ?c ` {..<33}"
      then obtain i where "i \<in> {..<33}" "k = ?c i" by (rule imageE)
      then show "handle_in_use m k" using all by (simp only: lessThan_iff)
    qed
    then have "card (?c ` {..<33}) \<le> 32" by (rule handles_in_use_bound [OF ok])
    moreover have "inj_on ?c {..<33}"
      by (rule inj_onI) (rule bump_iter_inj [OF d(4,5)], simp_all only: lessThan_iff)
    then have "card (?c ` {..<33}) = card {..<33::nat}" by (rule card_image)
    ultimately show False by (simp only: card_lessThan)
  qed
  moreover have "allocate_loop 33 m = (k, m')" using r d(1) by (simp add: allocate_graph_id_def)
  ultimately obtain i where "k = ?c i" "\<not> handle_in_use m k" "m' = m\<lparr>next_graph_id := ?c (Suc i)\<rparr>"
    using allocate_loop_spec [of 33 m k m'] by blast
  then show "1 \<le> k" "k \<le> MAX_HANDLE_ID" "\<not> handle_in_use m k"
    "\<exists>nx. m' = m\<lparr>next_graph_id := nx\<rparr> \<and> 1 \<le> nx \<and> nx \<le> MAX_HANDLE_ID"
    using bump_iter [OF d(4,5), of i] bump_iter [OF d(4,5), of "Suc i"] by auto
qed

section \<open>Adding and removing\<close>

lemma reg_ok_add_graph:
  assumes ok: "reg_ok m" and i: "i < 32" "graphs m ! i = None"
    and g: "1 \<le> handle_of g" "handle_of g \<le> MAX_HANDLE_ID" "streams g = replicate 64 None"
      "stream_count g = 0"
    and new: "find_graph m (handle_of g) = None" and nx: "1 \<le> nx" "nx \<le> MAX_HANDLE_ID"
  shows "reg_ok (m\<lparr>next_graph_id := nx, graphs := (graphs m)[i := Some g],
      graph_count := graph_count m + 1\<rparr>)" (is "reg_ok ?m0")
proof -
  define m' where "m' = ?m0"
  note d = reg_okD [OF ok]
  have gi: "graphs m' ! j = (if j = i then Some g else graphs m ! j)" if "j < 32" for j
    using that i d(2) by (simp add: m'_def)
  have ne: "handle_of g' \<noteq> handle_of g" if "j < 32" "graphs m ! j = Some g'" for j g'
    using new that find_graph_None [OF ok] by blast
  have h: "heap m' = heap m" "next_addr m' = next_addr m" by (simp_all add: m'_def)
  have "reg_ok m'"
  proof (rule reg_okI)
    show "graph_capacity m' = 32" "length (graphs m') = 32" "1 \<le> next_graph_id m'"
      "next_graph_id m' \<le> MAX_HANDLE_ID" using d nx by (simp_all add: m'_def)
    show "graph_count m' = used_slots (graphs m')"
      using d i used_slots_fill [of i "graphs m" g] by (simp add: m'_def)
    show "graph_ok (heap m') g'" if "j < 32" "graphs m' ! j = Some g'" for j g'
      using that g d(6) by (auto simp: gi h graph_ok_def used_slots_def split: if_splits)
    show "j = k" if "j < 32" "k < 32" "graphs m' ! j = Some g1" "graphs m' ! k = Some g2"
      "handle_of g1 = handle_of g2" for j k g1 g2
      using that ne d(7) by (auto simp: gi h split: if_splits)
    show "a < next_addr m'" if "heap m' a = Some st" for a st using that d(8) by (simp add: h)
    show "\<exists>j s. owner_slot m' a j s" if a: "heap m' a = Some st" for a st
    proof -
      obtain j s g' where "j < 32" "s < 64" "graphs m ! j = Some g'" "streams g' ! s = Some a"
        using d(9) [of a st] a by (auto simp: h owner_slot_def)
      then show ?thesis using i gi by (intro exI [of _ j] exI [of _ s]) (auto simp: owner_slot_def)
    qed
  qed
  then show ?thesis by (simp only: m'_def)
qed

lemma reg_ok_add_stream:
  assumes ok: "reg_ok m" and i: "i < 32" "graphs m ! i = Some g"
    and s: "s < 64" "streams g ! s = None" and a: "a = next_addr m"
    and st: "st_graph_id st = handle_of g" "st_stream_id st = of_nat s"
  shows "reg_ok (update_graph i (\<lambda>g. g\<lparr>streams := (streams g)[s := Some a],
      stream_count := stream_count g + 1\<rparr>) (m\<lparr>heap := (heap m)(a \<mapsto> st), next_addr := a + 1\<rparr>))"
    (is "reg_ok ?m0")
proof -
  define m' where "m' = ?m0"
  note d = reg_okD [OF ok] and gok = reg_okD(6) [OF ok i]
  let ?g = "g\<lparr>streams := (streams g)[s := Some a], stream_count := stream_count g + 1\<rparr>"
  have gi: "graphs m' ! j = (if j = i then Some ?g else graphs m ! j)" if "j < 32" for j
    using that i d(2) by (simp add: m'_def update_graph_def)
  have h: "heap m' = (heap m)(a \<mapsto> st)" "next_addr m' = a + 1" by (simp_all add: m'_def update_graph_def)
  have fresh: "heap m a = None" using d(8) [of a] a by fastforce
  have old: "graph_ok ((heap m)(a \<mapsto> st)) g'" if "graph_ok (heap m) g'" for g'
    using that fresh unfolding graph_ok_def by (metis fun_upd_apply option.distinct(1))
  have "reg_ok m'"
  proof (rule reg_okI)
    show "graph_capacity m' = 32" "length (graphs m') = 32" "1 \<le> next_graph_id m'"
      "next_graph_id m' \<le> MAX_HANDLE_ID" using d by (simp_all add: m'_def update_graph_def)
    show "graph_count m' = used_slots (graphs m')"
      using d i used_slots_replace [of i "graphs m"] by (simp add: m'_def update_graph_def)
    have "graph_ok ((heap m)(a \<mapsto> st)) ?g"
      using old [OF gok] s st graph_okD [OF gok] used_slots_fill [of s "streams g" a]
      by (auto simp: graph_ok_def handle_of_def nth_list_update)
    then show "graph_ok (heap m') g'" if "j < 32" "graphs m' ! j = Some g'" for j g'
      using that d(6) old by (auto simp: gi h split: if_splits)
    have hg: "handle_of ?g = handle_of g" by (simp add: handle_of_def)
    show "j = k" if "j < 32" "k < 32" "graphs m' ! j = Some g1" "graphs m' ! k = Some g2"
      "handle_of g1 = handle_of g2" for j k g1 g2
      using that i d(7) hg by (auto simp: gi h split: if_splits)
    show "b < next_addr m'" if "heap m' b = Some st'" for b st'
      using that d(8) [of b] a by (fastforce simp: h split: if_splits)
    show "\<exists>j t. owner_slot m' b j t" if b: "heap m' b = Some st'" for b st'
    proof (cases "b = a")
      case True
      then show ?thesis
        using i s graph_okD(3) [OF gok] gi by (intro exI [of _ i] exI [of _ s]) (simp add: owner_slot_def)
    next
      case False
      then obtain j t g' where j: "j < 32" "t < 64" "graphs m ! j = Some g'" "streams g' ! t = Some b"
        using d(9) [of b st'] b h by (auto simp: owner_slot_def)
      then have "owner_slot m' b j t"
        using i s gi by (cases "t = s") (auto simp: owner_slot_def)
      then show ?thesis by blast
    qed
  qed
  then show ?thesis by (simp only: m'_def)
qed

lemma reg_ok_remove_stream:
  assumes ok: "reg_ok m" and i: "i < 32" "graphs m ! i = Some g"
    and s: "s < 64" "streams g ! s = Some a"
  shows "reg_ok (m\<lparr>graphs := (graphs m)[i := Some (g\<lparr>streams := (streams g)[s := None],
      stream_count := stream_count g - 1\<rparr>)], heap := (heap m)(a := None)\<rparr>)" (is "reg_ok ?m0")
proof -
  define m' where "m' = ?m0"
  note d = reg_okD [OF ok] and gok = reg_okD(6) [OF ok i]
  let ?g = "g\<lparr>streams := (streams g)[s := None], stream_count := stream_count g - 1\<rparr>"
  have gi: "graphs m' ! j = (if j = i then Some ?g else graphs m ! j)" if "j < 32" for j
    using that i d(2) by (simp add: m'_def)
  have own: "owner_slot m a i s" using i s by (simp add: owner_slot_def)
  have other: "graph_ok ((heap m)(a := None)) g'"
    if "graph_ok (heap m) g'" "\<forall>t < 64. streams g' ! t \<noteq> Some a" for g'
    using that unfolding graph_ok_def by (metis fun_upd_apply)
  have h: "heap m' = (heap m)(a := None)" "next_addr m' = next_addr m" by (simp_all add: m'_def)
  have "reg_ok m'"
  proof (rule reg_okI)
    show "graph_capacity m' = 32" "length (graphs m') = 32" "1 \<le> next_graph_id m'"
      "next_graph_id m' \<le> MAX_HANDLE_ID" using d by (simp_all add: m'_def)
    show "graph_count m' = used_slots (graphs m')"
      using d i used_slots_replace [of i "graphs m"] by (simp add: m'_def)
    have nota: "streams g ! t \<noteq> Some a" if "t < 64" "t \<noteq> s" for t
      using that i owner_slot_unique [OF ok own, of i t] by (auto simp: owner_slot_def)
    have "graph_ok ((heap m)(a := None)) ?g"
      using gok s nota used_slots_clear [of s "streams g"] graph_okD(3,4) [OF gok]
      by (auto simp: graph_ok_def handle_of_def nth_list_update split: if_splits)
    moreover have "\<forall>t < 64. streams g' ! t \<noteq> Some a" if "j < 32" "j \<noteq> i" "graphs m ! j = Some g'" for j g'
      using that owner_slot_unique [OF ok own, of j] by (auto simp: owner_slot_def)
    ultimately show "graph_ok (heap m') g'" if "j < 32" "graphs m' ! j = Some g'" for j g'
      using that d(6) other by (auto simp: gi h split: if_splits)
    have hg: "handle_of ?g = handle_of g" by (simp add: handle_of_def)
    show "j = k" if "j < 32" "k < 32" "graphs m' ! j = Some g1" "graphs m' ! k = Some g2"
      "handle_of g1 = handle_of g2" for j k g1 g2
      using that i d(7) hg by (auto simp: gi h split: if_splits)
    show "b < next_addr m'" if "heap m' b = Some st'" for b st'
      using that d(8) by (auto simp: h split: if_splits)
    show "\<exists>j t. owner_slot m' b j t" if b: "heap m' b = Some st'" for b st'
    proof -
      from b have ne: "b \<noteq> a" "heap m b = Some st'" by (auto simp: h split: if_splits)
      then obtain j t g' where j: "j < 32" "t < 64" "graphs m ! j = Some g'" "streams g' ! t = Some b"
        using d(9) [of b st'] by (auto simp: owner_slot_def)
      then have "owner_slot m' b j t"
        using i s gi ne by (cases "t = s") (auto simp: owner_slot_def)
      then show ?thesis by blast
    qed
  qed
  then show ?thesis by (simp only: m'_def)
qed

lemma reg_ok_remove_graph:
  assumes ok: "reg_ok m" and i: "i < 32" "graphs m ! i = Some g"
    and none: "\<forall>s < 64. streams g ! s = None"
  shows "reg_ok (m\<lparr>graphs := (graphs m)[i := None], graph_count := graph_count m - 1\<rparr>)"
    (is "reg_ok ?m0")
proof -
  define m' where "m' = ?m0"
  note d = reg_okD [OF ok]
  have gi: "graphs m' ! j = (if j = i then None else graphs m ! j)" if "j < 32" for j
    using that i d(2) by (simp add: m'_def)
  have h: "heap m' = heap m" "next_addr m' = next_addr m" by (simp_all add: m'_def)
  have "reg_ok m'"
  proof (rule reg_okI)
    show "graph_capacity m' = 32" "length (graphs m') = 32" "1 \<le> next_graph_id m'"
      "next_graph_id m' \<le> MAX_HANDLE_ID" using d by (simp_all add: m'_def)
    show "graph_count m' = used_slots (graphs m')"
      using d i used_slots_clear [of i "graphs m"] by (simp add: m'_def)
    show "graph_ok (heap m') g'" if "j < 32" "graphs m' ! j = Some g'" for j g'
      using that d(6) by (auto simp: gi h split: if_splits)
    show "j = k" if "j < 32" "k < 32" "graphs m' ! j = Some g1" "graphs m' ! k = Some g2"
      "handle_of g1 = handle_of g2" for j k g1 g2
      using that d(7) by (auto simp: gi h split: if_splits)
    show "a < next_addr m'" if "heap m' a = Some st" for a st using that d(8) by (simp add: h)
    show "\<exists>j s. owner_slot m' a j s" if a: "heap m' a = Some st" for a st
    proof -
      obtain j s g' where j: "j < 32" "s < 64" "graphs m ! j = Some g'" "streams g' ! s = Some a"
        using d(9) [of a st] a by (auto simp: h owner_slot_def)
      then have "j \<noteq> i" using i none by auto
      then show ?thesis using j gi by (intro exI [of _ j] exI [of _ s]) (simp add: owner_slot_def)
    qed
  qed
  then show ?thesis by (simp only: m'_def)
qed

section \<open>What the operations do\<close>

lemma find_graph_full: "reg_ok m \<Longrightarrow> find_graph m = find_slot (graphs m)"
  using reg_okD(1,2) by (simp add: find_graph_def fun_eq_iff)

lemma reg_ok_keys: "reg_ok m \<Longrightarrow> keys_unique handle_of (graphs m)"
  by (simp add: reg_ok_def)

text \<open>The graph as it is entered: its handle, the header of its configuration, unacknowledged
  and never sent.\<close>

definition registered :: "int \<Rightarrow> u32 \<Rightarrow> WATCH_GRAPH \<Rightarrow> WATCH_GRAPH" where
  "registered now k g = g\<lparr>
     data_config := (data_config g)\<lparr>
       header := \<lparr>magic = WATCH_MAGIC, version = PROT_VERSION,
         msg_type = msg_code CONFIG, sequence = now, payload_size = SIZEOF_CONFIG\<rparr>,
       pk_config := (pk_config (data_config g))\<lparr>graph_id := k\<rparr>\<rparr>,
     is_config_acked := False, last_config_send_time := UINT64_MAX\<rparr>"

lemma registered_simps [simp]:
  "handle_of (registered now k g) = k" "streams (registered now k g) = streams g"
  "stream_count (registered now k g) = stream_count g"
  "destroy_requested (registered now k g) = destroy_requested g"
  by (simp_all add: registered_def handle_of_def)

lemma register_graph_spec:
  assumes ok: "reg_ok m" and g: "streams g = replicate 64 None" "stream_count g = 0"
    and r: "register_graph now g m = (res, k, m')"
  shows "reg_ok m'" "heap m' = heap m" "next_addr m' = next_addr m"
    and "res = GRAPH_REGISTERED \<and> graph_count m < 32 \<and> 1 \<le> k \<and> k \<le> MAX_HANDLE_ID
           \<and> find_graph m k = None
           \<and> (\<exists>i < 32. graphs m ! i = None \<and> graphs m' = (graphs m)[i := Some (registered now k g)])
         \<or> res = GRAPH_REGISTRY_FULL \<and> graph_count m = 32 \<and> m' = m"
proof -
  note d = reg_okD [OF ok]
  have all: "reg_ok m' \<and> heap m' = heap m \<and> next_addr m' = next_addr m
    \<and> (res = GRAPH_REGISTERED \<and> graph_count m < 32 \<and> 1 \<le> k \<and> k \<le> MAX_HANDLE_ID
         \<and> find_graph m k = None
         \<and> (\<exists>i < 32. graphs m ! i = None \<and> graphs m' = (graphs m)[i := Some (registered now k g)])
       \<or> res = GRAPH_REGISTRY_FULL \<and> graph_count m = 32 \<and> m' = m)"
  proof (cases "graph_count m \<ge> 32")
    case True
    then have "graph_count m = 32" using d(2,3) used_slots_le [of "graphs m"] by simp
    then show ?thesis using r ok True d(1) by (simp add: register_graph_def)
  next
    case False
    then have "None \<in> set (graphs m)" using d(2,3) used_slots_all [of "graphs m"] by auto
    then obtain i where i: "first_free (graphs m) = Some i"
      using first_free_None [of "graphs m"] by (cases "first_free (graphs m)") auto
    then have free: "i < 32" "graphs m ! i = None" using first_free_Some d(2) by fastforce+
    obtain k1 m1 where a: "allocate_graph_id m = (k1, m1)" by fastforce
    obtain nx where al: "1 \<le> k1" "k1 \<le> MAX_HANDLE_ID" "\<not> handle_in_use m k1"
      "m1 = m\<lparr>next_graph_id := nx\<rparr>" "1 \<le> nx" "nx \<le> MAX_HANDLE_ID"
      using allocate_graph_id_spec [OF ok a] by blast
    have nz: "k1 \<noteq> 0" using al(1) by auto
    have "register_graph now g m = (GRAPH_REGISTERED, k1, m\<lparr>next_graph_id := nx,
        graphs := (graphs m)[i := Some (registered now k1 g)], graph_count := graph_count m + 1\<rparr>)"
      using False i a nz al(4) d(1,2) by (simp add: register_graph_def registered_def Let_def)
    from trans [OF sym [OF r] this] have "res = GRAPH_REGISTERED" "k = k1"
      and m': "m' = m\<lparr>next_graph_id := nx,
        graphs := (graphs m)[i := Some (registered now k1 g)], graph_count := graph_count m + 1\<rparr>"
      by (simp_all only: prod.inject)
    moreover have "find_graph m k1 = None" using al(3) by (simp add: handle_in_use_def)
    moreover from this have "reg_ok m'"
      unfolding m' using reg_ok_add_graph [OF ok free, of "registered now k1 g" nx] al g by simp
    ultimately show ?thesis using free False al(1,2) by auto
  qed
  then show "reg_ok m'" "heap m' = heap m" "next_addr m' = next_addr m"
    "res = GRAPH_REGISTERED \<and> graph_count m < 32 \<and> 1 \<le> k \<and> k \<le> MAX_HANDLE_ID
         \<and> find_graph m k = None
         \<and> (\<exists>i < 32. graphs m ! i = None \<and> graphs m' = (graphs m)[i := Some (registered now k g)])
       \<or> res = GRAPH_REGISTRY_FULL \<and> graph_count m = 32 \<and> m' = m"
    by blast+
qed

text \<open>Releasing: the residual packet is published, the stream marked, nothing else touched.\<close>

definition released :: "WATCH_STREAM \<Rightarrow> WATCH_STREAM" where
  "released st = (if pending_samples st > 0
     then publish_time_packet st (next_pos (write_pos st)) else st)\<lparr>release_requested := True\<rparr>"

lemma released_simps [simp]:
  "st_graph_id (released st) = st_graph_id st" "st_stream_id (released st) = st_stream_id st"
  "release_requested (released st) = True" "pending_samples (released st) = 0"
  by (simp_all add: released_def publish_time_packet_def Let_def)

lemma release_stream_spec:
  assumes "heap m a = Some st"
  shows "release_stream (Some a) (Some m)
    = Some (None, Some (m\<lparr>heap := (heap m)(a \<mapsto> released st)\<rparr>))"
  using assms by (simp add: release_stream_def released_def Let_def)

lemma release_stream_None [simp]: "release_stream None mo = Some (None, mo)"
  by (simp add: release_stream_def)

lemma reg_ok_release:
  "reg_ok m \<Longrightarrow> heap m a = Some st \<Longrightarrow> reg_ok (m\<lparr>heap := (heap m)(a \<mapsto> released st)\<rparr>)"
  by (rule reg_ok_update_stream) auto

lemma request_graph_destroy_spec:
  assumes ok: "reg_ok m" and r: "request_graph_destroy h cw (Some m) = Some m'"
  shows "reg_ok m'" "heap m' = heap m" "next_addr m' = next_addr m"
    and "find_graph m' = find_graph m"
proof -
  have all: "reg_ok m' \<and> heap m' = heap m \<and> next_addr m' = next_addr m \<and> find_graph m' = find_graph m"
  proof (cases "h = 0 \<or> find_graph m h = None")
    case True
    then show ?thesis using r ok by (auto simp: request_graph_destroy_def split: if_splits)
  next
    case False
    then obtain i where i: "find_graph m h = Some i" by auto
    let ?f = "\<lambda>g. g\<lparr>destroy_requested := True, close_window_requested := cw \<or> close_window_requested g\<rparr>"
    note f = find_graph_Some [OF ok i]
    have m': "m' = update_graph i ?f m" using r False i by (simp add: request_graph_destroy_def)
    have ok': "reg_ok m'"
      unfolding m' by (rule reg_ok_update_graph [OF ok f(1,2)]) (simp_all add: handle_of_def)
    have "find_slot (graphs m') k = find_slot (graphs m) k" for k
    proof -
      have "find_slot ((graphs m)[i := Some g]) k = find_slot (graphs m) k"
        if "handle_of g = handle_of (graph_at m i)" for g
        using that f(1,2) reg_okD(2) [OF ok] by (metis find_slot_replace)
      then show ?thesis using f(2) by (simp add: m' update_graph_def handle_of_def)
    qed
    then show ?thesis
      using ok' find_graph_full [OF ok] find_graph_full [OF ok'] by (simp add: m' update_graph_def fun_eq_iff)
  qed
  then show "reg_ok m'" "heap m' = heap m" "next_addr m' = next_addr m" "find_graph m' = find_graph m"
    by blast+
qed

text \<open>The registry after the stream of a previous pass, if there is one, has been released.\<close>

definition after_release :: "nat option \<Rightarrow> WATCH_MANAGER \<Rightarrow> WATCH_MANAGER" where
  "after_release ref m = (case ref of None \<Rightarrow> m
     | Some a \<Rightarrow> m\<lparr>heap := (heap m)(a \<mapsto> released (the (heap m a)))\<rparr>)"

definition live_ref :: "WATCH_MANAGER \<Rightarrow> nat option \<Rightarrow> bool" where
  "live_ref m ref \<longleftrightarrow> (\<forall>a. ref = Some a \<longrightarrow> heap m a \<noteq> None)"

lemma release_stream_live:
  "live_ref m ref \<Longrightarrow> release_stream ref (Some m) = Some (None, Some (after_release ref m))"
  by (cases ref) (auto simp: live_ref_def after_release_def release_stream_spec)

lemma after_release_ok:
  assumes "reg_ok m" "live_ref m ref"
  shows "reg_ok (after_release ref m)" "graphs (after_release ref m) = graphs m"
    "next_addr (after_release ref m) = next_addr m" "find_graph (after_release ref m) = find_graph m"
    "graph_at (after_release ref m) = graph_at m"
  using assms
  by (cases ref; auto simp: after_release_def live_ref_def find_graph_def graph_at_def fun_eq_iff
      intro: reg_ok_release)+

text \<open>The outcome of creating a stream: refused with the registry as it was after the release,
  or entered in the first free slot of the graph the handle names.\<close>

definition stream_entered :: "WATCH_MANAGER \<Rightarrow> nat \<Rightarrow> nat \<Rightarrow> cfloat \<Rightarrow> nat \<Rightarrow> WATCH_MANAGER" where
  "stream_entered m i slot rate fps = update_graph i
     (\<lambda>g. g\<lparr>streams := (streams g)[slot := Some (next_addr m)], stream_count := stream_count g + 1\<rparr>)
     (m\<lparr>heap := (heap m)(next_addr m \<mapsto> new_stream (graph_at m i) slot rate fps),
        next_addr := next_addr m + 1\<rparr>)"

definition stream_admitted :: "WATCH_MANAGER \<Rightarrow> cfloat \<Rightarrow> u32 \<Rightarrow> u32 \<Rightarrow> nat \<Rightarrow> nat \<Rightarrow> bool" where
  "stream_admitted m handle d1 d2 i slot \<longleftrightarrow> Option.bind (to_u32 handle) (find_graph m) = Some i
     \<and> \<not> destroy_requested (graph_at m i)
     \<and> domain (pk_config (data_config (graph_at m i))) \<in> {d1, d2}
     \<and> first_free (streams (graph_at m i)) = Some slot"

lemma create_stream_cases:
  assumes ok: "reg_ok m" and live: "live_ref m ref"
  obtains (refused) e where
      "create_stream mem handle d1 d2 rate fps ref (Some m) = (Inl e, None, Some (after_release ref m))"
      "e \<noteq> DanglingStream"
      "\<not> (mem \<and> (\<exists>i slot. stream_admitted (after_release ref m) handle d1 d2 i slot))"
  | (entered) i slot where
      "create_stream mem handle d1 d2 rate fps ref (Some m)
         = (OK, Some (next_addr m), Some (stream_entered (after_release ref m) i slot rate fps))"
      "stream_admitted (after_release ref m) handle d1 d2 i slot" mem
proof -
  let ?m = "after_release ref m"
  note run = create_stream_def [of mem handle d1 d2 rate fps ref "Some m",
      unfolded release_stream_live [OF live] option.case prod.case]
  show thesis
  proof (cases "mem \<and> (\<exists>i slot. stream_admitted ?m handle d1 d2 i slot)")
    case True
    then obtain i slot where s: mem "stream_admitted ?m handle d1 d2 i slot" by blast
    then show thesis
      using run after_release_ok(3) [OF ok live]
      by (intro entered [of i slot])
        (auto simp: stream_admitted_def stream_entered_def Let_def split: bind_splits)
  next
    case False
    then show thesis
      using run refused
      by (auto simp: stream_admitted_def Let_def split: option.splits if_splits)
  qed
qed

lemma stream_admittedD:
  assumes ok: "reg_ok m" and s: "stream_admitted m handle d1 d2 i slot"
  shows "i < 32" "graphs m ! i = Some (graph_at m i)" "slot < 64" "streams (graph_at m i) ! slot = None"
    "handle_of (graph_at m i) \<noteq> 0"
proof -
  obtain h where h: "find_graph m h = Some i" using s by (auto simp: stream_admitted_def split: bind_splits)
  note f = find_graph_Some [OF ok h]
  show "i < 32" "graphs m ! i = Some (graph_at m i)" using f by simp_all
  have "slot < length (streams (graph_at m i)) \<and> streams (graph_at m i) ! slot = None"
    using s first_free_Some by (auto simp: stream_admitted_def)
  then show "slot < 64" "streams (graph_at m i) ! slot = None" using graph_okD(3) [OF f(4)] by simp_all
  show "handle_of (graph_at m i) \<noteq> 0" using graph_okD(1) [OF f(4)] by auto
qed

lemma new_stream_simps [simp]:
  "st_graph_id (new_stream g slot rate fps) = handle_of g"
  "st_stream_id (new_stream g slot rate fps) = of_nat slot"
  "st_sample_rate (new_stream g slot rate fps) = rate"
  "float_per_sample (new_stream g slot rate fps) = fps"
  "publish_threshold (new_stream g slot rate fps)
     = stream_threshold (domain (pk_config (data_config g))) rate fps"
  "slots (new_stream g slot rate fps) = replicate 50 zero_packet"
  "write_pos (new_stream g slot rate fps) = 0" "read_pos (new_stream g slot rate fps) = 0"
  "pending_samples (new_stream g slot rate fps) = 0"
  "release_requested (new_stream g slot rate fps) = False"
  by (simp_all add: new_stream_def zero_stream_def)

lemma stream_entered_ok:
  assumes ok: "reg_ok m" and s: "stream_admitted m handle d1 d2 i slot"
  shows "reg_ok (stream_entered m i slot rate fps)"
proof -
  note a = stream_admittedD [OF ok s]
  show ?thesis
    unfolding stream_entered_def by (rule reg_ok_add_stream [OF ok a(1-4)]) simp_all
qed

lemma stream_entered_heap:
  "heap (stream_entered m i slot rate fps)
     = (heap m)(next_addr m \<mapsto> new_stream (graph_at m i) slot rate fps)"
  "next_addr (stream_entered m i slot rate fps) = next_addr m + 1"
  by (simp_all add: stream_entered_def update_graph_def)

section \<open>Thresholds\<close>

lemma ceil_cases:
  obtains n where "fceil x = Fin (of_int n)" | "fceil x = PInf" | "fceil x = NInf" | "fceil x = NaN"
  by (cases x) auto

lemma stream_threshold_bounds:
  assumes "0 < fps" "fps \<le> 256"
  shows "0 < stream_threshold d rate fps" "stream_threshold d rate fps * fps \<le> 256"
proof -
  have mx: "0 < (256::nat) div fps" "256 div fps * fps \<le> 256"
    using assms by (simp_all add: div_greater_zero_iff)
  have "0 < stream_threshold d rate fps \<and> stream_threshold d rate fps \<le> 256 div fps"
  proof (cases rule: ceil_cases [of "fdiv f64 rate (Fin 60)"])
    case (1 n)
    have lt: "(of_int n :: rat) < of_nat k \<longleftrightarrow> n < int k" for k
      by (metis of_int_less_iff of_int_of_nat_eq)
    show ?thesis
    proof (cases "1 \<le> n \<and> n < int (256 div fps)")
      case True
      have "256 div fps \<le> 256" by simp
      with True have n: "1 \<le> n" "n < 4294967296" by linarith+
      have "(of_int n :: rat) < of_int 4294967296" using n(2) by (simp only: of_int_less_iff)
      moreover have "(- 1 :: rat) < of_int n" using n(1) by linarith
      ultimately have "to_u32 (Fin (of_int n)) = Some (of_int n)"
        using n(1) by (simp add: trunc_rat_def)
      moreover have "unat (of_int n :: u32) = nat n"
        using n unat_u32_of_nat [of "nat n"] by simp
      moreover have "0 < nat n" "nat n < 256 div fps" using True by linarith+
      moreover have "(of_int n :: rat) < of_nat (256 div fps)"
        using True by (simp add: lt)
      ultimately show ?thesis using mx 1 by (simp add: stream_threshold_def Let_def del: to_u32.simps)
    next
      case False
      then have "\<not> (Fin 1 \<le> Fin (of_int n) \<and> Fin (of_int n) < Fin (of_nat (256 div fps)))"
        by (auto simp: lt)
      then show ?thesis using mx 1 by (simp add: stream_threshold_def Let_def)
    qed
  qed (use mx in \<open>simp_all add: stream_threshold_def Let_def less_eq_cfloat_def\<close>)
  then show "0 < stream_threshold d rate fps" "stream_threshold d rate fps * fps \<le> 256"
    using mx(2) by (auto intro: order_trans [OF mult_le_mono1])
qed

text \<open>A stream as it is created is ready for the feeding opcode of its domain.\<close>

lemma new_stream_time_ok:
  assumes "handle_of g \<noteq> 0" "slot < 64" "isfinite rate" "Fin 0 < rate"
    and "ty = msg_code DATA \<and> fps = 1 \<or> ty = msg_code POINT_DATA \<and> fps = 2"
  shows "time_ok ty (new_stream g slot rate fps)" "stream_log (new_stream g slot rate fps) = []"
proof -
  have "(of_nat slot :: u32) < 64" using assms(2) u32_of_nat_less [of slot 64] by simp
  then have "time_ident (new_stream g slot rate fps)" using assms(1,3,4) by (simp add: time_ident_def)
  moreover have "0 < fps" "fps \<le> 256" using assms(5) by auto
  ultimately show "time_ok ty (new_stream g slot rate fps)" "stream_log (new_stream g slot rate fps) = []"
    using assms(5) stream_threshold_bounds
    by (intro time_ok_fresh [where ty = ty]; simp)+
qed

section \<open>Properties\<close>

text \<open>C20: Registering a graph never fails for lack of a handle or for an inconsistent
  registry: either all 32 slots are in use and nothing changes, or the graph is entered in a free
  slot under a handle between 1 and \<^verbatim>\<open>MAX_HANDLE_ID\<close> that no other graph has, unacknowledged,
  and from then on the search by handle finds it there and finds every other graph where it was.\<close>

theorem register_graph_correct:
  assumes "reg_ok m" "streams g = replicate 64 None" "stream_count g = 0"
    and "register_graph now g m = (res, k, m')"
  shows "reg_ok m' \<and> (if graph_count m = 32 then res = GRAPH_REGISTRY_FULL \<and> m' = m
    else res = GRAPH_REGISTERED \<and> 1 \<le> k \<and> k \<le> MAX_HANDLE_ID \<and> find_graph m k = None
      \<and> (\<exists>i. find_graph m' k = Some i \<and> graphs m ! i = None
          \<and> \<not> is_config_acked (graph_at m' i)
          \<and> pk_config (data_config (graph_at m' i)) = (pk_config (data_config g))\<lparr>graph_id := k\<rparr>)
      \<and> (\<forall>h. h \<noteq> k \<longrightarrow> find_graph m' h = find_graph m h))"
proof -
  note s = register_graph_spec [OF assms]
  note d = reg_okD [OF assms(1)] and d' = reg_okD [OF s(1)]
  show ?thesis
  proof (cases "graph_count m = 32")
    case True
    then show ?thesis using s by auto
  next
    case False
    then obtain i where r: "res = GRAPH_REGISTERED" "1 \<le> k" "k \<le> MAX_HANDLE_ID"
      "find_graph m k = None" and i: "i < 32" "graphs m ! i = None"
      "graphs m' = (graphs m)[i := Some (registered now k g)]" using s(4) by blast
    have none: "find_slot (graphs m) (handle_of (registered now k g)) = None"
      using r(4) find_graph_full [OF assms(1)] by simp
    have "find_graph m' k = Some i"
      using registry.lookup_insert [OF reg_ok_keys [OF assms(1)] none, of i] i d(2)
        find_graph_full [OF s(1)] by simp
    moreover have "find_graph m' h = find_graph m h" if "h \<noteq> k" for h
      using registry.lookup_insert_other [OF reg_ok_keys [OF assms(1)] none, of i h] i d(2) that
        find_graph_full [OF s(1)] find_graph_full [OF assms(1)] by simp
    moreover have "graph_at m' i = registered now k g" using i d(2) by (simp add: graph_at_def)
    ultimately show ?thesis
      using s(1) r i False by (auto simp: registered_def intro!: exI [of _ i])
  qed
qed

definition empty_manager :: WATCH_MANAGER where
  "empty_manager = \<lparr>graphs = replicate REGISTRY_SIZE None, graph_count = 0,
     graph_capacity = REGISTRY_SIZE, next_graph_id = 1, registry_mutex = True,
     sender_thread = True, socket_fd = True, running = True, viewer_probe_started_ms = UINT64_MAX,
     viewer_last_launch_ms = UINT64_MAX, viewer_last_launch_error = 0,
     heap = (\<lambda>_. None), next_addr = 0\<rparr>"

lemma reg_ok_empty: "reg_ok empty_manager"
  by (rule reg_okI) (simp_all add: empty_manager_def used_slots_def)

theorem register_graph_correct_witness:
  "\<exists>res k m'. register_graph 5 zero_graph empty_manager = (res, k, m')
    \<and> reg_ok m' \<and> (if graph_count empty_manager = 32 then res = GRAPH_REGISTRY_FULL \<and> m' = empty_manager
    else res = GRAPH_REGISTERED \<and> 1 \<le> k \<and> k \<le> MAX_HANDLE_ID \<and> find_graph empty_manager k = None
      \<and> (\<exists>i. find_graph m' k = Some i \<and> graphs empty_manager ! i = None
          \<and> \<not> is_config_acked (graph_at m' i)
          \<and> pk_config (data_config (graph_at m' i)) = (pk_config (data_config zero_graph))\<lparr>graph_id := k\<rparr>)
      \<and> (\<forall>h. h \<noteq> k \<longrightarrow> find_graph m' h = find_graph empty_manager h))"
proof -
  obtain res k m' where r: "register_graph 5 zero_graph empty_manager = (res, k, m')"
    by (metis prod_cases3)
  have z: "streams zero_graph = replicate 64 None" "stream_count zero_graph = 0"
    by (simp_all add: zero_graph_def)
  show ?thesis using r register_graph_correct [OF reg_ok_empty z r] by blast
qed

text \<open>A stream that \<^verbatim>\<open>create_stream\<close> hands to its opcode (one value per sample for
  audio and control signals, two for points) is in the registry under the graph's handle and a
  slot number below 64, is empty, collects at least one and at most as many samples as a packet
  holds, and is ready for its feeding opcode; the registry stays consistent also when the request
  is refused, and then the opcode is left without a stream.\<close>

theorem create_stream_ready:
  assumes "reg_ok m" "live_ref m ref" "isfinite rate" "Fin 0 < rate"
    and "ty = msg_code DATA \<and> fps = 1 \<or> ty = msg_code POINT_DATA \<and> fps = 2"
  shows "\<exists>s ref' m'. create_stream mem handle d1 d2 rate fps ref (Some m) = (s, ref', Some m')
    \<and> reg_ok m'
    \<and> (case ref' of None \<Rightarrow> s \<noteq> OK
       | Some a \<Rightarrow> s = OK \<and> heap m a = None
           \<and> (\<exists>st. heap m' a = Some st \<and> time_ok ty st \<and> stream_log st = []
                \<and> pending_samples st < publish_threshold st
                \<and> publish_threshold st * fps \<le> 256 \<and> \<not> release_requested st))"
proof (rule create_stream_cases [OF assms(1,2), of mem handle d1 d2 rate fps])
  fix e
  assume "create_stream mem handle d1 d2 rate fps ref (Some m) = (Inl e, None, Some (after_release ref m))"
  then show ?thesis using after_release_ok(1) [OF assms(1,2)] by simp
next
  fix i slot
  let ?m = "after_release ref m"
  assume r: "create_stream mem handle d1 d2 rate fps ref (Some m)
      = (OK, Some (next_addr m), Some (stream_entered ?m i slot rate fps))"
    and s: "stream_admitted ?m handle d1 d2 i slot"
  note rel = after_release_ok [OF assms(1,2)]
  note a = stream_admittedD [OF rel(1) s]
  have fps: "0 < fps" "fps \<le> 256" using assms(5) by auto
  have "heap m (next_addr m) = None" using reg_okD(8) [OF assms(1)] by fastforce
  moreover have "heap (stream_entered ?m i slot rate fps) (next_addr m)
      = Some (new_stream (graph_at ?m i) slot rate fps)"
    by (simp add: stream_entered_heap rel(3))
  ultimately show ?thesis
    using r stream_entered_ok [OF rel(1) s] new_stream_time_ok [OF a(5) a(3) assms(3-5)]
      stream_threshold_bounds [OF fps] by simp
qed

text \<open>A registry with one oscilloscope graph, under handle 1.\<close>

definition one_graph_manager :: WATCH_MANAGER where
  "one_graph_manager = snd (snd (register_graph 5 zero_graph empty_manager))"

lemma reg_ok_one_graph: "reg_ok one_graph_manager"
proof -
  obtain res k m' where r: "register_graph 5 zero_graph empty_manager = (res, k, m')"
    by (metis prod_cases3)
  have "streams zero_graph = replicate 64 None" "stream_count zero_graph = 0"
    by (simp_all add: zero_graph_def)
  from register_graph_spec(1) [OF reg_ok_empty this r] show ?thesis
    by (simp add: one_graph_manager_def r)
qed

theorem create_stream_ready_witness:
  "\<exists>a m' st. create_stream True (Fin 1) 0 0 (Fin 44100) 1 None (Some one_graph_manager) = (OK, Some a, Some m')
    \<and> reg_ok m' \<and> heap m' a = Some st \<and> time_ok (msg_code DATA) st
    \<and> pending_samples st < publish_threshold st"
proof -
  have "\<exists>s ref' m'. create_stream True (Fin 1) 0 0 (Fin 44100) 1 None (Some one_graph_manager) = (s, ref', Some m')
    \<and> reg_ok m'
    \<and> (case ref' of None \<Rightarrow> s \<noteq> OK
       | Some a \<Rightarrow> s = OK \<and> heap one_graph_manager a = None
           \<and> (\<exists>st. heap m' a = Some st \<and> time_ok (msg_code DATA) st \<and> stream_log st = []
                \<and> pending_samples st < publish_threshold st
                \<and> publish_threshold st * 1 \<le> 256 \<and> \<not> release_requested st))"
    by (rule create_stream_ready) (simp_all add: reg_ok_one_graph live_ref_def)
  moreover have "fst (create_stream True (Fin 1) 0 0 (Fin 44100) 1 None (Some one_graph_manager)) = OK"
    by code_simp
  ultimately show ?thesis by (auto split: option.splits)
qed

end
