(* ===== verification/Sender.thy ===== *)
theory Sender
  imports Registry
begin

text \<open>
  The sender thread and the life of the session (\<^verbatim>\<open>src/src/watch.c\<close>): acknowledgements,
  the pass over the registry, launching the viewer, building the manager and tearing it down.

  A pass runs under the registry mutex, so it is one step of the session. What the environment
  decides is an argument: which sends the socket takes (\<open>ok\<close>), what was received, the clock,
  and whether each system call of the construction succeeds. An access to a freed stream makes a
  result \<^const>\<open>None\<close>.
\<close>

abbreviation WATCH_CONFIG_RETRY_MS :: u64 where "WATCH_CONFIG_RETRY_MS \<equiv> 250"
abbreviation WATCH_VIEWER_PROBE_DELAY_MS :: u64 where "WATCH_VIEWER_PROBE_DELAY_MS \<equiv> 150"
abbreviation WATCH_VIEWER_RELAUNCH_DELAY_MS :: u64 where "WATCH_VIEWER_RELAUNCH_DELAY_MS \<equiv> 2000"
abbreviation WATCH_SESSION_CLOSE_REPETITIONS :: nat where "WATCH_SESSION_CLOSE_REPETITIONS \<equiv> 3"
abbreviation WATCH_GRAPH_CLOSE_REPETITIONS :: nat where "WATCH_GRAPH_CLOSE_REPETITIONS \<equiv> 3"

section \<open>Closing messages\<close>

fun send_repeated :: "(nat \<Rightarrow> bool) \<Rightarrow> nat \<Rightarrow> packet \<Rightarrow> nat \<Rightarrow> net \<Rightarrow> net" where
  "send_repeated ok 0 p n w = w"
| "send_repeated ok (Suc k) p n w = send_repeated ok k p n (snd (send_packet ok p n w))"

definition session_close_packet :: "int \<Rightarrow> packet" where
  "session_close_packet now = zero_packet\<lparr>header := \<lparr>magic = WATCH_MAGIC,
     version = PROT_VERSION, msg_type = msg_code SESSION_CLOSE, sequence = now,
     payload_size = SIZEOF_CLOSE\<rparr>\<rparr>"

definition send_session_close :: "(nat \<Rightarrow> bool) \<Rightarrow> int \<Rightarrow> net \<Rightarrow> net" where
  "send_session_close ok now w =
     send_repeated ok WATCH_SESSION_CLOSE_REPETITIONS (session_close_packet now)
       (SIZEOF_HEADER + SIZEOF_CLOSE) w"

definition graph_close_packet :: "int \<Rightarrow> u32 \<Rightarrow> packet" where
  "graph_close_packet now k = zero_packet\<lparr>header := \<lparr>magic = WATCH_MAGIC,
     version = PROT_VERSION, msg_type = msg_code GRAPH_CLOSE, sequence = now,
     payload_size = SIZEOF_CLOSE\<rparr>, pk_graph_close := \<lparr>close_graph_id = k\<rparr>\<rparr>"

definition send_graph_close :: "(nat \<Rightarrow> bool) \<Rightarrow> int \<Rightarrow> u32 \<Rightarrow> net \<Rightarrow> net" where
  "send_graph_close ok now k w =
     send_repeated ok WATCH_GRAPH_CLOSE_REPETITIONS (graph_close_packet now k)
       (SIZEOF_HEADER + SIZEOF_CLOSE) w"

section \<open>Acknowledgements\<close>

definition accept_ack :: "packet \<Rightarrow> int \<Rightarrow> WATCH_MANAGER \<Rightarrow> WATCH_MANAGER" where
  "accept_ack p received m =
     (if received \<noteq> SIZEOF_HEADER + SIZEOF_ACK \<or> magic (header p) \<noteq> WATCH_MAGIC
         \<or> version (header p) \<noteq> PROT_VERSION \<or> msg_type (header p) \<noteq> msg_code ACK
         \<or> payload_size (header p) \<noteq> SIZEOF_ACK
      then m
      else case find_graph m (ack_graph_id (pk_ack p)) of
        None \<Rightarrow> m
      | Some i \<Rightarrow>
          if sequence (header p) = sequence (header (data_config (graph_at m i)))
          then update_graph i (\<lambda>g. g\<lparr>is_config_acked := True\<rparr>) m else m)"

text \<open>The datagrams read until the socket has no more, or fails.\<close>

fun receive_acks :: "(packet \<times> int) list \<Rightarrow> WATCH_MANAGER \<Rightarrow> WATCH_MANAGER" where
  "receive_acks [] m = m"
| "receive_acks ((p, received) # inbox) m =
     (if received < 0 then m else receive_acks inbox (accept_ack p received m))"

section \<open>The pass over the registry\<close>

fun send_slots ::
  "(nat \<Rightarrow> bool) \<Rightarrow> nat option list \<Rightarrow> (nat \<rightharpoonup> WATCH_STREAM) \<Rightarrow> net
     \<Rightarrow> ((nat \<rightharpoonup> WATCH_STREAM) \<times> net) option" where
  "send_slots ok [] h w = Some (h, w)"
| "send_slots ok (None # refs) h w = send_slots ok refs h w"
| "send_slots ok (Some a # refs) h w =
     (case h a of
        None \<Rightarrow> None
      | Some st \<Rightarrow>
          (case send_stream_packets ok st w of (st1, w1) \<Rightarrow>
           case send_ftable_packets ok st1 w1 of (st2, w2) \<Rightarrow>
             send_slots ok refs (h(a \<mapsto> st2)) w2))"

definition graph_has_streams :: "WATCH_GRAPH \<Rightarrow> bool" where
  "graph_has_streams g \<longleftrightarrow> (\<exists>r \<in> set (streams g). r \<noteq> None)"

fun release_loop :: "bool \<Rightarrow> nat \<Rightarrow> nat list \<Rightarrow> WATCH_MANAGER \<Rightarrow> WATCH_MANAGER option" where
  "release_loop drain_required i [] m = Some m"
| "release_loop drain_required i (s # ss) m =
     (case streams (graph_at m i) ! s of
        None \<Rightarrow> release_loop drain_required i ss m
      | Some a \<Rightarrow>
          (case heap m a of
             None \<Rightarrow> None
           | Some st \<Rightarrow>
               if \<not> release_requested st \<or> (drain_required \<and> \<not> stream_transfer_complete st)
               then release_loop drain_required i ss m
               else
                 let g = graph_at m i in
                 release_loop drain_required i ss
                   (m\<lparr>graphs := (graphs m)[i := Some (g\<lparr>streams := (streams g)[s := None],
                        stream_count := stream_count g - 1\<rparr>)],
                      heap := free_stream (Some a) (heap m)\<rparr>)))"

definition release_finished_streams :: "bool \<Rightarrow> nat \<Rightarrow> WATCH_MANAGER \<Rightarrow> WATCH_MANAGER option" where
  "release_finished_streams drain_required i m = release_loop drain_required i [0..<MAX_STREAMS] m"

text \<open>The end of a visit: finished streams go, and with the last one a graph that is to be
  destroyed.\<close>

definition finish_graph :: "bool \<Rightarrow> nat \<Rightarrow> WATCH_MANAGER \<Rightarrow> WATCH_MANAGER option" where
  "finish_graph abandoned i m =
     (case release_finished_streams (\<not> abandoned) i m of
        None \<Rightarrow> None
      | Some m1 \<Rightarrow>
          let g = graph_at m1 i in
          if destroy_requested g \<and> \<not> graph_has_streams g
          then Some (m1\<lparr>graphs := (graphs m1)[i := None], graph_count := graph_count m1 - 1,
                 heap := free_graph (Some g) (heap m1)\<rparr>)
          else Some m1)"

text \<open>One round of the loop: the registry, the socket, and whether the graph still waits for
  the viewer.\<close>

definition visit_graph ::
  "(nat \<Rightarrow> bool) \<Rightarrow> u64 \<Rightarrow> int \<Rightarrow> nat \<Rightarrow> WATCH_MANAGER \<Rightarrow> net
     \<Rightarrow> (WATCH_MANAGER \<times> net \<times> bool) option" where
  "visit_graph ok now_ms now i m w =
     (case graphs m ! i of
        None \<Rightarrow> Some (m, w, False)
      | Some g \<Rightarrow>
          let abandoned = (\<not> is_config_acked g \<and> close_window_requested g) in
          if is_config_acked g then
            (case send_slots ok (streams g) (heap m) w of
               None \<Rightarrow> None
             | Some (h1, w1) \<Rightarrow>
                 let m1 = m\<lparr>heap := h1\<rparr>;
                     close = (close_window_requested g \<and> \<not> close_window_sent g);
                     w2 = (if close then send_graph_close ok now (handle_of g) w1 else w1);
                     m2 = (if close then update_graph i (\<lambda>g. g\<lparr>close_window_sent := True\<rparr>) m1
                           else m1) in
                 map_option (\<lambda>m3. (m3, w2, False)) (finish_graph abandoned i m2))
          else if \<not> abandoned then
            if last_config_send_time g = UINT64_MAX
               \<or> now_ms - last_config_send_time g \<ge> WATCH_CONFIG_RETRY_MS
            then Some (update_graph i (\<lambda>g. g\<lparr>last_config_send_time := now_ms\<rparr>) m,
                       snd (send_packet ok (data_config g) (packet_bytes (data_config g)) w), True)
            else Some (m, w, True)
          else map_option (\<lambda>m3. (m3, w, False)) (finish_graph abandoned i m))"

fun visit_graphs ::
  "(nat \<Rightarrow> bool) \<Rightarrow> u64 \<Rightarrow> int \<Rightarrow> nat list \<Rightarrow> WATCH_MANAGER \<Rightarrow> net
     \<Rightarrow> (WATCH_MANAGER \<times> net \<times> bool) option" where
  "visit_graphs ok now_ms now [] m w = Some (m, w, False)"
| "visit_graphs ok now_ms now (i # is) m w =
     (case visit_graph ok now_ms now i m w of
        None \<Rightarrow> None
      | Some (m1, w1, unacked) \<Rightarrow>
          map_option (\<lambda>(m2, w2, rest). (m2, w2, unacked \<or> rest))
            (visit_graphs ok now_ms now is m1 w1))"

section \<open>Launching the viewer\<close>

text \<open>\<open>launch\<close> is the result of starting the process. The flag says whether it was started
  at all, the last component is the error reported to the user.\<close>

definition try_launch_viewer ::
  "u64 \<Rightarrow> int \<Rightarrow> WATCH_MANAGER \<Rightarrow> WATCH_MANAGER \<times> bool \<times> int option" where
  "try_launch_viewer now_ms launch m =
     (if viewer_probe_started_ms m = UINT64_MAX
      then (m\<lparr>viewer_probe_started_ms := now_ms\<rparr>, False, None)
      else if now_ms - viewer_probe_started_ms m < WATCH_VIEWER_PROBE_DELAY_MS then (m, False, None)
      else if viewer_last_launch_ms m \<noteq> UINT64_MAX
        \<and> now_ms - viewer_last_launch_ms m < WATCH_VIEWER_RELAUNCH_DELAY_MS then (m, False, None)
      else
        let m1 = m\<lparr>viewer_last_launch_ms := now_ms\<rparr> in
        if launch \<noteq> 0 \<and> launch \<noteq> viewer_last_launch_error m1
        then (m1\<lparr>viewer_last_launch_error := launch\<rparr>, True, Some launch)
        else if launch = 0 then (m1\<lparr>viewer_last_launch_error := 0\<rparr>, True, None)
        else (m1, True, None))"

text \<open>One round of \<^verbatim>\<open>sender_thread_main\<close>.\<close>

definition sender_round ::
  "(nat \<Rightarrow> bool) \<Rightarrow> (packet \<times> int) list \<Rightarrow> u64 \<Rightarrow> int \<Rightarrow> int \<Rightarrow> WATCH_MANAGER \<Rightarrow> net
     \<Rightarrow> (WATCH_MANAGER \<times> net \<times> int option) option" where
  "sender_round ok inbox now_ms now launch m w =
     (let m0 = receive_acks inbox m in
      case visit_graphs ok now_ms now [0..<graph_capacity m0] m0 w of
        None \<Rightarrow> None
      | Some (m1, w1, has_unacked) \<Rightarrow>
          if has_unacked
          then (case try_launch_viewer now_ms launch m1 of (m2, _, report) \<Rightarrow> Some (m2, w1, report))
          else Some (m1\<lparr>viewer_probe_started_ms := UINT64_MAX\<rparr>, w1, None))"

section \<open>What a pass keeps\<close>

text \<open>\<open>evolves h h'\<close>: the same streams are allocated, each with its identity, its kind and
  its release flag.\<close>

definition same_stream :: "WATCH_STREAM \<Rightarrow> WATCH_STREAM \<Rightarrow> bool" where
  "same_stream st st' \<longleftrightarrow> st_graph_id st' = st_graph_id st \<and> st_stream_id st' = st_stream_id st
     \<and> release_requested st' = release_requested st"

definition evolves :: "(nat \<rightharpoonup> WATCH_STREAM) \<Rightarrow> (nat \<rightharpoonup> WATCH_STREAM) \<Rightarrow> bool" where
  "evolves h h' \<longleftrightarrow> (\<forall>a. rel_option same_stream (h a) (h' a))"

lemma same_stream_refl [simp]: "same_stream st st"
  by (simp add: same_stream_def)

lemma same_stream_trans: "same_stream a b \<Longrightarrow> same_stream b c \<Longrightarrow> same_stream a c"
  by (simp add: same_stream_def)

lemma evolves_refl [simp]: "evolves h h"
  by (simp add: evolves_def option.rel_refl)

lemma evolvesD:
  "evolves h h' \<Longrightarrow> h a = Some st \<Longrightarrow> \<exists>st'. h' a = Some st' \<and> same_stream st st'"
  "evolves h h' \<Longrightarrow> h' a = Some st' \<Longrightarrow> \<exists>st. h a = Some st \<and> same_stream st st'"
  unfolding evolves_def by (metis option_rel_Some1) (metis option_rel_Some2)

lemma evolves_trans:
  assumes "evolves h h'" "evolves h' h''"
  shows "evolves h h''"
  unfolding evolves_def
proof
  fix a
  have "rel_option same_stream (h a) (h' a)" "rel_option same_stream (h' a) (h'' a)"
    using assms by (simp_all add: evolves_def)
  then show "rel_option same_stream (h a) (h'' a)"
    by (cases "h a"; cases "h' a"; cases "h'' a") (auto intro: same_stream_trans)
qed

lemma evolves_upd: "h a = Some st \<Longrightarrow> same_stream st st' \<Longrightarrow> evolves h (h(a \<mapsto> st'))"
  by (simp add: evolves_def option.rel_refl)

lemma graph_ok_evolves:
  assumes g: "graph_ok h g" and e: "evolves h h'"
  shows "graph_ok h' g"
proof -
  have "\<exists>st. h' a = Some st \<and> st_graph_id st = handle_of g \<and> st_stream_id st = of_nat s"
    if "s < 64" "streams g ! s = Some a" for s a
  proof -
    obtain st where "h a = Some st" "st_graph_id st = handle_of g" "st_stream_id st = of_nat s"
      using graph_okD(5) [OF g] \<open>s < 64\<close> \<open>streams g ! s = Some a\<close> by blast
    then show ?thesis using evolvesD(1) [OF e] by (fastforce simp: same_stream_def)
  qed
  then show ?thesis using g by (simp add: graph_ok_def)
qed

lemma reg_ok_evolves:
  assumes ok: "reg_ok m" and e: "evolves (heap m) h'"
  shows "reg_ok (m\<lparr>heap := h'\<rparr>)"
proof -
  note d = reg_okD [OF ok]
  have os: "owner_slot (m\<lparr>heap := h'\<rparr>) = owner_slot m" by (simp add: owner_slot_def fun_eq_iff)
  show ?thesis
  proof (rule reg_okI)
    fix i j g g'
    assume "i < 32" "j < 32" "graphs (m\<lparr>heap := h'\<rparr>) ! i = Some g"
      "graphs (m\<lparr>heap := h'\<rparr>) ! j = Some g'" "handle_of g = handle_of g'"
    then show "i = j" using d(7) by simp
  next
    fix a st
    assume "heap (m\<lparr>heap := h'\<rparr>) a = Some st"
    then obtain st0 where "heap m a = Some st0" using evolvesD(2) [OF e] by fastforce
    then show "a < next_addr (m\<lparr>heap := h'\<rparr>)" "\<exists>i s. owner_slot (m\<lparr>heap := h'\<rparr>) a i s"
      using d(8,9) os by auto
  qed (use d graph_ok_evolves [OF _ e] in auto)
qed

text \<open>Sending changes only queues and transfers.\<close>

lemma send_stream_loop_same: "same_stream st (fst (send_stream_loop ok n st w))"
proof (induction ok n st w rule: send_stream_loop.induct)
  case (2 ok n st w)
  then show ?case
    by (auto simp: same_stream_def advance_read_def Let_def split: prod.splits bool.splits)
qed (simp add: same_stream_def)

lemma send_ftable_loop_same: "same_stream st (fst (send_ftable_loop ok n st w))"
proof (induction ok n st w rule: send_ftable_loop.induct)
  case (2 ok n st w)
  then show ?case
    by (auto simp: same_stream_def ftable_advance_def split: option.splits prod.splits bool.splits)
qed (simp add: same_stream_def)

lemma send_ftable_packets_same:
  "send_ftable_packets ok st w = (st', w') \<Longrightarrow> same_stream st st'"
  using send_ftable_loop_same [of st ok 8 w]
  by (auto simp: send_ftable_packets_def same_stream_def split: prod.splits if_splits)

lemma send_slots_spec:
  "\<forall>a. Some a \<in> set refs \<longrightarrow> h a \<noteq> None \<Longrightarrow>
     \<exists>h' w'. send_slots ok refs h w = Some (h', w') \<and> evolves h h'"
proof (induction ok refs h w rule: send_slots.induct)
  case (3 ok a refs h w)
  obtain st where st: "h a = Some st" using "3.prems" by auto
  obtain st1 w1 st2 w2 where r: "send_stream_packets ok st w = (st1, w1)"
    "send_ftable_packets ok st1 w1 = (st2, w2)" by fastforce
  have "same_stream st st2"
    using send_stream_loop_same [of st ok 8 w] send_ftable_packets_same [OF r(2)] r(1)
    by (simp add: send_stream_packets_def same_stream_def)
  then have e: "evolves h (h(a \<mapsto> st2))" using st by (rule evolves_upd [rotated])
  have "\<forall>b. Some b \<in> set refs \<longrightarrow> (h(a \<mapsto> st2)) b \<noteq> None" using "3.prems" by auto
  from "3.IH" [OF st r(1) [symmetric] r(2) [symmetric] this] obtain h' w' where
    "send_slots ok refs (h(a \<mapsto> st2)) w2 = Some (h', w')" "evolves (h(a \<mapsto> st2)) h'" by blast
  then show ?case
    using st r evolves_trans [OF e] by (intro exI [of _ h'] exI [of _ w']) simp
qed auto

lemma send_slots_frame:
  "send_slots ok refs h w = Some (h', w') \<Longrightarrow> Some a \<notin> set refs \<Longrightarrow> h' a = h a"
  by (induction ok refs h w rule: send_slots.induct) (auto split: option.splits prod.splits)

text \<open>Every stream pointer of a graph is live.\<close>

lemma graph_streams_live:
  assumes "graph_ok h g" "Some a \<in> set (streams g)"
  shows "\<exists>st. h a = Some st \<and> st_graph_id st = handle_of g"
  using assms graph_okD(3,5) [OF assms(1)] by (metis in_set_conv_nth)

text \<open>Releasing frees nothing but streams whose owner has asked for it and, where draining is
  required, whose queue is empty.\<close>

definition frees_released :: "bool \<Rightarrow> WATCH_MANAGER \<Rightarrow> WATCH_MANAGER \<Rightarrow> bool" where
  "frees_released drained m m' \<longleftrightarrow> (\<forall>a. heap m' a = heap m a
     \<or> (\<exists>st. heap m a = Some st \<and> heap m' a = None \<and> release_requested st
          \<and> (drained \<longrightarrow> stream_transfer_complete st)))"

definition same_graph :: "WATCH_GRAPH \<Rightarrow> WATCH_GRAPH \<Rightarrow> bool" where
  "same_graph g g' \<longleftrightarrow> handle_of g' = handle_of g \<and> destroy_requested g' = destroy_requested g
     \<and> close_window_requested g' = close_window_requested g \<and> is_config_acked g' = is_config_acked g"

text \<open>\<open>releases drain i ss m g m' g'\<close>: the registry \<open>m'\<close>, whose graph \<open>i\<close> is now \<open>g'\<close>,
  is \<open>m\<close> after the finished streams in the slots \<open>ss\<close> of its graph \<open>g\<close> have been freed.\<close>

definition finished :: "bool \<Rightarrow> WATCH_MANAGER \<Rightarrow> WATCH_GRAPH \<Rightarrow> nat \<Rightarrow> bool" where
  "finished drain m g s \<longleftrightarrow> (\<exists>a st. streams g ! s = Some a \<and> heap m a = Some st
     \<and> release_requested st \<and> (drain \<longrightarrow> stream_transfer_complete st))"

definition releases :: "bool \<Rightarrow> nat \<Rightarrow> nat list \<Rightarrow> WATCH_MANAGER \<Rightarrow> WATCH_GRAPH
    \<Rightarrow> WATCH_MANAGER \<Rightarrow> WATCH_GRAPH \<Rightarrow> bool" where
  "releases drain i ss m g m' g' \<longleftrightarrow> reg_ok m' \<and> frees_released drain m m'
     \<and> next_addr m' = next_addr m \<and> graph_capacity m' = graph_capacity m
     \<and> graphs m' = (graphs m)[i := Some g'] \<and> same_graph g g'
     \<and> (\<forall>s < 64. streams g' ! s = (if s \<in> set ss \<and> finished drain m g s then None
                                  else streams g ! s))"

lemma releases_Nil: "reg_ok m \<Longrightarrow> graphs m ! i = Some g \<Longrightarrow> releases drain i [] m g m g"
  using list_update_id [of "graphs m" i]
  by (simp add: releases_def frees_released_def same_graph_def)

lemma releases_skip:
  "\<not> finished drain m g s \<Longrightarrow> releases drain i ss m g m' g' \<Longrightarrow> releases drain i (s # ss) m g m' g'"
  unfolding releases_def by auto

lemma releases_free:
  assumes ok: "reg_ok m" and i: "i < 32" "graphs m ! i = Some g" and s: "s < 64" "streams g ! s = Some a"
    and st: "heap m a = Some st" "release_requested st" "drain \<longrightarrow> stream_transfer_complete st"
  defines "g1 \<equiv> g\<lparr>streams := (streams g)[s := None], stream_count := stream_count g - 1\<rparr>"
  defines "m1 \<equiv> m\<lparr>graphs := (graphs m)[i := Some g1], heap := (heap m)(a := None)\<rparr>"
  assumes r: "releases drain i ss m1 g1 m' g'"
  shows "releases drain i (s # ss) m g m' g'"
proof -
  have gok: "graph_ok (heap m) g" using reg_okD(6) [OF ok i] .
  have f: "frees_released drain m1 m'" and sg: "same_graph g1 g'"
    using r by (simp_all add: releases_def)
  have gone: "heap m' a = None"
    using f by (auto simp: frees_released_def m1_def dest!: spec [of _ a])
  have "frees_released drain m m'"
    unfolding frees_released_def
  proof
    fix b
    show "heap m' b = heap m b \<or> (\<exists>st. heap m b = Some st \<and> heap m' b = None
        \<and> release_requested st \<and> (drain \<longrightarrow> stream_transfer_complete st))"
    proof (cases "b = a")
      case True
      then show ?thesis using gone st by blast
    next
      case False
      then have "heap m1 b = heap m b" by (simp add: m1_def)
      then show ?thesis using f by (metis frees_released_def)
    qed
  qed
  moreover have "same_graph g g'" using sg by (simp add: same_graph_def handle_of_def g1_def)
  moreover have "streams g' ! t = (if t \<in> set (s # ss) \<and> finished drain m g t then None
      else streams g ! t)" if t: "t < 64" for t
  proof (cases "t = s")
    case True
    have "streams g1 ! s = None" using s(1) graph_okD(3) [OF gok] by (simp add: g1_def)
    moreover have "finished drain m g s" using s(2) st by (auto simp: finished_def)
    ultimately show ?thesis using r t True by (simp add: releases_def)
  next
    case False
    have same: "streams g1 ! t = streams g ! t" using False by (simp add: g1_def)
    have "b \<noteq> a" if "streams g ! t = Some b" for b
      using owner_slot_unique [OF ok, of a i s i t] False t that i s by (auto simp: owner_slot_def)
    then have "finished drain m1 g1 t = finished drain m g t"
      using same by (auto simp: finished_def m1_def)
    then show ?thesis using r t False same by (simp add: releases_def)
  qed
  ultimately show ?thesis
    using r i(1) reg_okD(2) [OF ok] by (simp add: releases_def m1_def)
qed

lemma release_loop_spec:
  "reg_ok m \<Longrightarrow> i < 32 \<Longrightarrow> graphs m ! i = Some g \<Longrightarrow> \<forall>s \<in> set ss. s < 64 \<Longrightarrow>
     \<exists>m' g'. release_loop drain i ss m = Some m' \<and> releases drain i ss m g m' g'"
proof (induction ss arbitrary: m g)
  case Nil
  then show ?case using releases_Nil by fastforce
next
  case (Cons s ss)
  note ok = Cons.prems(1) and i = Cons.prems(2,3)
  have s: "s < 64" "\<forall>s \<in> set ss. s < 64" using Cons.prems(4) by simp_all
  have g: "graph_at m i = g" using i by (simp add: graph_at_def)
  have gok: "graph_ok (heap m) g" using reg_okD(6) [OF ok i] .
  show ?case
  proof (cases "finished drain m g s")
    case False
    have "release_loop drain i (s # ss) m = release_loop drain i ss m"
      using False graph_okD(5) [OF gok s(1)] g
      by (cases "streams g ! s") (auto simp: finished_def)
    then show ?thesis using Cons.IH [OF ok i s(2)] releases_skip [OF False] by fastforce
  next
    case True
    then obtain a st where st: "streams g ! s = Some a" "heap m a = Some st" "release_requested st"
      "drain \<longrightarrow> stream_transfer_complete st" by (auto simp: finished_def)
    let ?g = "g\<lparr>streams := (streams g)[s := None], stream_count := stream_count g - 1\<rparr>"
    let ?m = "m\<lparr>graphs := (graphs m)[i := Some ?g], heap := (heap m)(a := None)\<rparr>"
    have r: "release_loop drain i (s # ss) m = release_loop drain i ss ?m"
      using st g by (cases drain) (simp_all add: free_stream_def Let_def)
    have gi: "graphs ?m ! i = Some ?g" using i reg_okD(2) [OF ok] by simp
    from Cons.IH [OF reg_ok_remove_stream [OF ok i s(1) st(1)] i(1) gi s(2)]
    show ?thesis using r releases_free [OF ok i s(1) st] by metis
  qed
qed

text \<open>The end of a visit.\<close>

lemma all_slots_None:
  "graph_ok h g \<Longrightarrow> \<not> graph_has_streams g \<longleftrightarrow> (\<forall>s < 64. streams g ! s = None)"
  using graph_okD(3) [of h g] by (simp add: graph_has_streams_def all_set_conv_all_nth)

lemma free_graph_empty: "\<not> graph_has_streams g \<Longrightarrow> free_graph (Some g) h = h"
proof -
  have "\<forall>r \<in> set refs. r = None \<Longrightarrow> fold free_stream refs h = h" for refs h
    by (induction refs arbitrary: h) (simp_all add: free_stream_def)
  then show "\<not> graph_has_streams g \<Longrightarrow> free_graph (Some g) h = h"
    by (simp add: free_graph_def graph_has_streams_def)
qed

text \<open>The streams a visit finds finished: its sends may have emptied their queues before.\<close>

definition disposable :: "bool \<Rightarrow> WATCH_MANAGER \<Rightarrow> WATCH_GRAPH \<Rightarrow> bool" where
  "disposable drain m g \<longleftrightarrow> destroy_requested g
     \<and> (\<forall>s < MAX_STREAMS. streams g ! s = None \<or> finished drain m g s)"

lemma finish_graph_spec:
  assumes ok: "reg_ok m" and i: "i < 32" "graphs m ! i = Some g"
  shows "\<exists>m'. finish_graph ab i m = Some m' \<and> reg_ok m' \<and> frees_released (\<not> ab) m m'
    \<and> next_addr m' = next_addr m
    \<and> (\<forall>j < 32. j \<noteq> i \<longrightarrow> graphs m' ! j = graphs m ! j)
    \<and> (if disposable (\<not> ab) m g
       then graphs m' ! i = None
       else \<exists>g'. graphs m' ! i = Some g' \<and> same_graph g g'
         \<and> (\<forall>s < 64. streams g' ! s = (if finished (\<not> ab) m g s then None else streams g ! s)))"
proof -
  have "\<forall>s \<in> set [0..<64]. s < (64 :: nat)" by simp
  from release_loop_spec [OF ok i this, of "\<not> ab"] obtain m1 g1 where
    r: "release_finished_streams (\<not> ab) i m = Some m1" and s: "releases (\<not> ab) i [0..<64] m g m1 g1"
    by (auto simp: release_finished_streams_def)
  have ok1: "reg_ok m1" and f: "frees_released (\<not> ab) m m1" and n: "next_addr m1 = next_addr m"
    and gs: "graphs m1 = (graphs m)[i := Some g1]" and sg: "same_graph g g1"
    and slots: "\<forall>s < 64. streams g1 ! s = (if finished (\<not> ab) m g s then None else streams g ! s)"
    using s by (auto simp: releases_def)
  have g1: "graphs m1 ! i = Some g1" "graph_at m1 i = g1"
    using gs i reg_okD(2) [OF ok] by (simp_all add: graph_at_def)
  have gok: "graph_ok (heap m1) g1" using reg_okD(6) [OF ok1 i(1) g1(1)] .
  have empty: "\<not> graph_has_streams g1
      \<longleftrightarrow> (\<forall>s < 64. streams g ! s = None \<or> finished (\<not> ab) m g s)"
    using all_slots_None [OF gok] slots by auto
  show ?thesis
  proof (cases "destroy_requested g \<and> \<not> graph_has_streams g1")
    case True
    let ?m = "m1\<lparr>graphs := (graphs m1)[i := None], graph_count := graph_count m1 - 1\<rparr>"
    have "finish_graph ab i m = Some ?m"
      using r True sg g1 free_graph_empty [of g1 "heap m1"]
      by (simp add: finish_graph_def same_graph_def Let_def)
    moreover have "reg_ok ?m"
      using reg_ok_remove_graph [OF ok1 i(1) g1(1)] True all_slots_None [OF gok] by blast
    ultimately show ?thesis
      using True empty f n gs i sg reg_okD(2) [OF ok]
      by (intro exI [of _ ?m]) (simp add: frees_released_def disposable_def same_graph_def)
  next
    case False
    have "finish_graph ab i m = Some m1"
      using r False sg g1 by (auto simp: finish_graph_def same_graph_def Let_def)
    then show ?thesis
      using False empty ok1 f n gs sg slots i reg_okD(2) [OF ok]
      by (intro exI [of _ m1]) (auto simp: disposable_def same_graph_def)
  qed
qed

text \<open>What every step of the session owes to the opcodes: a stream that has not been released
  by its opcode stays where it is.\<close>

definition keeps_owned :: "WATCH_MANAGER \<Rightarrow> WATCH_MANAGER \<Rightarrow> bool" where
  "keeps_owned m m' \<longleftrightarrow> (\<forall>a st. heap m a = Some st \<longrightarrow> \<not> release_requested st \<longrightarrow>
     (\<exists>st'. heap m' a = Some st' \<and> \<not> release_requested st' \<and> same_stream st st'))"

lemma keeps_owned_refl [simp]: "keeps_owned m m"
  by (simp add: keeps_owned_def)

lemma keeps_owned_trans: "keeps_owned a b \<Longrightarrow> keeps_owned b c \<Longrightarrow> keeps_owned a c"
  unfolding keeps_owned_def using same_stream_trans by blast

lemma keeps_owned_frees: "frees_released d m m' \<Longrightarrow> keeps_owned m m'"
  unfolding keeps_owned_def frees_released_def
  by (metis option.distinct(1) option.inject same_stream_refl)

lemma keeps_owned_evolves: "evolves (heap m) (heap m') \<Longrightarrow> keeps_owned m m'"
  unfolding keeps_owned_def using evolvesD(1) same_stream_def by fastforce

text \<open>The effect of a pass, or of a part of it, on the registry: streams with an owner stay,
  nothing is allocated, and a graph keeps its slot and its flags until it is removed, which takes
  a request.\<close>

definition slot_effect :: "WATCH_GRAPH option \<Rightarrow> WATCH_GRAPH option \<Rightarrow> bool" where
  "slot_effect go go' \<longleftrightarrow> (case go of
       None \<Rightarrow> go' = None
     | Some g \<Rightarrow> (case go' of None \<Rightarrow> destroy_requested g | Some g' \<Rightarrow> same_graph g g'))"

definition pass_effect :: "WATCH_MANAGER \<Rightarrow> WATCH_MANAGER \<Rightarrow> bool" where
  "pass_effect m m' \<longleftrightarrow> reg_ok m' \<and> keeps_owned m m' \<and> next_addr m' = next_addr m
     \<and> (\<forall>j < REGISTRY_SIZE. slot_effect (graphs m ! j) (graphs m' ! j))"

lemma same_graph_refl [simp]: "same_graph g g"
  by (simp add: same_graph_def)

lemma slot_effect_simps [simp]:
  "slot_effect go go" "slot_effect None go' \<longleftrightarrow> go' = None"
  "slot_effect (Some g) None \<longleftrightarrow> destroy_requested g"
  "slot_effect (Some g) (Some g') \<longleftrightarrow> same_graph g g'"
  by (simp_all add: slot_effect_def split: option.split)

lemma slot_effect_trans: "slot_effect a b \<Longrightarrow> slot_effect b c \<Longrightarrow> slot_effect a c"
  by (cases a; cases b; cases c) (simp_all add: same_graph_def)

lemma pass_effect_refl: "reg_ok m \<Longrightarrow> pass_effect m m"
  by (simp add: pass_effect_def)

lemma pass_effect_trans: "pass_effect a b \<Longrightarrow> pass_effect b c \<Longrightarrow> pass_effect a c"
  unfolding pass_effect_def
  by (elim conjE, intro conjI) (assumption, erule (1) keeps_owned_trans, simp, blast intro: slot_effect_trans)

text \<open>Only one slot changes in a visit.\<close>

lemma pass_effectI:
  assumes "reg_ok m'" "keeps_owned m m'" "next_addr m' = next_addr m"
    and "\<forall>j < 32. j \<noteq> i \<longrightarrow> graphs m' ! j = graphs m ! j"
    and "slot_effect (graphs m ! i) (graphs m' ! i)"
  shows "pass_effect m m'"
  using assms unfolding pass_effect_def by (metis slot_effect_simps(1))

text \<open>\<open>frame I m m'\<close>: the graphs outside the slots \<open>I\<close>, and their streams, are as they were.\<close>

definition frame :: "nat set \<Rightarrow> WATCH_MANAGER \<Rightarrow> WATCH_MANAGER \<Rightarrow> bool" where
  "frame I m m' \<longleftrightarrow> (\<forall>j < REGISTRY_SIZE. j \<notin> I \<longrightarrow> graphs m' ! j = graphs m ! j)
     \<and> (\<forall>a j s. j \<notin> I \<longrightarrow> owner_slot m a j s \<longrightarrow> heap m' a = heap m a)"

lemma frame_refl [simp]: "frame I m m"
  by (simp add: frame_def)

lemma frame_trans:
  assumes "frame I a b" "frame J b c" "I \<union> J \<subseteq> K"
  shows "frame K a c"
proof -
  have "owner_slot b x j s" if "j \<notin> K" "owner_slot a x j s" for x j s
    using that assms(1,3) by (auto simp: frame_def owner_slot_def)
  then show ?thesis using assms unfolding frame_def by (metis (no_types) UnI1 UnI2 subsetD)
qed

lemma frame_frees:
  assumes "frees_released d m m'" "reg_ok m'"
    and o: "\<forall>j < 32. j \<noteq> i \<longrightarrow> graphs m' ! j = graphs m ! j"
  shows "frame {i} m m'"
  unfolding frame_def
proof (intro conjI allI impI)
  fix a j s assume "j \<notin> {i}" "owner_slot m a j s"
  then obtain g where "j < 32" "s < 64" "graphs m' ! j = Some g" "streams g ! s = Some a"
    using o by (auto simp: owner_slot_def)
  then have "heap m' a \<noteq> None" using graph_okD(5) [OF reg_okD(6) [OF assms(2)]] by blast
  then show "heap m' a = heap m a" using assms(1) by (auto simp: frees_released_def)
qed (use o in auto)

lemma finish_graph_effect:
  assumes ok: "reg_ok m" and i: "i < 32" "graphs m ! i = Some g"
  shows "\<exists>m'. finish_graph ab i m = Some m' \<and> pass_effect m m' \<and> frame {i} m m'
    \<and> frees_released (\<not> ab) m m'
    \<and> (if disposable (\<not> ab) m g then graphs m' ! i = None
       else \<exists>g'. graphs m' ! i = Some g' \<and> same_graph g g'
         \<and> (\<forall>s < 64. streams g' ! s = (if finished (\<not> ab) m g s then None else streams g ! s)))"
proof -
  from finish_graph_spec [OF ok i, of ab] obtain m' where
    f: "finish_graph ab i m = Some m'" "reg_ok m'" "frees_released (\<not> ab) m m'"
      "next_addr m' = next_addr m" "\<forall>j < 32. j \<noteq> i \<longrightarrow> graphs m' ! j = graphs m ! j"
    and c: "if disposable (\<not> ab) m g then graphs m' ! i = None
       else \<exists>g'. graphs m' ! i = Some g' \<and> same_graph g g'
         \<and> (\<forall>s < 64. streams g' ! s = (if finished (\<not> ab) m g s then None else streams g ! s))"
    by blast
  have "slot_effect (graphs m ! i) (graphs m' ! i)"
    using c i by (auto simp: disposable_def split: if_splits)
  then show ?thesis
    using f(1,3) c pass_effectI [OF f(2) keeps_owned_frees [OF f(3)] f(4,5)] frame_frees [OF f(3,2,5)]
    by blast
qed

text \<open>A visit is total. It changes one slot, and removes the graph there exactly when it is
  abandoned or acknowledged and has nothing left to send.\<close>

lemma pass_effect_sends:
  assumes ok: "reg_ok m" and i: "i < 32" "graphs m ! i = Some g"
  shows "\<exists>h1 w1. send_slots ok (streams g) (heap m) w = Some (h1, w1)
    \<and> pass_effect m (m\<lparr>heap := h1\<rparr>) \<and> frame {i} m (m\<lparr>heap := h1\<rparr>)"
proof -
  have gok: "graph_ok (heap m) g" using reg_okD(6) [OF ok i] .
  have "\<forall>a. Some a \<in> set (streams g) \<longrightarrow> heap m a \<noteq> None"
    using graph_streams_live [OF gok] by auto
  then obtain h1 w1 where s: "send_slots ok (streams g) (heap m) w = Some (h1, w1)"
    and e: "evolves (heap m) h1" using send_slots_spec by blast
  have "pass_effect m (m\<lparr>heap := h1\<rparr>)"
    using reg_ok_evolves [OF ok e] keeps_owned_evolves [of m "m\<lparr>heap := h1\<rparr>"] e
    by (simp add: pass_effect_def)
  moreover have "frame {i} m (m\<lparr>heap := h1\<rparr>)"
    unfolding frame_def
  proof (intro conjI allI impI)
    fix a j s0 assume j: "j \<notin> {i}" "owner_slot m a j s0"
    have "Some a \<notin> set (streams g)"
    proof
      assume "Some a \<in> set (streams g)"
      then obtain s1 where "s1 < 64" "streams g ! s1 = Some a"
        using graph_okD(3) [OF gok] by (metis in_set_conv_nth)
      then have "owner_slot m a i s1" using i by (simp add: owner_slot_def)
      then show False using owner_slot_unique [OF ok j(2)] j(1) by blast
    qed
    then show "heap (m\<lparr>heap := h1\<rparr>) a = heap m a" using send_slots_frame [OF s] by simp
  qed simp
  ultimately show ?thesis using s by blast
qed

lemma pass_effect_update:
  assumes ok: "reg_ok m" and i: "i < 32" "graphs m ! i = Some g"
    and f: "same_graph g (f g)" "streams (f g) = streams g" "stream_count (f g) = stream_count g"
  shows "pass_effect m (update_graph i f m)" "frame {i} m (update_graph i f m)"
proof -
  have gr: "graphs (update_graph i f m) ! j = (if j = i then Some (f g) else graphs m ! j)"
    if "j < 32" for j using that i reg_okD(2) [OF ok] by (simp add: update_graph_def)
  show "frame {i} m (update_graph i f m)"
    using gr by (simp add: frame_def) (simp add: update_graph_def)
  show "pass_effect m (update_graph i f m)"
  proof (rule pass_effectI)
    show "reg_ok (update_graph i f m)"
      using reg_ok_update_graph [OF ok i] f by (simp add: same_graph_def)
    show "slot_effect (graphs m ! i) (graphs (update_graph i f m) ! i)" using gr i f by simp
  qed (use gr in \<open>auto simp: update_graph_def keeps_owned_def\<close>)
qed

text \<open>The branch of an acknowledged graph: send, close the window once, finish.\<close>

definition close_due :: "WATCH_GRAPH \<Rightarrow> bool" where
  "close_due g \<longleftrightarrow> close_window_requested g \<and> \<not> close_window_sent g"

lemma visit_acked:
  assumes m: "reg_ok m" and g: "i < 32" "graphs m ! i = Some g" and a: "is_config_acked g"
  shows "\<exists>h1 w1 m2 g2 m3. send_slots ok (streams g) (heap m) w = Some (h1, w1)
    \<and> pass_effect m m2 \<and> frame {i} m m2 \<and> heap m2 = h1 \<and> graphs m2 ! i = Some g2
    \<and> same_graph g g2 \<and> streams g2 = streams g
    \<and> finish_graph False i m2 = Some m3
    \<and> visit_graph ok now_ms now i m w = Some (m3,
        if close_due g then send_graph_close ok now (handle_of g) w1 else w1, False)"
proof -
  from pass_effect_sends [OF m g] obtain h1 w1 where
    s: "send_slots ok (streams g) (heap m) w = Some (h1, w1)" and e1: "pass_effect m (m\<lparr>heap := h1\<rparr>)"
      "frame {i} m (m\<lparr>heap := h1\<rparr>)" by blast
  let ?m1 = "m\<lparr>heap := h1\<rparr>" and ?f = "\<lambda>g. g\<lparr>close_window_sent := True\<rparr>"
  define m2 where "m2 = (if close_due g then update_graph i ?f ?m1 else ?m1)"
  define g2 where "g2 = (if close_due g then ?f g else g)"
  have ok1: "reg_ok ?m1" and g1: "graphs ?m1 ! i = Some g"
    using e1 g by (simp_all add: pass_effect_def)
  have e2: "pass_effect ?m1 m2" "frame {i} ?m1 m2"
    using pass_effect_update [OF ok1 g(1) g1, of ?f] pass_effect_refl [OF ok1]
    by (simp_all add: same_graph_def handle_of_def m2_def)
  then have ok2: "reg_ok m2" by (simp add: pass_effect_def)
  have g2: "graphs m2 ! i = Some g2" "heap m2 = h1" "same_graph g g2" "streams g2 = streams g"
    using g1 g reg_okD(2) [OF ok1]
    by (simp_all add: m2_def g2_def update_graph_def same_graph_def handle_of_def)
  from finish_graph_effect [OF ok2 g(1) g2(1), of False] obtain m3 where
    f: "finish_graph False i m2 = Some m3" by blast
  have "visit_graph ok now_ms now i m w
      = Some (m3, if close_due g then send_graph_close ok now (handle_of g) w1 else w1, False)"
    using a g s f by (simp add: visit_graph_def Let_def m2_def close_due_def)
  then show ?thesis
    using s g2 f pass_effect_trans [OF e1(1) e2(1)] frame_trans [OF e1(2) e2(2), of "{i}"] by blast
qed

lemma visit_graph_effect:
  assumes m: "reg_ok m" and i: "i < 32"
  shows "\<exists>m' w' u. visit_graph ok now_ms now i m w = Some (m', w', u) \<and> pass_effect m m'
    \<and> frame {i} m m'"
proof (cases "graphs m ! i")
  case None
  then show ?thesis using pass_effect_refl [OF m] by (auto simp: visit_graph_def)
next
  case (Some g)
  note g = i Some
  consider "is_config_acked g" | "\<not> is_config_acked g" "close_window_requested g"
    | "\<not> is_config_acked g" "\<not> close_window_requested g" by blast
  then show ?thesis
  proof cases
    case 1
    from visit_acked [OF m g 1] obtain m2 g2 m3 w3 where
      v: "visit_graph ok now_ms now i m w = Some (m3, w3, False)" "pass_effect m m2" "frame {i} m m2"
        "graphs m2 ! i = Some g2" "finish_graph False i m2 = Some m3" by metis
    have "reg_ok m2" using v(2) by (simp add: pass_effect_def)
    from finish_graph_effect [OF this i v(4), of False] v(5)
    have "pass_effect m2 m3" "frame {i} m2 m3" by auto
    then show ?thesis
      using v(1) pass_effect_trans [OF v(2)] frame_trans [OF v(3), of "{i}" m3 "{i}"] by blast
  next
    case 2
    then have "visit_graph ok now_ms now i m w = map_option (\<lambda>m3. (m3, w, False)) (finish_graph True i m)"
      using Some by (simp add: visit_graph_def Let_def)
    then show ?thesis using finish_graph_effect [OF m g, of True] by auto
  next
    case 3
    let ?f = "\<lambda>g. g\<lparr>last_config_send_time := now_ms\<rparr>"
    have "pass_effect m (update_graph i ?f m)" "frame {i} m (update_graph i ?f m)"
      using pass_effect_update [OF m g, of ?f] by (simp_all add: same_graph_def handle_of_def)
    then show ?thesis
      using 3 Some pass_effect_refl [OF m] by (auto simp: visit_graph_def Let_def)
  qed
qed

lemma visit_graphs_effect:
  "reg_ok m \<Longrightarrow> \<forall>i \<in> set is. i < 32 \<Longrightarrow>
     \<exists>m' w' u. visit_graphs ok now_ms now is m w = Some (m', w', u) \<and> pass_effect m m'
       \<and> frame (set is) m m'"
proof (induction "is" arbitrary: m w)
  case Nil
  then show ?case using pass_effect_refl by auto
next
  case (Cons i "is")
  have i: "i < 32" "\<forall>i \<in> set is. i < 32" using Cons.prems(2) by simp_all
  from visit_graph_effect [OF Cons.prems(1) i(1)] obtain m1 w1 u where
    v: "visit_graph ok now_ms now i m w = Some (m1, w1, u)" "pass_effect m m1" "frame {i} m m1"
    by blast
  have "reg_ok m1" using v(2) by (simp add: pass_effect_def)
  from Cons.IH [OF this i(2)] obtain m2 w2 u2 where
    r: "visit_graphs ok now_ms now is m1 w1 = Some (m2, w2, u2)" "pass_effect m1 m2"
      "frame (set is) m1 m2" by blast
  have "visit_graphs ok now_ms now (i # is) m w = Some (m2, w2, u \<or> u2)" using v(1) r(1) by simp
  then show ?case
    using pass_effect_trans [OF v(2) r(2)] frame_trans [OF v(3) r(3), of "set (i # is)"] by simp
qed

text \<open>What a pass does to one slot is what its visit does.\<close>

lemma visit_graphs_append:
  "visit_graphs ok now_ms now (is @ js) m w =
     (case visit_graphs ok now_ms now is m w of
        None \<Rightarrow> None
      | Some (m1, w1, u1) \<Rightarrow>
          map_option (\<lambda>(m2, w2, u2). (m2, w2, u1 \<or> u2)) (visit_graphs ok now_ms now js m1 w1))"
proof (induction "is" arbitrary: m w)
  case Nil
  then show ?case by (cases "visit_graphs ok now_ms now js m w") auto
next
  case (Cons i "is")
  then show ?case by (auto split: option.split simp: option.map_comp comp_def split_beta)
qed

lemma visit_graphs_at:
  assumes m: "reg_ok m" and i: "i < 32"
    and r: "visit_graphs ok now_ms now [0..<32] m w = Some (m', w', u)"
  shows "\<exists>m1 w1 m2 w2 u2 I J. pass_effect m m1 \<and> frame I m m1 \<and> i \<notin> I
    \<and> visit_graph ok now_ms now i m1 w1 = Some (m2, w2, u2) \<and> (u2 \<longrightarrow> u)
    \<and> pass_effect m1 m2 \<and> frame J m2 m' \<and> i \<notin> J \<and> pass_effect m2 m'"
proof -
  have l: "[0..<32] = [0..<i] @ i # [Suc i..<32]"
    using upt_add_eq_append [of 0 i "32 - i"] i by (simp add: upt_conv_Cons)
  have b: "\<forall>k \<in> set [0..<i]. k < 32" "\<forall>k \<in> set [Suc i..<32]. k < 32" using i by auto
  from visit_graphs_effect [OF m b(1)] obtain m1 w1 u1 where
    v1: "visit_graphs ok now_ms now [0..<i] m w = Some (m1, w1, u1)" "pass_effect m m1"
      "frame (set [0..<i]) m m1" by blast
  then have m1: "reg_ok m1" by (simp add: pass_effect_def)
  from visit_graph_effect [OF m1 i] obtain m2 w2 u2 where
    v2: "visit_graph ok now_ms now i m1 w1 = Some (m2, w2, u2)" "pass_effect m1 m2" by blast
  then have "reg_ok m2" by (simp add: pass_effect_def)
  from visit_graphs_effect [OF this b(2)] obtain m3 w3 u3 where
    v3: "visit_graphs ok now_ms now [Suc i..<32] m2 w2 = Some (m3, w3, u3)" "pass_effect m2 m3"
      "frame (set [Suc i..<32]) m2 m3" by blast
  have "m3 = m'" "u = (u1 \<or> u2 \<or> u3)"
    using r v1(1) v2(1) v3(1) unfolding l visit_graphs_append by auto
  moreover have "i \<notin> set [0..<i]" "i \<notin> set [Suc i..<32]" by simp_all
  ultimately show ?thesis using v1 v2 v3 by blast
qed

section \<open>Acknowledgements and the viewer process\<close>

definition acked_graph :: "WATCH_GRAPH \<Rightarrow> WATCH_GRAPH \<Rightarrow> bool" where
  "acked_graph g g' \<longleftrightarrow> g' = g \<or> g' = g\<lparr>is_config_acked := True\<rparr>"

definition ack_effect :: "WATCH_MANAGER \<Rightarrow> WATCH_MANAGER \<Rightarrow> bool" where
  "ack_effect m m' \<longleftrightarrow> reg_ok m' \<and> heap m' = heap m \<and> next_addr m' = next_addr m
     \<and> (\<forall>j < REGISTRY_SIZE. rel_option acked_graph (graphs m ! j) (graphs m' ! j))"

lemma ack_effect_refl: "reg_ok m \<Longrightarrow> ack_effect m m"
  by (simp add: ack_effect_def acked_graph_def option.rel_refl)

lemma acked_graph_trans:
  "rel_option acked_graph a b \<Longrightarrow> rel_option acked_graph b c \<Longrightarrow> rel_option acked_graph a c"
  by (cases a; cases b; cases c) (auto simp: acked_graph_def)

lemma ack_effect_trans: "ack_effect a b \<Longrightarrow> ack_effect b c \<Longrightarrow> ack_effect a c"
  unfolding ack_effect_def
  by (elim conjE, intro conjI) (assumption, simp, simp, blast intro: acked_graph_trans)

lemma accept_ack_effect:
  assumes ok: "reg_ok m"
  shows "ack_effect m (accept_ack p n m)"
proof -
  let ?f = "\<lambda>g. g\<lparr>is_config_acked := True\<rparr>"
  have "accept_ack p n m = m \<or> (\<exists>i. i < 32 \<and> graphs m ! i = Some (graph_at m i)
      \<and> accept_ack p n m = update_graph i ?f m)"
    using find_graph_Some(1,2) [OF ok, of "ack_graph_id (pk_ack p)"]
    by (auto simp: accept_ack_def split: option.splits)
  then show ?thesis
  proof (elim disjE exE conjE)
    fix i assume i: "i < 32" "graphs m ! i = Some (graph_at m i)"
      and m': "accept_ack p n m = update_graph i ?f m"
    have "reg_ok (update_graph i ?f m)"
      using reg_ok_update_graph [OF ok i, of ?f] by (simp add: handle_of_def)
    moreover have "rel_option acked_graph (graphs m ! j) (graphs (update_graph i ?f m) ! j)"
      if "j < 32" for j
      using that i reg_okD(2) [OF ok]
      by (cases "j = i") (auto simp: update_graph_def acked_graph_def option.rel_refl)
    ultimately show ?thesis by (simp add: m' ack_effect_def) (simp add: update_graph_def)
  qed (use ok in \<open>simp add: ack_effect_refl\<close>)
qed

lemma receive_acks_effect: "reg_ok m \<Longrightarrow> ack_effect m (receive_acks inbox m)"
proof (induction inbox arbitrary: m)
  case Nil
  then show ?case by (simp add: ack_effect_refl)
next
  case (Cons x inbox)
  obtain p n where x: "x = (p, n)" by fastforce
  have a: "ack_effect m (accept_ack p n m)" using accept_ack_effect [OF Cons.prems] .
  then show ?case
    using Cons.IH [of "accept_ack p n m"] Cons.prems x ack_effect_trans [OF a] ack_effect_refl
    by (simp add: ack_effect_def)
qed

lemma reg_ok_launch: "reg_ok m \<Longrightarrow> reg_ok (fst (try_launch_viewer now_ms launch m))"
  by (simp add: reg_ok_def owner_slot_def try_launch_viewer_def Let_def)

lemma launch_keeps [simp]:
  "graphs (fst (try_launch_viewer now_ms launch m)) = graphs m"
  "heap (fst (try_launch_viewer now_ms launch m)) = heap m"
  "next_addr (fst (try_launch_viewer now_ms launch m)) = next_addr m"
  by (simp_all add: try_launch_viewer_def Let_def)

section \<open>A round of the sender\<close>

text \<open>A round: the acknowledgements, then the pass.\<close>

lemma sender_round_spec:
  assumes m: "reg_ok m"
  shows "\<exists>m0 m1 w1 u m' rep. m0 = receive_acks inbox m \<and> ack_effect m m0
    \<and> visit_graphs ok now_ms now [0..<32] m0 w = Some (m1, w1, u) \<and> pass_effect m0 m1
    \<and> sender_round ok inbox now_ms now launch m w = Some (m', w1, rep) \<and> reg_ok m'
    \<and> graphs m' = graphs m1 \<and> heap m' = heap m1 \<and> next_addr m' = next_addr m1
    \<and> (rep \<noteq> None \<longrightarrow> u)"
proof -
  let ?m0 = "receive_acks inbox m"
  have a: "ack_effect m ?m0" using receive_acks_effect [OF m] .
  then have ok0: "reg_ok ?m0" by (simp add: ack_effect_def)
  have "\<forall>i \<in> set [0..<32]. i < (32 :: nat)" by simp
  from visit_graphs_effect [OF ok0 this] obtain m1 w1 u where
    v: "visit_graphs ok now_ms now [0..<32] ?m0 w = Some (m1, w1, u)" "pass_effect ?m0 m1" by blast
  have ok1: "reg_ok m1" using v(2) by (simp add: pass_effect_def)
  have c: "graph_capacity ?m0 = 32" using reg_okD(1) [OF ok0] .
  have p: "reg_ok (m1\<lparr>viewer_probe_started_ms := x\<rparr>)" for x
    using ok1 by (simp add: reg_ok_def owner_slot_def)
  show ?thesis
  proof (cases u)
    case True
    obtain m2 started rep where l: "try_launch_viewer now_ms launch m1 = (m2, started, rep)"
      by (metis prod_cases3)
    have "sender_round ok inbox now_ms now launch m w = Some (m2, w1, rep)"
      using v(1) c True l by (simp add: sender_round_def Let_def del: upt_Suc)
    then show ?thesis
      using a v True l reg_ok_launch [OF ok1, of now_ms launch] launch_keeps [of now_ms launch m1]
      by auto
  next
    case False
    have "sender_round ok inbox now_ms now launch m w
        = Some (m1\<lparr>viewer_probe_started_ms := UINT64_MAX\<rparr>, w1, None)"
      using v(1) c False by (simp add: sender_round_def Let_def)
    then show ?thesis using a v p by auto
  qed
qed

lemma keeps_owned_heap: "heap m' = heap m \<Longrightarrow> keeps_owned m m'"
  by (simp add: keeps_owned_def)

text \<open>A graph stays in its slot, with its identifier and its requests, until it is removed,
  which takes a request.\<close>

definition slot_kept :: "WATCH_GRAPH option \<Rightarrow> WATCH_GRAPH option \<Rightarrow> bool" where
  "slot_kept go go' \<longleftrightarrow> (case go of
       None \<Rightarrow> go' = None
     | Some g \<Rightarrow> (case go' of
         None \<Rightarrow> destroy_requested g
       | Some g' \<Rightarrow> handle_of g' = handle_of g \<and> destroy_requested g' = destroy_requested g
           \<and> close_window_requested g' = close_window_requested g))"

lemma sender_round_total:
  assumes m: "reg_ok m"
  obtains m' w' rep where "sender_round ok inbox now_ms now launch m w = Some (m', w', rep)"
    "reg_ok m'" "keeps_owned m m'" "next_addr m' = next_addr m"
    "\<forall>j < 32. slot_kept (graphs m ! j) (graphs m' ! j)"
proof -
  from sender_round_spec [OF m, of inbox ok now_ms now w launch] obtain m0 m1 w1 u m' rep where
    r: "ack_effect m m0" "pass_effect m0 m1" "sender_round ok inbox now_ms now launch m w = Some (m', w1, rep)"
      "reg_ok m'" "graphs m' = graphs m1" "heap m' = heap m1" "next_addr m' = next_addr m1" by blast
  have k: "keeps_owned m m'"
    using r by (auto simp: ack_effect_def pass_effect_def keeps_owned_def)
  have "slot_kept (graphs m ! j) (graphs m' ! j)" if "j < 32" for j
  proof -
    have "rel_option acked_graph (graphs m ! j) (graphs m0 ! j)"
      "slot_effect (graphs m0 ! j) (graphs m' ! j)"
      using r that by (simp_all add: ack_effect_def pass_effect_def)
    then show ?thesis
      by (cases "graphs m ! j"; cases "graphs m0 ! j"; cases "graphs m' ! j")
        (auto simp: acked_graph_def same_graph_def slot_kept_def handle_of_def)
  qed
  then show thesis
    using that r k by (simp add: ack_effect_def pass_effect_def)
qed

section \<open>Draining\<close>

text \<open>What a released stream still has to send, and the streams of a graph that have at most
  \<open>n\<close> steps of it left.\<close>

definition backlog :: "WATCH_STREAM \<Rightarrow> nat" where
  "backlog st = length (queued st) + (ftable_total_samples st - ftable_next_sample st)"

definition draining :: "nat \<Rightarrow> WATCH_STREAM \<Rightarrow> bool" where
  "draining n st \<longleftrightarrow> release_requested st \<and> pending_samples st = 0 \<and> queue_wf st
     \<and> (ftable_next_sample st < ftable_total_samples st \<longrightarrow> ftable_samples st \<noteq> None)
     \<and> backlog st \<le> n"

lemma draining_mono: "draining n st \<Longrightarrow> n \<le> k \<Longrightarrow> draining k st"
  by (simp add: draining_def)

lemma draining_0: "draining 0 st \<Longrightarrow> release_requested st \<and> stream_transfer_complete st"
  using pktq.empty_iff [of st]
  by (auto simp: draining_def backlog_def stream_transfer_complete_def queue_empty_def)

text \<open>With a socket that takes everything, a pass makes progress.\<close>

lemma send_stream_packets_reliable:
  assumes wf: "queue_wf st" and r: "send_stream_packets (\<lambda>_. True) st w = (st', w')"
  shows "queue_wf st' \<and> length (queued st') = length (queued st) - 8
    \<and> st' = st\<lparr>read_pos := read_pos st'\<rparr>"
proof -
  from send_stream_loop_spec [OF wf r [unfolded send_stream_packets_def]] obtain k where
    "k \<le> 8" "sent_prefix st w k st' w'" "k < 8 \<and> k < length (queued st) \<longrightarrow> \<not> True" by blast
  then show ?thesis by (auto simp: sent_prefix_def)
qed

lemma send_ftable_loop_reliable:
  "send_ftable_loop (\<lambda>_. True) n st w = (st', w', ret) \<Longrightarrow>
     \<exists>x. st' = st\<lparr>ftable_next_sample := x\<rparr> \<and> ftable_next_sample st \<le> x
       \<and> (0 < n \<and> ftable_samples st \<noteq> None \<and> ftable_next_sample st < ftable_total_samples st
            \<longrightarrow> ftable_next_sample st < x)"
proof (induction n arbitrary: st w)
  case (Suc n)
  show ?case
  proof (cases "ftable_samples st \<noteq> None \<and> ftable_next_sample st < ftable_total_samples st")
    case True
    then obtain w1 where "send_ftable_loop (\<lambda>_. True) n (ftable_advance st) w1 = (st', w', ret)"
      using Suc.prems by (auto simp: send_packet_def)
    from Suc.IH [OF this] obtain x where "st' = (ftable_advance st)\<lparr>ftable_next_sample := x\<rparr>"
      "ftable_next_sample (ftable_advance st) \<le> x" by blast
    moreover have "ftable_next_sample st < ftable_next_sample (ftable_advance st)"
      using True by (auto simp: ftable_advance_def Let_def)
    ultimately show ?thesis by (intro exI [of _ x]) (simp add: ftable_advance_def)
  next
    case False
    then have "st' = st" using Suc.prems by (auto split: option.splits)
    then show ?thesis using False by (intro exI [of _ "ftable_next_sample st"]) auto
  qed
qed (rule exI [of _ "ftable_next_sample st" for st], auto)

lemma queued_read_pos: "st' = st\<lparr>read_pos := x\<rparr> \<Longrightarrow> ftable_samples st' = ftable_samples st
    \<and> ftable_next_sample st' = ftable_next_sample st \<and> ftable_total_samples st' = ftable_total_samples st
    \<and> release_requested st' = release_requested st \<and> pending_samples st' = pending_samples st"
  by simp

lemma stream_pass_drains:
  assumes d: "draining n st" and s: "send_stream_packets (\<lambda>_. True) st w = (st1, w1)"
    and f: "send_ftable_packets (\<lambda>_. True) st1 w1 = (st2, w2)"
  shows "draining (n - 1) st2"
proof -
  have wf: "queue_wf st" and b: "backlog st \<le> n" using d by (simp_all add: draining_def)
  note p = send_stream_packets_reliable [OF wf s]
  then have e: "ftable_samples st1 = ftable_samples st" "ftable_next_sample st1 = ftable_next_sample st"
    "ftable_total_samples st1 = ftable_total_samples st" "release_requested st1 = release_requested st"
    "pending_samples st1 = pending_samples st" using queued_read_pos by blast+
  obtain st3 w3 ret where l: "send_ftable_loop (\<lambda>_. True) 8 st1 w1 = (st3, w3, ret)"
    by (metis prod_cases3)
  from send_ftable_loop_reliable [OF l] obtain x where x: "st3 = st1\<lparr>ftable_next_sample := x\<rparr>"
    "ftable_next_sample st1 \<le> x" "ftable_samples st1 \<noteq> None \<and> ftable_next_sample st1 < ftable_total_samples st1
            \<longrightarrow> ftable_next_sample st1 < x" by auto
  have st2: "st2 = st3 \<or> st2 = st3\<lparr>ftable_samples := None\<rparr> \<and> x = ftable_total_samples st1"
    using f l x(1) by (auto simp: send_ftable_packets_def split: if_splits)
  have q: "queued st2 = queued st1" "queue_wf st2"
    using st2 x(1) p by (auto simp: queued_def queue_wf_def)
  have "backlog st2 \<le> n - 1"
    using b p e x(2,3) st2 x(1) q d by (auto simp: backlog_def draining_def)
  then show ?thesis
    using d p e x st2 q by (auto simp: draining_def)
qed

lemma send_slots_drains:
  "send_slots (\<lambda>_. True) refs h w = Some (h', w') \<Longrightarrow> h a = Some st \<Longrightarrow>
     draining (if Some a \<in> set refs then n else n - 1) st \<Longrightarrow>
     \<exists>st'. h' a = Some st' \<and> draining (n - 1) st'"
proof (induction "\<lambda>_ :: nat. True" refs h w arbitrary: st rule: send_slots.induct)
  case (3 b refs h w)
  obtain sb where b: "h b = Some sb" using "3.prems"(1) by (cases "h b") auto
  obtain st1 w1 st2 w2 where r: "send_stream_packets (\<lambda>_. True) sb w = (st1, w1)"
    "send_ftable_packets (\<lambda>_. True) st1 w1 = (st2, w2)" by fastforce
  have n: "send_slots (\<lambda>_. True) refs (h(b \<mapsto> st2)) w2 = Some (h', w')"
    using "3.prems"(1) b r by simp
  note IH = "3.hyps" [OF b r(1) [symmetric] r(2) [symmetric] n]
  show ?case
  proof (cases "a = b")
    case True
    then have "draining n sb" using "3.prems"(2,3) b draining_mono by (fastforce split: if_splits)
    then have "draining (n - 1) st2" using stream_pass_drains r by blast
    then show ?thesis
      using IH [of st2] True draining_mono [of "n - 1" st2 n] by auto
  next
    case False
    then show ?thesis using IH [of st] "3.prems"(2,3) by auto
  qed
qed auto

text \<open>A graph on its way out: acknowledged, to be destroyed, every stream draining.\<close>

definition leaving :: "nat \<Rightarrow> WATCH_MANAGER \<Rightarrow> WATCH_GRAPH \<Rightarrow> bool" where
  "leaving n m g \<longleftrightarrow> is_config_acked g \<and> destroy_requested g
     \<and> (\<forall>s < MAX_STREAMS. \<forall>a. streams g ! s = Some a \<longrightarrow>
          (\<exists>st. heap m a = Some st \<and> draining n st))"

definition slot_leaving :: "nat \<Rightarrow> WATCH_MANAGER \<Rightarrow> nat \<Rightarrow> bool" where
  "slot_leaving n m i \<longleftrightarrow> (case graphs m ! i of None \<Rightarrow> True | Some g \<Rightarrow> leaving n m g)"

lemma slot_leaving_mono: "slot_leaving n m i \<Longrightarrow> n \<le> k \<Longrightarrow> slot_leaving k m i"
  by (auto simp: slot_leaving_def leaving_def draining_def split: option.splits)
    (meson le_trans)

lemma slot_leaving_frame:
  assumes "frame I m m'" "i \<notin> I" "i < 32" "slot_leaving n m i"
  shows "slot_leaving n m' i" "graphs m' ! i = graphs m ! i"
proof -
  show g: "graphs m' ! i = graphs m ! i" using assms(1-3) by (simp add: frame_def)
  have "heap m' a = heap m a" if "graphs m ! i = Some g" "s < 64" "streams g ! s = Some a" for g s a
  proof -
    have "owner_slot m a i s" using that assms(3) by (simp add: owner_slot_def)
    then show ?thesis using assms(1,2) by (simp add: frame_def) blast
  qed
  then show "slot_leaving n m' i"
    using assms(4) by (auto simp: slot_leaving_def leaving_def g split: option.splits)
qed

lemma slot_leaving_acks: "ack_effect m m' \<Longrightarrow> i < 32 \<Longrightarrow> slot_leaving n m i \<Longrightarrow> slot_leaving n m' i"
  by (cases "graphs m ! i"; cases "graphs m' ! i")
    (fastforce simp: ack_effect_def slot_leaving_def leaving_def acked_graph_def)+

lemma visit_graph_leaving:
  assumes m: "reg_ok m" and i: "i < 32" and l: "slot_leaving (Suc n) m i"
    and v: "visit_graph (\<lambda>_. True) now_ms now i m w = Some (m', w', u)"
  shows "slot_leaving n m' i \<and> (n = 0 \<or> graphs m ! i = None \<longrightarrow> graphs m' ! i = None)"
proof (cases "graphs m ! i")
  case None
  then show ?thesis using v by (auto simp: visit_graph_def slot_leaving_def)
next
  case (Some g)
  then have lg: "leaving (Suc n) m g" using l by (simp add: slot_leaving_def)
  then have "is_config_acked g" by (simp add: leaving_def)
  from visit_acked [OF m i Some this, of "\<lambda>_. True" w now_ms now] v obtain h1 w1 m2 g2 where
    s: "send_slots (\<lambda>_. True) (streams g) (heap m) w = Some (h1, w1)" and
    v2: "pass_effect m m2" "heap m2 = h1" "graphs m2 ! i = Some g2" "same_graph g g2"
      "streams g2 = streams g" "finish_graph False i m2 = Some m'" by auto
  have ok2: "reg_ok m2" using v2(1) by (simp add: pass_effect_def)
  have len: "length (streams g) = 64" using graph_okD(3) [OF reg_okD(6) [OF m i Some]] .
  have dr: "\<exists>st. heap m2 a = Some st \<and> draining n st" if "t < 64" "streams g ! t = Some a" for t a
  proof -
    obtain st where "heap m a = Some st" "draining (Suc n) st"
      using lg \<open>t < 64\<close> \<open>streams g ! t = Some a\<close> by (auto simp: leaving_def)
    moreover have "Some a \<in> set (streams g)" using that len nth_mem by metis
    ultimately show ?thesis using send_slots_drains [OF s, of a st "Suc n"] v2(2) by simp
  qed
  from finish_graph_effect [OF ok2 i v2(3), of False] v2(6) have
    f: "pass_effect m2 m'" "frees_released True m2 m'" and
    c: "if disposable True m2 g2 then graphs m' ! i = None
       else \<exists>g'. graphs m' ! i = Some g' \<and> same_graph g2 g'
         \<and> (\<forall>s < 64. streams g' ! s = (if finished True m2 g2 s then None else streams g2 ! s))"
    by auto
  show ?thesis
  proof (cases "disposable True m2 g2")
    case True
    then show ?thesis using c by (simp add: slot_leaving_def)
  next
    case False
    then obtain g' where g': "graphs m' ! i = Some g'" "same_graph g2 g'"
      "\<forall>s < 64. streams g' ! s = (if finished True m2 g2 s then None else streams g2 ! s)"
      using c by auto
    have "n \<noteq> 0"
    proof
      assume "n = 0"
      then have "streams g2 ! t = None \<or> finished True m2 g2 t" if "t < 64" for t
        using dr [OF that] draining_0 v2(5) by (cases "streams g ! t") (auto simp: finished_def)
      then show False using False v2(4) lg by (simp add: disposable_def same_graph_def leaving_def)
    qed
    moreover have "\<exists>st. heap m' a = Some st \<and> draining n st"
      if t: "t < 64" "streams g' ! t = Some a" for t a
    proof -
      have "streams g ! t = Some a" using g'(3) t v2(5) by (auto split: if_splits)
      then obtain st where st: "heap m2 a = Some st" "draining n st" using dr t by blast
      have "graph_ok (heap m') g'"
        using reg_okD(6) [OF _ i g'(1)] f(1) by (simp add: pass_effect_def)
      then have "heap m' a \<noteq> None" using graph_okD(5) t by fastforce
      then show ?thesis using st f(2) unfolding frees_released_def by metis
    qed
    then have "slot_leaving n m' i"
      using g' v2(4) lg by (simp add: slot_leaving_def leaving_def same_graph_def)
    ultimately show ?thesis using Some by simp
  qed
qed

lemma sender_round_leaving:
  assumes m: "reg_ok m" and i: "i < 32" and l: "slot_leaving (Suc n) m i"
    and r: "sender_round (\<lambda>_. True) inbox now_ms now launch m w = Some (m', w', rep)"
  shows "reg_ok m' \<and> slot_leaving n m' i \<and> (n = 0 \<or> graphs m ! i = None \<longrightarrow> graphs m' ! i = None)"
proof -
  from sender_round_spec [OF m, of inbox "\<lambda>_. True" now_ms now w launch] r
  obtain m0 m1 u where a: "ack_effect m m0"
    and v: "visit_graphs (\<lambda>_. True) now_ms now [0..<32] m0 w = Some (m1, w', u)"
    and m': "reg_ok m'" "graphs m' = graphs m1" "heap m' = heap m1" by auto
  have ok0: "reg_ok m0" using a by (simp add: ack_effect_def)
  from visit_graphs_at [OF ok0 i v] obtain ma wa mb wb ub I J where
    v: "pass_effect m0 ma" "frame I m0 ma" "i \<notin> I"
      "visit_graph (\<lambda>_. True) now_ms now i ma wa = Some (mb, wb, ub)" "frame J mb m1" "i \<notin> J"
    by blast
  have oka: "reg_ok ma" using v(1) by (simp add: pass_effect_def)
  note l0 = slot_leaving_acks [OF a i l]
  note la = slot_leaving_frame [OF v(2,3) i l0]
  note lb = visit_graph_leaving [OF oka i la(1) v(4)]
  note l1 = slot_leaving_frame [OF v(5,6) i conjunct1 [OF lb]]
  have "slot_leaving n m' i" using l1(1) m' by (simp add: slot_leaving_def leaving_def split: option.splits)
  moreover have "graphs m ! i = None \<Longrightarrow> graphs ma ! i = None"
    using a i la(2) by (auto simp: ack_effect_def)
  ultimately show ?thesis using lb l1(2) m' by auto
qed

text \<open>Rounds of the sender, one after the other.\<close>

fun sender_rounds :: "((packet \<times> int) list \<times> u64 \<times> int \<times> int) list \<Rightarrow> (nat \<Rightarrow> bool)
    \<Rightarrow> WATCH_MANAGER \<Rightarrow> net \<Rightarrow> (WATCH_MANAGER \<times> net) option" where
  "sender_rounds [] ok m w = Some (m, w)"
| "sender_rounds ((inbox, now_ms, now, launch) # rs) ok m w =
     (case sender_round ok inbox now_ms now launch m w of
        None \<Rightarrow> None
      | Some (m', w', _) \<Rightarrow> sender_rounds rs ok m' w')"

lemma sender_rounds_leaving:
  "reg_ok m \<Longrightarrow> slot_leaving n m i \<Longrightarrow> i < 32 \<Longrightarrow> n < length rs \<Longrightarrow>
     \<exists>m' w'. sender_rounds rs (\<lambda>_. True) m w = Some (m', w') \<and> reg_ok m' \<and> graphs m' ! i = None"
proof (induction rs arbitrary: n m w)
  case (Cons r rs)
  obtain inbox now_ms now launch where x: "r = (inbox, now_ms, now, launch)" by (cases r)
  note ok = Cons.prems(1) and l = Cons.prems(2) and i = Cons.prems(3) and len = Cons.prems(4) and IH = Cons.IH
  obtain m1 w1 rep where
    s: "sender_round (\<lambda>_. True) inbox now_ms now launch m w = Some (m1, w1, rep)"
    by (rule sender_round_total [OF ok])
  have l': "slot_leaving (Suc (n - 1)) m i"
    using slot_leaving_mono [OF l, of "Suc (n - 1)"] by simp
  note e = sender_round_leaving [OF ok i l' s]
  show ?case
  proof (cases "rs")
    case Nil
    then show ?thesis using e x s len by simp
  next
    case (Cons r' rs')
    then have "n - 1 < length rs" using len by simp
    then show ?thesis using IH [of m1 "n - 1" w1] e i x s by simp
  qed
qed simp

section \<open>Properties\<close>

text \<open>C4: A round of the sender always completes: it never reads a freed stream. It keeps the
  registry consistent, frees and moves no stream whose opcode has not released it, and no graph
  leaves its slot, or changes its handle, without having been asked to go.\<close>

theorem sender_round_safe:
  assumes "reg_ok m"
  shows "\<exists>m' w' rep. sender_round ok inbox now_ms now launch m w = Some (m', w', rep) \<and> reg_ok m'
    \<and> (\<forall>a st. heap m a = Some st \<and> \<not> release_requested st \<longrightarrow>
         (\<exists>st'. heap m' a = Some st' \<and> \<not> release_requested st'
            \<and> st_graph_id st' = st_graph_id st \<and> st_stream_id st' = st_stream_id st))
    \<and> (\<forall>i < 32. case graphs m ! i of
         None \<Rightarrow> graphs m' ! i = None
       | Some g \<Rightarrow> (case graphs m' ! i of
           None \<Rightarrow> destroy_requested g
         | Some g' \<Rightarrow> handle_of g' = handle_of g))"
proof -
  obtain m' w' rep where r: "sender_round ok inbox now_ms now launch m w = Some (m', w', rep)"
    "reg_ok m'" "keeps_owned m m'" "\<forall>j < 32. slot_kept (graphs m ! j) (graphs m' ! j)"
    by (rule sender_round_total [OF assms])
  have "case graphs m ! i of None \<Rightarrow> graphs m' ! i = None
      | Some g \<Rightarrow> (case graphs m' ! i of None \<Rightarrow> destroy_requested g
        | Some g' \<Rightarrow> handle_of g' = handle_of g)" if "i < 32" for i
    using spec [OF r(4), of i] that by (simp add: slot_kept_def split: option.splits)
  moreover have "\<exists>st'. heap m' a = Some st' \<and> \<not> release_requested st'
      \<and> st_graph_id st' = st_graph_id st \<and> st_stream_id st' = st_stream_id st"
    if "heap m a = Some st \<and> \<not> release_requested st" for a st
    using r(3) that by (auto simp: keeps_owned_def same_stream_def)
  ultimately show ?thesis using r(1,2) by blast
qed

lemma one_graph_slot: "graphs one_graph_manager ! 0 = Some (graph_at one_graph_manager 0)"
  by code_simp

theorem sender_round_safe_witness:
  "\<exists>m' w' rep. sender_round (\<lambda>n. n \<noteq> 1) [] 3 4 0 one_graph_manager \<lparr>attempts = 0, sent = []\<rparr>
       = Some (m', w', rep) \<and> reg_ok m'
    \<and> (case graphs m' ! 0 of None \<Rightarrow> destroy_requested (graph_at one_graph_manager 0)
       | Some g' \<Rightarrow> handle_of g' = handle_of (graph_at one_graph_manager 0))"
proof -
  from sender_round_safe [OF reg_ok_one_graph, of "\<lambda>n. n \<noteq> 1" "[]" 3 4 0 "\<lparr>attempts = 0, sent = []\<rparr>"]
  obtain m' w' rep where r: "sender_round (\<lambda>n. n \<noteq> 1) [] 3 4 0 one_graph_manager
      \<lparr>attempts = 0, sent = []\<rparr> = Some (m', w', rep)" "reg_ok m'"
    and s: "\<forall>i < 32. case graphs one_graph_manager ! i of
         None \<Rightarrow> graphs m' ! i = None
       | Some g \<Rightarrow> (case graphs m' ! i of
           None \<Rightarrow> destroy_requested g
         | Some g' \<Rightarrow> handle_of g' = handle_of g)" by blast
  show ?thesis using r spec [OF s, of 0] one_graph_slot by auto
qed

text \<open>Releasing a stream publishes what it has pending, so a released stream meets the conditions
  of the next property.\<close>

lemma released_queue:
  assumes "queue_wf st" "\<not> queue_full st"
  shows "queue_wf (released st)"
    "queued (released st) = queued st @ (if pending_samples st > 0 then [closed_packet st] else [])"
proof -
  have same: "queue_wf (s\<lparr>pending_samples := 0, release_requested := True\<rparr>) = queue_wf s"
    "queued (s\<lparr>pending_samples := 0, release_requested := True\<rparr>) = queued s"
    "queue_wf (s\<lparr>release_requested := True\<rparr>) = queue_wf s"
    "queued (s\<lparr>release_requested := True\<rparr>) = queued s" for s
    by (simp_all add: queue_wf_def queued_def)
  show "queue_wf (released st)"
    "queued (released st) = queued st @ (if pending_samples st > 0 then [closed_packet st] else [])"
    using assms queue_wf_put queued_put by (simp_all add: released_def publish_time_packet_eq same)
qed

lemma released_drains:
  assumes "queue_wf st" "\<not> queue_full st"
    and "ftable_next_sample st < ftable_total_samples st \<longrightarrow> ftable_samples st \<noteq> None"
  shows "draining (backlog (released st)) (released st)"
  using released_queue(1) [OF assms(1,2)] assms(3)
  by (simp add: draining_def released_def publish_time_packet_eq queue_put_def update_slot_def)

text \<open>C15: An acknowledged graph that is to be destroyed goes, once the opcodes have released its
  streams. When every stream of the graph has been released, with nothing pending (a release publishes
  it), and the socket takes everything, the graph has left the registry after at most one round more
  than the longest of its queues and table transfers has steps, whatever the viewer sends and however
  the other graphs behave. (A stream its opcode still holds keeps the graph.)\<close>

theorem sender_drains:
  assumes "reg_ok m" "i < 32" "graphs m ! i = Some g" "is_config_acked g" "destroy_requested g"
    and "\<forall>s < 64. \<forall>a. streams g ! s = Some a \<longrightarrow> (\<exists>st. heap m a = Some st
      \<and> release_requested st \<and> pending_samples st = 0 \<and> queue_wf st
      \<and> (ftable_next_sample st < ftable_total_samples st \<longrightarrow> ftable_samples st \<noteq> None)
      \<and> length (queued st) + (ftable_total_samples st - ftable_next_sample st) \<le> n)"
    and "n < length rs"
  shows "\<exists>m' w'. sender_rounds rs (\<lambda>_. True) m w = Some (m', w') \<and> reg_ok m' \<and> graphs m' ! i = None"
proof -
  have "slot_leaving n m i"
    using assms(3-6) by (auto simp: slot_leaving_def leaving_def draining_def backlog_def)
  then show ?thesis using sender_rounds_leaving [OF assms(1) _ assms(2,7)] by blast
qed

lemma one_graph_streams: "streams (graph_at one_graph_manager 0) = replicate 64 None"
  by code_simp

text \<open>A graph whose only stream was released with a packet queued and one being filled.\<close>

definition busy_stream :: WATCH_STREAM where
  "busy_stream = (queue_put zero_packet (new_stream (graph_at one_graph_manager 0) 0 (Fin 44100) 1))
     \<lparr>pending_samples := 1\<rparr>"

definition draining_manager :: WATCH_MANAGER where
  "draining_manager =
     (let a = next_addr one_graph_manager; m = stream_entered one_graph_manager 0 0 (Fin 44100) 1 in
      update_graph 0 (\<lambda>g. g\<lparr>is_config_acked := True, destroy_requested := True\<rparr>)
        (after_release (Some a) (m\<lparr>heap := (heap m)(a \<mapsto> busy_stream)\<rparr>)))"

lemma busy_stream_queue:
  "queue_wf busy_stream" "queued busy_stream = [zero_packet]" "\<not> queue_full busy_stream"
  "ftable_total_samples busy_stream = 0" "pending_samples busy_stream = 1"
proof -
  let ?n = "new_stream (graph_at one_graph_manager 0) 0 (Fin 44100) 1"
  have n: "queue_wf ?n" "queued ?n = []" "\<not> queue_full ?n" "ftable_total_samples ?n = 0"
    by (simp_all add: queue_wf_def queued_def ring_items_def ring_count_def queue_full_def next_pos_def)
      (simp add: new_stream_def zero_stream_def)
  have same: "queue_wf (s\<lparr>pending_samples := 1\<rparr>) = queue_wf s" "queued (s\<lparr>pending_samples := 1\<rparr>) = queued s" for s
    by (simp_all add: queue_wf_def queued_def)
  show "queue_wf busy_stream" "queued busy_stream = [zero_packet]"
    using queue_wf_put [OF n(1)] queued_put [OF n(1,3)] n(2) by (simp_all add: busy_stream_def same)
  show "\<not> queue_full busy_stream" "ftable_total_samples busy_stream = 0" "pending_samples busy_stream = 1"
    using n(4) by (simp_all add: busy_stream_def queue_full_def next_pos_def queue_put_def update_slot_def)
qed

lemma draining_manager_simps:
  defines "a \<equiv> next_addr one_graph_manager"
  shows "reg_ok draining_manager" "heap draining_manager a = Some (released busy_stream)"
    "\<exists>g. graphs draining_manager ! 0 = Some g \<and> is_config_acked g \<and> destroy_requested g
       \<and> streams g = (replicate 64 None)[0 := Some a]"
proof -
  let ?m1 = "stream_entered one_graph_manager 0 0 (Fin 44100) 1"
  let ?m2 = "?m1\<lparr>heap := (heap ?m1)(a \<mapsto> busy_stream)\<rparr>"
  let ?g = "graph_at one_graph_manager 0"
  have ad: "stream_admitted one_graph_manager (Fin 1) 0 0 0 0" by code_simp
  have m1: "reg_ok ?m1" by (rule stream_entered_ok [OF reg_ok_one_graph ad])
  have h: "heap ?m1 a = Some (new_stream ?g 0 (Fin 44100) 1)" by (simp add: stream_entered_heap a_def)
  have m2: "reg_ok ?m2"
    by (rule reg_ok_update_stream [OF m1 h]) (simp_all add: busy_stream_def)
  have m3: "reg_ok (after_release (Some a) ?m2)"
    by (rule after_release_ok(1) [OF m2]) (simp add: live_ref_def)
  let ?g1 = "?g\<lparr>streams := (streams ?g)[0 := Some a], stream_count := stream_count ?g + 1\<rparr>"
  have g: "graphs (after_release (Some a) ?m2) ! 0 = Some ?g1"
    using reg_okD(2) [OF reg_ok_one_graph]
    by (simp add: after_release_def stream_entered_def update_graph_def one_graph_slot a_def)
  have d: "draining_manager = update_graph 0 (\<lambda>g. g\<lparr>is_config_acked := True, destroy_requested := True\<rparr>)
      (after_release (Some a) ?m2)"
    by (simp add: draining_manager_def a_def Let_def)
  show "reg_ok draining_manager"
    unfolding d by (rule reg_ok_update_graph [OF m3 _ g]) (simp_all add: handle_of_def)
  show "heap draining_manager a = Some (released busy_stream)"
    by (simp add: d update_graph_def after_release_def)
  show "\<exists>g. graphs draining_manager ! 0 = Some g \<and> is_config_acked g \<and> destroy_requested g
       \<and> streams g = (replicate 64 None)[0 := Some a]"
    using g reg_okD(2) [OF m3] one_graph_streams by (simp add: d update_graph_def)
qed

theorem sender_drains_witness:
  "\<exists>m' w'. length (queued (released busy_stream)) = 2
     \<and> sender_rounds [([], 3, 4, 0), ([], 5, 6, 0), ([], 7, 8, 0)] (\<lambda>_. True) draining_manager
         \<lparr>attempts = 0, sent = []\<rparr> = Some (m', w')
     \<and> reg_ok m' \<and> graphs m' ! 0 = None"
proof -
  let ?a = "next_addr one_graph_manager"
  obtain g where g: "graphs draining_manager ! 0 = Some g" "is_config_acked g" "destroy_requested g"
    and s: "streams g = (replicate 64 None)[0 := Some ?a]"
    using draining_manager_simps(3) by blast
  have q: "length (queued (released busy_stream)) = 2"
    using released_queue(2) busy_stream_queue by simp
  have "ftable_total_samples (released busy_stream) = 0"
    using busy_stream_queue(4) by (simp add: released_def publish_time_packet_eq queue_put_def update_slot_def)
  then have "backlog (released busy_stream) = 2" using q by (simp add: backlog_def)
  moreover have "draining (backlog (released busy_stream)) (released busy_stream)"
    by (rule released_drains) (simp_all add: busy_stream_queue)
  ultimately have d: "draining 2 (released busy_stream)" by simp
  have all: "\<forall>t < 64. \<forall>a. streams g ! t = Some a \<longrightarrow> (\<exists>st. heap draining_manager a = Some st
      \<and> release_requested st \<and> pending_samples st = 0 \<and> queue_wf st
      \<and> (ftable_next_sample st < ftable_total_samples st \<longrightarrow> ftable_samples st \<noteq> None)
      \<and> length (queued st) + (ftable_total_samples st - ftable_next_sample st) \<le> 2)"
  proof (intro allI impI)
    fix t a
    assume t: "t < (64 :: nat)" "streams g ! t = Some a"
    then have "a = ?a" using s by (cases t) simp_all
    then show "\<exists>st. heap draining_manager a = Some st
      \<and> release_requested st \<and> pending_samples st = 0 \<and> queue_wf st
      \<and> (ftable_next_sample st < ftable_total_samples st \<longrightarrow> ftable_samples st \<noteq> None)
      \<and> length (queued st) + (ftable_total_samples st - ftable_next_sample st) \<le> 2"
      using draining_manager_simps(2) d by (simp add: draining_def backlog_def)
  qed
  show ?thesis
    using q sender_drains [OF draining_manager_simps(1) _ g all, of "[([], 3, 4, 0), ([], 5, 6, 0), ([], 7, 8, 0)]"]
    by simp
qed

text \<open>An abandoned graph, one that was replaced before the viewer ever acknowledged it,
  is gone after one round if all its streams have been released, whatever their queues still hold
  and whatever the socket does, unless the acknowledgement arrives with that very round; nothing
  is sent for its streams.\<close>

theorem abandoned_graph_leaves:
  assumes "reg_ok m" "i < 32" "graphs m ! i = Some g"
    and "graphs (receive_acks inbox m) ! i = Some g" "\<not> is_config_acked g"
    and "close_window_requested g" "destroy_requested g"
    and "\<forall>s < 64. \<forall>a. streams g ! s = Some a \<longrightarrow> (\<exists>st. heap m a = Some st \<and> release_requested st)"
    and "sender_round ok inbox now_ms now launch m w = Some (m', w', rep)"
  shows "graphs m' ! i = None"
proof -
  from sender_round_spec [OF assms(1), of inbox ok now_ms now w launch] assms(9)
  obtain m1 u where a: "ack_effect m (receive_acks inbox m)"
    and v: "visit_graphs ok now_ms now [0..<32] (receive_acks inbox m) w = Some (m1, w', u)"
    and m': "graphs m' = graphs m1" by auto
  let ?m0 = "receive_acks inbox m"
  have ok0: "reg_ok ?m0" and h0: "heap ?m0 = heap m" using a by (simp_all add: ack_effect_def)
  from visit_graphs_at [OF ok0 assms(2) v] obtain ma wa mb wb ub I J where
    v: "pass_effect ?m0 ma" "frame I ?m0 ma" "i \<notin> I"
      "visit_graph ok now_ms now i ma wa = Some (mb, wb, ub)" "frame J mb m1" "i \<notin> J"
    by blast
  have oka: "reg_ok ma" using v(1) by (simp add: pass_effect_def)
  have ga: "graphs ma ! i = Some g" using v(2,3) assms(2,4) by (simp add: frame_def)
  have "streams g ! s = None \<or> finished False ma g s" if s: "s < 64" for s
  proof (cases "streams g ! s")
    case (Some b)
    then have "owner_slot ?m0 b i s" using assms(2,4) s by (simp add: owner_slot_def)
    then have "heap ma b = heap m b" using v(2,3) h0 by (simp add: frame_def) blast
    then show ?thesis using assms(8) s Some by (auto simp: finished_def)
  qed simp
  then have "disposable False ma g" using assms(7) by (simp add: disposable_def)
  moreover have "finish_graph True i ma = Some mb"
    using v(4) ga assms(5,6) by (simp add: visit_graph_def Let_def)
  ultimately have "graphs mb ! i = None"
    using finish_graph_effect [OF oka assms(2) ga, of True] by auto
  then show ?thesis using v(5,6) assms(2) m' by (simp add: frame_def)
qed

definition abandoned_manager :: WATCH_MANAGER where
  "abandoned_manager = update_graph 0 (\<lambda>g. g\<lparr>destroy_requested := True, close_window_requested := True\<rparr>)
     one_graph_manager"

lemma abandoned_manager_simps:
  "graphs abandoned_manager ! 0 = Some ((graph_at one_graph_manager 0)
     \<lparr>destroy_requested := True, close_window_requested := True\<rparr>)"
  "\<not> is_config_acked (graph_at one_graph_manager 0)" "reg_ok abandoned_manager"
proof -
  show "graphs abandoned_manager ! 0 = Some ((graph_at one_graph_manager 0)
     \<lparr>destroy_requested := True, close_window_requested := True\<rparr>)" by code_simp
  show "\<not> is_config_acked (graph_at one_graph_manager 0)" by code_simp
  show "reg_ok abandoned_manager"
    unfolding abandoned_manager_def
    by (rule reg_ok_update_graph [OF reg_ok_one_graph _ one_graph_slot]) (simp_all add: handle_of_def)
qed

theorem abandoned_graph_leaves_witness:
  "\<exists>m' w' rep. sender_round (\<lambda>_. False) [] 3 4 0 abandoned_manager \<lparr>attempts = 0, sent = []\<rparr>
       = Some (m', w', rep) \<and> graphs m' ! 0 = None"
proof -
  obtain m' w' rep where r: "sender_round (\<lambda>_. False) [] 3 4 0 abandoned_manager
      \<lparr>attempts = 0, sent = []\<rparr> = Some (m', w', rep)"
    by (rule sender_round_total [OF abandoned_manager_simps(3)])
  have "graphs m' ! 0 = None"
    by (rule abandoned_graph_leaves [OF abandoned_manager_simps(3) _ abandoned_manager_simps(1)
          _ _ _ _ _ r])
      (use abandoned_manager_simps(1,2) one_graph_streams in simp_all)
  then show ?thesis using r by blast
qed

text \<open>When \<^verbatim>\<open>watch_theme\<close> changes a graph's theme, its configuration counts as
  unacknowledged and is due at once, and only an acknowledgement that carries the new sequence
  number, which differs from the old one, is accepted for it: one still on its way for the old
  theme is not.\<close>

theorem theme_needs_new_ack:
  assumes "reg_ok m" "watch_theme handle th (Some m) = (OK, Some m')" "find_graph m k = Some i"
    and "theme (pk_config (data_config (graph_at m' i))) \<noteq> theme (pk_config (data_config (graph_at m i)))"
  shows "\<not> is_config_acked (graph_at m' i) \<and> last_config_send_time (graph_at m' i) = UINT64_MAX
    \<and> sequence (header (data_config (graph_at m' i))) \<noteq> sequence (header (data_config (graph_at m i)))
    \<and> (\<forall>p n. is_config_acked (graph_at (accept_ack p n m') i) \<longrightarrow>
         sequence (header p) = sequence (header (data_config (graph_at m' i))))"
proof -
  from assms(2) obtain h t x where h: "find_graph m h = Some t" and m': "m' = update_graph t (set_theme x) m"
    by (auto simp: watch_theme_def split: option.splits if_splits)
  note f = find_graph_Some [OF assms(1) h] and fi = find_graph_Some [OF assms(1,3)]
  have len: "length (graphs m) = 32" using reg_okD(2) [OF assms(1)] .
  have eq: "t = i"
  proof (rule ccontr)
    assume "t \<noteq> i"
    then have "graph_at m' i = graph_at m i" by (simp add: m' update_graph_def graph_at_def)
    then show False using assms(4) by simp
  qed
  have g': "graph_at m' i = set_theme x (graph_at m i)" "graphs m' ! i = Some (set_theme x (graph_at m i))"
    using eq f(1) len by (simp_all add: m' update_graph_def graph_at_def)
      (simp_all add: f(2) flip: eq)
  have ne: "theme (pk_config (data_config (graph_at m i))) \<noteq> x"
    using assms(4) by (auto simp: g' set_theme_def)
  have un: "\<not> is_config_acked (graph_at m' i)" using ne by (simp add: g' set_theme_def)
  have "sequence (header p) = sequence (header (data_config (graph_at m' i)))"
    if "is_config_acked (graph_at (accept_ack p n m') i)" for p n
  proof (rule ccontr)
    assume no: "sequence (header p) \<noteq> sequence (header (data_config (graph_at m' i)))"
    have "graph_at (update_graph b (\<lambda>g. g\<lparr>is_config_acked := True\<rparr>) m') i = graph_at m' i" if "b \<noteq> i" for b
      using that by (simp add: update_graph_def graph_at_def)
    then have "graph_at (accept_ack p n m') i = graph_at m' i"
      using no by (auto simp: accept_ack_def split: option.splits) metis
    then show False using that un by simp
  qed
  then show ?thesis using ne un by (simp add: g' set_theme_def INT64_MAX_def)
qed

theorem theme_needs_new_ack_witness:
  "\<exists>m'. watch_theme (Some (Fin 1)) (Some (Fin 1)) (Some one_graph_manager) = (OK, Some m')
    \<and> \<not> is_config_acked (graph_at m' 0) \<and> last_config_send_time (graph_at m' 0) = UINT64_MAX
    \<and> sequence (header (data_config (graph_at m' 0)))
        \<noteq> sequence (header (data_config (graph_at one_graph_manager 0)))"
proof -
  define m' where "m' = update_graph 0 (set_theme 1) one_graph_manager"
  have f: "find_graph one_graph_manager 1 = Some 0" by code_simp
  have a: "integer_valued (Fin 1) = Some 1" "theme_of (Fin 1) = Some 1" by code_simp+
  have m': "watch_theme (Some (Fin 1)) (Some (Fin 1)) (Some one_graph_manager) = (OK, Some m')"
    by (simp add: watch_theme_def a f m'_def)
  have "theme (pk_config (data_config (graph_at one_graph_manager 0))) = 0" by code_simp
  moreover from this have "theme (pk_config (data_config (graph_at m' 0))) = 1"
  proof -
    have "graphs m' ! 0 = Some (set_theme 1 (graph_at one_graph_manager 0))"
      using reg_okD(2) [OF reg_ok_one_graph] by (simp add: m'_def update_graph_def one_graph_slot)
    then show "theme (pk_config (data_config (graph_at m' 0))) = 1"
      by (simp add: graph_at_def [of m'] set_theme_def)
  qed
  ultimately have ne: "theme (pk_config (data_config (graph_at m' 0)))
      \<noteq> theme (pk_config (data_config (graph_at one_graph_manager 0)))" by simp
  from theme_needs_new_ack [OF reg_ok_one_graph m' f ne] m' show ?thesis by blast
qed

end
