(* ===== verification/Manager.thy ===== *)
theory Manager
  imports Sender
begin

text \<open>
  The plugin's global manager (\<^verbatim>\<open>create_socket_udp\<close>, \<^verbatim>\<open>get_manager\<close> and
  \<^verbatim>\<open>manager_reset\<close> in \<^verbatim>\<open>src/src/watch.c\<close>): how it is built on first use, what every
  failing step gives back, and how the reset callback takes it down.

  The host is a record of answers, one for each call that can fail. The resources of the
  process are counted, so that a leak is a count that does not come back.
\<close>

section \<open>The host\<close>

record HOST =
  create_global :: int
  global_found :: bool
  mutex_ok :: bool
  net_init :: int
  socket_ok :: bool
  address_ok :: bool
  connect_ok :: bool
  nonblocking_ok :: bool
  thread_ok :: bool
  reset_result :: int

record RESOURCES =
  mutexes :: nat
  net_refs :: nat
  sockets :: nat
  threads :: nat

definition socket_close :: "RESOURCES \<Rightarrow> RESOURCES" where
  "socket_close r = r\<lparr>sockets := sockets r - 1\<rparr>"

definition create_socket_udp :: "HOST \<Rightarrow> RESOURCES \<Rightarrow> bool \<times> RESOURCES" where
  "create_socket_udp h r =
     (if \<not> socket_ok h then (False, r)
      else
        let r1 = r\<lparr>sockets := sockets r + 1\<rparr> in
        if \<not> address_ok h then (False, socket_close r1)
        else if \<not> connect_ok h then (False, socket_close r1)
        else if \<not> nonblocking_ok h then (False, socket_close r1)
        else (True, r1))"

text \<open>The error labels of \<^verbatim>\<open>get_manager\<close>, each falling through to the next.\<close>

definition failed_global :: "RESOURCES \<Rightarrow> WATCH_MANAGER option \<times> RESOURCES" where
  "failed_global r = (None, r)"

definition failed_mutex :: "RESOURCES \<Rightarrow> WATCH_MANAGER option \<times> RESOURCES" where
  "failed_mutex r = failed_global (r\<lparr>mutexes := mutexes r - 1\<rparr>)"

definition failed_network :: "RESOURCES \<Rightarrow> WATCH_MANAGER option \<times> RESOURCES" where
  "failed_network r = failed_mutex (r\<lparr>net_refs := net_refs r - 1\<rparr>)"

definition failed_socket :: "RESOURCES \<Rightarrow> WATCH_MANAGER option \<times> RESOURCES" where
  "failed_socket r = failed_network (socket_close r)"

text \<open>\<open>mo\<close> is the global variable; the result is the manager the caller gets, which is also
  the variable afterwards.\<close>

definition get_manager ::
  "HOST \<Rightarrow> WATCH_MANAGER option \<Rightarrow> RESOURCES \<Rightarrow> WATCH_MANAGER option \<times> RESOURCES" where
  "get_manager h mo r =
     (case mo of
        Some m \<Rightarrow> (Some m, r)
      | None \<Rightarrow>
          if create_global h \<noteq> 0 then (None, r)
          else if \<not> global_found h then (None, r)
          else
            let m = \<lparr>graphs = replicate REGISTRY_SIZE None, graph_count = 0,
                  graph_capacity = REGISTRY_SIZE, next_graph_id = 1, registry_mutex = False,
                  sender_thread = False, socket_fd = False, running = False,
                  viewer_probe_started_ms = UINT64_MAX, viewer_last_launch_ms = UINT64_MAX,
                  viewer_last_launch_error = 0, heap = (\<lambda>_. None), next_addr = 0\<rparr> in
            if \<not> mutex_ok h then failed_global r
            else
              let m1 = m\<lparr>registry_mutex := True\<rparr>; r1 = r\<lparr>mutexes := mutexes r + 1\<rparr> in
              if net_init h \<noteq> 0 then failed_mutex r1
              else
                let r2 = r1\<lparr>net_refs := net_refs r1 + 1\<rparr> in
                (case create_socket_udp h r2 of (fd, r3) \<Rightarrow>
                   if \<not> fd then failed_network r3
                   else
                     let m2 = m1\<lparr>socket_fd := True, running := True\<rparr> in
                     if \<not> thread_ok h then failed_socket r3
                     else
                       let m3 = m2\<lparr>sender_thread := True\<rparr>;
                           r4 = r3\<lparr>threads := threads r3 + 1\<rparr> in
                       if reset_result h \<noteq> 0
                       then failed_socket (r4\<lparr>threads := threads r4 - 1\<rparr>)
                       else (Some m3, r4)))"

section \<open>Reset\<close>

text \<open>The loop over the registry: each slot is emptied and its graph freed with its streams.\<close>

definition reset_slot :: "nat \<Rightarrow> WATCH_MANAGER \<Rightarrow> WATCH_MANAGER" where
  "reset_slot i m = m\<lparr>graphs := (graphs m)[i := None], heap := free_graph (graphs m ! i) (heap m)\<rparr>"

definition manager_reset ::
  "(nat \<Rightarrow> bool) \<Rightarrow> int \<Rightarrow> WATCH_MANAGER \<Rightarrow> RESOURCES \<Rightarrow> net \<Rightarrow> WATCH_MANAGER \<times> RESOURCES \<times> net" where
  "manager_reset ok now m r w =
     (let m1 = m\<lparr>running := False\<rparr>;
          (m2, r2) = (if sender_thread m1
            then (m1\<lparr>sender_thread := False\<rparr>, r\<lparr>threads := threads r - 1\<rparr>) else (m1, r));
          (m3, r3, w3) = (if socket_fd m2
            then (m2\<lparr>socket_fd := False\<rparr>, socket_close r2, send_session_close ok now w)
            else (m2, r2, w));
          r4 = r3\<lparr>net_refs := net_refs r3 - 1\<rparr>;
          m4 = (fold reset_slot [0..<graph_capacity m3] m3)\<lparr>graph_count := 0\<rparr> in
      if registry_mutex m4
      then (m4\<lparr>registry_mutex := False\<rparr>, r4\<lparr>mutexes := mutexes r4 - 1\<rparr>, w3)
      else (m4, r4, w3))"

section \<open>What reset leaves\<close>

lemma fold_free_streams:
  "fold free_stream refs h a = (if Some a \<in> set refs then None else h a)"
  by (induction refs arbitrary: h) (auto simp: free_stream_def split: option.split)

lemma free_graph_apply:
  "free_graph go h a = (if \<exists>g. go = Some g \<and> Some a \<in> set (streams g) then None else h a)"
  by (auto simp: free_graph_def fold_free_streams split: option.split)

lemma reset_loop:
  "n \<le> length (graphs m) \<Longrightarrow> fold reset_slot [0..<n] m
     = m\<lparr>graphs := replicate n None @ drop n (graphs m),
         heap := (\<lambda>a. if \<exists>i < n. \<exists>g. graphs m ! i = Some g \<and> Some a \<in> set (streams g)
                        then None else heap m a)\<rparr>"
proof (induction n)
  case (Suc n)
  have le: "n < length (graphs m)" using Suc.prems by simp
  let ?g = "replicate n None @ drop n (graphs m)"
  have "drop n (graphs m) = graphs m ! n # drop (Suc n) (graphs m)" using le by (rule Cons_nth_drop_Suc [symmetric])
  then have g: "?g[n := None] = replicate (Suc n) None @ drop (Suc n) (graphs m)"
    by (simp add: list_update_append replicate_append_same)
  have nth: "?g ! n = graphs m ! n" using le by (simp add: nth_append)
  have "fold reset_slot [0..<Suc n] m = reset_slot n (fold reset_slot [0..<n] m)" by simp
  moreover have "free_graph (graphs m ! n)
      (\<lambda>a. if \<exists>i < n. \<exists>g. graphs m ! i = Some g \<and> Some a \<in> set (streams g) then None else heap m a)
    = (\<lambda>a. if \<exists>i < Suc n. \<exists>g. graphs m ! i = Some g \<and> Some a \<in> set (streams g) then None else heap m a)"
    unfolding free_graph_apply less_Suc_eq by (rule ext) auto
  ultimately show ?case
    using Suc.IH le g nth by (simp add: reset_slot_def)
qed simp

lemma send_repeated_count:
  "attempts (send_repeated ok k p n w) = attempts w + k
   \<and> (\<exists>j \<le> k. sent (send_repeated ok k p n w) = sent w @ replicate j (datagram p n, n)
        \<and> ((\<forall>i. ok i) \<longrightarrow> j = k))"
proof (induction k arbitrary: w)
  case (Suc k)
  let ?w = "snd (send_packet ok p n w)"
  obtain j where j: "attempts (send_repeated ok k p n ?w) = attempts ?w + k" "j \<le> k"
    "sent (send_repeated ok k p n ?w) = sent ?w @ replicate j (datagram p n, n)"
    "(\<forall>i. ok i) \<longrightarrow> j = k" using Suc.IH [of ?w] by blast
  show ?case
  proof (cases rule: send_packet_cases [of ok w p n])
    case 1
    then show ?thesis using j by (intro conjI exI [of _ "Suc j"]) auto
  next
    case 2
    then show ?thesis using j by (intro conjI exI [of _ j]) auto
  qed
qed simp

section \<open>Properties\<close>

text \<open>C21: \<^verbatim>\<open>get_manager\<close> builds the manager once and never leaks: if the session has one
  it is returned and nothing else happens; otherwise either every step succeeds and the caller
  gets an empty registry with one mutex, one network reference, one socket and one thread
  acquired, or some step fails, there is no manager afterwards, and every count is as before.\<close>

theorem get_manager_no_leak:
  "(case mo of Some m \<Rightarrow> get_manager h mo r = (Some m, r)
    | None \<Rightarrow>
       if create_global h = 0 \<and> global_found h \<and> mutex_ok h \<and> net_init h = 0 \<and> socket_ok h
          \<and> address_ok h \<and> connect_ok h \<and> nonblocking_ok h \<and> thread_ok h \<and> reset_result h = 0
       then get_manager h mo r = (Some empty_manager,
         \<lparr>mutexes = mutexes r + 1, net_refs = net_refs r + 1, sockets = sockets r + 1,
          threads = threads r + 1\<rparr>)
       else get_manager h mo r = (None, r))"
proof (cases mo)
  case None
  show ?thesis
    unfolding None get_manager_def create_socket_udp_def failed_global_def failed_mutex_def
      failed_network_def failed_socket_def socket_close_def
    by (cases r) (simp add: empty_manager_def Let_def)
qed (simp add: get_manager_def)

text \<open>C22: The reset callback stops the session and gives everything back: no graph and no
  stream is left, not one more allocated than before, the thread, the socket, the network
  reference and the mutex are released, and the viewer is told three times that the session is
  over.\<close>

theorem manager_reset_frees_all:
  assumes "reg_ok m" "sender_thread m" "socket_fd m" "registry_mutex m"
    and "manager_reset ok now m r w = (m', r', w')"
  shows "(\<forall>a. heap m' a = None) \<and> graphs m' = replicate 32 None \<and> graph_count m' = 0
    \<and> \<not> running m' \<and> \<not> sender_thread m' \<and> \<not> socket_fd m' \<and> \<not> registry_mutex m'
    \<and> r' = \<lparr>mutexes = mutexes r - 1, net_refs = net_refs r - 1, sockets = sockets r - 1,
        threads = threads r - 1\<rparr>
    \<and> attempts w' = attempts w + 3
    \<and> (\<exists>j \<le> 3. sent w' = sent w @ replicate j (datagram (session_close_packet now) 28, 28)
         \<and> ((\<forall>i. ok i) \<longrightarrow> j = 3))"
proof -
  note d = reg_okD [OF assms(1)]
  let ?m = "m\<lparr>running := False, sender_thread := False, socket_fd := False\<rparr>"
  let ?k = "fold reset_slot [0..<32] ?m"
  have "32 \<le> length (graphs ?m)" using d(2) by simp
  note loop = reset_loop [OF this]
  have k: "graphs ?k = replicate 32 None" using d(2) by (simp add: loop)
  have hp: "heap ?k a = None" for a
  proof (cases "heap m a")
    case (Some st)
    then obtain i s where "owner_slot m a i s" using d(9) by blast
    then obtain g where "i < 32" "graphs m ! i = Some g" "s < 64" "streams g ! s = Some a"
      by (auto simp: owner_slot_def)
    moreover from this have "Some a \<in> set (streams g)"
      using graph_okD(3) [OF d(6)] nth_mem by metis
    ultimately show ?thesis by (auto simp: loop)
  qed (simp add: loop)
  have f: "\<not> running ?k" "\<not> sender_thread ?k" "\<not> socket_fd ?k" "registry_mutex ?k"
    by (simp_all add: loop assms(4))
  have res: "m' = ?k\<lparr>graph_count := 0, registry_mutex := False\<rparr>"
    "r' = \<lparr>mutexes = mutexes r - 1, net_refs = net_refs r - 1, sockets = sockets r - 1,
        threads = threads r - 1\<rparr>" "w' = send_session_close ok now w"
    using assms(2-5) f(4) d(1) unfolding manager_reset_def socket_close_def
    by (simp_all add: Let_def del: upt_Suc) (cases r; simp)
  show ?thesis
    using k hp f send_repeated_count [of ok 3 "session_close_packet now" 28 w]
    by (simp add: res send_session_close_def)
qed

theorem manager_reset_frees_all_witness:
  "\<exists>m' r' w'. manager_reset (\<lambda>_. True) 5 one_graph_manager
       \<lparr>mutexes = 1, net_refs = 1, sockets = 1, threads = 1\<rparr> \<lparr>attempts = 0, sent = []\<rparr> = (m', r', w')
     \<and> (\<forall>a. heap m' a = None) \<and> graphs m' = replicate 32 None
     \<and> r' = \<lparr>mutexes = 0, net_refs = 0, sockets = 0, threads = 0\<rparr> \<and> attempts w' = 3"
proof -
  obtain m' r' w' where r: "manager_reset (\<lambda>_. True) 5 one_graph_manager
       \<lparr>mutexes = 1, net_refs = 1, sockets = 1, threads = 1\<rparr> \<lparr>attempts = 0, sent = []\<rparr> = (m', r', w')"
    by (metis prod_cases3)
  have "sender_thread one_graph_manager" "socket_fd one_graph_manager" "registry_mutex one_graph_manager"
    by code_simp+
  from manager_reset_frees_all [OF reg_ok_one_graph this r] r show ?thesis by auto
qed

end
