(* ===== verification/FrameFeed.thy ===== *)
theory FrameFeed
  imports Validate StreamQueue
begin

text \<open>
  The opcodes that publish one whole frame at a time (\<^verbatim>\<open>src/src/watch.c\<close>):
  \<^verbatim>\<open>watch_add_f\<close> cuts a spectral frame into packets of at most 256 bins of power, and
  \<^verbatim>\<open>watch_meter\<close> holds the peak of every channel until a packet takes it.
\<close>

section \<open>Spectral frames\<close>

text \<open>The formats of a Csound spectral signal; the code tells three of them apart.\<close>

datatype pvs_format = PVS_AMP_FREQ | PVS_AMP_PHASE | PVS_COMPLEX | PVS_OTHER

record WATCH_ADD_SPECTRAL =
  af_stream :: WATCH_STREAM
  last_frame_id :: u32
  af_fft_size :: u32
  af_hop_size :: u32
  af_format :: pvs_format

text \<open>Power of a bin, computed in double precision: a NaN is silence, an overflow the largest
  \<^verbatim>\<open>float\<close>.\<close>

definition spectral_bin_power :: "cfloat list \<Rightarrow> nat \<Rightarrow> pvs_format \<Rightarrow> cfloat" where
  "spectral_bin_power frame bin fmt =
     (let first = frame ! (bin * 2);
          power = (if fmt = PVS_COMPLEX
                   then let second = frame ! (bin * 2 + 1) in
                        fadd f64 (fmul f64 first first) (fmul f64 second second)
                   else fmul f64 first first) in
      if isnan power \<or> power < Fin 0 then Fin 0
      else if FLT_MAX < power then FLT_MAX
      else to_float power)"

text \<open>The stores into the write slot for the bins from \<open>source_bin\<close> on; \<open>rate\<close> is the
  stream's sample rate converted to an integer.\<close>

definition fill_spectral ::
  "WATCH_ADD_SPECTRAL \<Rightarrow> u32 \<Rightarrow> int \<Rightarrow> u32 \<Rightarrow> cfloat list \<Rightarrow> nat \<Rightarrow> nat \<Rightarrow> nat \<Rightarrow> packet \<Rightarrow> packet"
where
  "fill_spectral p fid seq rate frame nbins source_bin chunk pk = pk\<lparr>
     header := \<lparr>magic = WATCH_MAGIC, version = PROT_VERSION, msg_type = msg_code SPECTRAL_DATA,
       sequence = seq, payload_size = OFF_BINS + of_nat chunk * SIZEOF_FLOAT\<rparr>,
     pk_spectral := \<lparr>spec_graph_id = st_graph_id (af_stream p),
       spec_stream_id = st_stream_id (af_stream p), frame_id = fid,
       fft_size = af_fft_size p, hop_size = af_hop_size p, spec_sample_rate = rate,
       spec_format = WATCH_SPECTRAL_POWER, bin_offset = of_nat source_bin,
       bin_count = of_nat chunk, total_bins = of_nat nbins,
       bins = store_at 0 (map (\<lambda>i. spectral_bin_power frame (source_bin + i) (af_format p)) [0..<chunk])
         (bins (pk_spectral pk))\<rparr>\<rparr>"

function add_f_loop ::
  "WATCH_ADD_SPECTRAL \<Rightarrow> u32 \<Rightarrow> int \<Rightarrow> u32 \<Rightarrow> cfloat list \<Rightarrow> nat \<Rightarrow> nat \<Rightarrow> WATCH_STREAM \<Rightarrow> WATCH_STREAM"
where
  "add_f_loop p fid seq rate frame nbins source_bin st =
     (if source_bin < nbins then
        let remaining = nbins - source_bin;
            chunk = (if remaining > MAX_SPECTRAL_BINS then MAX_SPECTRAL_BINS else remaining);
            next_write = next_pos (write_pos st) in
        if next_write = read_pos st then drop_samples remaining st
        else
          add_f_loop p fid seq rate frame nbins (source_bin + chunk)
            ((update_slot (fill_spectral p fid seq rate frame nbins source_bin chunk) st)
               \<lparr>write_pos := next_write\<rparr>)
      else st)"
  by pat_completeness auto
termination by (relation "measure (\<lambda>(_, _, _, _, _, nbins, source_bin, _). nbins - source_bin)") auto

declare add_f_loop.simps [simp del]

text \<open>\<open>framecount\<close> and \<open>frame\<close> are the signal's; \<^const>\<open>None\<close> is the undefined conversion
  of a sample rate that does not fit 32 bits.\<close>

definition watch_add_f ::
  "u32 \<Rightarrow> cfloat list option \<Rightarrow> int \<Rightarrow> WATCH_ADD_SPECTRAL \<Rightarrow> WATCH_ADD_SPECTRAL option" where
  "watch_add_f framecount frame now p =
     (if framecount = last_frame_id p then Some p
      else case frame of
        None \<Rightarrow> Some p
      | Some fr \<Rightarrow>
          (case to_u32 (st_sample_rate (af_stream p)) of
             None \<Rightarrow> None
           | Some rate \<Rightarrow>
               let nbins = unat (af_fft_size p div 2 + 1) in
               Some (p\<lparr>af_stream := add_f_loop p framecount now rate fr nbins 0 (af_stream p),
                 last_frame_id := framecount\<rparr>)))"

section \<open>Meters\<close>

record WATCH_METER =
  mt_stream :: "WATCH_STREAM option"
  peak :: "cfloat list"
  mt_nchnls :: nat
  frames :: nat
  frames_per_packet :: nat

definition hold_peak :: "cfloat \<Rightarrow> cfloat \<Rightarrow> cfloat" where
  "hold_peak pk datum =
     (let level = to_float datum in if isfinite level \<and> pk < level then level else pk)"

definition fill_meter ::
  "WATCH_STREAM \<Rightarrow> int \<Rightarrow> nat \<Rightarrow> cfloat list \<Rightarrow> packet \<Rightarrow> packet" where
  "fill_meter st seq n peaks pk = pk\<lparr>
     header := (header pk)\<lparr>magic := WATCH_MAGIC, version := PROT_VERSION,
       msg_type := msg_code METER_DATA, sequence := seq\<rparr>,
     pk_meter := (pk_meter pk)\<lparr>meter_graph_id := st_graph_id st, meter_stream_id := st_stream_id st,
       levels := store_at 0 (take n peaks) (levels (pk_meter pk))\<rparr>\<rparr>"

text \<open>\<open>channels\<close> is the array the orchestra passes in this cycle, \<open>seq\<close> the cycle's number.\<close>

definition watch_meter :: "cfloat list option \<Rightarrow> int \<Rightarrow> WATCH_METER \<Rightarrow> WATCH_METER" where
  "watch_meter channels seq p =
     (case mt_stream p of
        None \<Rightarrow> p
      | Some st \<Rightarrow>
          let n = mt_nchnls p in
          case channels of
            None \<Rightarrow> p
          | Some data \<Rightarrow>
              if length data < n then p
              else
                let p1 = p\<lparr>peak := map2 hold_peak (take n (peak p)) (take n data) @ drop n (peak p),
                           frames := frames p + 1\<rparr> in
                if frames p1 < frames_per_packet p1 then p1
                else
                  let p2 = p1\<lparr>frames := 0\<rparr>; next_write = next_pos (write_pos st) in
                  if next_write = read_pos st then p2\<lparr>mt_stream := Some (drop_samples 1 st)\<rparr>
                  else
                    p2\<lparr>mt_stream := Some (publish_meter_packet
                         (update_slot (fill_meter st seq n (peak p2)) st) next_write (of_nat n)),
                       peak := replicate n (fneg FLT_MAX) @ drop n (peak p2)\<rparr>)"

section \<open>Invariant of a frame stream\<close>

text \<open>A packet whose check \<open>V\<close> succeeds on what arrives of it.\<close>

definition arrives_ok :: "(packet \<Rightarrow> int \<Rightarrow> bool) \<Rightarrow> packet \<Rightarrow> bool" where
  "arrives_ok V p \<longleftrightarrow> sendable p \<and> V (fst (on_wire p)) (int (snd (on_wire p)))"

definition frame_stream_ok :: "(packet \<Rightarrow> int \<Rightarrow> bool) \<Rightarrow> WATCH_STREAM \<Rightarrow> bool" where
  "frame_stream_ok V st \<longleftrightarrow> queue_wf st \<and> st_graph_id st \<noteq> 0 \<and> st_stream_id st < MAX_STREAMS
     \<and> (\<forall>p \<in> set (slots st). length (bins (pk_spectral p)) = MAX_SPECTRAL_BINS
          \<and> length (levels (pk_meter p)) = MAX_METER_CHANNELS)
     \<and> (\<forall>p \<in> set (queued st). arrives_ok V p)"

lemma frame_stream_okD:
  assumes "frame_stream_ok V st"
  shows "queue_wf st" "st_graph_id st \<noteq> 0" "st_stream_id st < 64"
    "length (bins (pk_spectral (write_slot st))) = 256"
    "length (levels (pk_meter (write_slot st))) = 32"
  using assms write_slot_in [of st] by (auto simp: frame_stream_ok_def)

text \<open>Writing a good packet into a free slot and publishing it.\<close>

lemma frame_stream_put:
  assumes ok: "frame_stream_ok V st" and "\<not> queue_full st" and "arrives_ok V p"
    and "length (bins (pk_spectral p)) = 256" "length (levels (pk_meter p)) = 32"
  shows "frame_stream_ok V (queue_put p st)"
proof -
  note d = frame_stream_okD [OF ok]
  have "\<forall>q \<in> set ((slots st)[write_pos st := p]). length (bins (pk_spectral q)) = 256
      \<and> length (levels (pk_meter q)) = 32"
    using set_update_subset_insert [of "slots st" "write_pos st" p] ok assms(4,5)
    by (auto simp: frame_stream_ok_def)
  then show ?thesis
    using ok assms(2,3) d(1)
    by (auto simp: frame_stream_ok_def queue_wf_put queued_put)
qed

lemma frame_stream_drop:
  "frame_stream_ok V st \<Longrightarrow> frame_stream_ok V (drop_samples n st)"
  by (simp add: frame_stream_ok_def drop_samples_def queue_wf_def queued_def)

lemma frame_stream_sent:
  assumes ok: "frame_stream_ok V st" and s: "sent_prefix st w k st' w'"
  shows "frame_stream_ok V st'"
proof -
  obtain r where e: "st' = st\<lparr>read_pos := r\<rparr>" using s by (auto simp: sent_prefix_def)
  have "\<forall>p \<in> set (queued st'). arrives_ok V p"
    using ok s by (auto simp: sent_prefix_def frame_stream_ok_def dest: in_set_dropD)
  moreover have "queue_wf st'" using s by (simp add: sent_prefix_def)
  ultimately show ?thesis using ok by (simp add: frame_stream_ok_def e)
qed

lemma frame_stream_fresh:
  assumes "slots st = replicate MAX_QUEUE_SIZE zero_packet" "write_pos st = 0" "read_pos st = 0"
    and "st_graph_id st \<noteq> 0" "st_stream_id st < MAX_STREAMS"
  shows "frame_stream_ok V st" "queued st = []"
proof -
  show "queued st = []" using assms by (simp add: queued_def ring_items_def ring_count_def)
  then show "frame_stream_ok V st" using assms by (simp add: frame_stream_ok_def queue_wf_def)
qed

section \<open>Spectral packets\<close>

text \<open>What the initialisation pass checks of a spectral signal. The viewer checks more: it also
  wants hops no longer than the window, at most \<^verbatim>\<open>1048576\<close> bins and a sample rate.\<close>

definition spectral_source_ok :: "WATCH_ADD_SPECTRAL \<Rightarrow> bool" where
  "spectral_source_ok p \<longleftrightarrow> af_fft_size p \<noteq> 0 \<and> (af_fft_size p AND 1) = 0 \<and> af_hop_size p \<noteq> 0"

definition within_limits :: "u32 \<Rightarrow> u32 \<Rightarrow> u32 \<Rightarrow> bool" where
  "within_limits fft hop rate \<longleftrightarrow> hop \<le> fft \<and> fft div 2 + 1 \<le> 1048576 \<and> rate \<noteq> 0"

text \<open>A packet the viewer accepts exactly when its frame is within these limits.\<close>

definition spectral_checked :: "packet \<Rightarrow> int \<Rightarrow> bool" where
  "spectral_checked p received \<longleftrightarrow> (let d = pk_spectral p in
     validate_spectral_data_packet p received
       \<longleftrightarrow> within_limits (fft_size d) (hop_size d) (spec_sample_rate d))"

text \<open>What a spectral packet says: the signal, the frame, the first bin, and the bins it carries.\<close>

definition spectral_content :: "packet \<Rightarrow> (u32 \<times> u32 \<times> u32) \<times> u32 \<times> u32 \<times> cfloat list" where
  "spectral_content p = (let d = pk_spectral p in
     ((fft_size d, hop_size d, spec_sample_rate d), frame_id d, bin_offset d,
      take (unat (bin_count d)) (bins d)))"

definition frame_chunk ::
  "WATCH_ADD_SPECTRAL \<Rightarrow> u32 \<Rightarrow> u32 \<Rightarrow> cfloat list \<Rightarrow> nat \<Rightarrow> nat
     \<Rightarrow> (u32 \<times> u32 \<times> u32) \<times> u32 \<times> u32 \<times> cfloat list" where
  "frame_chunk p rate fid frame nbins off = ((af_fft_size p, af_hop_size p, rate), fid, of_nat off,
     map (\<lambda>i. spectral_bin_power frame i (af_format p)) [off..<min nbins (off + 256)])"

lemma validate_frame_datagram:
  "validate_spectral_data_packet (datagram p n) r = validate_spectral_data_packet p r"
  "validate_meter_data_packet (datagram p n) r = validate_meter_data_packet p r"
  "spectral_checked (datagram p n) r = spectral_checked p r"
  by (simp_all add: spectral_checked_def validate_spectral_data_packet_def validate_meter_data_packet_def datagram_def
      Let_def)

lemma u32_payload_bytes:
  assumes "payload_size (header p) = k + of_nat c * SIZEOF_FLOAT" "c \<le> 256" "k \<le> 64"
  shows "unat (payload_size (header p)) = unat k + 4 * c" "packet_bytes p = 24 + unat k + 4 * c"
proof -
  have k: "unat k \<le> 64" using assms(3) by (simp add: word_le_nat_alt)
  have "payload_size (header p) = of_nat (unat k + 4 * c)" by (simp add: assms(1))
  then show u: "unat (payload_size (header p)) = unat k + 4 * c"
    using k assms(2) by (simp only: unat_u32_of_nat)
  then show "packet_bytes p = 24 + unat k + 4 * c"
    using k assms(2) by (simp add: packet_bytes_def unat_word_ariths)
qed

lemma fill_spectral_ok:
  fixes fid rate :: u32 and frame :: "cfloat list"
  assumes src: "spectral_source_ok p" and "0 \<le> seq"
    and ids: "st_graph_id (af_stream p) \<noteq> 0" "st_stream_id (af_stream p) < 64"
    and nbins: "nbins = unat (af_fft_size p div 2 + 1)" and off: "off < nbins"
    and len: "length (bins (pk_spectral pk)) = 256"
  defines "c \<equiv> min 256 (nbins - off)"
  defines "q \<equiv> fill_spectral p fid seq rate frame nbins off c pk"
  shows "arrives_ok spectral_checked q"
    and "spectral_content q = frame_chunk p rate fid frame nbins off"
proof -
  have tot: "nbins < 4294967296" "of_nat nbins = af_fft_size p div 2 + 1"
    using unsigned_less [of "af_fft_size p div 2 + 1"] by (simp_all add: nbins)
  have c: "0 < c" "c \<le> 256" "c \<le> nbins - off" using off by (simp_all add: c_def)
  have pay: "payload_size (header q) = 40 + of_nat c * 4" by (simp add: q_def fill_spectral_def)
  note bytes = u32_payload_bytes [OF pay c(2), simplified]
  have w: "(of_nat c :: u32) \<noteq> 0" "(of_nat c :: u32) \<le> 256"
    "(of_nat off :: u32) < of_nat nbins"
    using c tot(1) off u32_of_nat_eq_0 [of c] u32_of_nat_le [of c 256] u32_of_nat_less [of off nbins]
    by simp_all
  have "(of_nat nbins :: u32) - of_nat off = of_nat (nbins - off)" using off by (simp add: of_nat_diff)
  then have rest: "(of_nat c :: u32) \<le> of_nat nbins - of_nat off"
    using c tot(1) u32_of_nat_le [of c "nbins - off"] by simp
  have hdr: "validate_header (header q) (int (packet_bytes q))"
    using bytes by (simp add: validate_header_def uint_nat) (simp add: q_def fill_spectral_def)
  have "sendable q"
    using bytes(1) c(2) by (simp add: sendable_def max_payload_size_def word_le_nat_alt)
      (simp add: q_def fill_spectral_def)
  moreover have "spectral_checked q (int (packet_bytes q))"
    using hdr src ids w rest \<open>0 \<le> seq\<close> tot(2)
    by (simp add: spectral_checked_def within_limits_def validate_spectral_data_packet_def
        spectral_source_ok_def q_def fill_spectral_def Let_def not_le not_less)
      (auto simp: not_le not_less)
  ultimately show "arrives_ok spectral_checked q"
    by (simp add: arrives_ok_def on_wire_def validate_frame_datagram)
  let ?xs = "map (\<lambda>i. spectral_bin_power frame (off + i) (af_format p)) [0..<c]"
  have "unat (of_nat c :: u32) = c" using c(2) by (intro unat_u32_of_nat) linarith
  moreover have "take (0 + length ?xs) (store_at 0 ?xs (bins (pk_spectral pk))) = [] @ ?xs"
    using len c(2) by (subst take_store_at) simp_all
  moreover have e: "min nbins (off + 256) = off + c" using off by (auto simp: c_def min_def)
  then have "?xs = map (\<lambda>i. spectral_bin_power frame i (af_format p)) [off..<min nbins (off + 256)]"
    by (intro nth_equalityI) simp_all
  ultimately show "spectral_content q = frame_chunk p rate fid frame nbins off"
    by (simp add: spectral_content_def frame_chunk_def q_def fill_spectral_def Let_def e)
qed

text \<open>The loop: consecutive chunks, from \<open>off\<close> on, as far as the ring has room.\<close>

lemma fill_spectral_shape:
  assumes "length (bins (pk_spectral pk)) = 256"
  shows "length (bins (pk_spectral (fill_spectral p fid seq rate fr n off c pk))) = 256"
    "pk_meter (fill_spectral p fid seq rate fr n off c pk) = pk_meter pk"
  using assms by (simp_all add: fill_spectral_def)

lemma queue_put_eq:
  "(update_slot f st)\<lparr>write_pos := next_pos (write_pos st)\<rparr> = queue_put (f (write_slot st)) st"
  by (simp add: queue_put_def update_slot_def)

lemma add_f_loop_round:
  "add_f_loop p fid seq rate fr nbins off st =
     (if off < nbins then
        if queue_full st then drop_samples (nbins - off) st
        else let c = min 256 (nbins - off) in
          add_f_loop p fid seq rate fr nbins (off + c)
            (queue_put (fill_spectral p fid seq rate fr nbins off c (write_slot st)) st)
      else st)"
  unfolding queue_put_eq [symmetric] queue_full_def
  by (subst add_f_loop.simps) (simp add: Let_def min_def not_less not_le)

lemma add_f_loop_spec:
  assumes src: "spectral_source_ok p" "0 \<le> seq"
    and ids: "st_graph_id (af_stream p) \<noteq> 0" "st_stream_id (af_stream p) < 64"
    and nbins: "nbins = unat (af_fft_size p div 2 + 1)"
  shows "frame_stream_ok spectral_checked st \<Longrightarrow> off \<le> nbins \<Longrightarrow>
    \<exists>n qs. let st' = add_f_loop p fid seq rate fr nbins off st in
      frame_stream_ok spectral_checked st'
      \<and> (\<forall>j < n. off + 256 * j < nbins)
      \<and> queued st' = queued st @ qs
      \<and> map spectral_content qs = map (\<lambda>j. frame_chunk p rate fid fr nbins (off + 256 * j)) [0..<n]
      \<and> dropped_samples st' = dropped_samples st + of_nat (nbins - (off + 256 * n))
      \<and> (off + 256 * n < nbins \<longrightarrow> queue_full st')
      \<and> st_sample_rate st' = st_sample_rate st \<and> st_graph_id st' = st_graph_id st
      \<and> st_stream_id st' = st_stream_id st"
proof (induction "nbins - off" arbitrary: off st rule: less_induct)
  case less
  let ?V = spectral_checked and ?run = "add_f_loop p fid seq rate fr nbins"
  note ok = less.prems(1) and d = frame_stream_okD [OF less.prems(1)]
  show ?case
  proof (cases "off < nbins \<and> \<not> queue_full st")
    case False
    then have "?run off st = (if off < nbins then drop_samples (nbins - off) st else st)"
      by (subst add_f_loop_round) auto
    then show ?thesis
      using ok False less.prems(2) frame_stream_drop [OF ok]
      by (intro exI [of _ 0] exI [of _ "[]"]) (auto simp: Let_def)
  next
    case True
    define c where "c = min 256 (nbins - off)"
    define q where "q = fill_spectral p fid seq rate fr nbins off c (write_slot st)"
    have run: "?run off st = ?run (off + c) (queue_put q st)"
      using True by (subst add_f_loop_round) (simp add: q_def c_def Let_def)
    have q: "arrives_ok ?V q" "spectral_content q = frame_chunk p rate fid fr nbins off"
      using fill_spectral_ok [OF src ids nbins conjunct1 [OF True] d(4), of fid rate fr]
      by (simp_all add: q_def c_def)
    have ok': "frame_stream_ok ?V (queue_put q st)"
      using frame_stream_put [OF ok _ q(1)] True d fill_spectral_shape [OF d(4)]
      by (simp add: q_def)
    have "nbins - (off + c) < nbins - off" "off + c \<le> nbins" using True by (auto simp: c_def)
    from less.hyps [OF this(1) ok' this(2)] obtain n qs where n:
      "frame_stream_ok ?V (?run (off + c) (queue_put q st))"
      "\<forall>j < n. off + c + 256 * j < nbins"
      "queued (?run (off + c) (queue_put q st)) = queued (queue_put q st) @ qs"
      "map spectral_content qs = map (\<lambda>j. frame_chunk p rate fid fr nbins (off + c + 256 * j)) [0..<n]"
      "dropped_samples (?run (off + c) (queue_put q st))
         = dropped_samples (queue_put q st) + of_nat (nbins - (off + c + 256 * n))"
      "off + c + 256 * n < nbins \<longrightarrow> queue_full (?run (off + c) (queue_put q st))"
      "st_sample_rate (?run (off + c) (queue_put q st)) = st_sample_rate st"
      "st_graph_id (?run (off + c) (queue_put q st)) = st_graph_id st"
      "st_stream_id (?run (off + c) (queue_put q st)) = st_stream_id st"
      by (auto simp: Let_def)
    have c: "off + c + 256 * j = off + 256 * Suc j \<or> nbins \<le> off + c + 256 * j \<and> nbins \<le> off + 256 * Suc j"
      for j by (auto simp: c_def)
    have "map (\<lambda>j. frame_chunk p rate fid fr nbins (off + 256 * j)) [0..<Suc n]
        = frame_chunk p rate fid fr nbins off
          # map (\<lambda>j. frame_chunk p rate fid fr nbins (off + c + 256 * j)) [0..<n]"
    proof -
      have cc: "off + c + 256 * j = off + 256 * Suc j" if "j < n" for j
        using c [of j] n(2) that by (metis not_le)
      then have "map (\<lambda>j. frame_chunk p rate fid fr nbins (off + 256 * Suc j)) [0..<n]
          = map (\<lambda>j. frame_chunk p rate fid fr nbins (off + c + 256 * j)) [0..<n]"
        by (intro map_cong refl) (simp only: set_upt atLeastLessThan_iff cc)
      then show ?thesis
        by (simp add: upt_conv_Cons map_Suc_upt [symmetric] del: upt_Suc mult_Suc_right)
    qed
    moreover have "\<forall>j < Suc n. off + 256 * j < nbins"
      using n(2) c True by (metis add.right_neutral less_Suc_eq_0_disj mult_0_right not_le)
    moreover have "nbins - (off + c + 256 * n) = nbins - (off + 256 * Suc n)"
      "off + c + 256 * n < nbins \<longleftrightarrow> off + 256 * Suc n < nbins" using c [of n] by auto
    ultimately show ?thesis
      using n q(2) queued_put [OF d(1), of q] True
      by (intro exI [of _ "Suc n"] exI [of _ "q # qs"]) (simp add: Let_def run del: upt_Suc mult_Suc_right)
  qed
qed

section \<open>Peak hold\<close>

text \<open>The specification: \<open>m\<close> is the largest of the finite levels a channel had since the last
  packet, or the floor \<open>-FLT_MAX\<close>, which no finite level is below.\<close>

definition finite_levels :: "cfloat list list \<Rightarrow> nat \<Rightarrow> cfloat set" where
  "finite_levels history i = {x. isfinite x \<and> (\<exists>d \<in> set history. x = to_float (d ! i))}"

definition is_peak :: "cfloat list list \<Rightarrow> nat \<Rightarrow> cfloat \<Rightarrow> bool" where
  "is_peak history i m \<longleftrightarrow> m \<in> insert (fneg FLT_MAX) (finite_levels history i)
     \<and> (\<forall>x \<in> insert (fneg FLT_MAX) (finite_levels history i). x \<le> m)"

text \<open>A packet with these levels carries the peaks of \<open>n\<close> channels.\<close>

definition are_peaks :: "nat \<Rightarrow> cfloat list list \<Rightarrow> cfloat list \<Rightarrow> bool" where
  "are_peaks n history ms \<longleftrightarrow> length ms = n \<and> (\<forall>i < n. is_peak history i (ms ! i))"

definition meter_ok :: "WATCH_METER \<Rightarrow> WATCH_STREAM \<Rightarrow> cfloat list list \<Rightarrow> bool" where
  "meter_ok p st history \<longleftrightarrow> mt_stream p = Some st
     \<and> frame_stream_ok validate_meter_data_packet st
     \<and> 0 < mt_nchnls p \<and> mt_nchnls p \<le> MAX_METER_CHANNELS \<and> length (peak p) = MAX_METER_CHANNELS
     \<and> (\<forall>i < mt_nchnls p. is_peak history i (peak p ! i))"

definition meter_levels :: "packet \<Rightarrow> cfloat list" where
  "meter_levels p = take (unat (channel_count (pk_meter p))) (levels (pk_meter p))"

lemma meter_packet_ok:
  assumes ok: "frame_stream_ok validate_meter_data_packet st" and "\<not> queue_full st"
    and "0 < n" "n \<le> 32" "length peaks = 32" "0 \<le> seq"
  defines "st' \<equiv> publish_meter_packet (update_slot (fill_meter st seq n peaks) st)
      (next_pos (write_pos st)) (of_nat n)"
  shows "frame_stream_ok validate_meter_data_packet st'"
    and "map meter_levels (queued st') = map meter_levels (queued st) @ [take n peaks]"
    and "dropped_samples st' = dropped_samples st"
proof -
  note d = frame_stream_okD [OF ok]
  define q where "q = (fill_meter st seq n peaks (write_slot st))\<lparr>
      pk_meter := (pk_meter (fill_meter st seq n peaks (write_slot st)))\<lparr>channel_count := of_nat n\<rparr>,
      header := (header (fill_meter st seq n peaks (write_slot st)))
        \<lparr>payload_size := OFF_LEVELS + of_nat n * SIZEOF_FLOAT\<rparr>\<rparr>"
  have put: "st' = queue_put q st"
    using d(1) by (simp add: st'_def publish_meter_packet_def queue_put_def q_def)
      (simp add: update_slot_def queue_wf_def write_slot_def)
  have pay: "payload_size (header q) = 12 + of_nat n * 4" by (simp add: q_def)
  have n256: "n \<le> 256" using assms(4) by simp
  note bytes = u32_payload_bytes [OF pay n256, simplified]
  have w: "(of_nat n :: u32) \<noteq> 0" "(of_nat n :: u32) \<le> 32" "unat (of_nat n :: u32) = n"
    using assms(3,4) u32_of_nat_eq_0 [of n] u32_of_nat_le [of n 32] unat_u32_of_nat [of n] by simp_all
  have hdr: "validate_header (header q) (int (packet_bytes q))"
    using bytes by (simp add: validate_header_def uint_nat) (simp add: q_def fill_meter_def)
  have "sendable q"
    using bytes(1) assms(4) by (simp add: sendable_def max_payload_size_def word_le_nat_alt)
      (simp add: q_def fill_meter_def)
  moreover have "validate_meter_data_packet q (int (packet_bytes q))"
    using hdr d w assms(6)
    by (simp add: validate_meter_data_packet_def q_def fill_meter_def Let_def not_le not_less)
  ultimately have good: "arrives_ok validate_meter_data_packet q"
    by (simp add: arrives_ok_def on_wire_def validate_frame_datagram)
  show "frame_stream_ok validate_meter_data_packet st'" unfolding put
    using frame_stream_put [OF ok assms(2) good] d by (simp add: q_def fill_meter_def)
  have "length (take n peaks) = n" using assms(4,5) by simp
  then have "meter_levels q = take n peaks"
    using take_store_at [of 0 "take n peaks" "levels (pk_meter (write_slot st))"] d(5) w assms(4)
    by (simp add: meter_levels_def q_def fill_meter_def)
  then show "map meter_levels (queued st') = map meter_levels (queued st) @ [take n peaks]"
    using queued_put [OF d(1) assms(2), of q] by (simp add: put)
  show "dropped_samples st' = dropped_samples st" by (simp add: put)
qed

lemma finite_levels_snoc: "finite_levels (h @ [d]) i
    = (if isfinite (to_float (d ! i)) then insert (to_float (d ! i)) else id) (finite_levels h i)"
  by (auto simp: finite_levels_def)

lemma is_peak_finite: "is_peak h i m \<Longrightarrow> isfinite m"
  by (auto simp: is_peak_def finite_levels_def FLT_MAX_def)

lemma is_peak_snoc: "is_peak h i m \<Longrightarrow> is_peak (h @ [d]) i (hold_peak m (d ! i))"
proof -
  assume m: "is_peak h i m"
  then obtain q where q: "m = Fin q" using is_peak_finite by (cases m) fastforce+
  show ?thesis
  proof (cases "isfinite (to_float (d ! i))")
    case True
    then obtain l where "to_float (d ! i) = Fin l" by (cases "to_float (d ! i)") auto
    moreover have "x \<le> Fin q \<Longrightarrow> q < l \<Longrightarrow> x \<le> Fin l" for x by (cases x) (auto simp: less_eq_cfloat_def)
    ultimately show ?thesis using m unfolding q
      by (cases "q < l") (auto simp: is_peak_def finite_levels_snoc hold_peak_def)
  next
    case False
    then show ?thesis using m by (simp add: is_peak_def finite_levels_snoc hold_peak_def)
  qed
qed

lemma is_peak_Nil: "is_peak [] i (fneg FLT_MAX)"
  by (simp add: is_peak_def finite_levels_def FLT_MAX_def)

lemma watch_meter_spec:
  assumes ok: "meter_ok p st history" and data: "mt_nchnls p \<le> length data" and "0 \<le> seq"
  defines "p' \<equiv> watch_meter (Some data) seq p"
  shows "\<exists>st'. mt_nchnls p' = mt_nchnls p \<and> frames_per_packet p' = frames_per_packet p
    \<and> (if frames p + 1 < frames_per_packet p
       then st' = st \<and> frames p' = frames p + 1 \<and> meter_ok p' st' (history @ [data])
       else frames p' = 0
         \<and> (if queue_full st
            then st' = drop_samples 1 st \<and> meter_ok p' st' (history @ [data])
            else (\<exists>ms. are_peaks (mt_nchnls p) (history @ [data]) ms
                   \<and> map meter_levels (queued st') = map meter_levels (queued st) @ [ms])
                 \<and> dropped_samples st' = dropped_samples st \<and> meter_ok p' st' []))"
proof -
  let ?n = "mt_nchnls p"
  let ?pk = "map2 hold_peak (take ?n (peak p)) (take ?n data) @ drop ?n (peak p)"
  have s: "mt_stream p = Some st" and fs: "frame_stream_ok validate_meter_data_packet st"
    and n: "0 < ?n" "?n \<le> 32" and len: "length (peak p) = 32"
    and pk: "\<And>i. i < ?n \<Longrightarrow> is_peak history i (peak p ! i)"
    using ok by (auto simp: meter_ok_def)
  have lenpk: "length ?pk = 32" using n len data by simp
  have new: "is_peak (history @ [data]) i (?pk ! i)" if "i < ?n" for i
    using that n len data is_peak_snoc [OF pk [OF that], of data] by (simp add: nth_append)
  have takepk: "are_peaks ?n (history @ [data]) (take ?n ?pk)"
    unfolding are_peaks_def using n lenpk new nth_take [of _ ?n ?pk] by (simp del: take_append)
  note run = p'_def [unfolded watch_meter_def s Let_def option.case, simplified,
      unfolded queue_full_def [symmetric]]
  note pub = meter_packet_ok [OF fs _ n lenpk \<open>0 \<le> seq\<close>]
  show ?thesis
  proof (cases "frames p + 1 < frames_per_packet p \<or> queue_full st")
    case True
    then show ?thesis
      using run data s fs n len lenpk new frame_stream_drop [OF fs, of 1]
      by (cases "frames p + 1 < frames_per_packet p") (auto simp: meter_ok_def)
  next
    case False
    then show ?thesis
      using run data n len pub takepk
      by (auto simp: meter_ok_def nth_append is_peak_Nil)
  qed
qed

section \<open>Properties\<close>

text \<open>C16: \<^verbatim>\<open>watch_add_f\<close> publishes a new frame as consecutive chunks of at most 256 bins
  from bin 0 on, each with the frame's identifier and its offset; chunks are left out only from
  the end, only when the ring is full, and the bins left out are counted. For a signal that has
  passed the checks of the initialisation pass, the viewer accepts all the packets of the frame when
  the hop is no longer than the window, there are at most 1048576 bins and the sample rate is not
  zero, and else none: the pass does not check this. The frame is remembered as handled.\<close>

theorem watch_add_f_publishes:
  assumes "frame_stream_ok spectral_checked (af_stream p)"
    and "to_u32 (st_sample_rate (af_stream p)) = Some rate" "spectral_source_ok p"
    and "framecount \<noteq> last_frame_id p" "0 \<le> now"
  defines "nbins \<equiv> unat (af_fft_size p div 2 + 1)"
  shows "\<exists>p' n qs. watch_add_f framecount (Some frame) now p = Some p'
    \<and> last_frame_id p' = framecount
    \<and> frame_stream_ok spectral_checked (af_stream p')
    \<and> queued (af_stream p') = queued (af_stream p) @ qs
    \<and> map spectral_content qs = map (\<lambda>j. ((af_fft_size p, af_hop_size p, rate), framecount, of_nat (256 * j),
          map (\<lambda>i. spectral_bin_power frame i (af_format p)) [256 * j..<min nbins (256 * j + 256)])) [0..<n]
    \<and> (\<forall>j < n. 256 * j < nbins)
    \<and> dropped_samples (af_stream p') = dropped_samples (af_stream p) + of_nat (nbins - 256 * n)
    \<and> (256 * n < nbins \<longrightarrow> queue_full (af_stream p'))
    \<and> (\<forall>q \<in> set qs. arrives_ok validate_spectral_data_packet q
         \<longleftrightarrow> af_hop_size p \<le> af_fft_size p \<and> nbins \<le> 1048576 \<and> rate \<noteq> 0)"
proof -
  let ?st' = "add_f_loop p framecount now rate frame nbins 0 (af_stream p)"
  have "st_graph_id (af_stream p) \<noteq> 0" "st_stream_id (af_stream p) < 64"
    using assms(1) by (simp_all add: frame_stream_ok_def)
  from add_f_loop_spec [OF assms(3,5) this nbins_def [THEN meta_eq_to_obj_eq] assms(1), where off = 0 and rate = rate and fid = framecount and fr = frame]
  obtain n qs where n: "frame_stream_ok spectral_checked ?st'" "queued ?st' = queued (af_stream p) @ qs"
    "map spectral_content qs = map (\<lambda>j. frame_chunk p rate framecount frame nbins (256 * j)) [0..<n]"
    "\<forall>j < n. 256 * j < nbins"
    "dropped_samples ?st' = dropped_samples (af_stream p) + of_nat (nbins - 256 * n)"
    "256 * n < nbins \<longrightarrow> queue_full ?st'"
    by (auto simp: Let_def)
  have "arrives_ok validate_spectral_data_packet q
      \<longleftrightarrow> af_hop_size p \<le> af_fft_size p \<and> nbins \<le> 1048576 \<and> rate \<noteq> 0" if q: "q \<in> set qs" for q
  proof -
    have "spectral_content q \<in> set (map spectral_content qs)" using q by simp
    then have "fft_size (pk_spectral q) = af_fft_size p" "hop_size (pk_spectral q) = af_hop_size p"
      "spec_sample_rate (pk_spectral q) = rate"
      unfolding n(3) by (auto simp: spectral_content_def frame_chunk_def Let_def)
    moreover have "arrives_ok spectral_checked q" using n(1,2) q by (simp add: frame_stream_ok_def)
    then have "sendable q" "spectral_checked q (int (packet_bytes q))"
      by (simp_all add: arrives_ok_def on_wire_def validate_frame_datagram)
    ultimately show ?thesis
      by (simp add: arrives_ok_def on_wire_def validate_frame_datagram spectral_checked_def Let_def
          within_limits_def nbins_def word_le_nat_alt)
  qed
  then show ?thesis
    using n assms(2,4)
    by (intro exI [of _ "p\<lparr>af_stream := ?st', last_frame_id := framecount\<rparr>"] exI [of _ n] exI [of _ qs])
      (simp add: watch_add_f_def Let_def frame_chunk_def nbins_def)
qed

definition spectral_sample :: WATCH_ADD_SPECTRAL where
  "spectral_sample = \<lparr>af_stream = zero_stream\<lparr>st_graph_id := 1, st_sample_rate := Fin 44100\<rparr>,
     last_frame_id = 0, af_fft_size = 4, af_hop_size = 2, af_format = PVS_AMP_FREQ\<rparr>"

lemma spectral_sample_ok:
  "frame_stream_ok V (af_stream spectral_sample)"
  "to_u32 (st_sample_rate (af_stream spectral_sample)) = Some 44100"
  "spectral_source_ok spectral_sample"
  by (auto intro!: frame_stream_fresh(1)
      simp: spectral_sample_def zero_stream_def spectral_source_ok_def trunc_rat_def)

theorem watch_add_f_publishes_witness:
  "\<exists>p' qs. watch_add_f 9 (Some [Fin 1, Fin 0, Fin 2, Fin 0, NaN, Fin 0]) 5 spectral_sample = Some p'
    \<and> queued (af_stream p') = queued (af_stream spectral_sample) @ qs
    \<and> (\<forall>q \<in> set qs. arrives_ok validate_spectral_data_packet q)"
proof -
  have "9 \<noteq> last_frame_id spectral_sample" "(0 :: int) \<le> 5" by (simp_all add: spectral_sample_def)
  from watch_add_f_publishes [OF spectral_sample_ok(1-3) this, of "[Fin 1, Fin 0, Fin 2, Fin 0, NaN, Fin 0]"]
  show ?thesis by (auto simp: spectral_sample_def)
qed

text \<open>Whatever the bits of the frame, infinities and NaNs included, the power of a bin is
  a finite number between zero and the largest \<^verbatim>\<open>float\<close>.\<close>

theorem spectral_bin_power_finite:
  "\<exists>q. spectral_bin_power frame bin fmt = Fin q \<and> 0 \<le> q \<and> q \<le> max_finite f32"
proof -
  have clamp: "\<exists>q. (if isnan x \<or> x < Fin 0 then Fin 0 else if FLT_MAX < x then FLT_MAX
      else to_float x) = Fin q \<and> 0 \<le> q \<and> q \<le> max_finite f32" for x
  proof (cases x)
    case (Fin a)
    then show ?thesis
      using max_finite_f32_pos fround_f32_finite [of a] round_rat_nonneg [of a f32]
      by (auto simp: FLT_MAX_def)
  qed (use max_finite_f32_pos in \<open>auto simp: FLT_MAX_def\<close>)
  show ?thesis unfolding spectral_bin_power_def Let_def by (rule clamp)
qed

text \<open>C17: Peak hold of \<^verbatim>\<open>watch_meter\<close>: until a packet takes them, the peaks are the
  largest finite levels of all cycles since the last packet, also through cycles whose packet
  was refused by a full ring (which is counted); a packet is built once per window, it carries
  exactly those peaks of the declared channels and is accepted by the viewer, and then the hold
  starts over.\<close>

theorem watch_meter_peak_hold:
  assumes "meter_ok p st history" "mt_nchnls p \<le> length data" "0 \<le> seq"
  defines "p' \<equiv> watch_meter (Some data) seq p"
  shows "\<exists>st'. if frames p + 1 < frames_per_packet p
    then meter_ok p' st (history @ [data]) \<and> frames p' = frames p + 1
    else frames p' = 0
      \<and> (if queue_full st
         then meter_ok p' st' (history @ [data])
           \<and> queued st' = queued st \<and> dropped_samples st' = dropped_samples st + 1
         else meter_ok p' st' []
           \<and> dropped_samples st' = dropped_samples st
           \<and> (\<exists>ms. are_peaks (mt_nchnls p) (history @ [data]) ms
               \<and> map meter_levels (queued st') = map meter_levels (queued st) @ [ms]))"
  using watch_meter_spec [OF assms(1-3)] unfolding p'_def by (auto split: if_splits)

definition meter_sample :: WATCH_METER where
  "meter_sample = \<lparr>mt_stream = Some (zero_stream\<lparr>st_graph_id := 1\<rparr>),
     peak = replicate MAX_METER_CHANNELS (fneg FLT_MAX), mt_nchnls = 2, frames = 0,
     frames_per_packet = 1\<rparr>"

theorem watch_meter_peak_hold_witness:
  "\<exists>st'. map meter_levels (queued st') = [[Fin 3, fneg FLT_MAX]]
    \<and> meter_ok (watch_meter (Some [Fin 3, NaN]) 5 meter_sample) st' []"
proof -
  let ?st = "zero_stream\<lparr>st_graph_id := 1\<rparr>"
  have f: "frame_stream_ok validate_meter_data_packet ?st" "queued ?st = []"
    by (rule frame_stream_fresh; simp add: zero_stream_def)+
  then have ok: "meter_ok meter_sample ?st []"
    by (simp add: meter_ok_def meter_sample_def is_peak_Nil)
  have full: "\<not> queue_full ?st" "mt_nchnls meter_sample = 2" "frames_per_packet meter_sample = 1"
    "frames meter_sample = 0"
    by (simp_all add: queue_full_def next_pos_def zero_stream_def meter_sample_def)
  have data: "mt_nchnls meter_sample \<le> length [Fin 3, NaN]" by (simp add: full)
  obtain st' ms where m: "meter_ok (watch_meter (Some [Fin 3, NaN]) 5 meter_sample) st' []"
    "are_peaks 2 [[Fin 3, NaN]] ms" "map meter_levels (queued st') = [ms]"
    using watch_meter_peak_hold [OF ok data, of 5] full f by auto
  have "is_peak [[Fin 3, NaN]] 0 (ms ! 0)" "is_peak [[Fin 3, NaN]] 1 (ms ! 1)" "length ms = 2"
    using m(2) by (auto simp: are_peaks_def)
  moreover have "fround f32 3 = Fin 3" using fround_f32_int [of 3] by simp
  ultimately have "ms = [Fin 3, fneg FLT_MAX]"
    using max_finite_f32_pos
    by (auto simp: is_peak_def finite_levels_def FLT_MAX_def length_Suc_conv numeral_2_eq_2)
  then show ?thesis using m(1,3) by (intro exI [of _ st']) simp
qed

end
