(* ===== verification/Opcodes.thy ===== *)
theory Opcodes
  imports Manager FrameFeed
begin

text \<open>
  The initialisation and deinitialisation passes of the opcodes (\<^verbatim>\<open>src/src/watch.c\<close>): the
  checks of the arguments, the graphs they create, the streams they attach, and the teardown of
  an earlier pass. Optional arguments are \<^const>\<open>None\<close> when missing. What an opcode reads
  from its host is in \<open>ENV\<close>: the rates of the instrument, the sample time, which allocations
  succeed, and how building the manager goes. \<open>CSOUND\<close> is the process-wide state.
\<close>

record CSOUND =
  global_manager :: "WATCH_MANAGER option"
  resources :: RESOURCES

record ENV =
  env_host :: HOST
  esr :: cfloat
  ekr :: cfloat
  sample_time :: int
  graph_mem :: bool
  streams_mem :: bool
  stream_mem :: bool
  snapshot_mem :: bool

section \<open>Argument checks\<close>

definition tick_count :: "cfloat option \<Rightarrow> watch_error + u32" where
  "tick_count v =
     (case v of
        None \<Rightarrow> Inr 0
      | Some x \<Rightarrow>
          if \<not> isfinite x \<or> x < Fin 0 \<or> Fin MAX_GRID_TICKS < x then Inl BadTickCount
          else case to_u32 x of None \<Rightarrow> Inl UndefinedConversion | Some n \<Rightarrow> Inr n)"

definition outside :: "cfloat \<Rightarrow> cfloat \<Rightarrow> cfloat \<Rightarrow> bool" where
  "outside lower upper x \<longleftrightarrow> \<not> isfinite x \<or> x < lower \<or> upper < x"

definition numeric_range ::
  "cfloat option \<Rightarrow> cfloat option \<Rightarrow> cfloat \<Rightarrow> cfloat \<Rightarrow> watch_error + WATCH_RANGE" where
  "numeric_range min_value max_value lower_bound upper_bound =
     (let r0 = \<lparr>is_min_auto = (if min_value = None then 1 else 0),
                is_max_auto = (if max_value = None then 1 else 0),
                range_min = Fin 0, range_max = Fin 0\<rparr> in
      if (case min_value of None \<Rightarrow> False | Some x \<Rightarrow> outside lower_bound upper_bound x)
      then Inl RangeMinimum
      else
        let r1 = (case min_value of None \<Rightarrow> r0 | Some x \<Rightarrow> r0\<lparr>range_min := to_float x\<rparr>) in
        if (case max_value of None \<Rightarrow> False | Some x \<Rightarrow> outside lower_bound upper_bound x)
        then Inl RangeMaximum
        else
          let r2 = (case max_value of None \<Rightarrow> r1 | Some x \<Rightarrow> r1\<lparr>range_max := to_float x\<rparr>) in
          if is_min_auto r2 = 0 \<and> is_max_auto r2 = 0 \<and> range_max r2 \<le> range_min r2
          then Inl RangeOrder
          else Inr r2)"

section \<open>Creating a graph\<close>

text \<open>A live handle in the output cell belongs to an earlier pass: its graph is dropped.\<close>

definition drop_previous :: "cfloat option \<Rightarrow> CSOUND \<Rightarrow> (cfloat option \<times> CSOUND) option" where
  "drop_previous handle cs =
     (case handle of
        None \<Rightarrow> Some (None, cs)
      | Some x \<Rightarrow>
          (case to_u32 x of
             None \<Rightarrow> None
           | Some k \<Rightarrow>
               Some (Some (of_u32 f64 INVALID_HANDLE),
                 cs\<lparr>global_manager := request_graph_destroy k True (global_manager cs)\<rparr>)))"

definition new_graph :: "u32 \<Rightarrow> u32 \<Rightarrow> WATCH_MSG_GRAPH_SETTINGS \<Rightarrow> char list \<Rightarrow> WATCH_GRAPH" where
  "new_graph dmn th st t = zero_graph\<lparr>data_config := zero_packet\<lparr>pk_config :=
     zero_config\<lparr>domain := dmn, theme := th, settings := st, title := t\<rparr>\<rparr>\<rparr>"

text \<open>A full registry is not an error of the pass: it leaves the handle invalid.\<close>

definition create_graph ::
  "ENV \<Rightarrow> cfloat option \<Rightarrow> u32 \<Rightarrow> WATCH_MSG_GRAPH_SETTINGS \<Rightarrow> char list option \<Rightarrow> u32 \<Rightarrow> CSOUND
     \<Rightarrow> status \<times> cfloat option \<times> CSOUND" where
  "create_graph env handle dmn st src th cs =
     (case drop_previous handle cs of
        None \<Rightarrow> (Inl UndefinedConversion, handle, cs)
      | Some (handle1, cs1) \<Rightarrow>
     (case get_manager (env_host env) (global_manager cs1) (resources cs1) of (mo, r) \<Rightarrow>
     let cs2 = cs1\<lparr>global_manager := mo, resources := r\<rparr> in
     case mo of
       None \<Rightarrow> (Inl ManagerInitFailed, handle1, cs2)
     | Some m \<Rightarrow>
     if \<not> graph_mem env then (Inl OutOfMemory, handle1, cs2) else
     (case string_to_title (title zero_config) src of
        None \<Rightarrow> (Inl TitleTooLong, handle1, cs2)
      | Some t \<Rightarrow>
     if \<not> streams_mem env then (Inl OutOfMemory, handle1, cs2) else
     (case register_graph (sample_time env) (new_graph dmn th st t) m of (result, k, m') \<Rightarrow>
     let cs3 = cs2\<lparr>global_manager := Some m'\<rparr> in
     case result of
       GRAPH_REGISTERED \<Rightarrow> (OK, map_option (\<lambda>_. of_u32 f64 k) handle1, cs3)
     | GRAPH_REGISTRY_FULL \<Rightarrow> (OK, handle1, cs3)
     | GRAPH_REGISTRY_INCONSISTENT \<Rightarrow> (Inl RegistryInconsistent, handle1, cs3)
     | GRAPH_HANDLE_UNAVAILABLE \<Rightarrow> (Inl HandleAllocationFailed, handle1, cs3)))))"

text \<open>The opcodes pass the address of their output cell.\<close>

definition create_graph_in ::
  "ENV \<Rightarrow> cfloat \<Rightarrow> u32 \<Rightarrow> WATCH_MSG_GRAPH_SETTINGS \<Rightarrow> char list option \<Rightarrow> u32 \<Rightarrow> CSOUND
     \<Rightarrow> status \<times> cfloat \<times> CSOUND" where
  "create_graph_in env cell dmn st src th cs =
     (case create_graph env (Some cell) dmn st src th cs of (s, h, cs') \<Rightarrow> (s, the h, cs'))"

definition watch_deinit :: "cfloat \<Rightarrow> CSOUND \<Rightarrow> status \<times> cfloat \<times> CSOUND" where
  "watch_deinit cell cs =
     (case to_u32 cell of
        None \<Rightarrow> (Inl UndefinedConversion, cell, cs)
      | Some k \<Rightarrow> (OK, of_u32 f64 INVALID_HANDLE,
          cs\<lparr>global_manager := request_graph_destroy k False (global_manager cs)\<rparr>))"

section \<open>Oscilloscope and control graphs\<close>

record WATCH_CREATE_TIME =
  ct_handle :: cfloat
  ct_win_size :: "cfloat option"
  ct_nxticks :: "cfloat option"
  ct_nyticks :: "cfloat option"
  ct_ymin :: "cfloat option"
  ct_ymax :: "cfloat option"
  ct_title :: "char list option"

definition create_time_helper :: "WATCH_CREATE_TIME \<Rightarrow> watch_error + WATCH_MSG_TIME_CONFIG" where
  "create_time_helper p =
     (case tick_count (ct_nxticks p) of
        Inl e \<Rightarrow> Inl e
      | Inr nx \<Rightarrow>
     (case tick_count (ct_nyticks p) of
        Inl e \<Rightarrow> Inl e
      | Inr ny \<Rightarrow>
     (case numeric_range (ct_ymin p) (ct_ymax p) (fneg FLT_MAX) FLT_MAX of
        Inl e \<Rightarrow> Inl e
      | Inr r \<Rightarrow> Inr \<lparr>win_size = to_float (the (ct_win_size p)), time_nxticks = nx,
          time_nyticks = ny, time_yrange = r\<rparr>)))"

definition create_time_graph ::
  "u32 \<Rightarrow> ENV \<Rightarrow> WATCH_CREATE_TIME \<Rightarrow> CSOUND \<Rightarrow> status \<times> WATCH_CREATE_TIME \<times> CSOUND" where
  "create_time_graph dmn env p cs =
     (if (case ct_win_size p of None \<Rightarrow> True | Some x \<Rightarrow> \<not> isfinite x \<or> x \<le> Fin 0)
      then (Inl BadWindowSize, p, cs)
      else case create_time_helper p of
        Inl e \<Rightarrow> (Inl e, p, cs)
      | Inr config \<Rightarrow>
          (case create_graph_in env (ct_handle p) dmn (zero_settings\<lparr>set_time := config\<rparr>)
                  (ct_title p) WATCH_THEME_LIGHT cs of
             (s, h, cs') \<Rightarrow> (s, p\<lparr>ct_handle := h\<rparr>, cs')))"

definition watch_create_scope ::
  "ENV \<Rightarrow> WATCH_CREATE_TIME \<Rightarrow> CSOUND \<Rightarrow> status \<times> WATCH_CREATE_TIME \<times> CSOUND" where
  "watch_create_scope = create_time_graph WATCH_DOMAIN_OSCILLOSCOPE"

definition watch_create_control ::
  "ENV \<Rightarrow> WATCH_CREATE_TIME \<Rightarrow> CSOUND \<Rightarrow> status \<times> WATCH_CREATE_TIME \<times> CSOUND" where
  "watch_create_control = create_time_graph WATCH_DOMAIN_CONTROL"

section \<open>Spectral graphs\<close>

record WATCH_CREATE_SPECTRAL =
  cf_handle :: cfloat
  cf_min_frequency :: "cfloat option"
  cf_max_frequency :: "cfloat option"
  cf_min_value :: "cfloat option"
  cf_max_value :: "cfloat option"
  cf_scale :: "cfloat option"
  cf_nxticks :: "cfloat option"
  cf_nyticks :: "cfloat option"
  cf_title :: "char list option"

definition spectral_scale :: "cfloat option \<Rightarrow> watch_error + u32" where
  "spectral_scale v =
     (case v of
        None \<Rightarrow> Inr WATCH_SCALE_LINEAR_GAIN
      | Some x \<Rightarrow>
          if \<not> isfinite x \<or> x < Fin 0 \<or> Fin 2 < x then Inl BadScale
          else case integer_valued x of None \<Rightarrow> Inl BadScale | Some n \<Rightarrow> Inr n)"

definition spectral_config ::
  "cfloat \<Rightarrow> cfloat \<Rightarrow> WATCH_CREATE_SPECTRAL \<Rightarrow> watch_error + WATCH_MSG_SPECTRAL_CONFIG" where
  "spectral_config history sample_rate p =
     (case spectral_scale (cf_scale p) of
        Inl e \<Rightarrow> Inl e
      | Inr sc \<Rightarrow>
     (case tick_count (cf_nxticks p) of
        Inl e \<Rightarrow> Inl e
      | Inr nx \<Rightarrow>
     (case tick_count (cf_nyticks p) of
        Inl e \<Rightarrow> Inl e
      | Inr ny \<Rightarrow>
     let nyquist = fmul f32 sample_rate (Fin (1 / 2)) in
     (case numeric_range (cf_min_frequency p) (cf_max_frequency p) (Fin 0) nyquist of
        Inl e \<Rightarrow> Inl e
      | Inr fr \<Rightarrow>
     let value_lower_bound = (if sc = WATCH_SCALE_DECIBEL then fneg FLT_MAX else Fin 0) in
     (case numeric_range (cf_min_value p) (cf_max_value p) value_lower_bound FLT_MAX of
        Inl e \<Rightarrow> Inl e
      | Inr vr \<Rightarrow> Inr \<lparr>history_seconds = history, spec_nxticks = nx, spec_nyticks = ny,
          spec_scale = sc, frequency_range = fr, value_range = vr\<rparr>)))))"

definition create_spectral_graph ::
  "ENV \<Rightarrow> u32 \<Rightarrow> cfloat \<Rightarrow> WATCH_CREATE_SPECTRAL \<Rightarrow> CSOUND
     \<Rightarrow> status \<times> WATCH_CREATE_SPECTRAL \<times> CSOUND" where
  "create_spectral_graph env dmn history p cs =
     (case spectral_config history (to_float (esr env)) p of
        Inl e \<Rightarrow> (Inl e, p, cs)
      | Inr config \<Rightarrow>
          (case create_graph_in env (cf_handle p) dmn (zero_settings\<lparr>set_spectral := config\<rparr>)
                  (cf_title p) WATCH_THEME_LIGHT cs of
             (s, h, cs') \<Rightarrow> (s, p\<lparr>cf_handle := h\<rparr>, cs')))"

definition watch_create_spectrum ::
  "ENV \<Rightarrow> WATCH_CREATE_SPECTRAL \<Rightarrow> CSOUND \<Rightarrow> status \<times> WATCH_CREATE_SPECTRAL \<times> CSOUND" where
  "watch_create_spectrum env p cs = create_spectral_graph env WATCH_DOMAIN_SPECTRUM (Fin 0) p cs"

definition watch_create_spectrogram ::
  "ENV \<Rightarrow> cfloat option \<Rightarrow> WATCH_CREATE_SPECTRAL \<Rightarrow> CSOUND
     \<Rightarrow> status \<times> WATCH_CREATE_SPECTRAL \<times> CSOUND" where
  "watch_create_spectrogram env history p cs =
     (case history of
        None \<Rightarrow> (Inl BadHistory, p, cs)
      | Some x \<Rightarrow>
          if \<not> isfinite x \<or> x \<le> Fin 0 \<or> FLT_MAX < x then (Inl BadHistory, p, cs)
          else create_spectral_graph env WATCH_DOMAIN_SPECTROGRAM (to_float x) p cs)"

section \<open>Point graphs\<close>

record WATCH_CREATE_POINT =
  cp_handle :: cfloat
  cp_xmin :: "cfloat option"
  cp_xmax :: "cfloat option"
  cp_ymin :: "cfloat option"
  cp_ymax :: "cfloat option"
  cp_title :: "char list option"

definition watch_create_point ::
  "ENV \<Rightarrow> WATCH_CREATE_POINT \<Rightarrow> CSOUND \<Rightarrow> status \<times> WATCH_CREATE_POINT \<times> CSOUND" where
  "watch_create_point env p cs =
     (case numeric_range (cp_ymin p) (cp_ymax p) (fneg FLT_MAX) FLT_MAX of
        Inl e \<Rightarrow> (Inl e, p, cs)
      | Inr yr \<Rightarrow>
     (case numeric_range (cp_xmin p) (cp_xmax p) (fneg FLT_MAX) FLT_MAX of
        Inl e \<Rightarrow> (Inl e, p, cs)
      | Inr xr \<Rightarrow>
          (case create_graph_in env (cp_handle p) WATCH_DOMAIN_POINT
                  (zero_settings\<lparr>set_point := \<lparr>point_xrange = xr, point_yrange = yr\<rparr>\<rparr>)
                  (cp_title p) WATCH_THEME_LIGHT cs of
             (s, h, cs') \<Rightarrow> (s, p\<lparr>cp_handle := h\<rparr>, cs'))))"

section \<open>Attaching streams\<close>

definition add_stream ::
  "ENV \<Rightarrow> cfloat \<Rightarrow> u32 \<Rightarrow> u32 \<Rightarrow> cfloat \<Rightarrow> nat \<Rightarrow> nat option \<Rightarrow> CSOUND \<Rightarrow> status \<times> nat option \<times> CSOUND" where
  "add_stream env handle d1 d2 rate fps ref cs =
     (case create_stream (stream_mem env) handle d1 d2 rate fps ref (global_manager cs) of
        (s, ref', mo) \<Rightarrow> (s, ref', cs\<lparr>global_manager := mo\<rparr>))"

definition watch_add_a_init :: "ENV \<Rightarrow> cfloat \<Rightarrow> nat option \<Rightarrow> CSOUND \<Rightarrow> status \<times> nat option \<times> CSOUND" where
  "watch_add_a_init env handle ref cs = add_stream env handle WATCH_DOMAIN_OSCILLOSCOPE
     WATCH_DOMAIN_OSCILLOSCOPE (to_float (esr env)) 1 ref cs"

definition watch_add_k_init :: "ENV \<Rightarrow> cfloat \<Rightarrow> nat option \<Rightarrow> CSOUND \<Rightarrow> status \<times> nat option \<times> CSOUND" where
  "watch_add_k_init env handle ref cs = add_stream env handle WATCH_DOMAIN_CONTROL
     WATCH_DOMAIN_CONTROL (to_float (ekr env)) 1 ref cs"

definition watch_add_p_init :: "ENV \<Rightarrow> cfloat \<Rightarrow> nat option \<Rightarrow> CSOUND \<Rightarrow> status \<times> nat option \<times> CSOUND" where
  "watch_add_p_init env handle ref cs = add_stream env handle WATCH_DOMAIN_POINT
     WATCH_DOMAIN_POINT (to_float (ekr env)) 2 ref cs"

text \<open>\<^verbatim>\<open>watch_add_deinit\<close>, \<^verbatim>\<open>watch_add_f_deinit\<close> and \<^verbatim>\<open>watch_add_p_deinit\<close>.\<close>

definition watch_add_deinit :: "nat option \<Rightarrow> CSOUND \<Rightarrow> status \<times> nat option \<times> CSOUND" where
  "watch_add_deinit ref cs =
     (case release_stream ref (global_manager cs) of
        None \<Rightarrow> (Inl DanglingStream, ref, cs)
      | Some (ref', mo) \<Rightarrow> (OK, ref', cs\<lparr>global_manager := mo\<rparr>))"

record PVSDAT =
  pv_n :: int
  sliding :: int
  overlap :: int
  pv_format :: pvs_format
  framecount :: u32

record ADD_SPECTRAL_OPCODE =
  op_handle :: cfloat
  op_signal :: "PVSDAT option"
  op_stream :: "nat option"
  op_last_frame_id :: u32
  op_fft_size :: u32
  op_hop_size :: u32
  op_format :: pvs_format

definition watch_add_f_init ::
  "ENV \<Rightarrow> ADD_SPECTRAL_OPCODE \<Rightarrow> CSOUND \<Rightarrow> status \<times> ADD_SPECTRAL_OPCODE \<times> CSOUND" where
  "watch_add_f_init env p cs =
     (let p0 = p\<lparr>op_stream := None, op_last_frame_id := 0\<rparr> in
      case op_signal p0 of
        None \<Rightarrow> (Inl NullSignal, p0, cs)
      | Some sig \<Rightarrow>
          if sliding sig \<noteq> 0 then (Inl SlidingSignal, p0, cs)
          else if pv_n sig \<le> 0 \<or> odd (pv_n sig) \<or> overlap sig \<le> 0 then (Inl BadFftSize, p0, cs)
          else if pv_format sig \<noteq> PVS_AMP_FREQ \<and> pv_format sig \<noteq> PVS_AMP_PHASE
            \<and> pv_format sig \<noteq> PVS_COMPLEX then (Inl BadSpectralFormat, p0, cs)
          else
            let p1 = p0\<lparr>op_fft_size := of_int (pv_n sig), op_hop_size := of_int (overlap sig),
                  op_format := pv_format sig, op_last_frame_id := framecount sig\<rparr> in
            (case add_stream env (op_handle p1) WATCH_DOMAIN_SPECTRUM WATCH_DOMAIN_SPECTROGRAM
                    (to_float (esr env)) 1 (op_stream p1) cs of
               (s, ref, cs') \<Rightarrow> (s, p1\<lparr>op_stream := ref\<rparr>, cs')))"

section \<open>Function tables\<close>

text \<open>\<open>tb_table\<close> is what the host finds under the table number: its length and its
  samples, of which the code reads as many as the length says.\<close>

record WATCH_FTABLE =
  tb_table :: "(int \<times> cfloat list) option"
  tb_ymin :: "cfloat option"
  tb_ymax :: "cfloat option"
  tb_theme :: "cfloat option"
  tb_title :: "char list option"
  tb_stream :: "nat option"
  tb_graph_id :: u32

definition ftable_teardown :: "WATCH_FTABLE \<Rightarrow> bool \<Rightarrow> CSOUND \<Rightarrow> status \<times> WATCH_FTABLE \<times> CSOUND" where
  "ftable_teardown p close_window cs =
     (if tb_graph_id p = INVALID_HANDLE then (OK, p, cs)
      else case release_stream (tb_stream p) (global_manager cs) of
        None \<Rightarrow> (Inl DanglingStream, p, cs)
      | Some (ref, mo) \<Rightarrow>
          (OK, p\<lparr>tb_stream := ref, tb_graph_id := INVALID_HANDLE\<rparr>,
           cs\<lparr>global_manager := request_graph_destroy (tb_graph_id p) close_window mo\<rparr>))"

definition watch_ftable_deinit :: "WATCH_FTABLE \<Rightarrow> CSOUND \<Rightarrow> status \<times> WATCH_FTABLE \<times> CSOUND" where
  "watch_ftable_deinit p cs = ftable_teardown p False cs"

text \<open>The settings of the graph and the snapshot, or why there are none.\<close>

definition ftable_checks ::
  "ENV \<Rightarrow> WATCH_FTABLE \<Rightarrow> watch_error + (WATCH_MSG_FTABLE_CONFIG \<times> cfloat list \<times> u32)" where
  "ftable_checks env p =
     (case tb_table p of
        None \<Rightarrow> Inl TableNotFound
      | Some (flen, table) \<Rightarrow>
     if flen \<le> 0 then Inl TableNotFound else
     (case numeric_range (tb_ymin p) (tb_ymax p) (fneg FLT_MAX) FLT_MAX of
        Inl e \<Rightarrow> Inl e
      | Inr r \<Rightarrow>
     if flen > MAX_FTABLE_SAMPLES then Inl TableTooLarge else
     if (case tb_theme p of None \<Rightarrow> False | Some x \<Rightarrow> theme_of x = None) then Inl BadTheme else
     if \<not> snapshot_mem env then Inl OutOfMemory else
     Inr (\<lparr>ft_win_size = of_int flen, ft_yrange = r\<rparr>, map to_float (take (nat flen) table),
       (case tb_theme p of None \<Rightarrow> WATCH_THEME_LIGHT | Some x \<Rightarrow> the (theme_of x)))))"

definition start_transfer :: "cfloat list \<Rightarrow> int \<Rightarrow> WATCH_STREAM \<Rightarrow> WATCH_STREAM" where
  "start_transfer snapshot seq st = st\<lparr>ftable_samples := Some snapshot,
     ftable_total_samples := length snapshot, ftable_next_sample := 0, ftable_transfer_id := 1,
     ftable_sequence := seq\<rparr>"

text \<open>The second half of the pass, once the graph exists: the stream, and the transfer on it.\<close>

definition ftable_attach ::
  "ENV \<Rightarrow> cfloat \<Rightarrow> cfloat list \<Rightarrow> WATCH_FTABLE \<Rightarrow> CSOUND \<Rightarrow> status \<times> WATCH_FTABLE \<times> CSOUND" where
  "ftable_attach env h snapshot p1 cs1 =
     (case add_stream env h WATCH_DOMAIN_FTABLE WATCH_DOMAIN_FTABLE (to_float (esr env)) 1
             (tb_stream p1) cs1 of (result, ref, cs2) \<Rightarrow>
     let p2 = p1\<lparr>tb_stream := ref\<rparr> in
     if result \<noteq> OK then (case watch_ftable_deinit p2 cs2 of (_, p3, cs3) \<Rightarrow> (result, p3, cs3)) else
     (case global_manager cs2 of
        None \<Rightarrow> (case watch_ftable_deinit p2 cs2 of (_, p3, cs3) \<Rightarrow> (Inl ManagerNotFound, p3, cs3))
      | Some m \<Rightarrow>
     (case ref of
        None \<Rightarrow> (Inl DanglingStream, p2, cs2)
      | Some a \<Rightarrow>
     (case heap m a of
        None \<Rightarrow> (Inl DanglingStream, p2, cs2)
      | Some st \<Rightarrow> (OK, p2, cs2\<lparr>global_manager :=
          Some (m\<lparr>heap := (heap m)(a \<mapsto> start_transfer snapshot (sample_time env) st)\<rparr>)\<rparr>)))))"

definition watch_ftable :: "ENV \<Rightarrow> WATCH_FTABLE \<Rightarrow> CSOUND \<Rightarrow> status \<times> WATCH_FTABLE \<times> CSOUND" where
  "watch_ftable env p cs =
     (case ftable_teardown p True cs of (torn, p0, cs0) \<Rightarrow>
     if torn \<noteq> OK then (torn, p0, cs0) else
     (case ftable_checks env p0 of
        Inl e \<Rightarrow> (Inl e, p0, cs0)
      | Inr (config, snapshot, th) \<Rightarrow>
     (case create_graph_in env (of_u32 f64 INVALID_HANDLE) WATCH_DOMAIN_FTABLE
             (zero_settings\<lparr>set_ftable := config\<rparr>) (tb_title p0) th cs0 of (result, h, cs1) \<Rightarrow>
     if result \<noteq> OK \<or> feq h (of_u32 f64 INVALID_HANDLE) then (result, p0, cs1) else
     (case to_u32 h of
        None \<Rightarrow> (Inl UndefinedConversion, p0, cs1)
      | Some k \<Rightarrow> ftable_attach env h snapshot (p0\<lparr>tb_graph_id := k\<rparr>) cs1))))"

text \<open>The variant with a title argument goes through an adapted instance and copies back what
  it owns.\<close>

record WATCH_FTABLE_TITLE =
  tt_table :: "(int \<times> cfloat list) option"
  tt_ymin :: "cfloat option"
  tt_ymax :: "cfloat option"
  tt_title :: "char list option"
  tt_stream :: "nat option"
  tt_graph_id :: u32

definition watch_ftable_title ::
  "ENV \<Rightarrow> WATCH_FTABLE_TITLE \<Rightarrow> CSOUND \<Rightarrow> status \<times> WATCH_FTABLE_TITLE \<times> CSOUND" where
  "watch_ftable_title env p cs =
     (let adapted = \<lparr>tb_table = tt_table p, tb_ymin = tt_ymin p, tb_ymax = tt_ymax p,
            tb_theme = None, tb_title = tt_title p, tb_stream = tt_stream p,
            tb_graph_id = tt_graph_id p\<rparr> in
      case watch_ftable env adapted cs of
        (result, q, cs') \<Rightarrow>
          (result, p\<lparr>tt_stream := tb_stream q, tt_graph_id := tb_graph_id q\<rparr>, cs'))"

definition watch_ftable_title_deinit ::
  "WATCH_FTABLE_TITLE \<Rightarrow> CSOUND \<Rightarrow> status \<times> WATCH_FTABLE_TITLE \<times> CSOUND" where
  "watch_ftable_title_deinit p cs =
     (let adapted = \<lparr>tb_table = None, tb_ymin = None, tb_ymax = None, tb_theme = None,
            tb_title = None, tb_stream = tt_stream p, tb_graph_id = tt_graph_id p\<rparr> in
      case watch_ftable_deinit adapted cs of
        (result, q, cs') \<Rightarrow>
          (result, p\<lparr>tt_stream := tb_stream q, tt_graph_id := tb_graph_id q\<rparr>, cs'))"

section \<open>Meters\<close>

record ARRAYDAT =
  dimensions :: int
  sizes :: "int list option"
  array_data :: "cfloat list option"

record METER_OPCODE =
  mt_handle :: cfloat
  mt_channels :: "ARRAYDAT option"
  mt_min :: "cfloat option"
  mt_max :: "cfloat option"
  mt_scale :: cfloat
  mt_title :: "char list option"
  mt_ref :: "nat option"
  mt_peak :: "cfloat list"
  mt_count :: nat
  mt_frames :: nat
  mt_frames_per_packet :: nat

definition meter_teardown :: "METER_OPCODE \<Rightarrow> bool \<Rightarrow> CSOUND \<Rightarrow> status \<times> METER_OPCODE \<times> CSOUND" where
  "meter_teardown p close_window cs =
     (case release_stream (mt_ref p) (global_manager cs) of
        None \<Rightarrow> (Inl DanglingStream, p, cs)
      | Some (ref, mo) \<Rightarrow>
          (case to_u32 (mt_handle p) of
             None \<Rightarrow> (Inl UndefinedConversion, p\<lparr>mt_ref := ref\<rparr>, cs\<lparr>global_manager := mo\<rparr>)
           | Some k \<Rightarrow>
               (OK, p\<lparr>mt_ref := ref, mt_handle := of_u32 f64 INVALID_HANDLE\<rparr>,
                cs\<lparr>global_manager := request_graph_destroy k close_window mo\<rparr>)))"

definition watch_meter_deinit :: "METER_OPCODE \<Rightarrow> CSOUND \<Rightarrow> status \<times> METER_OPCODE \<times> CSOUND" where
  "watch_meter_deinit p cs = meter_teardown p False cs"

definition meter_channels :: "ARRAYDAT option \<Rightarrow> watch_error + u32" where
  "meter_channels v =
     (case v of
        None \<Rightarrow> Inl BadLevels
      | Some ch \<Rightarrow>
          if dimensions ch \<noteq> 1 then Inl BadLevels
          else case sizes ch of
            None \<Rightarrow> Inl BadLevels
          | Some sz \<Rightarrow>
              if array_data ch = None \<or> sz ! 0 < 1 \<or> sz ! 0 > MAX_METER_CHANNELS then Inl BadLevels
              else Inr (of_int (sz ! 0)))"

definition meter_config :: "METER_OPCODE \<Rightarrow> watch_error + WATCH_MSG_METER_CONFIG" where
  "meter_config p =
     (case meter_channels (mt_channels p) of
        Inl e \<Rightarrow> Inl e
      | Inr n \<Rightarrow>
     (case numeric_range (mt_min p) (mt_max p) (fneg FLT_MAX) FLT_MAX of
        Inl e \<Rightarrow> Inl e
      | Inr r \<Rightarrow>
     (case to_u32 (mt_scale p) of
        None \<Rightarrow> Inl UndefinedConversion
      | Some sc \<Rightarrow>
          if \<not> feq (mt_scale p) (of_u32 f64 sc)
             \<or> (sc \<noteq> WATCH_SCALE_LINEAR_GAIN \<and> sc \<noteq> WATCH_SCALE_DECIBEL) then Inl BadScale
          else Inr \<lparr>nchnls = n, meter_nyticks = 0, meter_scale = sc, meter_yrange = r\<rparr>)))"

definition meter_window :: "cfloat \<Rightarrow> nat option" where
  "meter_window rate =
     (let frames = fceil (fdiv f64 rate (Fin WATCH_VIEWER_REFRESH_HZ)) in
      if Fin 1 \<le> frames then map_option unat (to_u32 frames) else Some 1)"

text \<open>The second half of the pass, once the graph exists.\<close>

definition meter_attach ::
  "ENV \<Rightarrow> WATCH_MSG_METER_CONFIG \<Rightarrow> METER_OPCODE \<Rightarrow> CSOUND \<Rightarrow> status \<times> METER_OPCODE \<times> CSOUND" where
  "meter_attach env config p1 cs1 =
     (case add_stream env (mt_handle p1) WATCH_DOMAIN_METER WATCH_DOMAIN_METER (to_float (ekr env))
             (unat (nchnls config)) (mt_ref p1) cs1 of (result, ref, cs2) \<Rightarrow>
     let p2 = p1\<lparr>mt_ref := ref\<rparr> in
     if result \<noteq> OK then (case watch_meter_deinit p2 cs2 of (_, p3, cs3) \<Rightarrow> (result, p3, cs3))
     else case meter_window (ekr env) of
       None \<Rightarrow> (Inl UndefinedConversion, p2, cs2)
     | Some n \<Rightarrow>
         (OK, p2\<lparr>mt_frames_per_packet := n, mt_count := unat (nchnls config), mt_frames := 0,
            mt_peak := replicate (unat (nchnls config)) (fneg FLT_MAX)
                @ drop (unat (nchnls config)) (mt_peak p2)\<rparr>, cs2))"

definition watch_meter_init :: "ENV \<Rightarrow> METER_OPCODE \<Rightarrow> CSOUND \<Rightarrow> status \<times> METER_OPCODE \<times> CSOUND" where
  "watch_meter_init env p cs =
     (case meter_teardown p True cs of (torn, p0, cs0) \<Rightarrow>
     if torn \<noteq> OK then (torn, p0, cs0) else
     (case meter_config p0 of
        Inl e \<Rightarrow> (Inl e, p0, cs0)
      | Inr config \<Rightarrow>
     (case create_graph_in env (mt_handle p0) WATCH_DOMAIN_METER
             (zero_settings\<lparr>set_meter := config\<rparr>) (mt_title p0) WATCH_THEME_LIGHT cs0 of
        (result, h, cs1) \<Rightarrow>
     let p1 = p0\<lparr>mt_handle := h\<rparr> in
     if result \<noteq> OK then (result, p1, cs1)
     else if to_u32 h = Some INVALID_HANDLE then (OK, p1, cs1)
     else meter_attach env config p1 cs1)))"

section \<open>Accepted arguments\<close>

lemma to_float_in_range:
  assumes "\<not> outside lower upper x" "fneg FLT_MAX \<le> lower" "upper \<le> FLT_MAX"
  shows "isfinite (to_float x)"
proof -
  obtain q where x: "x = Fin q" using assms(1) by (auto simp: outside_def isfinite_cases)
  have "\<not> Fin q < lower" "\<not> upper < Fin q" using assms(1) x by (simp_all add: outside_def)
  then have "- max_finite f32 \<le> q" "q \<le> max_finite f32"
    using assms(2,3) by (cases lower; cases upper; auto simp: FLT_MAX_def less_eq_cfloat_def)+
  then have "\<bar>q\<bar> \<le> max_finite f32" by simp
  then show ?thesis using fround_f32_finite [of q] by (simp add: x)
qed

lemma fround_nonneg: "0 \<le> q \<Longrightarrow> \<not> fround f q < Fin 0"
  using round_rat_nonneg [of q f] by (auto simp: fround_def Let_def max_finite_def not_less)

lemma to_float_nonneg:
  "\<not> outside (Fin 0) upper x \<Longrightarrow> \<not> to_float x < Fin 0"
  by (cases x) (auto simp: outside_def fround_nonneg)

text \<open>Whatever range the options pass, the viewer accepts it.\<close>

lemma numeric_range_valid:
  assumes "numeric_range mn mx lower upper = Inr r" "fneg FLT_MAX \<le> lower" "upper \<le> FLT_MAX"
    and "nn \<longrightarrow> lower = Fin 0"
  shows "valid_range r nn"
proof -
  have a: "isfinite (to_float x) \<and> (nn \<longrightarrow> \<not> to_float x < Fin 0)" if "\<not> outside lower upper x" for x
    using to_float_in_range [OF that assms(2,3)] to_float_nonneg that assms(4) by auto
  have b: "to_float x < to_float y"
    if "\<not> outside lower upper x" "\<not> outside lower upper y" "\<not> to_float y \<le> to_float x" for x y
    using a [OF that(1)] a [OF that(2)] that(3) by (auto simp: isfinite_cases)
  show ?thesis
    using assms(1)
    by (cases mn; cases mx; cases nn)
      (auto simp: numeric_range_def valid_range_def Let_def a b split: if_splits)
qed

lemma fround_f64_int:
  assumes "\<bar>m\<bar> < 9007199254740992"
  shows "fround f64 (of_int m) = Fin (of_int m)"
proof -
  have r: "round_rat f64 (of_int m) = of_int m"
    using round_rat_representable [of m f64 0] assms by simp
  have "(of_int \<bar>m\<bar> :: rat) \<le> of_int 9007199254740991" using assms by (simp only: of_int_le_iff)
  also have "\<dots> \<le> max_finite f64" by (simp add: max_finite_def power_int_def)
  finally have "\<bar>of_int m\<bar> \<le> max_finite f64" by simp
  then show ?thesis using r by (auto simp: fround_def Let_def)
qed

text \<open>A handle survives the trip through a Csound variable.\<close>

lemma fround_f64_nat: "n < 4294967296 \<Longrightarrow> fround f64 (of_nat n) = Fin (of_nat n)"
  using fround_f64_int [of "int n"] by simp

lemma to_u32_nat: "n < 4294967296 \<Longrightarrow> to_u32 (Fin (of_nat n)) = Some (of_nat n)"
proof -
  assume "n < 4294967296"
  then have "(of_nat n :: rat) < of_nat 4294967296" by (simp only: of_nat_less_iff)
  moreover have "(-1 :: rat) < of_nat n" by (rule less_le_trans [of _ 0]) simp_all
  ultimately show ?thesis by (simp add: trunc_rat_def)
qed

lemma u32_bound: "unat (k :: u32) < 4294967296"
proof -
  have "unat k < 2 ^ LENGTH(32)" by (rule unsigned_less)
  then show ?thesis by simp
qed

lemma of_u32_f64: "of_u32 f64 k = Fin (of_nat (unat k))"
  unfolding of_u32_def by (rule fround_f64_nat) (rule u32_bound)

lemma to_u32_of_u32: "to_u32 (of_u32 f64 k) = Some k"
  unfolding of_u32_f64 to_u32_nat [OF u32_bound] by simp

section \<open>Outcomes of \<^verbatim>\<open>create_graph\<close>\<close>

definition cs_ok :: "CSOUND \<Rightarrow> bool" where
  "cs_ok cs \<longleftrightarrow> (\<forall>m. global_manager cs = Some m \<longrightarrow> reg_ok m)"

lemma request_graph_destroy_ok:
  "(\<And>m. mo = Some m \<Longrightarrow> reg_ok m) \<Longrightarrow> request_graph_destroy k cw mo = Some m' \<Longrightarrow> reg_ok m'"
  by (cases mo) (auto dest: request_graph_destroy_spec(1) simp: request_graph_destroy_def split: if_splits)

lemma get_manager_ok:
  assumes "\<And>m. mo = Some m \<Longrightarrow> reg_ok m" "get_manager h mo r = (Some m, r')"
  shows "reg_ok m"
  using assms get_manager_no_leak [of h mo r] reg_ok_empty
  by (auto split: option.splits if_splits)

lemma new_graph_simps [simp]:
  "streams (new_graph dmn th st t) = replicate 64 None" "stream_count (new_graph dmn th st t) = 0"
  "header (data_config (registered now k g)) = \<lparr>magic = WATCH_MAGIC, version = PROT_VERSION,
     msg_type = msg_code CONFIG, sequence = now, payload_size = SIZEOF_CONFIG\<rparr>"
  "pk_config (data_config (registered now k (new_graph dmn th st t)))
     = \<lparr>graph_id = k, domain = dmn, title = t, settings = st, theme = th\<rparr>"
  by (simp_all add: new_graph_def zero_graph_def registered_def zero_config_def zero_packet_def)

text \<open>The state an earlier pass leaves when its graph is dropped.\<close>

definition dropped :: "cfloat \<Rightarrow> CSOUND \<Rightarrow> WATCH_MANAGER option" where
  "dropped cell cs = request_graph_destroy (the (to_u32 cell)) True (global_manager cs)"

text \<open>\<open>graph_created\<close>: the registry has one graph more, under the handle in the cell.\<close>

definition graph_created ::
  "ENV \<Rightarrow> u32 \<Rightarrow> WATCH_MSG_GRAPH_SETTINGS \<Rightarrow> char list option \<Rightarrow> u32 \<Rightarrow> cfloat \<Rightarrow> WATCH_MANAGER \<Rightarrow> CSOUND \<Rightarrow> bool"
where
  "graph_created env dmn st src th h m cs' \<longleftrightarrow> (\<exists>m' k i t. global_manager cs' = Some m'
     \<and> h = of_u32 f64 k \<and> 1 \<le> k \<and> k \<le> MAX_HANDLE_ID \<and> find_graph m k = None
     \<and> i < 32 \<and> graphs m ! i = None
     \<and> string_to_title (replicate MAX_TITLE_SIZE (CHR 0x00)) src = Some t
     \<and> graphs m' = (graphs m)[i := Some (registered (sample_time env) k (new_graph dmn th st t))]
     \<and> heap m' = heap m \<and> next_addr m' = next_addr m)"

lemma create_graph_cases:
  assumes ok: "cs_ok cs" and r: "create_graph_in env cell dmn st src th cs = (s, h, cs')"
  obtains (undefined) "s = Inl UndefinedConversion" "to_u32 cell = None" "h = cell" "cs' = cs"
  | (no_manager) "s = Inl ManagerInitFailed" "h = Fin 0" "global_manager cs' = None"
      "dropped cell cs = None"
  | (refused) m e where "get_manager (env_host env) (dropped cell cs) (resources cs) = (Some m, resources cs')"
      "s = Inl e" "h = Fin 0" "global_manager cs' = Some m" "e = OutOfMemory \<or> e = TitleTooLong"
  | (full) m where "get_manager (env_host env) (dropped cell cs) (resources cs) = (Some m, resources cs')"
      "s = OK" "h = Fin 0" "global_manager cs' = Some m" "graph_count m = 32"
  | (created) m where "get_manager (env_host env) (dropped cell cs) (resources cs) = (Some m, resources cs')"
      "s = OK" "graph_created env dmn st src th h m cs'" "cs_ok cs'"
proof (cases "to_u32 cell")
  case None
  then have "s = Inl UndefinedConversion" "h = cell" "cs' = cs"
    using r by (auto simp: create_graph_in_def create_graph_def drop_previous_def)
  then show thesis using undefined None by blast
next
  case k0: (Some k0)
  obtain mo rs where g: "get_manager (env_host env) (dropped cell cs) (resources cs) = (mo, rs)"
    by fastforce
  have dm: "\<And>m. dropped cell cs = Some m \<Longrightarrow> reg_ok m"
    using ok request_graph_destroy_ok [of "global_manager cs"] by (simp add: dropped_def cs_ok_def)
  define cs2 where "cs2 = cs\<lparr>global_manager := mo, resources := rs\<rparr>"
  define to where "to = string_to_title (replicate MAX_TITLE_SIZE (CHR 0x00)) src"
  have run: "(s, h, cs') = (case mo of
       None \<Rightarrow> (Inl ManagerInitFailed, Fin 0, cs2)
     | Some m \<Rightarrow> if \<not> graph_mem env then (Inl OutOfMemory, Fin 0, cs2) else
     (case to of None \<Rightarrow> (Inl TitleTooLong, Fin 0, cs2) | Some t \<Rightarrow>
      if \<not> streams_mem env then (Inl OutOfMemory, Fin 0, cs2) else
     (case register_graph (sample_time env) (new_graph dmn th st t) m of (result, k, m') \<Rightarrow>
     case result of
       GRAPH_REGISTERED \<Rightarrow> (OK, of_u32 f64 k, cs2\<lparr>global_manager := Some m'\<rparr>)
     | GRAPH_REGISTRY_FULL \<Rightarrow> (OK, Fin 0, cs2\<lparr>global_manager := Some m'\<rparr>)
     | GRAPH_REGISTRY_INCONSISTENT \<Rightarrow> (Inl RegistryInconsistent, Fin 0, cs2\<lparr>global_manager := Some m'\<rparr>)
     | GRAPH_HANDLE_UNAVAILABLE \<Rightarrow> (Inl HandleAllocationFailed, Fin 0, cs2\<lparr>global_manager := Some m'\<rparr>))))"
    using r g k0
    by (auto simp: create_graph_in_def create_graph_def drop_previous_def dropped_def of_u32_f64 Let_def
        cs2_def to_def zero_config_def
        split: option.splits if_splits prod.splits GRAPH_REGISTER_RESULT.splits)
  have cs2: "global_manager cs2 = mo" "resources cs2 = rs" by (simp_all add: cs2_def)
  show thesis
  proof (cases mo)
    case None
    then have "dropped cell cs = None"
      using get_manager_no_leak [of "env_host env" "dropped cell cs" "resources cs"] g
      by (auto split: option.splits if_splits)
    moreover have "s = Inl ManagerInitFailed" "h = Fin 0" "cs' = cs2" using run None by simp_all
    ultimately show thesis using no_manager cs2 None by simp
  next
    case mo: (Some m)
    have m: "reg_ok m" using get_manager_ok [OF dm g [unfolded mo]] .
    note gm = g [unfolded mo]
    note run = run [unfolded mo option.case]
    consider (no) e where "(s, h, cs') = (Inl e, Fin 0, cs2)" "e = OutOfMemory \<or> e = TitleTooLong"
      | (yes) t where "graph_mem env" "to = Some t" "streams_mem env"
      using run by (cases to) (auto split: if_splits)
    then show thesis
    proof cases
      case no
      then show thesis using refused [of m e] gm cs2 mo by simp
    next
      case yes
      obtain result k m' where reg: "register_graph (sample_time env) (new_graph dmn th st t) m = (result, k, m')"
        by (metis prod_cases3)
      note run = run [unfolded yes(2) option.case reg prod.case]
      note sp = register_graph_spec [OF m _ _ reg, simplified]
      from sp(4) show thesis
      proof (elim disjE conjE exE)
        fix i assume a: "result = GRAPH_REGISTERED" "1 \<le> k" "k \<le> MAX_HANDLE_ID"
          "find_graph m k = None" "i < 32" "graphs m ! i = None"
          "graphs m' = (graphs m)[i := Some (registered (sample_time env) k (new_graph dmn th st t))]"
        have e: "s = OK" "h = of_u32 f64 k" "cs' = cs2\<lparr>global_manager := Some m'\<rparr>"
          using run yes a(1) by simp_all
        have "graph_created env dmn st src th h m cs'"
          unfolding graph_created_def using a e sp yes(2) to_def by auto
        moreover have "cs_ok cs'" using e sp(1) by (simp add: cs_ok_def)
        ultimately show thesis using created [of m] gm e cs2 by simp
      next
        assume "result = GRAPH_REGISTRY_FULL" "graph_count m = 32" "m' = m"
        then show thesis using full [of m] gm cs2 run yes by simp
      qed
    qed
  qed
qed

lemma string_to_title_valid:
  assumes "string_to_title (replicate MAX_TITLE_SIZE (CHR 0x00)) src = Some t"
  shows "valid_title t" "length t = MAX_TITLE_SIZE"
proof -
  have "valid_title t \<and> length t = MAX_TITLE_SIZE"
  proof (cases src)
    case None
    then show ?thesis
      using assms set_update_memI [of 0 "replicate 384 (CHR 0x00)" "CHR 0x00"]
      by (auto simp: string_to_title_def valid_title_def)
  next
    case (Some s)
    then have n: "length (c_string s) < 384" and t: "t = store_at 0 (c_string s @ [CHR 0x00]) (replicate 384 (CHR 0x00))"
      using assms by (auto simp: string_to_title_def split: if_splits)
    have "take (0 + length (c_string s @ [CHR 0x00])) t
        = take 0 (replicate 384 (CHR 0x00)) @ c_string s @ [CHR 0x00]"
      unfolding t by (rule take_store_at) (use n in simp)
    then have "CHR 0x00 \<in> set (take (length (c_string s) + 1) t)" by simp
    moreover have "set (take (length (c_string s) + 1) t) \<subseteq> set (take 384 t)"
      by (rule set_take_subset_set_take) (use n in simp)
    ultimately show ?thesis by (auto simp: valid_title_def t)
  qed
  then show "valid_title t" "length t = MAX_TITLE_SIZE" by simp_all
qed

lemma tick_count_le: "tick_count v = Inr n \<Longrightarrow> n \<le> MAX_GRID_TICKS"
proof -
  assume t: "tick_count v = Inr n"
  show ?thesis
  proof (cases v)
    case (Some x)
    then obtain q where q: "x = Fin q" "0 \<le> q" "q \<le> 256"
      using t by (cases x) (auto simp: tick_count_def split: if_splits)
    then have n: "n = of_int \<lfloor>q\<rfloor>" using t Some by (simp add: tick_count_def trunc_rat_def)
    have "0 \<le> \<lfloor>q\<rfloor>" "\<lfloor>q\<rfloor> \<le> 256" using q(2,3) by (simp_all add: floor_le_iff)
    then have "nat \<lfloor>q\<rfloor> \<le> 256" by linarith
    moreover have "n = of_nat (nat \<lfloor>q\<rfloor>)" using n \<open>0 \<le> \<lfloor>q\<rfloor>\<close> by simp
    ultimately show ?thesis using u32_of_nat_le [of "nat \<lfloor>q\<rfloor>" 256] by simp
  qed (use t in \<open>simp add: tick_count_def\<close>)
qed

text \<open>The graph just created is the one the cell's handle finds.\<close>

lemma graph_created_find:
  assumes m: "reg_ok m" and c: "graph_created env dmn st src th h m cs'" "cs_ok cs'"
  shows "\<exists>m' k i t. global_manager cs' = Some m' \<and> to_u32 h = Some k \<and> k \<noteq> 0
    \<and> find_graph m' k = Some i \<and> valid_title t
    \<and> graph_at m' i = registered (sample_time env) k (new_graph dmn th st t)"
proof -
  from c(1) obtain m' k i t where g: "global_manager cs' = Some m'" "h = of_u32 f64 k" "1 \<le> k"
    "find_graph m k = None" "i < 32" "graphs m ! i = None"
    "string_to_title (replicate MAX_TITLE_SIZE (CHR 0x00)) src = Some t"
    "graphs m' = (graphs m)[i := Some (registered (sample_time env) k (new_graph dmn th st t))]"
    by (auto simp: graph_created_def)
  let ?g = "registered (sample_time env) k (new_graph dmn th st t)"
  have m': "reg_ok m'" using c(2) g(1) by (simp add: cs_ok_def)
  have "find_slot (graphs m) (handle_of ?g) = None" using g(4) find_graph_full [OF m] by simp
  then have "find_graph m' k = Some i"
    using registry.lookup_insert [OF reg_ok_keys [OF m], of ?g i] g(5,6,8) reg_okD(2) [OF m]
      find_graph_full [OF m'] by simp
  moreover have "graph_at m' i = ?g" using g(5,8) reg_okD(2) [OF m] by (simp add: graph_at_def)
  moreover have "k \<noteq> 0" using g(3) by auto
  ultimately show ?thesis using g(1,2) to_u32_of_u32 string_to_title_valid(1) [OF g(7)] by blast
qed

text \<open>An opcode that reports success either has a handle that is zero, the registry being full,
  or has created its graph.\<close>

lemma create_graph_ok:
  assumes ok: "cs_ok cs" and r: "create_graph_in env cell dmn st src th cs = (OK, h, cs')"
    and h: "\<not> feq h (Fin 0)"
  shows "\<exists>m' k i t. global_manager cs' = Some m' \<and> to_u32 h = Some k \<and> k \<noteq> 0
    \<and> find_graph m' k = Some i \<and> valid_title t
    \<and> graph_at m' i = registered (sample_time env) k (new_graph dmn th st t)"
proof (rule create_graph_cases [OF ok r])
  fix m
  assume c: "get_manager (env_host env) (dropped cell cs) (resources cs) = (Some m, resources cs')"
    "graph_created env dmn st src th h m cs'" "cs_ok cs'"
  have "reg_ok m"
    using get_manager_ok [OF _ c(1)] request_graph_destroy_ok [of "global_manager cs"] ok
    by (simp add: dropped_def cs_ok_def)
  then show ?thesis using graph_created_find c(2,3) by blast
qed (use h in simp_all)

lemma validate_registered:
  assumes "k \<noteq> 0" "valid_title t" "dmn \<le> 6" "th \<le> 1"
  shows "is_time_domain dmn \<Longrightarrow> validate_config_packet (data_config (registered now k (new_graph dmn th st t))) 468
      \<longleftrightarrow> (let c = set_time st in isfinite (win_size c) \<and> \<not> win_size c \<le> Fin 0 \<and> time_nxticks c \<le> 256
            \<and> time_nyticks c \<le> 256 \<and> valid_range (time_yrange c) False)"
    "is_spectral_domain dmn \<Longrightarrow> validate_config_packet (data_config (registered now k (new_graph dmn th st t))) 468
      \<longleftrightarrow> (let c = set_spectral st in spec_nxticks c \<le> 256 \<and> spec_nyticks c \<le> 256 \<and> spec_scale c \<le> 2
            \<and> valid_range (frequency_range c) True \<and> valid_range (value_range c) (spec_scale c \<noteq> 2)
            \<and> (dmn = WATCH_DOMAIN_SPECTROGRAM \<longrightarrow> isfinite (history_seconds c) \<and> \<not> history_seconds c \<le> Fin 0))"
    "is_ftable_domain dmn \<Longrightarrow> validate_config_packet (data_config (registered now k (new_graph dmn th st t))) 468
      \<longleftrightarrow> (let c = set_ftable st in ft_win_size c \<noteq> 0 \<and> ft_win_size c \<le> 1073741824
            \<and> valid_range (ft_yrange c) False)"
    "is_point_domain dmn \<Longrightarrow> validate_config_packet (data_config (registered now k (new_graph dmn th st t))) 468
      \<longleftrightarrow> (let c = set_point st in valid_range (point_xrange c) False \<and> valid_range (point_yrange c) False)"
    "is_meter_domain dmn \<Longrightarrow> validate_config_packet (data_config (registered now k (new_graph dmn th st t))) 468
      \<longleftrightarrow> (let c = set_meter st in nchnls c \<noteq> 0 \<and> nchnls c \<le> 32 \<and> meter_nyticks c \<le> 256
            \<and> (meter_scale c = 0 \<or> meter_scale c = 2)
            \<and> valid_range (meter_yrange c) (meter_scale c \<noteq> 2))"
  using assms
  by (auto simp: validate_config_packet_def validate_header_def domain_defs Let_def not_less)

section \<open>Streams of an opcode\<close>

lemma add_stream_ok:
  assumes ok: "cs_ok cs" and m: "global_manager cs = Some m"
    and r: "add_stream env h d1 d2 rate fps None cs = (OK, ref, cs')"
  obtains i slot where "ref = Some (next_addr m)" "stream_admitted m h d1 d2 i slot"
    "global_manager cs' = Some (stream_entered m i slot rate fps)"
proof -
  have reg: "reg_ok m" using ok m by (simp add: cs_ok_def)
  have none: "after_release None m = m" by (simp add: after_release_def)
  show thesis
    by (rule create_stream_cases [OF reg, of None "stream_mem env" h d1 d2 rate fps])
      (use that r m none in \<open>auto simp: add_stream_def live_ref_def\<close>)
qed

lemma stream_entered_config:
  assumes "reg_ok m" "stream_admitted m h d1 d2 i slot"
  shows "data_config (graph_at (stream_entered m i slot rate fps) j) = data_config (graph_at m j)"
    "find_graph (stream_entered m i slot rate fps) = find_graph m"
proof -
  note a = stream_admittedD [OF assms]
  have len: "length (graphs m) = 32" using reg_okD(2) [OF assms(1)] .
  have g: "graphs (stream_entered m i slot rate fps) = (graphs m)[i := Some ((graph_at m i)
      \<lparr>streams := (streams (graph_at m i))[slot := Some (next_addr m)],
       stream_count := stream_count (graph_at m i) + 1\<rparr>)]"
    by (simp add: stream_entered_def update_graph_def a(2))
  show "data_config (graph_at (stream_entered m i slot rate fps) j) = data_config (graph_at m j)"
    unfolding graph_at_def [of "stream_entered m i slot rate fps"] g
    using a(1) len by (cases "i = j") (simp_all add: graph_at_def)
  have "find_slot (graphs (stream_entered m i slot rate fps)) k = find_slot (graphs m) k" for k
    unfolding g using a(1,2) len by (intro find_slot_replace [where ?g0.0 = "graph_at m i"])
      (simp_all add: handle_of_def)
  then show "find_graph (stream_entered m i slot rate fps) = find_graph m"
    using find_graph_full [OF assms(1)] find_graph_full [OF stream_entered_ok [OF assms]]
    by (simp add: fun_eq_iff)
qed

text \<open>What attaching a stream does to one that is already there: only the opcode's own one is
  released.\<close>

lemma add_stream_heap:
  assumes ok: "cs_ok cs" and m: "global_manager cs = Some m" and a: "heap m a = Some st"
    and live: "live_ref m ref" and r: "add_stream env h d1 d2 rate fps ref cs = (s, ref', cs')"
  shows "\<exists>m'. global_manager cs' = Some m' \<and> ref' \<noteq> Some a
    \<and> heap m' a = Some (if ref = Some a then released st else st)"
proof -
  have reg: "reg_ok m" using ok m by (simp add: cs_ok_def)
  have lt: "a \<noteq> next_addr m" using reg_okD(8) [OF reg a] by simp
  have n: "next_addr (after_release ref m) = next_addr m" using after_release_ok(3) [OF reg live] .
  have h: "heap (after_release ref m) a = Some (if ref = Some a then released st else st)"
    using a by (cases ref) (auto simp: after_release_def)
  show ?thesis
    by (rule create_stream_cases [OF reg live, of "stream_mem env" h d1 d2 rate fps])
      (use r m h lt n in \<open>auto simp: add_stream_def stream_entered_heap\<close>)
qed

text \<open>Tearing down keeps the registry consistent.\<close>

definition live_in :: "CSOUND \<Rightarrow> nat option \<Rightarrow> bool" where
  "live_in cs ref \<longleftrightarrow> (\<forall>m. global_manager cs = Some m \<longrightarrow> live_ref m ref)"

lemma release_stream_ok:
  assumes "cs_ok cs" "live_in cs ref"
  shows "\<exists>mo. release_stream ref (global_manager cs) = Some (None, mo) \<and> (\<forall>m. mo = Some m \<longrightarrow> reg_ok m)"
proof (cases "global_manager cs")
  case None
  then show ?thesis by (cases ref) (simp_all add: release_stream_def)
next
  case (Some m)
  then have "reg_ok m" "live_ref m ref" using assms by (simp_all add: cs_ok_def live_in_def)
  then show ?thesis using Some release_stream_live after_release_ok(1) by auto
qed

lemma meter_teardown_ok:
  assumes "cs_ok cs" "live_in cs (mt_ref p)" "meter_teardown p cw cs = (OK, p', cs')"
  shows "cs_ok cs'" "mt_ref p' = None" "mt_handle p' = Fin 0"
    "p' = p\<lparr>mt_ref := mt_ref p', mt_handle := mt_handle p'\<rparr>"
proof -
  obtain mo where r: "release_stream (mt_ref p) (global_manager cs) = Some (None, mo)"
    "\<And>m. mo = Some m \<Longrightarrow> reg_ok m" using release_stream_ok [OF assms(1,2)] by blast
  obtain k where k: "to_u32 (mt_handle p) = Some k"
    using assms(3) r(1) by (cases "to_u32 (mt_handle p)") (auto simp: meter_teardown_def)
  have "p' = p\<lparr>mt_ref := None, mt_handle := Fin 0\<rparr>"
    "cs' = cs\<lparr>global_manager := request_graph_destroy k cw mo\<rparr>"
    using assms(3) r(1) k by (auto simp: meter_teardown_def of_u32_f64)
  then show "cs_ok cs'" "mt_ref p' = None" "mt_handle p' = Fin 0"
    "p' = p\<lparr>mt_ref := mt_ref p', mt_handle := mt_handle p'\<rparr>"
    using request_graph_destroy_ok [OF r(2)] by (auto simp: cs_ok_def)
qed

lemma ftable_teardown_ok:
  assumes "cs_ok cs" "live_in cs (tb_stream p)" "ftable_teardown p cw cs = (OK, p', cs')"
  shows "cs_ok cs'" "tb_graph_id p' = 0" "tb_graph_id p \<noteq> 0 \<Longrightarrow> tb_stream p' = None"
    "p' = p\<lparr>tb_stream := tb_stream p', tb_graph_id := 0\<rparr>"
    "tb_graph_id p = 0 \<Longrightarrow> p' = p"
proof -
  obtain mo where r: "release_stream (tb_stream p) (global_manager cs) = Some (None, mo)"
    "\<And>m. mo = Some m \<Longrightarrow> reg_ok m" using release_stream_ok [OF assms(1,2)] by blast
  show "cs_ok cs'" "tb_graph_id p' = 0" "tb_graph_id p \<noteq> 0 \<Longrightarrow> tb_stream p' = None"
    "p' = p\<lparr>tb_stream := tb_stream p', tb_graph_id := 0\<rparr>" "tb_graph_id p = 0 \<Longrightarrow> p' = p"
    using assms(1,3) r request_graph_destroy_ok [OF r(2)]
    by (auto simp: ftable_teardown_def cs_ok_def split: if_splits)
qed

section \<open>Bounds of the options\<close>

lemma flt_max_bounds: "fneg FLT_MAX \<le> fneg FLT_MAX" "FLT_MAX \<le> FLT_MAX" "fneg FLT_MAX \<le> Fin 0"
  using max_finite_f32_pos by (simp_all add: FLT_MAX_def)

text \<open>A finite result of single precision is at most the largest \<^verbatim>\<open>float\<close>.\<close>

lemma fround_f32_le_max: "isfinite (fround f32 q) \<Longrightarrow> fround f32 q \<le> FLT_MAX"
  by (auto simp: fround_def FLT_MAX_def Let_def split: if_splits)

lemma nyquist_le: "isfinite (fmul f32 x (Fin q)) \<Longrightarrow> fmul f32 x (Fin q) \<le> FLT_MAX"
  by (cases x) (auto simp: fround_f32_le_max inf_signed_def split: if_splits)

lemma spectral_scale_le: "spectral_scale v = Inr n \<Longrightarrow> n \<le> 2"
proof -
  assume s: "spectral_scale v = Inr n"
  show ?thesis
  proof (cases v)
    case (Some x)
    then obtain q where q: "x = Fin q" "0 \<le> q" "q \<le> 2"
      using s by (cases x) (auto simp: spectral_scale_def split: if_splits)
    then have n: "n = of_int \<lfloor>q\<rfloor>"
      using s Some by (auto simp: spectral_scale_def integer_valued_def trunc_rat_def split: if_splits)
    have "0 \<le> \<lfloor>q\<rfloor>" "\<lfloor>q\<rfloor> \<le> 2" using q(2,3) by (simp_all add: floor_le_iff)
    then have "nat \<lfloor>q\<rfloor> \<le> 2" by linarith
    moreover have "n = of_nat (nat \<lfloor>q\<rfloor>)" using n \<open>0 \<le> \<lfloor>q\<rfloor>\<close> by simp
    ultimately show ?thesis using u32_of_nat_le [of "nat \<lfloor>q\<rfloor>" 2] by simp
  qed (use s in \<open>simp add: spectral_scale_def\<close>)
qed

lemma to_float_history:
  "isfinite x \<Longrightarrow> Fin 0 < x \<Longrightarrow> x \<le> FLT_MAX \<Longrightarrow>
     isfinite (to_float x) \<and> (to_float x \<le> Fin 0 \<longleftrightarrow> \<not> Fin 0 < to_float x)"
  using fround_f32_finite by (cases x) (auto simp: FLT_MAX_def)

lemma meter_channels_bounds: "meter_channels v = Inr n \<Longrightarrow> n \<noteq> 0 \<and> n \<le> 32"
proof -
  assume "meter_channels v = Inr n"
  then obtain z :: int where z: "n = of_int z" "1 \<le> z" "z \<le> 32"
    by (auto simp: meter_channels_def split: option.splits if_splits)
  then have "n = of_nat (nat z)" "nat z \<le> 32" "nat z \<noteq> 0" by simp_all
  then show ?thesis using u32_of_nat_le [of "nat z" 32] u32_of_nat_eq_0 [of "nat z"] by simp
qed

text \<open>A range passed for a scale without negative values.\<close>

lemma numeric_range_nonneg:
  assumes "numeric_range mn mx lower upper = Inr r" "fneg FLT_MAX \<le> lower" "upper \<le> FLT_MAX"
  shows "valid_range r nn \<longleftrightarrow> \<not> nn \<or> (\<forall>x. mn = Some x \<or> mx = Some x \<longrightarrow> \<not> to_float x < Fin 0)"
  using assms(1) numeric_range_valid [OF assms, of False]
  by (cases mn; cases mx; cases nn)
    (auto simp: numeric_range_def valid_range_def Let_def split: if_splits)

lemma create_graph_keeps_ok:
  assumes "cs_ok cs" "create_graph_in env cell dmn st src th cs = (s, h, cs')"
  shows "cs_ok cs'"
proof -
  have "reg_ok m" if "get_manager (env_host env) (dropped cell cs) (resources cs) = (Some m, r)" for m r
    using get_manager_ok [OF _ that] request_graph_destroy_ok [of "global_manager cs"] assms(1)
    by (simp add: dropped_def cs_ok_def)
  note k = this
  show ?thesis
    by (rule create_graph_cases [OF assms]) (use assms(1) k in \<open>auto simp: cs_ok_def\<close>)
qed

lemma theme_of_le: "theme_of x = Some w \<Longrightarrow> w \<le> 1"
  by (cases x) (auto simp: theme_of_def trunc_rat_def split: if_splits)

lemma ftable_checksD:
  assumes "ftable_checks env p = Inr (config, snap, th)" "tb_table p = Some (flen, table)"
  shows "0 < flen" "flen \<le> 1073741824" "snap = map to_float (take (nat flen) table)" "th \<le> 1"
    "ft_win_size config \<noteq> 0" "ft_win_size config \<le> 1073741824"
    "valid_range (ft_yrange config) False"
proof -
  obtain r where c: "0 < flen" "flen \<le> 1073741824"
    "numeric_range (tb_ymin p) (tb_ymax p) (fneg FLT_MAX) FLT_MAX = Inr r"
    "config = \<lparr>ft_win_size = of_int flen, ft_yrange = r\<rparr>"
    and s: "snap = map to_float (take (nat flen) table)"
      "th = (case tb_theme p of None \<Rightarrow> 0 | Some x \<Rightarrow> the (theme_of x))"
      "\<not> (case tb_theme p of None \<Rightarrow> False | Some x \<Rightarrow> theme_of x = None)"
    using assms by (auto simp: ftable_checks_def split: sum.splits if_splits)
  have n: "of_int flen = (of_nat (nat flen) :: u32)" "nat flen \<le> 1073741824" "nat flen \<noteq> 0"
    using c(1,2) by simp_all
  show "0 < flen" "flen \<le> 1073741824" "snap = map to_float (take (nat flen) table)"
    using c s by simp_all
  show "th \<le> 1" using s(2,3) theme_of_le by (auto split: option.splits)
  show "ft_win_size config \<noteq> 0" "ft_win_size config \<le> 1073741824"
    using n u32_of_nat_le [of "nat flen" 1073741824] u32_of_nat_eq_0 [of "nat flen"]
    by (simp_all add: c(4))
  show "valid_range (ft_yrange config) False"
    using numeric_range_valid [OF c(3)] flt_max_bounds by (simp add: c(4))
qed

section \<open>Properties\<close>

text \<open>C35: A graph that \<^verbatim>\<open>watchscope\<close> or \<^verbatim>\<open>watchcontrol\<close> creates has a configuration
  that the viewer accepts exactly when the window size is still positive and finite after its
  conversion to \<^verbatim>\<open>float\<close>: the other options are always passed on in a form it accepts.\<close>

theorem time_config_accepted:
  assumes "cs_ok cs" "create = watch_create_scope \<or> create = watch_create_control"
    and "create env p cs = (OK, p', cs')" "\<not> feq (ct_handle p') (Fin 0)"
  shows "\<exists>m' k i. global_manager cs' = Some m' \<and> to_u32 (ct_handle p') = Some k \<and> find_graph m' k = Some i
    \<and> (validate_config_packet (data_config (graph_at m' i)) 468
        \<longleftrightarrow> isfinite (to_float (the (ct_win_size p))) \<and> Fin 0 < to_float (the (ct_win_size p)))"
proof -
  obtain dmn where d: "is_time_domain dmn" "create_time_graph dmn env p cs = (OK, p', cs')"
    using assms(2,3) by (auto simp: watch_create_scope_def watch_create_control_def is_time_domain_def)
  then obtain config where c: "create_time_helper p = Inr config"
    by (auto simp: create_time_graph_def split: if_splits sum.splits)
  obtain nx ny r where n: "tick_count (ct_nxticks p) = Inr nx" "tick_count (ct_nyticks p) = Inr ny"
    "numeric_range (ct_ymin p) (ct_ymax p) (fneg FLT_MAX) FLT_MAX = Inr r"
    and config: "config = \<lparr>win_size = to_float (the (ct_win_size p)), time_nxticks = nx,
          time_nyticks = ny, time_yrange = r\<rparr>"
    using c by (auto simp: create_time_helper_def split: sum.splits)
  have g: "create_graph_in env (ct_handle p) dmn (zero_settings\<lparr>set_time := config\<rparr>) (ct_title p)
      WATCH_THEME_LIGHT cs = (OK, ct_handle p', cs')"
    using d(2) c by (auto simp: create_time_graph_def split: if_splits prod.splits)
  from create_graph_ok [OF assms(1) g assms(4)] obtain m' k i t where
    x: "global_manager cs' = Some m'" "to_u32 (ct_handle p') = Some k" "k \<noteq> 0" "find_graph m' k = Some i"
      "valid_title t" "graph_at m' i = registered (sample_time env) k
         (new_graph dmn WATCH_THEME_LIGHT (zero_settings\<lparr>set_time := config\<rparr>) t)" by blast
  have le: "fneg FLT_MAX \<le> fneg FLT_MAX" "FLT_MAX \<le> FLT_MAX"
    by (simp_all add: less_eq_cfloat_def FLT_MAX_def)
  have "dmn \<le> 6" using d(1) by (auto simp: is_time_domain_def)
  note v = validate_registered(1) [OF x(3,5) this, of 0, OF _ d(1)]
  show ?thesis
    using x v tick_count_le [OF n(1)] tick_count_le [OF n(2)] numeric_range_valid [OF n(3) le, of False]
    by (auto simp: config Let_def isfinite_cases)
qed

text \<open>A graph that \<^verbatim>\<open>watchspectrum\<close> creates always has a configuration the viewer
  accepts, and one of \<^verbatim>\<open>watchspectrogram\<close> exactly when its history is still positive as a
  \<^verbatim>\<open>float\<close>; the frequency range is checked against the Nyquist frequency of the instrument.\<close>

theorem spectral_config_accepted:
  assumes "cs_ok cs" "isfinite (fmul f32 (to_float (esr env)) (Fin (1 / 2)))"
    and "hist = Fin 0 \<and> dmn = WATCH_DOMAIN_SPECTRUM
      \<or> (\<exists>x. hist = to_float x \<and> isfinite x \<and> Fin 0 < x \<and> x \<le> FLT_MAX) \<and> dmn = WATCH_DOMAIN_SPECTROGRAM"
    and "create_spectral_graph env dmn hist p cs = (OK, p', cs')" "\<not> feq (cf_handle p') (Fin 0)"
  shows "\<exists>m' k i. global_manager cs' = Some m' \<and> to_u32 (cf_handle p') = Some k \<and> find_graph m' k = Some i
    \<and> (validate_config_packet (data_config (graph_at m' i)) 468
        \<longleftrightarrow> dmn = WATCH_DOMAIN_SPECTRUM \<or> Fin 0 < hist)"
proof -
  obtain config where c: "spectral_config hist (to_float (esr env)) p = Inr config"
    using assms(4) by (auto simp: create_spectral_graph_def split: sum.splits)
  let ?lower = "\<lambda>sc. if sc = WATCH_SCALE_DECIBEL then fneg FLT_MAX else Fin 0"
  obtain sc nx ny fr vr where n: "spectral_scale (cf_scale p) = Inr sc"
    "tick_count (cf_nxticks p) = Inr nx" "tick_count (cf_nyticks p) = Inr ny"
    "numeric_range (cf_min_frequency p) (cf_max_frequency p) (Fin 0)
       (fmul f32 (to_float (esr env)) (Fin (1 / 2))) = Inr fr"
    "numeric_range (cf_min_value p) (cf_max_value p) (?lower sc) FLT_MAX = Inr vr"
    and config: "config = \<lparr>history_seconds = hist, spec_nxticks = nx, spec_nyticks = ny,
          spec_scale = sc, frequency_range = fr, value_range = vr\<rparr>"
    using c by (auto simp: spectral_config_def Let_def split: sum.splits)
  have g: "create_graph_in env (cf_handle p) dmn (zero_settings\<lparr>set_spectral := config\<rparr>) (cf_title p)
      WATCH_THEME_LIGHT cs = (OK, cf_handle p', cs')"
    using assms(4) c by (auto simp: create_spectral_graph_def split: prod.splits)
  from create_graph_ok [OF assms(1) g assms(5)] obtain m' k i t where
    x: "global_manager cs' = Some m'" "to_u32 (cf_handle p') = Some k" "k \<noteq> 0" "find_graph m' k = Some i"
      "valid_title t" "graph_at m' i = registered (sample_time env) k
         (new_graph dmn WATCH_THEME_LIGHT (zero_settings\<lparr>set_spectral := config\<rparr>) t)" by blast
  have d: "is_spectral_domain dmn" "dmn \<le> 6" using assms(3) by (auto simp: is_spectral_domain_def)
  have h: "dmn = WATCH_DOMAIN_SPECTROGRAM \<Longrightarrow> isfinite hist \<and> (hist \<le> Fin 0 \<longleftrightarrow> \<not> Fin 0 < hist)"
    using assms(3) to_float_history by auto
  have sc: "sc \<le> 2" using n(1) spectral_scale_le by blast
  have fr: "valid_range fr True" using numeric_range_valid [OF n(4), of True] nyquist_le [OF assms(2)] flt_max_bounds by simp
  have vr: "valid_range vr (sc \<noteq> 2)" using numeric_range_valid [OF n(5), of "sc \<noteq> 2"] flt_max_bounds by simp
  note v = validate_registered(2) [OF x(3,5) d(2), of 0, OF _ d(1)]
  show ?thesis
    using x v tick_count_le [OF n(2)] tick_count_le [OF n(3)] sc fr vr h assms(3)
    by (auto simp: config Let_def)
qed

text \<open>C34: A meter graph has a configuration the viewer accepts exactly when its scale is
  decibel or the limits it gives are not negative: the opcode itself lets negative limits through
  for a linear scale, and such a window never opens.\<close>

theorem meter_config_accepted:
  assumes "cs_ok cs" "live_in cs (mt_ref p)"
    and "watch_meter_init env p cs = (OK, p', cs')" "\<not> feq (mt_handle p') (Fin 0)"
  shows "\<exists>m' k i. global_manager cs' = Some m' \<and> to_u32 (mt_handle p') = Some k \<and> find_graph m' k = Some i
    \<and> (validate_config_packet (data_config (graph_at m' i)) 468
        \<longleftrightarrow> mt_scale p = Fin 2
          \<or> (\<forall>x. mt_min p = Some x \<or> mt_max p = Some x \<longrightarrow> \<not> to_float x < Fin 0))"
proof -
  obtain torn p0 cs0 where t0: "meter_teardown p True cs = (torn, p0, cs0)" by (metis prod_cases3)
  have torn: "torn = OK" using assms(3) t0 by (auto simp: watch_meter_init_def split: if_splits)
  note td = meter_teardown_ok [OF assms(1,2) t0 [unfolded torn]]
  obtain config where c: "meter_config p0 = Inr config"
    using assms(3) t0 torn by (auto simp: watch_meter_init_def split: sum.splits)
  obtain result h cs1 where g: "create_graph_in env (mt_handle p0) WATCH_DOMAIN_METER
      (zero_settings\<lparr>set_meter := config\<rparr>) (mt_title p0) WATCH_THEME_LIGHT cs0 = (result, h, cs1)"
    by (metis prod_cases3)
  have run: "(OK, p', cs') = (if result \<noteq> OK then (result, p0\<lparr>mt_handle := h\<rparr>, cs1)
      else if to_u32 h = Some 0 then (OK, p0\<lparr>mt_handle := h\<rparr>, cs1)
      else meter_attach env config (p0\<lparr>mt_handle := h\<rparr>) cs1)"
    using assms(3) t0 torn c g by (simp add: watch_meter_init_def Let_def)
  have res: "result = OK" using run by (simp split: if_splits)
  have h: "\<not> feq h (Fin 0)"
  proof
    assume z: "feq h (Fin 0)"
    then have "to_u32 h = Some 0" by (simp add: feq_def trunc_rat_def)
    then have "p' = p0\<lparr>mt_handle := h\<rparr>" using run res by simp
    then show False using assms(4) z by simp
  qed
  from create_graph_ok [OF td(1) g [unfolded res] h] obtain m1 k i t where
    x: "global_manager cs1 = Some m1" "to_u32 h = Some k" "k \<noteq> 0" "find_graph m1 k = Some i"
      "valid_title t" "graph_at m1 i = registered (sample_time env) k
         (new_graph WATCH_DOMAIN_METER WATCH_THEME_LIGHT (zero_settings\<lparr>set_meter := config\<rparr>) t)" by blast
  have cs1: "cs_ok cs1" using create_graph_keeps_ok [OF td(1) g] .
  obtain result2 ref cs2 where a: "add_stream env h WATCH_DOMAIN_METER WATCH_DOMAIN_METER
      (to_float (ekr env)) (unat (nchnls config)) None cs1 = (result2, ref, cs2)" by (metis prod_cases3)
  have e: "result2 = OK" "mt_handle p' = h" "cs' = cs2"
    using run res x(2,3) a td(2)
    by (simp_all add: meter_attach_def Let_def split: if_splits prod.splits option.splits)
  obtain j slot where s: "stream_admitted m1 h WATCH_DOMAIN_METER WATCH_DOMAIN_METER j slot"
    "global_manager cs2 = Some (stream_entered m1 j slot (to_float (ekr env)) (unat (nchnls config)))"
    by (rule add_stream_ok [OF cs1 x(1) a [unfolded e(1)]])
  note cfg = stream_entered_config [OF _ s(1), of "to_float (ekr env)" "unat (nchnls config)"]
  have m1: "reg_ok m1" using cs1 x(1) by (simp add: cs_ok_def)
  obtain n r sc where n: "meter_channels (mt_channels p0) = Inr n"
    "numeric_range (mt_min p0) (mt_max p0) (fneg FLT_MAX) FLT_MAX = Inr r"
    "to_u32 (mt_scale p0) = Some sc" "feq (mt_scale p0) (of_u32 f64 sc)" "sc = 0 \<or> sc = 2"
    and config: "config = \<lparr>nchnls = n, meter_nyticks = 0, meter_scale = sc, meter_yrange = r\<rparr>"
    using c by (auto simp: meter_config_def split: sum.splits option.splits if_splits)
  have same: "mt_min p0 = mt_min p" "mt_max p0 = mt_max p" "mt_scale p0 = mt_scale p"
    by (subst td(4), simp)+
  have sc2: "sc = 2 \<longleftrightarrow> mt_scale p = Fin 2" using n(4,5) same by (auto simp: feq_def of_u32_f64)
  note v = validate_registered(5) [OF x(3,5), of WATCH_DOMAIN_METER 0 "sample_time env"
      "zero_settings\<lparr>set_meter := config\<rparr>", OF _ _ ]
  have "validate_config_packet (data_config (graph_at m1 i)) 468 \<longleftrightarrow> valid_range r (sc \<noteq> 2)"
    using v meter_channels_bounds [OF n(1)] n(5) by (auto simp: x(6) config Let_def is_meter_domain_def)
  also have "\<dots> \<longleftrightarrow> sc = 2 \<or> (\<forall>x. mt_min p = Some x \<or> mt_max p = Some x \<longrightarrow> \<not> to_float x < Fin 0)"
    using numeric_range_nonneg [OF n(2)] flt_max_bounds same by auto
  finally show ?thesis using e s(2) x(2,4) cfg m1 sc2 by auto
qed

text \<open>\<^verbatim>\<open>watchtable\<close>, when it reports success and has a graph, has put a configuration
  into the registry that the viewer accepts, and a live stream in the graph whose transfer holds
  a copy of the whole table, converted to \<^verbatim>\<open>float\<close>, with nothing sent yet.\<close>

theorem ftable_starts_transfer:
  assumes "cs_ok cs" "live_in cs (tb_stream p)" "tb_graph_id p = 0 \<longrightarrow> tb_stream p = None"
    and "tb_table p = Some (flen, table)" "length table = nat flen" "0 \<le> sample_time env"
    and "watch_ftable env p cs = (OK, p', cs')" "tb_graph_id p' \<noteq> 0"
  shows "\<exists>m' i a st. global_manager cs' = Some m' \<and> find_graph m' (tb_graph_id p') = Some i
    \<and> validate_config_packet (data_config (graph_at m' i)) 468
    \<and> tb_stream p' = Some a \<and> heap m' a = Some st \<and> \<not> release_requested st
    \<and> st_graph_id st = tb_graph_id p'
    \<and> transfer_wf st (map to_float table) \<and> ftable_next_sample st = 0"
proof -
  obtain torn p0 cs0 where t0: "ftable_teardown p True cs = (torn, p0, cs0)" by (metis prod_cases3)
  have torn: "torn = OK" using assms(7) t0 by (auto simp: watch_ftable_def split: if_splits)
  note td = ftable_teardown_ok [OF assms(1,2) t0 [unfolded torn]]
  have none: "tb_stream p0 = None" using td(3,5) assms(3) by (cases "tb_graph_id p = 0") auto
  have same: "tb_table p0 = tb_table p" "tb_ymin p0 = tb_ymin p" "tb_theme p0 = tb_theme p"
    by (subst td(4), simp)+
  obtain config snap th where c: "ftable_checks env p0 = Inr (config, snap, th)"
    using assms(7) t0 torn by (auto simp: watch_ftable_def split: sum.splits)
  obtain result h cs1 where g: "create_graph_in env (Fin 0) WATCH_DOMAIN_FTABLE
      (zero_settings\<lparr>set_ftable := config\<rparr>) (tb_title p0) th cs0 = (result, h, cs1)"
    by (metis prod_cases3)
  have run: "(OK, p', cs') = (if result \<noteq> OK \<or> feq h (Fin 0) then (result, p0, cs1) else
     (case to_u32 h of
        None \<Rightarrow> (Inl UndefinedConversion, p0, cs1)
      | Some k \<Rightarrow> ftable_attach env h snap (p0\<lparr>tb_graph_id := k\<rparr>) cs1))"
    using assms(7) t0 torn c g by (simp add: watch_ftable_def of_u32_f64)
  have res: "result = OK" "\<not> feq h (Fin 0)" using run assms(8) td(2) by (auto split: if_splits)
  from create_graph_ok [OF td(1) g [unfolded res(1)] res(2)] obtain m1 k i t where
    x: "global_manager cs1 = Some m1" "to_u32 h = Some k" "k \<noteq> 0" "find_graph m1 k = Some i"
      "valid_title t" "graph_at m1 i = registered (sample_time env) k
         (new_graph WATCH_DOMAIN_FTABLE th (zero_settings\<lparr>set_ftable := config\<rparr>) t)" by blast
  have cs1: "cs_ok cs1" using create_graph_keeps_ok [OF td(1) g] .
  have m1: "reg_ok m1" using cs1 x(1) by (simp add: cs_ok_def)
  have att: "ftable_attach env h snap (p0\<lparr>tb_graph_id := k\<rparr>) cs1 = (OK, p', cs')"
    using run res x(2) by simp
  obtain result2 ref cs2 where a: "add_stream env h WATCH_DOMAIN_FTABLE WATCH_DOMAIN_FTABLE
      (to_float (esr env)) 1 None cs1 = (result2, ref, cs2)" by (metis prod_cases3)
  have r2: "result2 = OK"
    using att a none by (auto simp: ftable_attach_def Let_def split: if_splits prod.splits)
  obtain j slot where s: "stream_admitted m1 h WATCH_DOMAIN_FTABLE WATCH_DOMAIN_FTABLE j slot"
    "global_manager cs2 = Some (stream_entered m1 j slot (to_float (esr env)) 1)" "ref = Some (next_addr m1)"
    by (rule add_stream_ok [OF cs1 x(1) a [unfolded r2]])
  let ?m2 = "stream_entered m1 j slot (to_float (esr env)) 1"
  let ?st = "new_stream (graph_at m1 j) slot (to_float (esr env)) 1"
  note cfg = stream_entered_config [OF m1 s(1), of "to_float (esr env)" 1]
  have "j = i" using s(1) x(2,4) by (simp add: stream_admitted_def)
  have hp: "heap ?m2 (next_addr m1) = Some ?st" by (simp add: stream_entered_heap)
  define m3 where "m3 = ?m2\<lparr>heap := (heap ?m2)(next_addr m1 \<mapsto> start_transfer snap (sample_time env) ?st)\<rparr>"
  have fin: "p' = p0\<lparr>tb_graph_id := k, tb_stream := Some (next_addr m1)\<rparr>" "global_manager cs' = Some m3"
    using att a none r2 s(2,3) hp by (auto simp: ftable_attach_def m3_def Let_def)
  have gm3: "find_graph m3 = find_graph ?m2" "graph_at m3 = graph_at ?m2"
    by (simp_all add: m3_def find_graph_def graph_at_def fun_eq_iff)
  note ck = ftable_checksD [OF c, unfolded same, OF assms(4)]
  have v: "validate_config_packet (data_config (graph_at m1 i)) 468"
    using validate_registered(3) [OF x(3,5), of WATCH_DOMAIN_FTABLE th] ck
    by (simp add: x(6) is_ftable_domain_def Let_def)
  have snap: "snap = map to_float table" using ck(3) assms(5) by simp
  have len: "0 < length snap" "length snap \<le> 1073741824" using ck(1,2) assms(5) snap by auto
  have ad: "slot < 64" "handle_of (graph_at m1 j) = k"
    using stream_admittedD [OF m1 s(1)] find_graph_Some(3) [OF m1 x(4)] \<open>j = i\<close> by auto
  have sl: "(of_nat slot :: u32) < 64" using ad(1) u32_of_nat_less [of slot 64] by simp
  have "transfer_wf (start_transfer snap (sample_time env) ?st) (map to_float table)"
    using len snap ad x(3) assms(6) sl by (simp add: transfer_wf_def start_transfer_def)
  then show ?thesis
    using fin gm3 cfg x(4) v ad
    by (intro exI [of _ m3] exI [of _ i] exI [of _ "next_addr m1"]
        exI [of _ "start_transfer snap (sample_time env) ?st"])
      (simp add: m3_def start_transfer_def)
qed

text \<open>C33: A second initialisation pass of \<^verbatim>\<open>watchadd\<close> on an audio signal releases the
  stream of the first, so that the sender can free it; one on a spectral signal does not: it
  forgets the pointer first, and the old stream stays in the registry, unreleased, whatever
  comes of the pass.\<close>

theorem spectral_reinit_keeps_old_stream:
  assumes "cs_ok cs" "global_manager cs = Some m" "heap m a = Some st" "\<not> release_requested st"
  shows "(\<forall>env p s p' cs'. op_stream p = Some a \<and> watch_add_f_init env p cs = (s, p', cs') \<longrightarrow>
      (\<exists>m'. global_manager cs' = Some m' \<and> heap m' a = Some st \<and> op_stream p' \<noteq> Some a))
    \<and> (\<forall>env h s ref cs'. watch_add_a_init env h (Some a) cs = (s, ref, cs') \<longrightarrow>
      (\<exists>m' st'. global_manager cs' = Some m' \<and> heap m' a = Some st' \<and> release_requested st'
        \<and> ref \<noteq> Some a))"
proof (intro conjI allI impI)
  fix env p s p' cs'
  assume r: "op_stream p = Some a \<and> watch_add_f_init env p cs = (s, p', cs')"
  consider "op_stream p' = None" "cs' = cs"
    | ref h where "add_stream env h WATCH_DOMAIN_SPECTRUM WATCH_DOMAIN_SPECTROGRAM
        (to_float (esr env)) 1 None cs = (s, ref, cs')" "op_stream p' = ref"
    using r by (auto simp: watch_add_f_init_def Let_def split: option.splits if_splits prod.splits)
  then show "\<exists>m'. global_manager cs' = Some m' \<and> heap m' a = Some st \<and> op_stream p' \<noteq> Some a"
  proof cases
    case 2
    from add_stream_heap [OF assms(1-3) _ 2(1)] 2(2) show ?thesis by (auto simp: live_ref_def)
  qed (use assms in simp)
next
  fix env h s ref cs'
  assume r: "watch_add_a_init env h (Some a) cs = (s, ref, cs')"
  have "live_ref m (Some a)" using assms(3) by (simp add: live_ref_def)
  then show "\<exists>m' st'. global_manager cs' = Some m' \<and> heap m' a = Some st' \<and> release_requested st'
      \<and> ref \<noteq> Some a"
    using add_stream_heap [OF assms(1-3) _ r [unfolded watch_add_a_init_def]] by auto
qed

section \<open>A session to apply the properties to\<close>

definition sample_env :: ENV where
  "sample_env = \<lparr>env_host = \<lparr>create_global = 0, global_found = True, mutex_ok = True, net_init = 0,
     socket_ok = True, address_ok = True, connect_ok = True, nonblocking_ok = True,
     thread_ok = True, reset_result = 0\<rparr>,
     esr = Fin 48000, ekr = Fin 480, sample_time = 5,
     graph_mem = True, streams_mem = True, stream_mem = True, snapshot_mem = True\<rparr>"

definition fresh_cs :: CSOUND where
  "fresh_cs = \<lparr>global_manager = None,
     resources = \<lparr>mutexes = 0, net_refs = 0, sockets = 0, threads = 0\<rparr>\<rparr>"

lemma fresh_cs_ok [simp]: "cs_ok fresh_cs" "global_manager fresh_cs = None" "live_in fresh_cs ref"
  by (simp_all add: cs_ok_def fresh_cs_def live_in_def)

lemma sample_env_simps [simp]:
  "graph_mem sample_env" "streams_mem sample_env" "stream_mem sample_env" "snapshot_mem sample_env"
  "esr sample_env = Fin 48000" "ekr sample_env = Fin 480" "sample_time sample_env = 5"
  by (simp_all add: sample_env_def)

lemma create_graph_fresh:
  "\<exists>h cs'. create_graph_in sample_env (Fin 0) dmn st None th fresh_cs = (OK, h, cs')
     \<and> \<not> feq h (Fin 0) \<and> cs_ok cs'
     \<and> (\<exists>m. global_manager cs' = Some m \<and> (\<exists>k i t. to_u32 h = Some k \<and> find_graph m k = Some i
          \<and> graph_at m i = registered 5 k (new_graph dmn th st t)))"
proof -
  obtain s h cs' where r: "create_graph_in sample_env (Fin 0) dmn st None th fresh_cs = (s, h, cs')"
    by (metis prod_cases3)
  have g: "get_manager (env_host sample_env) None (resources fresh_cs)
      = (Some empty_manager, \<lparr>mutexes = 1, net_refs = 1, sockets = 1, threads = 1\<rparr>)"
    using get_manager_no_leak [of "env_host sample_env" None "resources fresh_cs"]
    by (simp add: sample_env_def fresh_cs_def)
  obtain res k m' where reg: "register_graph 5 (new_graph dmn th st (replicate 384 (CHR 0x00))) empty_manager = (res, k, m')"
    by (metis prod_cases3)
  have "res = GRAPH_REGISTERED" "1 \<le> k"
    using register_graph_spec(4) [OF reg_ok_empty _ _ reg] by (auto simp: empty_manager_def)
  moreover have "(replicate 384 (CHR 0x00))[0 := CHR 0x00] = replicate 384 (CHR 0x00)"
    using list_update_id [of "replicate 384 (CHR 0x00)" 0] by simp
  ultimately have "s = OK" "h = of_u32 f64 k"
    using r g reg
    by (simp_all add: create_graph_in_def create_graph_def drop_previous_def request_graph_destroy_def
        string_to_title_def zero_config_def trunc_rat_def Let_def of_u32_f64)
  moreover have "\<not> feq (of_u32 f64 k) (Fin 0)"
  proof
    assume "feq (of_u32 f64 k) (Fin 0)"
    then have "(of_nat (unat k) :: rat) = 0" by (simp only: of_u32_f64 feq_Fin)
    then have "unat k = 0" by (simp only: of_nat_eq_0_iff)
    then show False using \<open>1 \<le> k\<close> by (simp add: word_le_nat_alt)
  qed
  ultimately have r': "create_graph_in sample_env (Fin 0) dmn st None th fresh_cs = (OK, h, cs')"
    "\<not> feq h (Fin 0)" using r by simp_all
  from create_graph_ok [OF _ this] create_graph_keeps_ok [OF _ r] r' show ?thesis
    by (intro exI [of _ h] exI [of _ cs']) auto
qed

lemma add_stream_fresh:
  assumes "cs_ok cs" "global_manager cs = Some m" "to_u32 h = Some k" "find_graph m k = Some i"
    "graph_at m i = registered 5 k (new_graph dmn th st t)"
  shows "\<exists>ref cs'. add_stream sample_env h dmn dmn rate fps None cs = (OK, ref, cs')"
proof -
  have reg: "reg_ok m" using assms(1,2) by (simp add: cs_ok_def)
  have "first_free (replicate 64 None :: nat option list) = Some 0" by code_simp
  then have "stream_admitted m h dmn dmn i 0"
    using assms(3-5) by (simp add: stream_admitted_def) (simp add: registered_def new_graph_def zero_graph_def zero_config_def)
  then have ad: "True \<and> (\<exists>i slot. stream_admitted (after_release None m) h dmn dmn i slot)"
    by (auto simp: after_release_def)
  have live: "live_ref m None" by (simp add: live_ref_def)
  show ?thesis
  proof (rule create_stream_cases [OF reg live, of True h dmn dmn rate fps])
    fix j slot
    assume "create_stream True h dmn dmn rate fps None (Some m)
        = (OK, Some (next_addr m), Some (stream_entered (after_release None m) j slot rate fps))"
    then show ?thesis using assms(2) by (simp add: add_stream_def)
  qed (use ad in blast)
qed

text \<open>Arguments with nothing optional, and a table of two samples.\<close>

definition sample_scope :: WATCH_CREATE_TIME where
  "sample_scope = \<lparr>ct_handle = Fin 0, ct_win_size = Some (Fin 1), ct_nxticks = None,
     ct_nyticks = None, ct_ymin = None, ct_ymax = None, ct_title = None\<rparr>"

definition sample_spectrum :: WATCH_CREATE_SPECTRAL where
  "sample_spectrum = \<lparr>cf_handle = Fin 0, cf_min_frequency = None, cf_max_frequency = None,
     cf_min_value = None, cf_max_value = None, cf_scale = None, cf_nxticks = None,
     cf_nyticks = None, cf_title = None\<rparr>"

definition sample_meter :: METER_OPCODE where
  "sample_meter = \<lparr>mt_handle = Fin 0, mt_channels = Some \<lparr>dimensions = 1, sizes = Some [2],
     array_data = Some [Fin 0, Fin 0]\<rparr>, mt_min = None, mt_max = None, mt_scale = Fin 2,
     mt_title = None, mt_ref = None, mt_peak = replicate 32 (Fin 0), mt_count = 0, mt_frames = 0,
     mt_frames_per_packet = 0\<rparr>"

definition sample_table :: WATCH_FTABLE where
  "sample_table = \<lparr>tb_table = Some (2, [Fin 1, Fin 2]), tb_ymin = None, tb_ymax = None,
     tb_theme = None, tb_title = None, tb_stream = None, tb_graph_id = 0\<rparr>"

lemmas option_checks = tick_count_def numeric_range_def Let_def

theorem time_config_accepted_witness:
  "\<exists>p' cs' m' k i. watch_create_scope sample_env sample_scope fresh_cs = (OK, p', cs')
     \<and> global_manager cs' = Some m' \<and> find_graph m' k = Some i
     \<and> validate_config_packet (data_config (graph_at m' i)) 468"
proof -
  obtain config where c: "create_time_helper sample_scope = Inr config"
    by (simp add: create_time_helper_def option_checks sample_scope_def)
  obtain h cs' where "create_graph_in sample_env (Fin 0) WATCH_DOMAIN_OSCILLOSCOPE
      (zero_settings\<lparr>set_time := config\<rparr>) None WATCH_THEME_LIGHT fresh_cs = (OK, h, cs')"
    "\<not> feq h (Fin 0)" using create_graph_fresh by meson
  then have r: "watch_create_scope sample_env sample_scope fresh_cs
      = (OK, sample_scope\<lparr>ct_handle := h\<rparr>, cs')" "\<not> feq (ct_handle (sample_scope\<lparr>ct_handle := h\<rparr>)) (Fin 0)"
    using c by (simp_all add: watch_create_scope_def create_time_graph_def) (simp add: sample_scope_def)
  have "to_float (the (ct_win_size sample_scope)) = Fin 1" by (simp add: sample_scope_def del: to_float.simps)
  then show ?thesis using time_config_accepted [where create = watch_create_scope, OF _ _ r] r(1) by auto
qed

theorem spectral_config_accepted_witness:
  "\<exists>p' cs' m' k i. create_spectral_graph sample_env WATCH_DOMAIN_SPECTRUM (Fin 0) sample_spectrum fresh_cs
       = (OK, p', cs')
     \<and> global_manager cs' = Some m' \<and> find_graph m' k = Some i
     \<and> validate_config_packet (data_config (graph_at m' i)) 468"
proof -
  obtain config where c: "spectral_config (Fin 0) (to_float (esr sample_env)) sample_spectrum = Inr config"
    by (simp add: spectral_config_def spectral_scale_def option_checks sample_spectrum_def)
  obtain h cs' where "create_graph_in sample_env (Fin 0) WATCH_DOMAIN_SPECTRUM
      (zero_settings\<lparr>set_spectral := config\<rparr>) None WATCH_THEME_LIGHT fresh_cs = (OK, h, cs')"
    "\<not> feq h (Fin 0)" using create_graph_fresh by meson
  then have r: "create_spectral_graph sample_env WATCH_DOMAIN_SPECTRUM (Fin 0) sample_spectrum fresh_cs
      = (OK, sample_spectrum\<lparr>cf_handle := h\<rparr>, cs')"
      "\<not> feq (cf_handle (sample_spectrum\<lparr>cf_handle := h\<rparr>)) (Fin 0)"
    using c by (simp_all add: create_spectral_graph_def) (simp add: sample_spectrum_def)
  have "fmul f32 (to_float (esr sample_env)) (Fin (1 / 2)) = Fin 24000"
    using fround_f32_int [of 24000] by (simp del: to_float.simps)
  then have "isfinite (fmul f32 (to_float (esr sample_env)) (Fin (1 / 2)))" by simp
  from spectral_config_accepted [OF _ this _ r] r(1) show ?thesis by auto
qed

text \<open>A meter of two channels starts in a session that has no manager yet.\<close>

lemma sample_meter_starts:
  "\<exists>p' cs'. watch_meter_init sample_env sample_meter fresh_cs = (OK, p', cs')
     \<and> \<not> feq (mt_handle p') (Fin 0) \<and> mt_ref p' \<noteq> None"
proof -
  have torn: "meter_teardown sample_meter True fresh_cs = (OK, sample_meter, fresh_cs)"
    by (simp add: meter_teardown_def sample_meter_def request_graph_destroy_def trunc_rat_def of_u32_f64)
  obtain config where c: "meter_config sample_meter = Inr config"
    by (simp add: meter_config_def meter_channels_def option_checks sample_meter_def trunc_rat_def of_u32_f64)
  obtain h cs1 m k i t where g: "create_graph_in sample_env (Fin 0) WATCH_DOMAIN_METER
      (zero_settings\<lparr>set_meter := config\<rparr>) None WATCH_THEME_LIGHT fresh_cs = (OK, h, cs1)"
    "\<not> feq h (Fin 0)" "cs_ok cs1" "global_manager cs1 = Some m" "to_u32 h = Some k" "find_graph m k = Some i"
    "graph_at m i = registered 5 k (new_graph WATCH_DOMAIN_METER WATCH_THEME_LIGHT
       (zero_settings\<lparr>set_meter := config\<rparr>) t)"
    using create_graph_fresh by meson
  have k: "k \<noteq> 0"
  proof -
    have "reg_ok m" using g(3,4) by (simp add: cs_ok_def)
    then show ?thesis using find_graph_Some(3) [OF _ g(6)] graph_okD(1) [OF find_graph_Some(4) [OF _ g(6)]] by auto
  qed
  obtain ref cs2 where a: "add_stream sample_env h WATCH_DOMAIN_METER WATCH_DOMAIN_METER
      (to_float (Fin 480)) (unat (nchnls config)) None cs1 = (OK, ref, cs2)"
    using add_stream_fresh [OF g(3-7)] by blast
  have w: "meter_window (Fin 480) = Some 8"
    using fround_f64_nat [of 8] by (simp add: meter_window_def trunc_rat_def Let_def)
  obtain j slot where s: "ref = Some (next_addr m)" "stream_admitted m h WATCH_DOMAIN_METER WATCH_DOMAIN_METER j slot"
    by (rule add_stream_ok [OF g(3,4) a])
  have "\<exists>p'. watch_meter_init sample_env sample_meter fresh_cs = (OK, p', cs2) \<and> mt_handle p' = h \<and> mt_ref p' = ref"
    using torn c g(1,5) k a w
    by (simp add: watch_meter_init_def meter_attach_def Let_def sample_meter_def del: to_float.simps)
  then show ?thesis using g(2) s(1) by auto
qed

theorem meter_config_accepted_witness:
  "\<exists>p' cs' m' k i. watch_meter_init sample_env sample_meter fresh_cs = (OK, p', cs')
     \<and> global_manager cs' = Some m' \<and> find_graph m' k = Some i
     \<and> validate_config_packet (data_config (graph_at m' i)) 468"
proof -
  obtain p' cs' where r: "watch_meter_init sample_env sample_meter fresh_cs = (OK, p', cs')"
    "\<not> feq (mt_handle p') (Fin 0)" using sample_meter_starts by blast
  from meter_config_accepted [OF _ _ r] r(1) show ?thesis by (auto simp: sample_meter_def)
qed

theorem ftable_starts_transfer_witness:
  "\<exists>p' cs' m' a st. watch_ftable sample_env sample_table fresh_cs = (OK, p', cs')
     \<and> global_manager cs' = Some m' \<and> tb_stream p' = Some a \<and> heap m' a = Some st
     \<and> transfer_wf st [Fin 1, Fin 2] \<and> ftable_next_sample st = 0"
proof -
  have torn: "ftable_teardown sample_table True fresh_cs = (OK, sample_table, fresh_cs)"
    by (simp add: ftable_teardown_def sample_table_def)
  obtain config snap where c: "ftable_checks sample_env sample_table = Inr (config, snap, WATCH_THEME_LIGHT)"
    by (simp add: ftable_checks_def option_checks sample_table_def)
  obtain h cs1 m k i t where g: "create_graph_in sample_env (Fin 0) WATCH_DOMAIN_FTABLE
      (zero_settings\<lparr>set_ftable := config\<rparr>) None WATCH_THEME_LIGHT fresh_cs = (OK, h, cs1)"
    "\<not> feq h (Fin 0)" "cs_ok cs1" "global_manager cs1 = Some m" "to_u32 h = Some k" "find_graph m k = Some i"
    "graph_at m i = registered 5 k (new_graph WATCH_DOMAIN_FTABLE WATCH_THEME_LIGHT
       (zero_settings\<lparr>set_ftable := config\<rparr>) t)"
    using create_graph_fresh by meson
  have k: "k \<noteq> 0"
  proof -
    have "reg_ok m" using g(3,4) by (simp add: cs_ok_def)
    then show ?thesis using find_graph_Some(3) [OF _ g(6)] graph_okD(1) [OF find_graph_Some(4) [OF _ g(6)]] by auto
  qed
  obtain ref cs2 where a: "add_stream sample_env h WATCH_DOMAIN_FTABLE WATCH_DOMAIN_FTABLE
      (to_float (Fin 48000)) 1 None cs1 = (OK, ref, cs2)"
    using add_stream_fresh [OF g(3-7)] by blast
  obtain j slot where s: "ref = Some (next_addr m)" "global_manager cs2 = Some (stream_entered m j slot (to_float (Fin 48000)) 1)"
    by (rule add_stream_ok [OF g(3,4) a])
  obtain p' cs' where r: "watch_ftable sample_env sample_table fresh_cs = (OK, p', cs')" "tb_graph_id p' = k"
    using torn c g(1,2,5) a s
    by (simp add: watch_ftable_def ftable_attach_def Let_def sample_table_def of_u32_f64 stream_entered_heap
        del: to_float.simps)
  have t: "tb_table sample_table = Some (2, [Fin 1, Fin 2])" by (simp add: sample_table_def)
  have "tb_graph_id p' \<noteq> 0" using r(2) k by simp
  from ftable_starts_transfer [OF _ _ _ t _ _ r(1) this] r(1) show ?thesis
    by (fastforce simp: sample_table_def simp del: to_float.simps)
qed

definition sample_manager :: WATCH_MANAGER where
  "sample_manager = stream_entered one_graph_manager 0 0 (Fin 44100) 1"

definition sample_add_f :: ADD_SPECTRAL_OPCODE where
  "sample_add_f = \<lparr>op_handle = Fin 1, op_signal = None, op_stream = Some (next_addr one_graph_manager),
     op_last_frame_id = 0, op_fft_size = 0, op_hop_size = 0, op_format = PVS_AMP_FREQ\<rparr>"

theorem spectral_reinit_keeps_old_stream_witness:
  "\<exists>cs m st p' cs' m'. cs_ok cs \<and> global_manager cs = Some m
     \<and> op_stream sample_add_f = Some (next_addr one_graph_manager)
     \<and> heap m (next_addr one_graph_manager) = Some st
     \<and> watch_add_f_init sample_env sample_add_f cs = (Inl NullSignal, p', cs')
     \<and> global_manager cs' = Some m' \<and> heap m' (next_addr one_graph_manager) = Some st
     \<and> op_stream p' \<noteq> Some (next_addr one_graph_manager)"
proof -
  let ?cs = "fresh_cs\<lparr>global_manager := Some sample_manager\<rparr>"
  let ?a = "next_addr one_graph_manager"
  let ?st = "new_stream (graph_at one_graph_manager 0) 0 (Fin 44100) 1"
  have "stream_admitted one_graph_manager (Fin 1) 0 0 0 0"
    by code_simp
  then have ok: "cs_ok ?cs"
    using stream_entered_ok [OF reg_ok_one_graph] by (simp add: cs_ok_def sample_manager_def)
  have h: "heap sample_manager ?a = Some ?st"
    by (simp add: sample_manager_def stream_entered_heap)
  have live: "\<not> release_requested ?st" by (simp add: new_stream_def zero_stream_def Let_def)
  obtain s p' cs' where r: "watch_add_f_init sample_env sample_add_f ?cs = (s, p', cs')"
    by (metis prod_cases3)
  then have "s = Inl NullSignal"
    by (simp add: watch_add_f_init_def sample_add_f_def)
  moreover have "\<exists>m'. global_manager cs' = Some m' \<and> heap m' ?a = Some ?st \<and> op_stream p' \<noteq> Some ?a"
    using conjunct1 [OF spectral_reinit_keeps_old_stream [OF ok _ h live], rule_format, of sample_add_f] r
    by (simp add: sample_add_f_def)
  ultimately have "watch_add_f_init sample_env sample_add_f ?cs = (Inl NullSignal, p', cs')"
    "\<exists>m'. global_manager cs' = Some m' \<and> heap m' ?a = Some ?st \<and> op_stream p' \<noteq> Some ?a"
    "op_stream sample_add_f = Some ?a" "global_manager ?cs = Some sample_manager"
    using r by (simp_all add: sample_add_f_def)
  then show ?thesis using ok h by blast
qed

end
