(* ===== verification/Instances.thy ===== *)
theory Instances
  imports Opcodes TimeFeed
begin

text \<open>
  The instances of the opcodes that hold a stream, as the table of opcodes declares them
  (\<^verbatim>\<open>localops\<close> in \<^verbatim>\<open>src/src/watch.c\<close>): for each kind the memory it owns, its
  initialisation pass, its performance pass and its deinitialisation pass. The lemmas say what a
  pass does to the pointers other instances hold: it leaves their streams as they are.
\<close>

section \<open>Instances\<close>

text \<open>The three kinds of \<^verbatim>\<open>watchadd\<close> that share the queue of samples.\<close>

datatype time_kind = AUDIO | CONTROL | POINT

datatype INSTANCE =
    TimeAdd time_kind cfloat "nat option"
  | SpectralAdd ADD_SPECTRAL_OPCODE
  | Meter METER_OPCODE
  | Table WATCH_FTABLE
  | TitledTable WATCH_FTABLE_TITLE

text \<open>The pointer to a stream in the memory of an instance.\<close>

fun inst_ref :: "INSTANCE \<Rightarrow> nat option" where
  "inst_ref (TimeAdd k h r) = r"
| "inst_ref (SpectralAdd p) = op_stream p"
| "inst_ref (Meter p) = mt_ref p"
| "inst_ref (Table p) = tb_stream p"
| "inst_ref (TitledTable p) = tt_stream p"

text \<open>Csound hands an instance over with its memory zeroed.\<close>

fun fresh :: "INSTANCE \<Rightarrow> bool" where
  "fresh (TimeAdd k h r) = (r = None)"
| "fresh (SpectralAdd p) = (op_stream p = None \<and> op_last_frame_id p = 0 \<and> op_fft_size p = 0 \<and> op_hop_size p = 0)"
| "fresh (Meter p) = (mt_ref p = None \<and> mt_peak p = replicate MAX_METER_CHANNELS (Fin 0) \<and> mt_count p = 0
     \<and> mt_frames p = 0 \<and> mt_frames_per_packet p = 0)"
| "fresh (Table p) = (tb_stream p = None \<and> tb_graph_id p = INVALID_HANDLE)"
| "fresh (TitledTable p) = (tt_stream p = None \<and> tt_graph_id p = INVALID_HANDLE)"

text \<open>The arguments may differ from pass to pass; the memory an instance owns is what the last pass
  left in it.\<close>

fun same_memory :: "INSTANCE \<Rightarrow> INSTANCE \<Rightarrow> bool" where
  "same_memory (TimeAdd k h r) (TimeAdd k' h' r') = (k = k' \<and> r = r')"
| "same_memory (SpectralAdd p) (SpectralAdd q) = (op_stream p = op_stream q
     \<and> op_last_frame_id p = op_last_frame_id q \<and> op_fft_size p = op_fft_size q
     \<and> op_hop_size p = op_hop_size q \<and> op_format p = op_format q)"
| "same_memory (Meter p) (Meter q) = (mt_ref p = mt_ref q \<and> mt_peak p = mt_peak q \<and> mt_count p = mt_count q
     \<and> mt_frames p = mt_frames q \<and> mt_frames_per_packet p = mt_frames_per_packet q)"
| "same_memory (Table p) (Table q) = (tb_stream p = tb_stream q \<and> tb_graph_id p = tb_graph_id q)"
| "same_memory (TitledTable p) (TitledTable q) = (tt_stream p = tt_stream q \<and> tt_graph_id p = tt_graph_id q)"
| "same_memory _ _ = False"

section \<open>Passes\<close>

fun init_pass :: "ENV \<Rightarrow> INSTANCE \<Rightarrow> CSOUND \<Rightarrow> status \<times> INSTANCE \<times> CSOUND" where
  "init_pass env (TimeAdd k h r) cs =
     (case (case k of AUDIO \<Rightarrow> watch_add_a_init env h r cs | CONTROL \<Rightarrow> watch_add_k_init env h r cs
          | POINT \<Rightarrow> watch_add_p_init env h r cs) of
        (s, r', cs') \<Rightarrow> (s, TimeAdd k h r', cs'))"
| "init_pass env (SpectralAdd p) cs = (case watch_add_f_init env p cs of (s, p', cs') \<Rightarrow> (s, SpectralAdd p', cs'))"
| "init_pass env (Meter p) cs = (case watch_meter_init env p cs of (s, p', cs') \<Rightarrow> (s, Meter p', cs'))"
| "init_pass env (Table p) cs = (case watch_ftable env p cs of (s, p', cs') \<Rightarrow> (s, Table p', cs'))"
| "init_pass env (TitledTable p) cs =
     (case watch_ftable_title env p cs of (s, p', cs') \<Rightarrow> (s, TitledTable p', cs'))"

fun deinit_pass :: "INSTANCE \<Rightarrow> CSOUND \<Rightarrow> status \<times> INSTANCE \<times> CSOUND" where
  "deinit_pass (TimeAdd k h r) cs = (case watch_add_deinit r cs of (s, r', cs') \<Rightarrow> (s, TimeAdd k h r', cs'))"
| "deinit_pass (SpectralAdd p) cs =
     (case watch_add_deinit (op_stream p) cs of (s, r', cs') \<Rightarrow> (s, SpectralAdd (p\<lparr>op_stream := r'\<rparr>), cs'))"
| "deinit_pass (Meter p) cs = (case watch_meter_deinit p cs of (s, p', cs') \<Rightarrow> (s, Meter p', cs'))"
| "deinit_pass (Table p) cs = (case watch_ftable_deinit p cs of (s, p', cs') \<Rightarrow> (s, Table p', cs'))"
| "deinit_pass (TitledTable p) cs =
     (case watch_ftable_title_deinit p cs of (s, p', cs') \<Rightarrow> (s, TitledTable p', cs'))"

text \<open>What a performance cycle brings: the clocks, the block of the instance and the values of its
  arguments.\<close>

record CYCLE =
  cy_now :: int
  cy_kcounter :: int
  cy_ksmps :: nat
  cy_offset :: nat
  cy_early :: nat
  cy_signal :: "cfloat list"
  cy_x :: cfloat
  cy_y :: cfloat
  cy_framecount :: u32
  cy_frame :: "cfloat list option"
  cy_channels :: "cfloat list option"

text \<open>The two records the frame opcodes work on, from the memory of the instance and its stream.\<close>

definition spectral_view :: "ADD_SPECTRAL_OPCODE \<Rightarrow> WATCH_STREAM \<Rightarrow> WATCH_ADD_SPECTRAL" where
  "spectral_view p st = \<lparr>af_stream = st, last_frame_id = op_last_frame_id p, af_fft_size = op_fft_size p,
     af_hop_size = op_hop_size p, af_format = op_format p\<rparr>"

definition meter_view :: "METER_OPCODE \<Rightarrow> WATCH_STREAM option \<Rightarrow> WATCH_METER" where
  "meter_view p st = \<lparr>mt_stream = st, peak = mt_peak p, mt_nchnls = mt_count p, frames = mt_frames p,
     frames_per_packet = mt_frames_per_packet p\<rparr>"

text \<open>\<open>perform_on\<close> is a pass over the stream the instance points to: the memory and the stream it
  leaves, or \<^const>\<open>None\<close> when it does not return.\<close>

fun perform_on :: "CYCLE \<Rightarrow> INSTANCE \<Rightarrow> WATCH_STREAM \<Rightarrow> (INSTANCE \<times> WATCH_STREAM) option" where
  "perform_on c (TimeAdd k h r) st =
     map_option (Pair (TimeAdd k h r))
       (case k of
          AUDIO \<Rightarrow> watch_add_a (cy_ksmps c) (cy_offset c) (cy_early c) (cy_now c) (cy_signal c) st
        | CONTROL \<Rightarrow> watch_add_k (cy_x c) (cy_kcounter c) st
        | POINT \<Rightarrow> watch_add_p (cy_x c) (cy_y c) (cy_kcounter c) st)"
| "perform_on c (SpectralAdd p) st =
     map_option (\<lambda>q. (SpectralAdd (p\<lparr>op_last_frame_id := last_frame_id q\<rparr>), af_stream q))
       (watch_add_f (cy_framecount c) (cy_frame c) (cy_now c) (spectral_view p st))"
| "perform_on c (Meter p) st =
     (let q = watch_meter (cy_channels c) (cy_kcounter c) (meter_view p (Some st)) in
      map_option (Pair (Meter (p\<lparr>mt_peak := peak q, mt_frames := frames q\<rparr>))) (mt_stream q))"
| "perform_on c i st = Some (i, st)"

text \<open>Without a stream a pass of \<^verbatim>\<open>watchadd\<close> returns only where it has nothing to write; the
  meter always returns, and a table has no performance pass. \<^const>\<open>None\<close> is also the access to a
  stream that is not there.\<close>

definition perform :: "CYCLE \<Rightarrow> INSTANCE \<Rightarrow> CSOUND \<Rightarrow> (INSTANCE \<times> CSOUND) option" where
  "perform c i cs =
     (case inst_ref i of
        None \<Rightarrow>
          (case i of
             TimeAdd k h r \<Rightarrow>
               if k = AUDIO \<and> cy_ksmps c - cy_early c - cy_offset c = 0 then Some (i, cs) else None
           | SpectralAdd p \<Rightarrow>
               if cy_framecount c = op_last_frame_id p \<or> cy_frame c = None then Some (i, cs) else None
           | _ \<Rightarrow> Some (i, cs))
      | Some a \<Rightarrow>
          (case global_manager cs of
             None \<Rightarrow> None
           | Some m \<Rightarrow>
               (case heap m a of
                  None \<Rightarrow> None
                | Some st \<Rightarrow>
                    map_option (\<lambda>(i', st'). (i', cs\<lparr>global_manager := Some (m\<lparr>heap := (heap m)(a \<mapsto> st')\<rparr>)\<rparr>))
                      (perform_on c i st))))"

section \<open>What a call leaves alone\<close>

definition stream_at :: "CSOUND \<Rightarrow> nat \<Rightarrow> WATCH_STREAM option" where
  "stream_at cs a = (case global_manager cs of None \<Rightarrow> None | Some m \<Rightarrow> heap m a)"

text \<open>The registry stays consistent, no stream is freed, and every stream stays as it is, but the one
  behind \<open>ref\<close>.\<close>

definition leaves :: "nat option \<Rightarrow> CSOUND \<Rightarrow> CSOUND \<Rightarrow> bool" where
  "leaves ref cs cs' \<longleftrightarrow> cs_ok cs' \<and> (\<forall>a. stream_at cs a \<noteq> None \<longrightarrow> stream_at cs' a \<noteq> None)
     \<and> (\<forall>a st. ref \<noteq> Some a \<longrightarrow> stream_at cs a = Some st \<longrightarrow> stream_at cs' a = Some st)"

lemma leaves_refl: "cs_ok cs \<Longrightarrow> leaves ref cs cs"
  by (simp add: leaves_def)

lemma leaves_ok: "leaves ref cs cs' \<Longrightarrow> cs_ok cs'"
  by (simp add: leaves_def)

lemma leaves_trans [trans]: "leaves ref cs cs1 \<Longrightarrow> leaves ref cs1 cs2 \<Longrightarrow> leaves ref cs cs2"
  by (simp add: leaves_def)

lemma leaves_unused: "leaves ref cs cs' \<Longrightarrow> stream_at cs' a = None \<Longrightarrow> stream_at cs a = None"
  by (auto simp: leaves_def)

lemma leaves_None: "leaves None cs cs' \<Longrightarrow> leaves ref cs cs'"
  by (simp add: leaves_def)

lemma leaves_same: "cs_ok cs' \<Longrightarrow> (\<And>a st. stream_at cs a = Some st \<Longrightarrow> stream_at cs' a = Some st) \<Longrightarrow> leaves ref cs cs'"
  unfolding leaves_def by blast

lemma release_leaves:
  assumes "cs_ok cs" "live_in cs ref" "release_stream ref (global_manager cs) = Some (ref', mo)"
  shows "ref' = None" "leaves ref cs (cs\<lparr>global_manager := mo\<rparr>)"
proof -
  have "ref' = None \<and> leaves ref cs (cs\<lparr>global_manager := mo\<rparr>)"
  proof (cases "global_manager cs")
    case None
    then show ?thesis using assms(3) by (cases ref) (auto simp: release_stream_def leaves_def cs_ok_def stream_at_def)
  next
    case (Some m)
    then have m: "reg_ok m" "live_ref m ref" using assms(1,2) by (simp_all add: cs_ok_def live_in_def)
    then have r: "ref' = None" "mo = Some (after_release ref m)"
      using assms(3) Some release_stream_live by simp_all
    then show ?thesis
      using after_release_ok(1) [OF m] Some
      by (auto simp: leaves_def cs_ok_def stream_at_def after_release_def split: option.splits)
  qed
  then show "ref' = None" "leaves ref cs (cs\<lparr>global_manager := mo\<rparr>)" by blast+
qed

lemma destroy_leaves:
  assumes "cs_ok cs"
  shows "leaves ref cs (cs\<lparr>global_manager := request_graph_destroy k cw (global_manager cs)\<rparr>)"
proof (cases "global_manager cs")
  case None
  then show ?thesis by (auto simp: request_graph_destroy_def leaves_def cs_ok_def stream_at_def)
next
  case (Some m)
  then have m: "reg_ok m" using assms by (simp add: cs_ok_def)
  obtain m' where m': "request_graph_destroy k cw (Some m) = Some m'"
    by (cases "k = 0"; cases "find_graph m k") (auto simp: request_graph_destroy_def)
  show ?thesis
    using request_graph_destroy_spec(1,2) [OF m m'] m' Some by (simp add: leaves_def cs_ok_def stream_at_def)
qed

lemma create_leaves:
  assumes "cs_ok cs" "create_graph_in env cell dmn st src th cs = (s, h, cs')"
  shows "leaves ref cs cs'"
proof -
  have ok: "cs_ok cs'" using create_graph_keeps_ok [OF assms] .
  have d: "stream_at (cs\<lparr>global_manager := dropped cell cs\<rparr>) a = Some st" if "stream_at cs a = Some st" for a st
    using destroy_leaves [OF assms(1), of None "the (to_u32 cell)" True] that
    by (simp add: leaves_def dropped_def)
  have g: "heap m a = Some st"
    if "stream_at cs a = Some st" "get_manager (env_host env) (dropped cell cs) (resources cs) = (Some m, r)" for a st m r
    using d [OF that(1)] that(2) by (auto simp: stream_at_def get_manager_def split: option.splits)
  show ?thesis
  proof (rule leaves_same [OF ok])
    fix a st
    assume a: "stream_at cs a = Some st"
    show "stream_at cs' a = Some st"
      by (rule create_graph_cases [OF assms])
        (use a d [OF a] g [OF a] in \<open>auto simp: stream_at_def graph_created_def\<close>)
  qed
qed

text \<open>A new stream is behind an address nobody had.\<close>

lemma add_stream_leaves:
  assumes "cs_ok cs" "live_in cs ref" "add_stream env h d1 d2 rate fps ref cs = (s, ref', cs')"
  shows "leaves ref cs cs'"
    "s \<noteq> OK \<and> s \<noteq> Inl DanglingStream \<and> ref' = None
     \<or> s = OK \<and> (\<exists>a g slot. ref' = Some a \<and> stream_at cs a = None
         \<and> stream_at cs' a = Some (new_stream g slot rate fps)
         \<and> to_u32 h = Some (handle_of g) \<and> handle_of g \<noteq> 0 \<and> slot < 64)"
proof -
  have "leaves ref cs cs' \<and> (s \<noteq> OK \<and> s \<noteq> Inl DanglingStream \<and> ref' = None
     \<or> s = OK \<and> (\<exists>a g slot. ref' = Some a \<and> stream_at cs a = None
         \<and> stream_at cs' a = Some (new_stream g slot rate fps)
         \<and> to_u32 h = Some (handle_of g) \<and> handle_of g \<noteq> 0 \<and> slot < 64))"
  proof (cases "global_manager cs")
    case None
    then show ?thesis
      using assms(1,3) by (cases ref) (auto simp: add_stream_def create_stream_def release_stream_def leaves_def cs_ok_def stream_at_def)
  next
    case (Some m)
    then have m: "reg_ok m" "live_ref m ref" using assms(1,2) by (simp_all add: cs_ok_def live_in_def)
    let ?m = "after_release ref m"
    note am = after_release_ok [OF m]
    have h: "heap ?m a = heap m a" if "ref \<noteq> Some a" for a
      using that by (cases ref) (auto simp: after_release_def)
    have hn: "heap m a \<noteq> None \<Longrightarrow> heap ?m a \<noteq> None" for a
      by (cases ref) (auto simp: after_release_def)
    show ?thesis
    proof (rule create_stream_cases [OF m, of "stream_mem env" h d1 d2 rate fps])
      fix e
      assume "create_stream (stream_mem env) h d1 d2 rate fps ref (Some m) = (Inl e, None, Some ?m)"
        and "e \<noteq> DanglingStream"
      then show ?thesis
        using assms(3) Some am(1) h hn by (auto simp: add_stream_def leaves_def cs_ok_def stream_at_def)
    next
      fix i slot
      assume c: "create_stream (stream_mem env) h d1 d2 rate fps ref (Some m)
          = (OK, Some (next_addr m), Some (stream_entered ?m i slot rate fps))"
        and ad: "stream_admitted ?m h d1 d2 i slot"
      note sl = stream_admittedD [OF am(1) ad]
      obtain k where k: "to_u32 h = Some k" "find_graph ?m k = Some i"
        using ad by (auto simp: stream_admitted_def split: bind_splits)
      have g: "k = handle_of (graph_at ?m i)" using find_graph_Some(3) [OF am(1) k(2)] by simp
      have e: "s = OK" "ref' = Some (next_addr m)" "global_manager cs' = Some (stream_entered ?m i slot rate fps)"
        using c assms(3) Some by (auto simp: add_stream_def)
      have new: "heap m (next_addr m) = None" using reg_okD(8) [OF m(1)] by fastforce
      have "heap (stream_entered ?m i slot rate fps) a = Some st" if "ref \<noteq> Some a" "heap m a = Some st" for a st
        using that h new am(3) by (auto simp: stream_entered_heap)
      moreover have "heap (stream_entered ?m i slot rate fps) a \<noteq> None" if "heap m a \<noteq> None" for a
        using hn [OF that] by (simp add: stream_entered_heap)
      ultimately have "leaves ref cs cs'"
        using stream_entered_ok [OF am(1) ad] e(3) Some by (simp add: leaves_def cs_ok_def stream_at_def)
      moreover have "stream_at cs (next_addr m) = None" using new Some by (simp add: stream_at_def)
      moreover have "stream_at cs' (next_addr m) = Some (new_stream (graph_at ?m i) slot rate fps)"
        using e(3) am(3) by (simp add: stream_at_def stream_entered_heap)
      ultimately show ?thesis using e k(1) g sl(3,5) by blast
    qed
  qed
  then show "leaves ref cs cs'"
    "s \<noteq> OK \<and> s \<noteq> Inl DanglingStream \<and> ref' = None
     \<or> s = OK \<and> (\<exists>a g slot. ref' = Some a \<and> stream_at cs a = None
         \<and> stream_at cs' a = Some (new_stream g slot rate fps)
         \<and> to_u32 h = Some (handle_of g) \<and> handle_of g \<noteq> 0 \<and> slot < 64)"
    by blast+
qed

section \<open>What an instance relies on\<close>

text \<open>A stream an opcode of samples may feed.\<close>

definition feedable :: "u16 \<Rightarrow> WATCH_STREAM \<Rightarrow> bool" where
  "feedable ty st \<longleftrightarrow> time_ok ty st \<and> pending_samples st < publish_threshold st"

fun kind_type :: "time_kind \<Rightarrow> u16" where
  "kind_type POINT = msg_code POINT_DATA"
| "kind_type _ = msg_code DATA"

text \<open>What the stream of an instance is for it: one it may feed, one whose queue holds packets of its
  kind, or the stream of the graph it has made.\<close>

fun fits :: "INSTANCE \<Rightarrow> WATCH_STREAM \<Rightarrow> bool" where
  "fits (TimeAdd k h r) st = feedable (kind_type k) st"
| "fits (SpectralAdd p) st = (frame_stream_ok spectral_checked st \<and> to_u32 (st_sample_rate st) \<noteq> None)"
| "fits (Meter p) st = (\<exists>history. meter_ok (meter_view p (Some st)) st history)"
| "fits (Table p) st = (st_graph_id st = tb_graph_id p)"
| "fits (TitledTable p) st = (st_graph_id st = tt_graph_id p)"

text \<open>The memory of an instance between passes.\<close>

fun inst_wf :: "INSTANCE \<Rightarrow> bool" where
  "inst_wf (TimeAdd k h r) = True"
| "inst_wf (SpectralAdd p) =
     (op_stream p \<noteq> None \<longrightarrow> op_fft_size p \<noteq> 0 \<and> (op_fft_size p AND 1) = 0 \<and> op_hop_size p \<noteq> 0)"
| "inst_wf (Meter p) = (length (mt_peak p) = MAX_METER_CHANNELS)"
| "inst_wf (Table p) = (tb_graph_id p = INVALID_HANDLE \<longrightarrow> tb_stream p = None)"
| "inst_wf (TitledTable p) = (tt_graph_id p = INVALID_HANDLE \<longrightarrow> tt_stream p = None)"

lemma fresh_wf: "fresh i \<Longrightarrow> inst_wf i \<and> inst_ref i = None"
  by (cases i) auto

lemma same_memoryD:
  assumes "same_memory i j"
  shows "inst_ref j = inst_ref i" "inst_wf j = inst_wf i" "fits j = fits i"
  using assms
  by (cases i; cases j; simp add: fun_eq_iff meter_view_def)+

text \<open>What the host brings to an initialisation pass: rates the streams can be given, a clock that
  does not run backwards, and a signal whose sizes are 32-bit integers.\<close>

definition rate_ok :: "cfloat \<Rightarrow> bool" where
  "rate_ok r \<longleftrightarrow> Fin 0 < to_float r \<and> r \<le> Fin 1000000000"

definition env_ok :: "ENV \<Rightarrow> bool" where
  "env_ok env \<longleftrightarrow> rate_ok (esr env) \<and> rate_ok (ekr env)"

fun args_ok :: "INSTANCE \<Rightarrow> bool" where
  "args_ok (SpectralAdd p) =
     (\<forall>sig. op_signal p = Some sig \<longrightarrow> pv_n sig < 2 ^ 31 \<and> overlap sig < 2 ^ 31)"
| "args_ok _ = True"

lemma rate_okE:
  assumes "rate_ok r"
  obtains q p where "r = Fin q" "to_float r = Fin p" "0 < p" "p \<le> 1000000000" "0 < q" "q \<le> 1000000000"
proof -
  have r: "Fin 0 < to_float r" "r \<le> Fin 1000000000" using assms by (simp_all add: rate_ok_def)
  then obtain q where q: "r = Fin q" "q \<le> 1000000000" by (cases r) (auto simp: less_eq_cfloat_def)
  have "0 < q"
  proof (rule ccontr)
    assume "\<not> 0 < q"
    then have "round_rat f32 q \<le> 0" using round_rat_mono [of q 0 f32] by simp
    then have "\<not> Fin 0 < fround f32 q" using max_finite_f32_pos by (auto simp: fround_def Let_def)
    then show False using r q by simp
  qed
  moreover have "\<bar>q\<bar> \<le> max_finite f32"
    by (rule order_trans [of _ 1000000000]) (use q \<open>0 < q\<close> in \<open>simp_all add: max_finite_def power_int_def\<close>)
  note f = fround_f32_finite [OF this]
  have "round_rat f32 1000000000 = 1000000000"
    using round_rat_representable [of 1953125 f32 9] by (simp add: power_int_def)
  then have "round_rat f32 q \<le> 1000000000" using round_rat_mono [OF q(2), of f32] by simp
  ultimately show thesis using that [of q "round_rat f32 q"] q r f by simp
qed

lemma rate_converts: "rate_ok r \<Longrightarrow> to_u32 (to_float r) \<noteq> None"
  by (erule rate_okE) simp

lemma rate_window: "rate_ok r \<Longrightarrow> meter_window r \<noteq> None"
proof -
  assume "rate_ok r"
  then obtain q where q: "r = Fin q" "0 < q" "q \<le> 1000000000" by (rule rate_okE)
  let ?x = "q / 60"
  have x: "0 \<le> ?x" "?x \<le> 40000000" using q by simp_all
  have "round_rat f64 40000000 = 40000000"
    using round_rat_representable [of 40000000 f64 0] by simp
  then have b: "0 \<le> round_rat f64 ?x" "round_rat f64 ?x \<le> 40000000"
    using round_rat_nonneg [OF x(1)] round_rat_mono [OF x(2), of f64] by simp_all
  have "(40000000 :: rat) \<le> max_finite f64" by (simp add: max_finite_def power_int_def)
  then have "fround f64 ?x = Fin (round_rat f64 ?x)" using b by (simp add: fround_def Let_def)
  moreover have "\<lceil>round_rat f64 ?x\<rceil> \<le> 40000000" using b(2) by (simp add: ceiling_le_iff)
  then have "of_int \<lceil>round_rat f64 ?x\<rceil> < (4294967296 :: rat)" by linarith
  moreover have "- 1 < (of_int \<lceil>round_rat f64 ?x\<rceil> :: rat)" using b(1) by linarith
  ultimately show ?thesis using q(1) by (simp add: meter_window_def Let_def)
qed

section \<open>Deinitialisation passes\<close>

lemma live_in_None [simp]: "live_in cs None"
  by (simp add: live_in_def live_ref_def)

lemma release_returns:
  "cs_ok cs \<Longrightarrow> live_in cs ref \<Longrightarrow> release_stream ref (global_manager cs) \<noteq> None"
  using release_stream_ok [of cs ref] by auto

lemma add_deinit_leaves:
  assumes "cs_ok cs" "live_in cs ref" "watch_add_deinit ref cs = (s, ref', cs')"
  shows "s = OK \<and> ref' = None \<and> leaves ref cs cs'"
  using assms(3) release_returns [OF assms(1,2)] release_leaves [OF assms(1,2)]
  by (auto simp: watch_add_deinit_def split: option.splits prod.splits)

lemma meter_teardown_leaves:
  assumes "cs_ok cs" "live_in cs (mt_ref p)" "meter_teardown p cw cs = (s, p', cs')"
  shows "s \<noteq> Inl DanglingStream" "mt_ref p' = None" "mt_peak p' = mt_peak p" "leaves (mt_ref p) cs cs'"
proof -
  obtain ref mo where r: "release_stream (mt_ref p) (global_manager cs) = Some (ref, mo)"
    using release_returns [OF assms(1,2)] by auto
  note l = release_leaves [OF assms(1,2) r]
  let ?c = "cs\<lparr>global_manager := mo\<rparr>"
  have d: "leaves (mt_ref p) cs (cs\<lparr>global_manager := request_graph_destroy k cw mo\<rparr>)" for k
    using leaves_trans [OF l(2) destroy_leaves [OF leaves_ok [OF l(2)], of _ k cw]] by simp
  show "s \<noteq> Inl DanglingStream" "mt_ref p' = None" "mt_peak p' = mt_peak p" "leaves (mt_ref p) cs cs'"
    using assms(3) r l d by (auto simp: meter_teardown_def split: option.splits)
qed

lemma ftable_teardown_leaves:
  assumes "cs_ok cs" "live_in cs (tb_stream p)" "ftable_teardown p cw cs = (s, p', cs')"
    and "tb_graph_id p = INVALID_HANDLE \<longrightarrow> tb_stream p = None"
  shows "s = OK" "tb_stream p' = None" "tb_graph_id p' = INVALID_HANDLE" "leaves (tb_stream p) cs cs'"
proof -
  obtain ref mo where r: "release_stream (tb_stream p) (global_manager cs) = Some (ref, mo)"
    using release_returns [OF assms(1,2)] by auto
  note l = release_leaves [OF assms(1,2) r]
  have d: "leaves (tb_stream p) cs (cs\<lparr>global_manager := request_graph_destroy k cw mo\<rparr>)" for k
    using leaves_trans [OF l(2) destroy_leaves [OF leaves_ok [OF l(2)], of _ k cw]] by simp
  show "s = OK" "tb_stream p' = None" "tb_graph_id p' = INVALID_HANDLE" "leaves (tb_stream p) cs cs'"
    using assms r l d leaves_refl [OF assms(1)] by (auto simp: ftable_teardown_def split: if_splits)
qed

lemma deinit_pass_leaves:
  assumes "cs_ok cs" "live_in cs (inst_ref i)" "inst_wf i" "deinit_pass i cs = (s, i', cs')"
  shows "s \<noteq> Inl DanglingStream" "inst_ref i' = None" "inst_wf i'" "leaves (inst_ref i) cs cs'"
proof -
  have "s \<noteq> Inl DanglingStream \<and> inst_ref i' = None \<and> inst_wf i' \<and> leaves (inst_ref i) cs cs'"
  proof (cases i)
    case (TimeAdd k h r)
    obtain s1 r1 cs1 where r: "watch_add_deinit r cs = (s1, r1, cs1)" by (metis prod_cases3)
    then show ?thesis using add_deinit_leaves [OF assms(1) _ r] assms(2,4) TimeAdd by auto
  next
    case (SpectralAdd p)
    obtain s1 r1 cs1 where r: "watch_add_deinit (op_stream p) cs = (s1, r1, cs1)" by (metis prod_cases3)
    then show ?thesis using add_deinit_leaves [OF assms(1) _ r] assms(2,4) SpectralAdd by auto
  next
    case (Meter p)
    obtain s1 p1 cs1 where r: "meter_teardown p False cs = (s1, p1, cs1)" by (metis prod_cases3)
    then show ?thesis using meter_teardown_leaves [OF assms(1) _ r] assms(2-4) Meter
      by (auto simp: watch_meter_deinit_def)
  next
    case (Table p)
    obtain s1 p1 cs1 where r: "ftable_teardown p False cs = (s1, p1, cs1)" by (metis prod_cases3)
    then show ?thesis using ftable_teardown_leaves [OF assms(1) _ r] assms(2-4) Table
      by (auto simp: watch_ftable_deinit_def)
  next
    case (TitledTable p)
    define q where "q = \<lparr>tb_table = None, tb_ymin = None, tb_ymax = None, tb_theme = None,
            tb_title = None, tb_stream = tt_stream p, tb_graph_id = tt_graph_id p\<rparr>"
    obtain s1 q' cs1 where r: "watch_ftable_deinit q cs = (s1, q', cs1)" by (metis prod_cases3)
    have q: "tb_stream q = tt_stream p" "tb_graph_id q = tt_graph_id p" by (simp_all add: q_def)
    note l = ftable_teardown_leaves [of cs q False, unfolded watch_ftable_deinit_def [symmetric], OF _ _ r]
    have "(s, i', cs') = (s1, TitledTable (p\<lparr>tt_stream := tb_stream q', tt_graph_id := tb_graph_id q'\<rparr>), cs1)"
      using assms(4) r TitledTable by (simp add: watch_ftable_title_deinit_def q_def)
    then show ?thesis using l assms(1-3) TitledTable q by simp
  qed
  then show "s \<noteq> Inl DanglingStream" "inst_ref i' = None" "inst_wf i'" "leaves (inst_ref i) cs cs'" by blast+
qed

section \<open>Initialisation passes\<close>

text \<open>What a pass may leave in the pointer: nothing, or a stream that was not there before, whose opcode
  has not released it and which is fit for the instance.\<close>

definition gains :: "INSTANCE \<Rightarrow> CSOUND \<Rightarrow> CSOUND \<Rightarrow> bool" where
  "gains i cs cs' \<longleftrightarrow> (\<forall>a. inst_ref i = Some a \<longrightarrow> stream_at cs a = None
     \<and> (\<exists>st. stream_at cs' a = Some st \<and> \<not> release_requested st \<and> fits i st))"

lemma gains_None: "inst_ref i = None \<Longrightarrow> gains i cs cs'"
  by (simp add: gains_def)

lemma gains_earlier: "leaves ref cs cs1 \<Longrightarrow> gains i cs1 cs' \<Longrightarrow> gains i cs cs'"
  using leaves_unused unfolding gains_def by blast

lemma new_stream_frames:
  "handle_of g \<noteq> 0 \<Longrightarrow> slot < 64 \<Longrightarrow> frame_stream_ok V (new_stream g slot rate fps)"
  using u32_of_nat_less [of slot 64] by (intro frame_stream_fresh(1)) simp_all

lemma new_stream_feedable:
  assumes "handle_of g \<noteq> 0" "slot < 64" "rate_ok r" "fps = (if k = POINT then 2 else 1)"
  shows "feedable (kind_type k) (new_stream g slot (to_float r) fps)"
proof -
  have r: "isfinite (to_float r)" "Fin 0 < to_float r" by (rule rate_okE [OF assms(3)]; simp)+
  have "kind_type k = msg_code DATA \<and> fps = 1 \<or> kind_type k = msg_code POINT_DATA \<and> fps = 2"
    using assms(4) by (cases k) auto
  note t = new_stream_time_ok(1) [OF assms(1,2) r this]
  have "0 < fps" "fps \<le> 256" using assms(4) by simp_all
  then show ?thesis using t stream_threshold_bounds by (simp add: feedable_def)
qed

lemma time_init:
  assumes "cs_ok cs" "live_in cs r" "env_ok env" "init_pass env (TimeAdd k h r) cs = (s, i', cs')"
  shows "s \<noteq> Inl DanglingStream" "leaves r cs cs'" "gains i' cs cs'" "inst_wf i'"
    "s = OK \<longrightarrow> inst_ref i' \<noteq> None"
proof -
  obtain d rate fps r' where
    a: "add_stream env h d d (to_float rate) fps r cs = (s, r', cs')" and i': "i' = TimeAdd k h r'"
    and rate: "rate_ok rate" "fps = (if k = POINT then 2 else 1)"
    using assms(3,4) that
    by (cases k) (fastforce simp: watch_add_a_init_def watch_add_k_init_def watch_add_p_init_def env_ok_def
        split: prod.splits)+
  note l = add_stream_leaves [OF assms(1,2) a]
  show "s \<noteq> Inl DanglingStream" "leaves r cs cs'" "inst_wf i'" "s = OK \<longrightarrow> inst_ref i' \<noteq> None"
    using l i' by auto
  show "gains i' cs cs'"
    using l(2) new_stream_feedable [OF _ _ rate] i' by (auto simp: gains_def)
qed

lemma spectral_init:
  assumes "cs_ok cs" "env_ok env" "args_ok (SpectralAdd p)" "watch_add_f_init env p cs = (s, p', cs')"
  shows "s \<noteq> Inl DanglingStream" "leaves ref cs cs'" "gains (SpectralAdd p') cs cs'" "inst_wf (SpectralAdd p')"
    "s = OK \<longrightarrow> op_stream p' \<noteq> None"
proof -
  have "s \<noteq> Inl DanglingStream \<and> leaves ref cs cs' \<and> gains (SpectralAdd p') cs cs' \<and> inst_wf (SpectralAdd p')
    \<and> (s = OK \<longrightarrow> op_stream p' \<noteq> None)"
  proof (cases "\<exists>sig ref2 h. op_signal p = Some sig \<and> sliding sig = 0 \<and> 0 < pv_n sig \<and> even (pv_n sig) \<and> 0 < overlap sig
      \<and> add_stream env h WATCH_DOMAIN_SPECTRUM WATCH_DOMAIN_SPECTROGRAM (to_float (esr env)) 1 None cs = (s, ref2, cs')
      \<and> op_stream p' = ref2 \<and> op_fft_size p' = of_int (pv_n sig) \<and> op_hop_size p' = of_int (overlap sig)")
    case True
    then obtain sig ref2 h where sig: "op_signal p = Some sig" "0 < pv_n sig" "even (pv_n sig)" "0 < overlap sig"
      and a: "add_stream env h WATCH_DOMAIN_SPECTRUM WATCH_DOMAIN_SPECTROGRAM (to_float (esr env)) 1 None cs = (s, ref2, cs')"
      and p': "op_stream p' = ref2" "op_fft_size p' = of_int (pv_n sig)" "op_hop_size p' = of_int (overlap sig)"
      by blast
    have b: "pv_n sig < 2 ^ 31" "overlap sig < 2 ^ 31" using assms(3) sig(1) by simp_all
    have nz: "(of_int x :: u32) \<noteq> 0" if "0 < x" "x < 2 ^ 31" for x
      using that u32_of_nat_eq_0 [of "nat x"] by simp
    obtain z where "pv_n sig = 2 * z" using sig(3) by (elim evenE)
    then have ev: "(of_int (pv_n sig) :: u32) AND 1 = 0" by (simp add: and_one_eq flip: even_iff_mod_2_eq_zero)
    note l = add_stream_leaves [OF assms(1) live_in_None a]
    have "rate_ok (esr env)" using assms(2) by (simp add: env_ok_def)
    then have "to_u32 (to_float (esr env)) \<noteq> None" by (rule rate_converts)
    then have "gains (SpectralAdd p') cs cs'"
      using l(2) new_stream_frames p'(1) by (auto simp: gains_def)
    moreover have "inst_wf (SpectralAdd p')" using p' nz b sig ev by simp
    ultimately show ?thesis using l leaves_None p'(1) by auto
  next
    case False
    then have "cs' = cs \<and> op_stream p' = None \<and> s \<noteq> OK \<and> s \<noteq> Inl DanglingStream"
      using assms(4)
      by (auto simp: watch_add_f_init_def Let_def not_le split: option.splits if_splits prod.splits)
    then show ?thesis using leaves_refl [OF assms(1)] by (simp add: gains_None)
  qed
  then show "s \<noteq> Inl DanglingStream" "leaves ref cs cs'" "gains (SpectralAdd p') cs cs'" "inst_wf (SpectralAdd p')"
    "s = OK \<longrightarrow> op_stream p' \<noteq> None" by blast+
qed

lemma meter_attach_gains:
  assumes "cs_ok cs1" "env_ok env" "mt_ref p1 = None" "length (mt_peak p1) = MAX_METER_CHANNELS"
    and "0 < nchnls config" "nchnls config \<le> MAX_METER_CHANNELS"
    and "meter_attach env config p1 cs1 = (s, p', cs')"
  shows "s \<noteq> Inl DanglingStream \<and> leaves ref cs1 cs' \<and> gains (Meter p') cs1 cs' \<and> inst_wf (Meter p')"
proof -
  let ?n = "unat (nchnls config)"
  have n: "0 < ?n" "?n \<le> 32" using assms(5,6) by (simp_all add: unat_gt_0 word_le_nat_alt word_neq_0_conv)
  obtain res r cs2 where a: "add_stream env (mt_handle p1) WATCH_DOMAIN_METER WATCH_DOMAIN_METER
      (to_float (ekr env)) ?n None cs1 = (res, r, cs2)" by (metis prod_cases3)
  note l = add_stream_leaves [OF assms(1) live_in_None a]
  have l1: "leaves ref cs1 cs2" using l(1) by (rule leaves_None)
  show ?thesis
  proof (cases "res = OK")
    case False
    obtain s3 p3 cs3 where t: "meter_teardown (p1\<lparr>mt_ref := r\<rparr>) False cs2 = (s3, p3, cs3)" by (metis prod_cases3)
    have r: "r = None" "res \<noteq> Inl DanglingStream" using l(2) False by auto
    have e: "s = res" "p' = p3" "cs' = cs3"
      using assms(3,7) a t False r by (simp_all add: meter_attach_def watch_meter_deinit_def Let_def)
    note td = meter_teardown_leaves [OF leaves_ok [OF l1] _ t]
    have "leaves ref cs1 cs3" using leaves_trans [OF l1 leaves_None] td r by simp
    then show ?thesis using td r e assms(4) by (simp add: gains_None)
  next
    case True
    have "rate_ok (ekr env)" using assms(2) by (simp add: env_ok_def)
    then obtain w where w: "meter_window (ekr env) = Some w" using rate_window by blast
    have e: "s = OK" "cs' = cs2" "p' = p1\<lparr>mt_ref := r, mt_frames_per_packet := w, mt_count := ?n, mt_frames := 0,
            mt_peak := replicate ?n (fneg FLT_MAX) @ drop ?n (mt_peak p1)\<rparr>"
      using assms(3,7) a True w by (auto simp: meter_attach_def Let_def)
    obtain b g slot where b: "r = Some b" "stream_at cs1 b = None"
      "stream_at cs2 b = Some (new_stream g slot (to_float (ekr env)) ?n)" "handle_of g \<noteq> 0" "slot < 64"
      using l(2) True by auto
    let ?st = "new_stream g slot (to_float (ekr env)) ?n"
    have "meter_ok (meter_view p' (Some ?st)) ?st []"
      using new_stream_frames [OF b(4,5)] n assms(4)
      by (simp add: meter_ok_def meter_view_def e(3) nth_append is_peak_Nil)
    then have "gains (Meter p') cs1 cs'"
      using b e by (auto simp: gains_def)
    moreover have "inst_wf (Meter p')" using n assms(4) by (simp add: e(3))
    ultimately show ?thesis using l1 e by simp
  qed
qed

lemma meter_init:
  assumes "cs_ok cs" "live_in cs (mt_ref p)" "env_ok env" "inst_wf (Meter p)" "watch_meter_init env p cs = (s, p', cs')"
  shows "s \<noteq> Inl DanglingStream \<and> leaves (mt_ref p) cs cs' \<and> gains (Meter p') cs cs' \<and> inst_wf (Meter p')"
proof -
  obtain torn p0 cs0 where t0: "meter_teardown p True cs = (torn, p0, cs0)" by (metis prod_cases3)
  note td = meter_teardown_leaves [OF assms(1,2) t0]
  note ok0 = leaves_ok [OF td(4)]
  have p0: "inst_wf (Meter p0)" "gains (Meter p0) cs c" for c using td assms(4) by (simp_all add: gains_None)
  show ?thesis
  proof (cases "torn = OK \<and> (\<exists>config. meter_config p0 = Inr config)")
    case False
    have "meter_config p0 \<noteq> Inl DanglingStream"
      by (auto simp: meter_config_def meter_channels_def numeric_range_def Let_def split: option.splits sum.splits if_splits)
    then have "s \<noteq> Inl DanglingStream" "p' = p0" "cs' = cs0"
      using False assms(5) t0 td(1) by (auto simp: watch_meter_init_def split: sum.splits if_splits)
    then show ?thesis using td p0 by simp
  next
    case True
    then obtain config where c: "meter_config p0 = Inr config" by blast
    have n: "0 < nchnls config" "nchnls config \<le> MAX_METER_CHANNELS"
      using c meter_channels_bounds
      by (auto simp: meter_config_def word_neq_0_conv split: sum.splits option.splits if_splits)
    obtain result h cs1 where g: "create_graph_in env (mt_handle p0) WATCH_DOMAIN_METER
        (zero_settings\<lparr>set_meter := config\<rparr>) (mt_title p0) WATCH_THEME_LIGHT cs0 = (result, h, cs1)"
      by (metis prod_cases3)
    have l1: "leaves (mt_ref p) cs cs1" using leaves_trans [OF td(4) create_leaves [OF ok0 g]] .
    have res: "result \<noteq> Inl DanglingStream"
      by (rule create_graph_cases [OF ok0 g]) auto
    let ?p1 = "p0\<lparr>mt_handle := h\<rparr>"
    have run: "(s, p', cs') = (if result \<noteq> OK then (result, ?p1, cs1)
      else if to_u32 h = Some 0 then (OK, ?p1, cs1) else meter_attach env config ?p1 cs1)"
      using assms(5) t0 True c g by (simp add: watch_meter_init_def Let_def)
    show ?thesis
    proof (cases "result \<noteq> OK \<or> to_u32 h = Some 0")
      case True
      then have "s \<noteq> Inl DanglingStream" "p' = ?p1" "cs' = cs1" using run res by (auto split: if_splits)
      then show ?thesis using l1 td(2) p0(1) by (simp add: gains_None)
    next
      case False
      then have "meter_attach env config ?p1 cs1 = (s, p', cs')" using run by simp
      from meter_attach_gains [OF leaves_ok [OF l1] assms(3) _ _ n this, of "mt_ref p"]
      show ?thesis using td(2) p0(1) l1 leaves_trans gains_earlier by auto
    qed
  qed
qed

lemma stored_leaves:
  assumes "cs_ok cs" "global_manager cs = Some m" "heap m a = Some st"
    and "st_graph_id st' = st_graph_id st" "st_stream_id st' = st_stream_id st"
    and "cs' = cs\<lparr>global_manager := Some (m\<lparr>heap := (heap m)(a \<mapsto> st')\<rparr>)\<rparr>"
  shows "leaves (Some a) cs cs'" "stream_at cs' a = Some st'"
  using assms reg_ok_update_stream [of m a st st'] by (auto simp: leaves_def cs_ok_def stream_at_def)

lemma ftable_attach_gains:
  assumes "cs_ok cs1" "tb_stream p1 = None" "tb_graph_id p1 \<noteq> INVALID_HANDLE"
    and "to_u32 h = Some (tb_graph_id p1)"
    and "ftable_attach env h snap p1 cs1 = (s, p', cs')"
  shows "s \<noteq> Inl DanglingStream \<and> leaves ref cs1 cs' \<and> gains (Table p') cs1 cs' \<and> inst_wf (Table p')"
proof -
  obtain res r cs2 where a: "add_stream env h WATCH_DOMAIN_FTABLE WATCH_DOMAIN_FTABLE
      (to_float (esr env)) 1 None cs1 = (res, r, cs2)" by (metis prod_cases3)
  note l = add_stream_leaves [OF assms(1) live_in_None a]
  have l1: "leaves ref cs1 cs2" for ref using l(1) by (rule leaves_None)
  show ?thesis
  proof (cases "res = OK")
    case False
    obtain s3 p3 cs3 where t: "ftable_teardown (p1\<lparr>tb_stream := r\<rparr>) False cs2 = (s3, p3, cs3)" by (metis prod_cases3)
    have r: "r = None" "res \<noteq> Inl DanglingStream" using l(2) False by auto
    have e: "s = res" "p' = p3" "cs' = cs3"
      using assms(2,5) a t False r by (simp_all add: ftable_attach_def watch_ftable_deinit_def Let_def)
    note td = ftable_teardown_leaves [OF leaves_ok [OF l1] _ t]
    have "leaves ref cs1 cs3" using leaves_trans [OF l1 leaves_None] td r by simp
    then show ?thesis using td r e by (simp add: gains_None)
  next
    case True
    obtain b g slot where b: "r = Some b" "stream_at cs1 b = None"
      "stream_at cs2 b = Some (new_stream g slot (to_float (esr env)) 1)" "tb_graph_id p1 = handle_of g"
      using l(2) True assms(4) by auto
    then obtain m where m: "global_manager cs2 = Some m" "heap m b = Some (new_stream g slot (to_float (esr env)) 1)"
      by (auto simp: stream_at_def split: option.splits)
    let ?st = "start_transfer snap (sample_time env) (new_stream g slot (to_float (esr env)) 1)"
    have e: "s = OK" "p' = p1\<lparr>tb_stream := Some b\<rparr>"
      "cs' = cs2\<lparr>global_manager := Some (m\<lparr>heap := (heap m)(b \<mapsto> ?st)\<rparr>)\<rparr>"
      using assms(2,5) a True b(1) m by (simp_all add: ftable_attach_def Let_def)
    have ids: "st_graph_id ?st = handle_of g" "st_stream_id ?st = of_nat slot" "\<not> release_requested ?st"
      by (simp_all add: start_transfer_def)
    note st = stored_leaves [OF leaves_ok [OF l1] m _ _ e(3)]
    have l2: "leaves (Some b) cs2 cs'" using st(1) ids by simp
    have "leaves ref cs1 cs'"
      using l1 [of ref] l2 b(2) unfolding leaves_def by (metis option.inject option.distinct(1))
    moreover have "gains (Table p') cs1 cs'"
      using st(2) ids b e(2) by (auto simp: gains_def)
    ultimately show ?thesis using e assms(3) by simp
  qed
qed

lemma ftable_init:
  assumes "cs_ok cs" "live_in cs (tb_stream p)" "inst_wf (Table p)" "watch_ftable env p cs = (s, p', cs')"
  shows "s \<noteq> Inl DanglingStream \<and> leaves (tb_stream p) cs cs' \<and> gains (Table p') cs cs' \<and> inst_wf (Table p')"
proof -
  obtain torn p0 cs0 where t0: "ftable_teardown p True cs = (torn, p0, cs0)" by (metis prod_cases3)
  note td = ftable_teardown_leaves [OF assms(1,2) t0 assms(3) [unfolded inst_wf.simps]]
  note ok0 = leaves_ok [OF td(4)]
  have p0: "inst_wf (Table p0)" "gains (Table p0) cs c" for c using td by (simp_all add: gains_None)
  show ?thesis
  proof (cases "ftable_checks env p0")
    case (Inl e)
    then have "e \<noteq> DanglingStream"
      by (auto simp: ftable_checks_def numeric_range_def Let_def split: option.splits sum.splits if_splits)
    moreover have "s = Inl e" "p' = p0" "cs' = cs0"
      using assms(4) t0 td(1) Inl by (simp_all add: watch_ftable_def)
    ultimately show ?thesis using td(4) p0 by simp
  next
    case (Inr x)
    obtain config snap th where x: "x = (config, snap, th)" by (cases x)
    obtain result h cs1 where g: "create_graph_in env (of_u32 f64 INVALID_HANDLE) WATCH_DOMAIN_FTABLE
        (zero_settings\<lparr>set_ftable := config\<rparr>) (tb_title p0) th cs0 = (result, h, cs1)"
      by (metis prod_cases3)
    have l1: "leaves (tb_stream p) cs cs1" using leaves_trans [OF td(4) create_leaves [OF ok0 g]] .
    have res: "result \<noteq> Inl DanglingStream" by (rule create_graph_cases [OF ok0 g]) auto
    have run: "(s, p', cs') = (if result \<noteq> OK \<or> feq h (of_u32 f64 INVALID_HANDLE) then (result, p0, cs1) else
     (case to_u32 h of None \<Rightarrow> (Inl UndefinedConversion, p0, cs1)
      | Some k \<Rightarrow> ftable_attach env h snap (p0\<lparr>tb_graph_id := k\<rparr>) cs1))"
      using assms(4) t0 td(1) Inr x g by (simp add: watch_ftable_def)
    show ?thesis
    proof (cases "result \<noteq> OK \<or> feq h (of_u32 f64 INVALID_HANDLE) \<or> to_u32 h = None")
      case True
      then have "s \<noteq> Inl DanglingStream" "p' = p0" "cs' = cs1" using run res by (auto split: if_splits)
      then show ?thesis using l1 p0 by simp
    next
      case False
      then obtain k where k: "to_u32 h = Some k" by auto
      have z: "of_u32 f64 (0 :: u32) = Fin 0" by (simp add: of_u32_f64)
      have "k \<noteq> 0"
        by (rule create_graph_cases [OF ok0 g])
          (use False k in \<open>auto simp: z graph_created_def to_u32_of_u32 simp del: to_u32.simps\<close>)
      moreover have "ftable_attach env h snap (p0\<lparr>tb_graph_id := k\<rparr>) cs1 = (s, p', cs')" using run False k by simp
      ultimately show ?thesis
        using ftable_attach_gains [OF leaves_ok [OF l1], of "p0\<lparr>tb_graph_id := k\<rparr>" h env snap s p' cs' "tb_stream p"]
          k td(2) l1 leaves_trans gains_earlier by auto
    qed
  qed
qed

text \<open>Every initialisation pass: it uses no stream that is not there, leaves the streams of the other
  instances alone, and never keeps the pointer it found.\<close>

lemma init_pass_gains:
  assumes "cs_ok cs" "live_in cs (inst_ref i)" "inst_wf i" "env_ok env" "args_ok i"
    and "init_pass env i cs = (s, i', cs')"
  shows "s \<noteq> Inl DanglingStream" "leaves (inst_ref i) cs cs'" "gains i' cs cs'" "inst_wf i'"
    "s = OK \<Longrightarrow> (\<exists>k h r. i = TimeAdd k h r) \<or> (\<exists>p. i = SpectralAdd p) \<Longrightarrow> inst_ref i' \<noteq> None"
proof -
  have "s \<noteq> Inl DanglingStream \<and> leaves (inst_ref i) cs cs' \<and> gains i' cs cs' \<and> inst_wf i'
    \<and> (s = OK \<longrightarrow> (\<exists>k h r. i = TimeAdd k h r) \<or> (\<exists>p. i = SpectralAdd p) \<longrightarrow> inst_ref i' \<noteq> None)"
  proof (cases i)
    case (TimeAdd k h r)
    then show ?thesis using time_init [of cs r env k h s i' cs'] assms by simp
  next
    case (SpectralAdd p)
    obtain s1 p1 cs1 where r: "watch_add_f_init env p cs = (s1, p1, cs1)" by (metis prod_cases3)
    have "args_ok (SpectralAdd p)" using assms(5) SpectralAdd by simp
    note t = spectral_init [OF assms(1,4) this r]
    have "s1 = s" "i' = SpectralAdd p1" "cs1 = cs'" using assms(6) SpectralAdd r by auto
    then show ?thesis using t SpectralAdd by simp
  next
    case (Meter p)
    obtain s1 p1 cs1 where r: "watch_meter_init env p cs = (s1, p1, cs1)" by (metis prod_cases3)
    have "live_in cs (mt_ref p)" "inst_wf (Meter p)" using assms(2,3) Meter by simp_all
    note t = meter_init [OF assms(1) this(1) assms(4) this(2) r]
    have "s1 = s" "i' = Meter p1" "cs1 = cs'" using assms(6) Meter r by auto
    then show ?thesis using t Meter by simp
  next
    case (Table p)
    obtain s1 p1 cs1 where r: "watch_ftable env p cs = (s1, p1, cs1)" by (metis prod_cases3)
    have "live_in cs (tb_stream p)" "inst_wf (Table p)" using assms(2,3) Table by simp_all
    note t = ftable_init [OF assms(1) this r]
    have "s1 = s" "i' = Table p1" "cs1 = cs'" using assms(6) Table r by auto
    then show ?thesis using t Table by simp
  next
    case (TitledTable p)
    define q where "q = \<lparr>tb_table = tt_table p, tb_ymin = tt_ymin p, tb_ymax = tt_ymax p,
            tb_theme = None, tb_title = tt_title p, tb_stream = tt_stream p, tb_graph_id = tt_graph_id p\<rparr>"
    obtain s1 p1 cs1 where r: "watch_ftable env q cs = (s1, p1, cs1)" by (metis prod_cases3)
    have q: "live_in cs (tb_stream q)" "inst_wf (Table q)" "tb_stream q = tt_stream p"
      using assms(2,3) TitledTable by (simp_all add: q_def)
    note t = ftable_init [OF assms(1) q(1,2) r]
    have "s = s1" "i' = TitledTable (p\<lparr>tt_stream := tb_stream p1, tt_graph_id := tb_graph_id p1\<rparr>)" "cs' = cs1"
      using assms(6) TitledTable r by (auto simp: watch_ftable_title_def q_def [symmetric] Let_def)
    then show ?thesis using t TitledTable q(3) by (simp add: gains_def)
  qed
  then show "s \<noteq> Inl DanglingStream" "leaves (inst_ref i) cs cs'" "gains i' cs cs'" "inst_wf i'"
    "s = OK \<Longrightarrow> (\<exists>k h r. i = TimeAdd k h r) \<or> (\<exists>p. i = SpectralAdd p) \<Longrightarrow> inst_ref i' \<noteq> None" by blast+
qed

section \<open>Performance passes\<close>

definition cycle_ok :: "CYCLE \<Rightarrow> bool" where
  "cycle_ok c \<longleftrightarrow> 0 \<le> cy_now c \<and> 0 \<le> cy_kcounter c \<and> cy_early c \<le> cy_ksmps c
     \<and> length (cy_signal c) = cy_ksmps c"

text \<open>A pass changes the packets of a stream, not what the registry knows of it.\<close>

definition same_entry :: "WATCH_STREAM \<Rightarrow> WATCH_STREAM \<Rightarrow> bool" where
  "same_entry st st' \<longleftrightarrow> st_graph_id st' = st_graph_id st \<and> st_stream_id st' = st_stream_id st
     \<and> release_requested st' = release_requested st"

lemma add_f_loop_entry: "same_entry st (add_f_loop p fid seq rate fr nbins off st)"
proof (induction p fid seq rate fr nbins off st rule: add_f_loop.induct)
  case (1 p fid seq rate fr nbins off st)
  show ?case
    by (subst add_f_loop.simps)
      (use 1 in \<open>auto simp: same_entry_def Let_def drop_samples_def update_slot_def\<close>)
qed

lemma watch_meter_entry:
  "mt_stream p = Some st \<Longrightarrow> mt_stream (watch_meter ch seq p) = Some st' \<Longrightarrow> same_entry st st'"
  by (auto simp: watch_meter_def same_entry_def Let_def drop_samples_def publish_meter_packet_def update_slot_def
      split: option.splits if_splits)

lemma time_performs:
  assumes "fits (TimeAdd k h r) st" "cycle_ok c"
  shows "\<exists>st'. perform_on c (TimeAdd k h r) st = Some (TimeAdd k h r, st') \<and> fits (TimeAdd k h r) st'
    \<and> same_entry st st'"
proof -
  have f: "time_ok (kind_type k) st" "pending_samples st < publish_threshold st"
    using assms(1) by (simp_all add: feedable_def)
  have "\<exists>st' fs l. perform_on c (TimeAdd k h r) st = Some (TimeAdd k h r, st') \<and> appended (kind_type k) st fs l st'"
  proof (cases k)
    case AUDIO
    then show ?thesis
      using watch_add_a_block [of st "cy_now c" "cy_early c" "cy_ksmps c" "cy_signal c" "cy_offset c"] f assms(2)
      by (fastforce simp: cycle_ok_def)
  next
    case CONTROL
    then show ?thesis using watch_add_k_spec [of st "cy_kcounter c" "cy_x c"] f assms(2)
      by (fastforce simp: cycle_ok_def)
  next
    case POINT
    then show ?thesis using watch_add_p_spec [of st "cy_kcounter c" "cy_x c" "cy_y c"] f assms(2)
      by (fastforce simp: cycle_ok_def)
  qed
  then show ?thesis by (auto simp: appended_def feedable_def same_entry_def)
qed

lemma spectral_performs:
  assumes "fits (SpectralAdd p) st" "inst_wf (SpectralAdd p)" "op_stream p \<noteq> None" "cycle_ok c"
  shows "\<exists>p' st'. perform_on c (SpectralAdd p) st = Some (SpectralAdd p', st') \<and> op_stream p' = op_stream p
    \<and> inst_wf (SpectralAdd p') \<and> fits (SpectralAdd p') st' \<and> same_entry st st'"
proof -
  let ?p = "spectral_view p st"
  obtain rate where rate: "to_u32 (st_sample_rate st) = Some rate" and ok: "frame_stream_ok spectral_checked st"
    using assms(1) by auto
  have src: "spectral_source_ok ?p" using assms(2,3) by (simp add: spectral_source_ok_def spectral_view_def)
  have now: "0 \<le> cy_now c" using assms(4) by (simp add: cycle_ok_def)
  show ?thesis
  proof (cases "cy_framecount c = op_last_frame_id p \<or> cy_frame c = None")
    case True
    then have "watch_add_f (cy_framecount c) (cy_frame c) (cy_now c) ?p = Some ?p"
      by (auto simp: watch_add_f_def spectral_view_def)
    then show ?thesis using assms(1,2) by (simp add: spectral_view_def same_entry_def)
  next
    case False
    then obtain fr where fr: "cy_frame c = Some fr" by auto
    define nbins where "nbins = unat (af_fft_size ?p div 2 + 1)"
    let ?st' = "add_f_loop ?p (cy_framecount c) (cy_now c) rate fr nbins 0 st"
    have ids: "st_graph_id (af_stream ?p) \<noteq> 0" "st_stream_id (af_stream ?p) < 64"
      using frame_stream_okD(2,3) [OF ok] by (simp_all add: spectral_view_def)
    have "frame_stream_ok spectral_checked ?st' \<and> st_sample_rate ?st' = st_sample_rate st"
      using add_f_loop_spec [OF src now ids nbins_def ok, of 0 "cy_framecount c" rate fr] by (auto simp: Let_def)
    moreover have "watch_add_f (cy_framecount c) (cy_frame c) (cy_now c) ?p
        = Some (?p\<lparr>af_stream := ?st', last_frame_id := cy_framecount c\<rparr>)"
      using False fr rate by (simp add: watch_add_f_def nbins_def Let_def) (simp add: spectral_view_def)
    ultimately show ?thesis using assms(2) rate add_f_loop_entry by simp
  qed
qed

lemma meter_performs:
  assumes "fits (Meter p) st" "inst_wf (Meter p)" "cycle_ok c"
  shows "\<exists>p' st'. perform_on c (Meter p) st = Some (Meter p', st') \<and> mt_ref p' = mt_ref p
    \<and> inst_wf (Meter p') \<and> fits (Meter p') st' \<and> same_entry st st'"
proof -
  let ?v = "meter_view p (Some st)"
  let ?q = "watch_meter (cy_channels c) (cy_kcounter c) ?v"
  obtain history where m: "meter_ok ?v st history" using assms(1) by auto
  have view: "?q = meter_view (p\<lparr>mt_peak := peak ?q, mt_frames := frames ?q\<rparr>) (Some st')"
    if "mt_stream ?q = Some st'" for st'
    using that by (auto simp: watch_meter_def meter_view_def Let_def split: option.splits)
  have "\<exists>st' history'. mt_stream ?q = Some st' \<and> meter_ok ?q st' history'"
  proof (cases "\<exists>data. cy_channels c = Some data \<and> mt_nchnls ?v \<le> length data")
    case True
    then obtain data where d: "cy_channels c = Some data" "mt_nchnls ?v \<le> length data" by blast
    have "\<exists>st' h. meter_ok (watch_meter (Some data) (cy_kcounter c) ?v) st' h"
      using watch_meter_spec [OF m d(2), of "cy_kcounter c"] assms(3)
      by (auto simp: cycle_ok_def split: if_splits)
    then show ?thesis using d(1) by (auto simp: meter_ok_def)
  next
    case False
    then have "?q = ?v" by (auto simp: watch_meter_def meter_view_def Let_def split: option.splits)
    then show ?thesis using m by (auto simp: meter_ok_def)
  qed
  then obtain st' history' where s: "mt_stream ?q = Some st'" "meter_ok ?q st' history'" by blast
  have "same_entry st st'" using watch_meter_entry [OF _ s(1)] by (simp add: meter_view_def)
  moreover have "length (peak ?q) = MAX_METER_CHANNELS" using s(2) by (simp add: meter_ok_def)
  moreover have "fits (Meter (p\<lparr>mt_peak := peak ?q, mt_frames := frames ?q\<rparr>)) st'"
    using s(2) view [OF s(1)] by auto
  ultimately show ?thesis using s(1) by (simp add: Let_def)
qed

lemma performs:
  assumes "inst_ref i \<noteq> None" "fits i st" "inst_wf i" "cycle_ok c"
  shows "\<exists>i' st'. perform_on c i st = Some (i', st') \<and> inst_ref i' = inst_ref i \<and> inst_wf i' \<and> fits i' st'
    \<and> same_entry st st'"
proof (cases i)
  case (TimeAdd k h r)
  then show ?thesis using time_performs [of k h r st c] assms(2,4) by auto
next
  case (SpectralAdd p)
  then show ?thesis using spectral_performs [of p st c] assms by fastforce
next
  case (Meter p)
  then show ?thesis using meter_performs [of p st c] assms(2-4) by fastforce
qed (use assms in \<open>auto simp: same_entry_def\<close>)

end
