(* ===== verification/Session.thy ===== *)
theory Session
  imports Instances
begin

text \<open>
  A session of the plugin: opcodes of any number of instances, the registry they share and the sender
  thread, interleaved in any order (\<^verbatim>\<open>src/src/watch.c\<close>). A step of \<open>session_step\<close>
  is one pass of an opcode (every row of \<^verbatim>\<open>localops\<close>: initialisation, performance and
  deinitialisation of the instances of \<open>Instances\<close>, the calls of the other opcodes in
  \<open>graph_call\<close>), one round of the sender, or the reset of the process. The invariant says that no
  pointer an opcode holds ever dangles, whatever the order; what the sender does to a single stream
  reaches it through the locale \<open>stream_guard\<close>.
\<close>

section \<open>What the sender's rounds keep of a stream\<close>

text \<open>A property of streams that the two sending passes keep.\<close>

locale stream_guard =
  fixes P :: "WATCH_STREAM \<Rightarrow> bool"
  assumes stream_pass: "P st \<Longrightarrow> send_stream_packets ok st w = (st', w') \<Longrightarrow> P st'"
    and table_pass: "P st \<Longrightarrow> send_ftable_packets ok st w = (st', w') \<Longrightarrow> P st'"
begin

definition guarded :: "(nat \<rightharpoonup> WATCH_STREAM) \<Rightarrow> (nat \<rightharpoonup> WATCH_STREAM) \<Rightarrow> bool" where
  "guarded h h' \<longleftrightarrow> (\<forall>a st'. h' a = Some st' \<longrightarrow> (\<exists>st. h a = Some st \<and> (P st \<longrightarrow> P st')))"

lemma guarded_refl [simp]: "guarded h h"
  by (simp add: guarded_def)

lemma guarded_trans [trans]: "guarded h h1 \<Longrightarrow> guarded h1 h2 \<Longrightarrow> guarded h h2"
  unfolding guarded_def by blast

lemma guarded_upd: "h a = Some st \<Longrightarrow> (P st \<Longrightarrow> P st') \<Longrightarrow> guarded h (h(a \<mapsto> st'))"
  by (simp add: guarded_def)

lemma guarded_free [simp]: "guarded h (free_stream r h)"
  by (cases r) (auto simp: guarded_def free_stream_def)

lemma guarded_free_graph [simp]: "guarded h (free_graph g h)"
proof -
  have "guarded h (fold free_stream refs h)" for refs
    by (induction refs arbitrary: h) (auto intro: guarded_trans [OF guarded_free])
  then show ?thesis by (simp add: free_graph_def split: option.split)
qed

lemma send_slots_guarded: "send_slots ok refs h w = Some (h', w') \<Longrightarrow> guarded h h'"
proof (induction ok refs h w rule: send_slots.induct)
  case (3 ok a refs h w)
  then obtain st where st: "h a = Some st" by (auto split: option.splits)
  obtain st1 w1 st2 w2 where r: "send_stream_packets ok st w = (st1, w1)"
    "send_ftable_packets ok st1 w1 = (st2, w2)" by fastforce
  have "guarded h (h(a \<mapsto> st2))"
    using st stream_pass [OF _ r(1)] table_pass [OF _ r(2)] by (simp add: guarded_def)
  moreover have "guarded (h(a \<mapsto> st2)) h'"
    using "3.IH" [OF st r(1) [symmetric] r(2) [symmetric]] "3.prems" st r by (simp del: fun_upd_apply)
  ultimately show ?case by (rule guarded_trans)
qed auto

lemma release_loop_guarded: "release_loop d i ss m = Some m' \<Longrightarrow> guarded (heap m) (heap m')"
proof (induction d i ss m rule: release_loop.induct)
  case (2 d i s ss m)
  show ?case
  proof (cases "streams (graph_at m i) ! s")
    case None
    then show ?thesis using "2.IH"(1) "2.prems" by simp
  next
    case (Some a)
    then obtain st where st: "heap m a = Some st" using "2.prems" by (auto split: option.splits)
    show ?thesis
    proof (cases "\<not> release_requested st \<or> d \<and> \<not> stream_transfer_complete st")
      case True
      then show ?thesis using "2.IH"(2) "2.prems" Some st by simp
    next
      case False
      note IH = "2.IH"(3) [OF Some st False refl]
      have "guarded (free_stream (Some a) (heap m)) (heap m')"
        using IH "2.prems" Some st False by (auto simp: Let_def split: if_splits)
      then show ?thesis using guarded_trans [OF guarded_free] by blast
    qed
  qed
qed simp

lemma finish_graph_guarded:
  assumes "finish_graph ab i m = Some m'"
  shows "guarded (heap m) (heap m')"
proof -
  obtain m1 where m1: "release_finished_streams (\<not> ab) i m = Some m1"
    using assms by (auto simp: finish_graph_def split: option.splits)
  have "guarded (heap m) (heap m1)"
    using m1 by (simp add: release_finished_streams_def release_loop_guarded)
  moreover have "guarded (heap m1) (heap m')"
    using assms m1 by (auto simp: finish_graph_def Let_def split: if_splits)
  ultimately show ?thesis by (rule guarded_trans)
qed

lemma visit_graph_guarded:
  assumes "visit_graph ok now_ms now i m w = Some (m', w', u)"
  shows "guarded (heap m) (heap m')"
proof (cases "graphs m ! i")
  case (Some g)
  show ?thesis
  proof (cases "is_config_acked g")
    case True
    then obtain h1 w1 where s: "send_slots ok (streams g) (heap m) w = Some (h1, w1)"
      using assms Some by (auto simp: visit_graph_def split: option.splits)
    then have "guarded h1 (heap m')"
      using assms Some True
      by (auto simp: visit_graph_def Let_def update_graph_def dest!: finish_graph_guarded split: if_splits)
    with send_slots_guarded [OF s] show ?thesis by (rule guarded_trans)
  next
    case False
    then show ?thesis
      using assms Some
      by (auto simp: visit_graph_def Let_def update_graph_def intro: finish_graph_guarded split: if_splits)
  qed
qed (use assms in \<open>simp add: visit_graph_def\<close>)

lemma visit_graphs_guarded:
  "visit_graphs ok now_ms now is m w = Some (m', w', u) \<Longrightarrow> guarded (heap m) (heap m')"
proof (induction "is" arbitrary: m w m' w' u)
  case (Cons i "is")
  then obtain m1 w1 u1 u2 where
    "visit_graph ok now_ms now i m w = Some (m1, w1, u1)" "visit_graphs ok now_ms now is m1 w1 = Some (m', w', u2)"
    by (auto split: option.splits)
  then show ?case using Cons.IH visit_graph_guarded guarded_trans by blast
qed simp

lemma receive_acks_heap [simp]: "heap (receive_acks inbox m) = heap m"
  by (induction inbox m rule: receive_acks.induct)
    (auto simp: accept_ack_def update_graph_def Let_def split: option.splits)

theorem sender_round_guarded:
  assumes "sender_round ok inbox now_ms now launch m w = Some (m', w', rep)"
  shows "guarded (heap m) (heap m')"
proof -
  let ?m0 = "receive_acks inbox m"
  obtain m1 w1 u where v: "visit_graphs ok now_ms now [0..<graph_capacity ?m0] ?m0 w = Some (m1, w1, u)"
    using assms by (auto simp: sender_round_def Let_def split: option.splits)
  have "heap m' = heap m1"
    using assms v by (auto simp: sender_round_def try_launch_viewer_def Let_def split: if_splits)
  then show ?thesis using visit_graphs_guarded [OF v] by simp
qed

end

text \<open>The passes change the read position and the table transfer of a stream, nothing else.\<close>

lemma send_ftable_packets_frame:
  assumes "send_ftable_packets ok st w = (st', w')"
  shows "\<exists>n s. st' = st\<lparr>ftable_next_sample := n, ftable_samples := s\<rparr>"
proof -
  have loop: "\<exists>n. fst (send_ftable_loop ok k st w) = st\<lparr>ftable_next_sample := n\<rparr>" for k
  proof (induction ok k st w rule: send_ftable_loop.induct)
    case (1 ok st w)
    show ?case by (intro exI [of _ "ftable_next_sample st"]) simp
  next
    case (2 ok n st w)
    show ?case
    proof (cases "ftable_samples st")
      case (Some table)
      show ?thesis
      proof (cases "ftable_next_sample st < ftable_total_samples st \<and> ok (attempts w)")
        case True
        with "2.IH" [OF Some] show ?thesis
          using Some by (auto simp: send_packet_def ftable_advance_def split: prod.splits bool.splits)
      next
        case False
        then show ?thesis
          using Some by (intro exI [of _ "ftable_next_sample st"]) (auto simp: send_packet_def)
      qed
    qed (auto intro: exI [of _ "ftable_next_sample st"])
  qed
  obtain st1 w1 ret where "send_ftable_loop ok 8 st w = (st1, w1, ret)" by (metis prod_cases3)
  with loop [of 8] assms obtain n where "st1 = st\<lparr>ftable_next_sample := n\<rparr>"
    "st' = st1 \<or> st' = st1\<lparr>ftable_samples := None\<rparr>"
    by (auto simp: send_ftable_packets_def split: if_splits)
  moreover have "st\<lparr>ftable_next_sample := n\<rparr>
      = st\<lparr>ftable_next_sample := n, ftable_samples := ftable_samples st\<rparr>" by simp
  ultimately show ?thesis by metis
qed

interpretation fed: stream_guard "feedable ty" for ty
proof
  fix st st' w w' ok
  assume f: "feedable ty st" and "send_stream_packets ok st w = (st', w')"
  then obtain k where p: "sent_prefix st w k st' w'"
    using send_stream_loop_spec [of st ok 8 w st' w'] time_okD(1)
    by (auto simp: send_stream_packets_def feedable_def)
  then obtain r where "st' = st\<lparr>read_pos := r\<rparr>" by (auto simp: sent_prefix_def)
  then show "feedable ty st'" using f time_ok_sent_prefix [OF _ p] by (auto simp: feedable_def)
next
  fix st st' w w' ok
  assume f: "feedable ty st" and "send_ftable_packets ok st w = (st', w')"
  then obtain n s where "st' = st\<lparr>ftable_next_sample := n, ftable_samples := s\<rparr>"
    using send_ftable_packets_frame by blast
  then show "feedable ty st'"
    using f by (simp add: feedable_def time_ok_def queue_wf_def queued_def time_ident_def
        queue_full_def slot_open_def write_slot_def)
qed

interpretation framed: stream_guard "frame_stream_ok V" for V
proof
  fix st st' w w' ok
  assume f: "frame_stream_ok V st" and "send_stream_packets ok st w = (st', w')"
  then obtain k where "sent_prefix st w k st' w'"
    using send_stream_loop_spec [of st ok 8 w st' w'] frame_stream_okD(1)
    by (auto simp: send_stream_packets_def)
  then show "frame_stream_ok V st'" by (rule frame_stream_sent [OF f])
next
  fix st st' w w' ok
  assume f: "frame_stream_ok V st" and "send_ftable_packets ok st w = (st', w')"
  then obtain n s where "st' = st\<lparr>ftable_next_sample := n, ftable_samples := s\<rparr>"
    using send_ftable_packets_frame by blast
  then show "frame_stream_ok V st'"
    using f by (simp add: frame_stream_ok_def queue_wf_def queued_def)
qed

text \<open>What an instance relies on in its stream survives a round.\<close>

interpretation converted: stream_guard "\<lambda>st. queue_wf st \<and> to_u32 (st_sample_rate st) \<noteq> None"
proof
  fix st st' w w' ok
  assume f: "queue_wf st \<and> to_u32 (st_sample_rate st) \<noteq> None" and r: "send_stream_packets ok st w = (st', w')"
  have q: "queue_wf st" using f by simp
  obtain k where "sent_prefix st w k st' w'"
    using send_stream_loop_spec [of st ok 8 w st' w'] r q by (auto simp: send_stream_packets_def)
  then obtain p where "st' = st\<lparr>read_pos := p\<rparr>" "queue_wf st'" by (auto simp: sent_prefix_def)
  then show "queue_wf st' \<and> to_u32 (st_sample_rate st') \<noteq> None" using f by simp
next
  fix st st' w w' ok
  assume f: "queue_wf st \<and> to_u32 (st_sample_rate st) \<noteq> None" and "send_ftable_packets ok st w = (st', w')"
  then obtain n s where "st' = st\<lparr>ftable_next_sample := n, ftable_samples := s\<rparr>"
    using send_ftable_packets_frame by blast
  then show "queue_wf st' \<and> to_u32 (st_sample_rate st') \<noteq> None" using f by (simp add: queue_wf_def)
qed

lemma round_fits:
  assumes r: "sender_round ok inbox now_ms now launch m w = Some (m', w', rep)"
    and st: "heap m a = Some st" "heap m' a = Some st'" and same: "st_graph_id st' = st_graph_id st"
    and f: "fits i st"
  shows "fits i st'"
proof (cases i)
  case (TimeAdd k h r)
  then show ?thesis using fed.sender_round_guarded [OF assms(1), of "kind_type k"] st f
    unfolding fed.guarded_def by fastforce
next
  case (SpectralAdd p)
  have "frame_stream_ok spectral_checked st'"
    using framed.sender_round_guarded [OF assms(1), of spectral_checked] st f SpectralAdd
    unfolding framed.guarded_def by fastforce
  moreover have "queue_wf st" using f SpectralAdd by (simp add: frame_stream_ok_def)
  then have "to_u32 (st_sample_rate st') \<noteq> None"
    using converted.sender_round_guarded [OF assms(1)] st f SpectralAdd
    unfolding converted.guarded_def by fastforce
  ultimately show ?thesis using SpectralAdd by simp
next
  case (Meter p)
  have "frame_stream_ok validate_meter_data_packet st'"
    using framed.sender_round_guarded [OF assms(1), of validate_meter_data_packet] st f Meter
    unfolding framed.guarded_def by (fastforce simp: meter_ok_def)
  moreover obtain history where "meter_ok (meter_view p (Some st)) st history" using f Meter by auto
  ultimately have "meter_ok (meter_view p (Some st')) st' history" by (simp add: meter_ok_def meter_view_def)
  then show ?thesis using Meter by auto
qed (use f same in simp_all)

section \<open>Sessions\<close>

text \<open>The calls of the opcodes that hold no stream: they create, destroy and recolour graphs, through a
  handle in a Csound variable, which may be anything.\<close>

inductive graph_call :: "CSOUND \<Rightarrow> CSOUND \<Rightarrow> bool" where
  scope: "watch_create_scope env p cs = (s, p', cs') \<Longrightarrow> graph_call cs cs'"
| control: "watch_create_control env p cs = (s, p', cs') \<Longrightarrow> graph_call cs cs'"
| spectrum: "watch_create_spectrum env q cs = (s, q', cs') \<Longrightarrow> graph_call cs cs'"
| spectrogram: "watch_create_spectrogram env hist q cs = (s, q', cs') \<Longrightarrow> graph_call cs cs'"
| point: "watch_create_point env r cs = (s, r', cs') \<Longrightarrow> graph_call cs cs'"
| destroy: "watch_deinit cell cs = (s, cell', cs') \<Longrightarrow> graph_call cs cs'"
| theme: "watch_theme h th (global_manager cs) = (s, mo) \<Longrightarrow> graph_call cs (cs\<lparr>global_manager := mo\<rparr>)"

text \<open>\<open>instances\<close> has the instances of the opcodes that hold a stream. An instance stays where it is
  after its deinitialisation pass: Csound may initialise it again, for another note. A reset frees all
  instances and the manager.\<close>

record SESSION =
  csound :: CSOUND
  instances :: "nat \<rightharpoonup> INSTANCE"
  wire :: net

inductive session_step :: "SESSION \<Rightarrow> SESSION \<Rightarrow> bool" where
  graph: "graph_call (csound s) cs' \<Longrightarrow> session_step s (s\<lparr>csound := cs'\<rparr>)"
| first: "\<lbrakk>instances s n = None; fresh i; args_ok i; env_ok env; init_pass env i (csound s) = (res, i', cs')\<rbrakk> \<Longrightarrow>
    session_step s (s\<lparr>csound := cs', instances := (instances s)(n \<mapsto> i')\<rparr>)"
| again: "\<lbrakk>instances s n = Some i; same_memory i j; args_ok j; env_ok env;
    init_pass env j (csound s) = (res, i', cs')\<rbrakk> \<Longrightarrow>
    session_step s (s\<lparr>csound := cs', instances := (instances s)(n \<mapsto> i')\<rparr>)"
| deinit: "\<lbrakk>instances s n = Some i; same_memory i j; deinit_pass j (csound s) = (res, i', cs')\<rbrakk> \<Longrightarrow>
    session_step s (s\<lparr>csound := cs', instances := (instances s)(n \<mapsto> i')\<rparr>)"
| perform: "\<lbrakk>instances s n = Some i; same_memory i j; cycle_ok c; perform c j (csound s) = Some (i', cs')\<rbrakk> \<Longrightarrow>
    session_step s (s\<lparr>csound := cs', instances := (instances s)(n \<mapsto> i')\<rparr>)"
| round: "\<lbrakk>global_manager (csound s) = Some m;
    sender_round ok inbox now_ms now launch m (wire s) = Some (m', w', rep)\<rbrakk> \<Longrightarrow>
    session_step s (s\<lparr>csound := (csound s)\<lparr>global_manager := Some m'\<rparr>, wire := w'\<rparr>)"
| reset: "\<lbrakk>global_manager (csound s) = Some m;
    manager_reset ok now m (resources (csound s)) (wire s) = (m', r', w')\<rbrakk> \<Longrightarrow>
    session_step s \<lparr>csound = \<lparr>global_manager = None, resources = r'\<rparr>, instances = (\<lambda>_. None), wire = w'\<rparr>"

text \<open>The invariant: a consistent registry, and every held pointer is the only one to a live stream
  which its opcode has not released and which is fit for it.\<close>

definition holds :: "CSOUND \<Rightarrow> INSTANCE \<Rightarrow> bool" where
  "holds cs i \<longleftrightarrow> inst_wf i \<and> (\<forall>a. inst_ref i = Some a \<longrightarrow>
     (\<exists>st. stream_at cs a = Some st \<and> \<not> release_requested st \<and> fits i st))"

definition session_ok :: "SESSION \<Rightarrow> bool" where
  "session_ok s \<longleftrightarrow> cs_ok (csound s)
     \<and> (\<forall>n i. instances s n = Some i \<longrightarrow> holds (csound s) i)
     \<and> (\<forall>n n' i i' a. instances s n = Some i \<longrightarrow> instances s n' = Some i' \<longrightarrow>
          inst_ref i = Some a \<longrightarrow> inst_ref i' = Some a \<longrightarrow> n = n')"

lemma session_okD:
  assumes "session_ok s"
  shows "cs_ok (csound s)" "instances s n = Some i \<Longrightarrow> holds (csound s) i"
    "instances s n = Some i \<Longrightarrow> instances s n' = Some i' \<Longrightarrow> inst_ref i = Some a \<Longrightarrow> inst_ref i' = Some a \<Longrightarrow> n = n'"
  using assms unfolding session_ok_def by blast+

lemma holds_memory: "same_memory i j \<Longrightarrow> holds cs j = holds cs i"
  using same_memoryD [of i j] by (simp add: holds_def)

lemma holds_live: "holds cs i \<Longrightarrow> live_in cs (inst_ref i)"
  by (auto simp: holds_def live_in_def live_ref_def stream_at_def)

lemma holds_leaves:
  "holds cs i \<Longrightarrow> leaves ref cs cs' \<Longrightarrow> ref = None \<or> inst_ref i \<noteq> ref \<Longrightarrow> holds cs' i"
  by (auto simp: holds_def leaves_def)

text \<open>A pass of one instance, which changes what is behind its own pointer and takes nothing but a
  stream nobody had, keeps the invariant.\<close>

lemma session_ok_pass:
  assumes ok: "session_ok s" and l: "leaves ref (csound s) cs'"
    and ref: "ref = None \<or> (\<exists>i. instances s n = Some i \<and> inst_ref i = ref)"
    and h: "holds cs' i'"
    and new: "\<And>a. inst_ref i' = Some a \<Longrightarrow> stream_at (csound s) a = None \<or> ref = Some a"
  shows "session_ok (s\<lparr>csound := cs', instances := (instances s)(n \<mapsto> i')\<rparr>)"
proof -
  have other: "ref = None \<or> inst_ref j \<noteq> ref" "inst_ref i' = None \<or> inst_ref i' \<noteq> inst_ref j"
    if j: "instances s k = Some j" "k \<noteq> n" for k j
  proof -
    show r: "ref = None \<or> inst_ref j \<noteq> ref"
      using ref session_okD(3) [OF ok j(1)] j(2) by (cases ref) auto
    show "inst_ref i' = None \<or> inst_ref i' \<noteq> inst_ref j"
    proof (cases "inst_ref i'")
      case (Some a)
      have "stream_at (csound s) b \<noteq> None" if "inst_ref j = Some b" for b
        using session_okD(2) [OF ok j(1)] that by (auto simp: holds_def)
      then show ?thesis using new [OF Some] r Some by fastforce
    qed simp
  qed
  have "holds cs' j" if "instances s k = Some j" "k \<noteq> n" for k j
    using holds_leaves [OF session_okD(2) [OF ok that(1)] l other(1) [OF that]] .
  then show ?thesis
    using leaves_ok [OF l] h other(2) session_okD(3) [OF ok]
    unfolding session_ok_def by (simp split: if_split_asm) (metis option.distinct(1))
qed

lemma theme_leaves:
  assumes "cs_ok cs" "watch_theme h th (global_manager cs) = (s, mo)"
  shows "leaves ref cs (cs\<lparr>global_manager := mo\<rparr>)"
proof (cases "global_manager cs")
  case None
  then show ?thesis using assms by (auto simp: watch_theme_def leaves_def cs_ok_def stream_at_def)
next
  case (Some m)
  then have m: "reg_ok m" using assms(1) by (simp add: cs_ok_def)
  consider "mo = Some m" | k i v where "find_graph m k = Some i" "mo = Some (update_graph i (set_theme v) m)"
    using assms(2) Some
    by (cases h; cases "Option.bind th theme_of"; cases "find_graph m (the (integer_valued (the h)))")
      (auto simp: watch_theme_def split: if_split_asm)
  then show ?thesis
  proof cases
    case 2
    note f = find_graph_Some [OF m 2(1)]
    have "reg_ok (update_graph i (set_theme v) m)"
      by (rule reg_ok_update_graph [OF m f(1,2)]) (simp_all add: set_theme_def handle_of_def)
    then show ?thesis using 2 Some by (simp add: leaves_def cs_ok_def stream_at_def update_graph_def)
  qed (use assms(1) Some in \<open>simp add: leaves_def cs_ok_def stream_at_def\<close>)
qed

lemma graph_call_leaves: "graph_call cs cs' \<Longrightarrow> cs_ok cs \<Longrightarrow> leaves None cs cs'"
proof (induction rule: graph_call.induct)
  case (scope env p cs s p' cs')
  then show ?case using leaves_refl create_leaves
    by (fastforce simp: watch_create_scope_def create_time_graph_def split: if_splits sum.splits prod.splits)
next
  case (control env p cs s p' cs')
  then show ?case using leaves_refl create_leaves
    by (fastforce simp: watch_create_control_def create_time_graph_def split: if_splits sum.splits prod.splits)
next
  case (spectrum env q cs s q' cs')
  then show ?case using leaves_refl create_leaves
    by (fastforce simp: watch_create_spectrum_def create_spectral_graph_def split: sum.splits prod.splits)
next
  case (spectrogram env hist q cs s q' cs')
  then show ?case using leaves_refl create_leaves
    by (fastforce simp: watch_create_spectrogram_def create_spectral_graph_def
        split: option.splits if_splits sum.splits prod.splits)
next
  case (point env r cs s r' cs')
  then show ?case using leaves_refl create_leaves
    by (fastforce simp: watch_create_point_def split: sum.splits prod.splits)
next
  case (destroy cell cs s cell' cs')
  then show ?case using leaves_refl [of cs None] destroy_leaves [of cs None]
    by (auto simp: watch_deinit_def split: option.splits)
next
  case (theme h th cs s mo)
  then show ?case by (rule_tac theme_leaves)
qed

text \<open>An instance that is new, or that has its memory of the last pass and other arguments.\<close>

lemma session_holds:
  assumes ok: "session_ok s"
    and j: "instances s n = None \<and> fresh j \<or> (\<exists>i. instances s n = Some i \<and> same_memory i j)"
  shows "holds (csound s) j"
  using j
proof (elim disjE conjE exE)
  assume "fresh j"
  then show ?thesis using fresh_wf [of j] by (simp add: holds_def)
next
  fix i assume "instances s n = Some i" "same_memory i j"
  then show ?thesis using session_okD(2) [OF ok] holds_memory by blast
qed

lemma session_ok_init:
  assumes ok: "session_ok s" and env: "env_ok env" "args_ok j" and r: "init_pass env j (csound s) = (res, i', cs')"
    and j: "instances s n = None \<and> fresh j \<or> (\<exists>i. instances s n = Some i \<and> same_memory i j)"
  shows "session_ok (s\<lparr>csound := cs', instances := (instances s)(n \<mapsto> i')\<rparr>)"
proof -
  have h: "holds (csound s) j" using session_holds [OF ok j] .
  note p = init_pass_gains [OF session_okD(1) [OF ok] holds_live [OF h] _ env r]
  have wf: "inst_wf j" using h by (simp add: holds_def)
  show ?thesis
  proof (rule session_ok_pass [OF ok p(2) [OF wf]])
    show "inst_ref j = None \<or> (\<exists>i. instances s n = Some i \<and> inst_ref i = inst_ref j)"
      using j fresh_wf [of j] same_memoryD(1) by metis
    show "holds cs' i'" using p(3,4) [OF wf] by (auto simp: holds_def gains_def)
    show "stream_at (csound s) a = None \<or> inst_ref j = Some a" if "inst_ref i' = Some a" for a
      using p(3) [OF wf] that by (simp add: gains_def)
  qed
qed

lemma perform_holds:
  assumes ok: "cs_ok cs" and h: "holds cs i" and c: "cycle_ok c" and a: "inst_ref i = Some a"
  shows "\<exists>i' cs'. perform c i cs = Some (i', cs') \<and> inst_ref i' = Some a \<and> leaves (Some a) cs cs' \<and> holds cs' i'"
proof -
  obtain st where st: "stream_at cs a = Some st" "\<not> release_requested st" "fits i st" and wf: "inst_wf i"
    using h a by (auto simp: holds_def)
  then obtain m where m: "global_manager cs = Some m" "heap m a = Some st"
    by (auto simp: stream_at_def split: option.splits)
  obtain i' st' where p: "perform_on c i st = Some (i', st')" "inst_ref i' = Some a" "inst_wf i'" "fits i' st'"
    "same_entry st st'" using performs [of i st c] a st(3) wf c by auto
  let ?cs = "cs\<lparr>global_manager := Some (m\<lparr>heap := (heap m)(a \<mapsto> st')\<rparr>)\<rparr>"
  have "perform c i cs = Some (i', ?cs)" using a m p(1) by (simp add: perform_def)
  moreover have l: "leaves (Some a) cs ?cs" "stream_at ?cs a = Some st'"
    using stored_leaves [OF ok m _ _ refl] p(5) by (simp_all add: same_entry_def)
  moreover have "holds ?cs i'" using p l(2) st(2) by (auto simp: holds_def same_entry_def)
  ultimately show ?thesis using p(2) by blast
qed

lemma perform_idle:
  "inst_ref i = None \<Longrightarrow> perform c i cs = Some (i', cs') \<Longrightarrow> i' = i \<and> cs' = cs"
  by (cases i) (auto simp: perform_def split: if_splits)

lemma session_step_ok: "session_step s s' \<Longrightarrow> session_ok s \<Longrightarrow> session_ok s'"
proof (induction rule: session_step.induct)
  case (graph s cs')
  have l: "leaves None (csound s) cs'" using graph_call_leaves graph session_okD(1) by blast
  then have "holds cs' i" if "instances s n = Some i" for n i
    using holds_leaves [OF session_okD(2) [OF graph.prems that] l] by simp
  then show ?case using leaves_ok [OF l] graph.prems unfolding session_ok_def by simp
next
  case (first s n i env res i' cs')
  then show ?case using session_ok_init [OF first.prems] by blast
next
  case (again s n i j env res i' cs')
  then show ?case using session_ok_init [OF again.prems] by blast
next
  case (deinit s n i j res i' cs')
  note ok = deinit.prems
  have h: "holds (csound s) j" using session_okD(2) [OF ok deinit.hyps(1)] holds_memory [OF deinit.hyps(2)] by simp
  have wf: "inst_wf j" using h by (simp add: holds_def)
  note p = deinit_pass_leaves [OF session_okD(1) [OF ok] holds_live [OF h] wf deinit.hyps(3)]
  show ?case
    by (rule session_ok_pass [OF ok p(4)])
      (use p deinit.hyps(1) same_memoryD(1) [OF deinit.hyps(2)] in \<open>auto simp: holds_def\<close>)
next
  case (perform s n i j c i' cs')
  note ok = perform.prems
  have h: "holds (csound s) j" using session_okD(2) [OF ok perform.hyps(1)] holds_memory [OF perform.hyps(2)] by simp
  have ref: "inst_ref j = inst_ref i" using same_memoryD(1) [OF perform.hyps(2)] .
  show ?case
  proof (cases "inst_ref j")
    case None
    then have e: "i' = j" "cs' = csound s" using perform_idle perform.hyps(4) by blast+
    show ?thesis unfolding e
      by (rule session_ok_pass [OF ok leaves_refl [OF session_okD(1) [OF ok]], of None])
        (use h None in auto)
  next
    case (Some a)
    note p = perform_holds [OF session_okD(1) [OF ok] h perform.hyps(3) Some]
    show ?thesis
      by (rule session_ok_pass [OF ok, of "Some a"])
        (use p perform.hyps(1,4) Some ref in auto)
  qed
next
  case (round s m ok inbox now_ms now launch m' w' rep)
  note inv = round.prems
  have m: "reg_ok m" using session_okD(1) [OF inv] round.hyps(1) by (simp add: cs_ok_def)
  have k: "reg_ok m'" "keeps_owned m m'"
    using sender_round_total [OF m, of ok inbox now_ms now launch "wire s"] round.hyps(2) by auto
  let ?cs = "(csound s)\<lparr>global_manager := Some m'\<rparr>"
  have "holds ?cs i" if i: "instances s n = Some i" for n i
  proof -
    have "\<exists>st. stream_at ?cs a = Some st \<and> \<not> release_requested st \<and> fits i st" if a: "inst_ref i = Some a" for a
    proof -
      obtain st where st: "heap m a = Some st" "\<not> release_requested st" "fits i st"
        using session_okD(2) [OF inv i] a round.hyps(1) by (auto simp: holds_def stream_at_def)
      then obtain st' where st': "heap m' a = Some st'" "\<not> release_requested st'" "same_stream st st'"
        using k(2) unfolding keeps_owned_def by blast
      have "st_graph_id st' = st_graph_id st" using st'(3) by (simp add: same_stream_def)
      then have "fits i st'" using round_fits [OF round.hyps(2) st(1) st'(1) _ st(3)] by simp
      then show ?thesis using st' by (simp add: stream_at_def)
    qed
    then show ?thesis using session_okD(2) [OF inv i] by (simp add: holds_def)
  qed
  then show ?case using k(1) inv unfolding session_ok_def by (simp add: cs_ok_def)
next
  case (reset s m ok now m' r' w')
  then show ?case by (simp add: session_ok_def cs_ok_def)
qed

lemma session_reach_ok: "session_step\<^sup>*\<^sup>* s s' \<Longrightarrow> session_ok s \<Longrightarrow> session_ok s'"
  by (induction rule: rtranclp_induct) (auto intro: session_step_ok)

section \<open>Properties\<close>

text \<open>The process before any opcode has run.\<close>

definition started :: "SESSION \<Rightarrow> bool" where
  "started s \<longleftrightarrow> cs_ok (csound s) \<and> instances s = (\<lambda>_. None)"

lemma started_ok: "started s \<Longrightarrow> session_ok s"
  by (simp add: started_def session_ok_def)

text \<open>C3: No pointer ever dangles. However the passes of any number of instances of every opcode that
  holds a stream (watchadd on audio, control, point and spectral signals, the meter, the two kinds of
  table), the calls of the other opcodes, the rounds of the sender and resets are interleaved, the
  registry stays consistent, and the stream pointer of every instance leads to a live stream which no
  other instance points to, which has not been released, which is in the slot of the graph whose handle
  it carries, and which is fit for the instance. The host's rates are positive, cycles bring a whole
  block, and sizes of signals fit 32 bits.\<close>

theorem session_never_dangles:
  assumes "session_step\<^sup>*\<^sup>* s0 s" "started s0"
  shows "(\<forall>m. global_manager (csound s) = Some m \<longrightarrow> reg_ok m)
    \<and> (\<forall>n i a. instances s n = Some i \<longrightarrow> inst_ref i = Some a \<longrightarrow>
        (\<exists>m st j slot g. global_manager (csound s) = Some m \<and> heap m a = Some st
           \<and> \<not> release_requested st \<and> fits i st
           \<and> j < 32 \<and> slot < 64 \<and> graphs m ! j = Some g \<and> streams g ! slot = Some a
           \<and> handle_of g = st_graph_id st \<and> st_stream_id st = of_nat slot)
        \<and> (\<forall>n' i'. instances s n' = Some i' \<longrightarrow> inst_ref i' = Some a \<longrightarrow> n' = n))"
proof (intro conjI allI impI)
  have ok: "session_ok s" using session_reach_ok [OF assms(1)] started_ok [OF assms(2)] .
  then show reg: "reg_ok m" if "global_manager (csound s) = Some m" for m
    using session_okD(1) that by (simp add: cs_ok_def)
  fix n i a
  assume i: "instances s n = Some i" "inst_ref i = Some a"
  show "n' = n" if "instances s n' = Some i'" "inst_ref i' = Some a" for n' i'
    using session_okD(3) [OF ok that(1) i(1) that(2) i(2)] .
  obtain m st where st: "global_manager (csound s) = Some m" "heap m a = Some st" "\<not> release_requested st" "fits i st"
    using session_okD(2) [OF ok i(1)] i(2) by (auto simp: holds_def stream_at_def split: option.splits)
  note m = reg [OF st(1)]
  obtain j slot g where g: "j < 32" "slot < 64" "graphs m ! j = Some g" "streams g ! slot = Some a"
    using reg_okD(9) [OF m st(2)] by (auto simp: owner_slot_def)
  have "handle_of g = st_graph_id st \<and> st_stream_id st = of_nat slot"
    using graph_okD(5) [OF reg_okD(6) [OF m g(1,3)] g(2,4)] st(2) by auto
  then show "\<exists>m st j slot g. global_manager (csound s) = Some m \<and> heap m a = Some st
      \<and> \<not> release_requested st \<and> fits i st
      \<and> j < 32 \<and> slot < 64 \<and> graphs m ! j = Some g \<and> streams g ! slot = Some a
      \<and> handle_of g = st_graph_id st \<and> st_stream_id st = of_nat slot"
    using st g by blast
qed

text \<open>A session whose first instance is a meter: its pass builds the manager, the graph and the
  stream.\<close>

definition first_session :: SESSION where
  "first_session = \<lparr>csound = fresh_cs, instances = (\<lambda>_. None), wire = \<lparr>attempts = 0, sent = []\<rparr>\<rparr>"

lemma first_session_started: "started first_session"
  by (simp add: started_def first_session_def)

lemma meter_session:
  "\<exists>s p a m. session_step\<^sup>*\<^sup>* first_session s \<and> instances s 7 = Some (Meter p) \<and> mt_ref p = Some a
     \<and> global_manager (csound s) = Some m"
proof -
  obtain p cs where r: "watch_meter_init sample_env sample_meter fresh_cs = (OK, p, cs)" "mt_ref p \<noteq> None"
    using sample_meter_starts by blast
  let ?s = "first_session\<lparr>csound := cs, instances := (instances first_session)(7 \<mapsto> Meter p)\<rparr>"
  have e: "env_ok sample_env" by (simp add: env_ok_def rate_ok_def del: to_float.simps)
  have f: "fresh (Meter sample_meter)" by (simp add: sample_meter_def)
  have step: "session_step first_session ?s"
    by (rule session_step.first [OF _ f _ e, where res = OK]) (use r(1) in \<open>simp_all add: first_session_def\<close>)
  then have "holds (csound ?s) (Meter p)"
    using session_okD(2) [OF session_step_ok [OF step started_ok [OF first_session_started]], of 7] by simp
  then obtain m where "global_manager cs = Some m"
    using r(2) by (auto simp: holds_def stream_at_def split: option.splits)
  then show ?thesis using step r(2) by (intro exI [of _ ?s] exI [of _ p]) auto
qed

theorem session_never_dangles_witness:
  "\<exists>s p a m st. session_step\<^sup>*\<^sup>* first_session s \<and> instances s 7 = Some (Meter p) \<and> mt_ref p = Some a
     \<and> global_manager (csound s) = Some m \<and> reg_ok m \<and> heap m a = Some st \<and> \<not> release_requested st
     \<and> fits (Meter p) st"
proof -
  obtain s p a m where s: "session_step\<^sup>*\<^sup>* first_session s" "instances s 7 = Some (Meter p)" "mt_ref p = Some a"
    "global_manager (csound s) = Some m" using meter_session by blast
  note r = session_never_dangles [OF s(1) first_session_started]
  have "\<exists>st. heap m a = Some st \<and> \<not> release_requested st \<and> fits (Meter p) st"
    using conjunct2 [OF r, rule_format, OF s(2), of a] s(3,4) by auto
  then show ?thesis using s conjunct1 [OF r] by blast
qed

text \<open>C14: Nothing in a session gets stuck. In every reachable state a round of the sender completes.
  Every instance that holds a stream returns from its performance pass with its pointer in place. Its
  deinitialisation pass never meets a freed stream and leaves it without a pointer. An initialisation
  pass, of a new instance or again of one that has a stream, never meets a freed stream and never keeps
  the old pointer, and when the pass of a watchadd succeeds the instance has a stream, so that its
  performance passes do not run without one.\<close>

theorem session_calls_return:
  assumes "session_step\<^sup>*\<^sup>* s0 s" "started s0"
  shows "(\<forall>m. global_manager (csound s) = Some m \<longrightarrow>
      (\<exists>m' w' rep. sender_round ok inbox now_ms now launch m (wire s) = Some (m', w', rep)))
    \<and> (\<forall>n i a c. instances s n = Some i \<and> inst_ref i = Some a \<and> cycle_ok c \<longrightarrow>
      (\<exists>i' cs'. perform c i (csound s) = Some (i', cs') \<and> inst_ref i' = Some a))
    \<and> (\<forall>n i j res i' cs'. instances s n = Some i \<and> same_memory i j
        \<and> deinit_pass j (csound s) = (res, i', cs') \<longrightarrow> res \<noteq> Inl DanglingStream \<and> inst_ref i' = None)
    \<and> (\<forall>n j env res i' cs'. (instances s n = None \<and> fresh j \<or> (\<exists>i. instances s n = Some i \<and> same_memory i j))
        \<and> args_ok j \<and> env_ok env \<and> init_pass env j (csound s) = (res, i', cs') \<longrightarrow>
      res \<noteq> Inl DanglingStream \<and> (inst_ref i' = None \<or> inst_ref i' \<noteq> inst_ref j)
      \<and> (res = OK \<and> ((\<exists>k h r. j = TimeAdd k h r) \<or> (\<exists>p. j = SpectralAdd p)) \<longrightarrow> inst_ref i' \<noteq> None))"
proof -
  have ok: "session_ok s" using session_reach_ok [OF assms(1)] started_ok [OF assms(2)] .
  note cs = session_okD(1) [OF ok]
  have round: "\<exists>m' w' rep. sender_round ok inbox now_ms now launch m (wire s) = Some (m', w', rep)"
    if "global_manager (csound s) = Some m" for m
  proof -
    have "reg_ok m" using cs that by (simp add: cs_ok_def)
    then show ?thesis by (rule sender_round_total [of m ok inbox now_ms now launch "wire s"]) blast
  qed
  have perf: "\<exists>i' cs'. perform c i (csound s) = Some (i', cs') \<and> inst_ref i' = Some a"
    if "instances s n = Some i" "inst_ref i = Some a" "cycle_ok c" for n i a c
    using perform_holds [OF cs session_okD(2) [OF ok that(1)] that(3,2)] by blast
  have dei: "res \<noteq> Inl DanglingStream \<and> inst_ref i' = None"
    if "instances s n = Some i" "same_memory i j" "deinit_pass j (csound s) = (res, i', cs')" for n i j res i' cs'
  proof -
    have h: "holds (csound s) j" using session_holds [OF ok] that(1,2) by blast
    then have "inst_wf j" by (simp add: holds_def)
    then show ?thesis using deinit_pass_leaves(1,2) [OF cs holds_live [OF h] _ that(3)] by blast
  qed
  have ini: "res \<noteq> Inl DanglingStream \<and> (inst_ref i' = None \<or> inst_ref i' \<noteq> inst_ref j)
      \<and> (res = OK \<and> ((\<exists>k h r. j = TimeAdd k h r) \<or> (\<exists>p. j = SpectralAdd p)) \<longrightarrow> inst_ref i' \<noteq> None)"
    if j: "instances s n = None \<and> fresh j \<or> (\<exists>i. instances s n = Some i \<and> same_memory i j)"
      and r: "args_ok j" "env_ok env" "init_pass env j (csound s) = (res, i', cs')" for n j env res i' cs'
  proof -
    have h: "holds (csound s) j" using session_holds [OF ok j] .
    then have wf: "inst_wf j" by (simp add: holds_def)
    note p = init_pass_gains [OF cs holds_live [OF h] wf r(2,1,3)]
    have "inst_ref i' = None \<or> inst_ref i' \<noteq> inst_ref j"
      using p(3) h by (force simp: gains_def holds_def)
    then show ?thesis using p(1,5) by blast
  qed
  show ?thesis
    by (rule conjI [OF _ conjI [OF _ conjI]], use round in blast, use perf in blast, use dei in blast,
        intro allI impI, elim conjE, rule ini)
qed

text \<open>A cycle in which the orchestra passes two levels.\<close>

definition quiet_cycle :: CYCLE where
  "quiet_cycle = \<lparr>cy_now = 0, cy_kcounter = 1, cy_ksmps = 1, cy_offset = 0, cy_early = 0,
     cy_signal = [Fin 0], cy_x = Fin 0, cy_y = Fin 0, cy_framecount = 0, cy_frame = None,
     cy_channels = Some [Fin 0, Fin (- 3)]\<rparr>"

theorem session_calls_return_witness:
  "\<exists>s p a m. session_step\<^sup>*\<^sup>* first_session s \<and> instances s 7 = Some (Meter p) \<and> mt_ref p = Some a
     \<and> global_manager (csound s) = Some m
     \<and> (\<exists>m' w' rep. sender_round (\<lambda>_. False) [] 9 8 0 m (wire s) = Some (m', w', rep))
     \<and> (\<exists>i' cs'. perform quiet_cycle (Meter p) (csound s) = Some (i', cs') \<and> inst_ref i' = Some a)
     \<and> (\<exists>res i' cs'. deinit_pass (Meter p) (csound s) = (res, i', cs') \<and> inst_ref i' = None)"
proof -
  obtain s p a m where s: "session_step\<^sup>*\<^sup>* first_session s" "instances s 7 = Some (Meter p)" "mt_ref p = Some a"
    "global_manager (csound s) = Some m" using meter_session by blast
  note r = session_calls_return [OF s(1) first_session_started, of "\<lambda>_. False" "[]" 9 8 0]
  have "cycle_ok quiet_cycle" by (simp add: cycle_ok_def quiet_cycle_def)
  then have "\<exists>i' cs'. perform quiet_cycle (Meter p) (csound s) = Some (i', cs') \<and> inst_ref i' = Some a"
    using conjunct1 [OF conjunct2 [OF r]] s(2,3) by force
  moreover have "\<exists>res i' cs'. deinit_pass (Meter p) (csound s) = (res, i', cs') \<and> inst_ref i' = None"
  proof -
    obtain res i' cs' where d: "deinit_pass (Meter p) (csound s) = (res, i', cs')" by (metis prod_cases3)
    have "same_memory (Meter p) (Meter p)" by simp
    then have "inst_ref i' = None" using conjunct1 [OF conjunct2 [OF conjunct2 [OF r]]] s(2) d by blast
    then show ?thesis using d by blast
  qed
  ultimately show ?thesis using s conjunct1 [OF r] by blast
qed

end
