(* ===== verification/Window.thy ===== *)
theory Window
  imports Prelude
begin

text \<open>
  Rings that overwrite their oldest entry, as the viewer keeps them: samples of a curve, points
  of a trail, columns of a spectrogram. A ring of \<open>N\<close> places with the write position
  \<open>w\<close>, of which \<open>v\<close> are valid, holds the last values written. The locale
  \<open>history\<close> is what the viewer's three rings promise; its lemma about a run of
  writes is proved once for them.
\<close>

definition lastn :: "nat \<Rightarrow> 'a list \<Rightarrow> 'a list" where
  "lastn n xs = drop (length xs - n) xs"

lemma length_lastn [simp]: "length (lastn n xs) = min n (length xs)"
  by (simp add: lastn_def)

lemma lastn_short [simp]: "length xs \<le> n \<Longrightarrow> lastn n xs = xs"
  by (simp add: lastn_def)

lemma lastn_append: "lastn n (lastn n xs @ ys) = lastn n (xs @ ys)"
  by (cases "length xs \<le> n") (simp_all add: lastn_def add.commute)

lemma lastn_append_right: "n \<le> length ys \<Longrightarrow> lastn n (xs @ ys) = lastn n ys"
  by (simp add: lastn_def)

lemma nth_lastn:
  "i < n \<Longrightarrow> n \<le> length xs \<Longrightarrow> lastn n xs ! i = xs ! (length xs - n + i)"
  by (simp add: lastn_def)

lemma set_lastn: "set (lastn n xs) \<subseteq> set xs"
  by (simp add: lastn_def set_drop_subset)

section \<open>Overwriting rings\<close>

definition ring_start :: "nat \<Rightarrow> nat \<Rightarrow> nat \<Rightarrow> nat" where
  "ring_start N w v = (w + N - v) mod N"

definition ring_window :: "'a list \<Rightarrow> nat \<Rightarrow> nat \<Rightarrow> 'a list" where
  "ring_window buf w v = map (\<lambda>i. buf ! ((ring_start (length buf) w v + i) mod length buf)) [0..<v]"

lemma length_ring_window [simp]: "length (ring_window buf w v) = v"
  by (simp add: ring_window_def)

lemma nth_ring_window:
  "i < v \<Longrightarrow> v \<le> length buf \<Longrightarrow> ring_window buf w v ! i = buf ! ((w + length buf - v + i) mod length buf)"
  by (simp add: ring_window_def ring_start_def mod_add_left_eq)

lemma ring_window_index:
  fixes w :: nat
  assumes "w < N" "v \<le> N" "i < v" "v < N \<or> 0 < i"
  shows "(w + N - v + i) mod N \<noteq> w"
proof -
  have e: "w + N - v + i = w + (N - v + i)" and d: "0 < N - v + i" "N - v + i < N"
    using assms by auto
  show ?thesis
  proof (cases "w + (N - v + i) < N")
    case True
    then have "(w + (N - v + i)) mod N = w + (N - v + i)" by simp
    then show ?thesis using d(1) unfolding e by linarith
  next
    case False
    then have "(w + (N - v + i)) mod N = w + (N - v + i) - N"
      using assms(1) d(2) by (simp add: mod_if)
    then show ?thesis using False d unfolding e by linarith
  qed
qed

lemma ring_window_put:
  assumes w: "w < length buf" and v: "v \<le> length buf"
  shows "ring_window (buf[w := x]) ((w + 1) mod length buf) (if v < length buf then v + 1 else v)
    = lastn (length buf) (ring_window buf w v @ [x])"
proof (rule nth_equalityI)
  let ?N = "length buf" and ?v = "if v < length buf then v + 1 else v"
  show "length (ring_window (buf[w := x]) ((w + 1) mod ?N) ?v) = length (lastn ?N (ring_window buf w v @ [x]))"
    using v by (simp add: min_def)
  fix i
  assume "i < length (ring_window (buf[w := x]) ((w + 1) mod ?N) ?v)"
  then have i: "i < ?v" by simp
  have v': "?v \<le> ?N" using v by simp
  have pos: "((w + 1) mod ?N + ?N - ?v + i) mod ?N = (w + 1 + ?N - ?v + i) mod ?N"
  proof -
    have e: "(w + 1) mod ?N + ?N - ?v + i = (w + 1) mod ?N + (?N - ?v + i)"
      "w + 1 + ?N - ?v + i = w + 1 + (?N - ?v + i)" using v' by simp_all
    show ?thesis unfolding e by (rule mod_add_left_eq)
  qed
  have l: "ring_window (buf[w := x]) ((w + 1) mod ?N) ?v ! i = buf[w := x] ! ((w + 1 + ?N - ?v + i) mod ?N)"
    using nth_ring_window [of i ?v "buf[w := x]" "(w + 1) mod ?N"] i v' pos by simp
  have r: "lastn ?N (ring_window buf w v @ [x]) ! i = (ring_window buf w v @ [x]) ! (v + 1 - ?v + i)"
    using i v by (simp add: lastn_def del: drop_append)
  show "ring_window (buf[w := x]) ((w + 1) mod ?N) ?v ! i = lastn ?N (ring_window buf w v @ [x]) ! i"
  proof (cases "i + 1 = ?v")
    case True
    then have "w + 1 + ?N - ?v + i = w + ?N" "v + 1 - ?v + i = v" using v' v w by (auto split: if_splits)
    then show ?thesis using l r w by (simp add: nth_append)
  next
    case False
    then have j: "v + 1 - ?v + i < v" using i by (auto split: if_splits)
    have e: "w + 1 + ?N - ?v + i = w + ?N - v + (v + 1 - ?v + i)" using v w by auto
    have "(w + ?N - v + (v + 1 - ?v + i)) mod ?N \<noteq> w" using ring_window_index [OF w v j] v by auto
    then show ?thesis
      using l r j nth_ring_window [OF j v, of w] unfolding e by (simp add: nth_append)
  qed
qed

section \<open>Buckets\<close>

text \<open>The drawing routines divide \<open>n\<close> values into \<open>count\<close> columns or buckets, each with
  a run of consecutive indices; every index falls into exactly one.\<close>

definition bucket_start :: "nat \<Rightarrow> nat \<Rightarrow> nat \<Rightarrow> nat" where
  "bucket_start n count k = k * n div count"

lemma bucket_nonempty: "0 < count \<Longrightarrow> count \<le> n \<Longrightarrow> bucket_start n count k < bucket_start n count (Suc k)"
proof -
  assume c: "0 < count" "count \<le> n"
  have "k * n div count + 1 \<le> (k * n + count) div count" using c by simp
  also have "\<dots> \<le> (k * n + n) div count" using c by (intro div_le_mono) simp
  finally show ?thesis by (simp add: bucket_start_def add.commute)
qed

lemma bucket_mono: "j \<le> k \<Longrightarrow> bucket_start n count j \<le> bucket_start n count k"
  by (simp add: bucket_start_def div_le_mono mult_le_mono1)

lemma bucket_le: "k \<le> count \<Longrightarrow> 0 < count \<Longrightarrow> bucket_start n count k \<le> n"
  using bucket_mono [of k count n count] by (simp add: bucket_start_def)

lemma bucket_cover:
  assumes "i < n" "0 < count"
  obtains k where "k < count" "bucket_start n count k \<le> i" "i < bucket_start n count (Suc k)"
proof
  let ?k = "((i + 1) * count - 1) div n"
  have n: "0 < n" and p: "0 < (i + 1) * count" using assms by simp_all
  have "(i + 1) * count \<le> n * count" using assms(1) by (intro mult_le_mono1) simp
  then have "(i + 1) * count - 1 < count * n" using p mult.commute [of n count] by linarith
  then show "?k < count" using n by (simp add: div_less_iff_less_mult)
  have "?k * n \<le> (i + 1) * count - 1" by (rule div_times_less_eq_dividend)
  then have "?k * n < (i + 1) * count" using p by linarith
  then have "?k * n div count < i + 1" using assms(2) by (simp add: div_less_iff_less_mult)
  then show "bucket_start n count ?k \<le> i" by (simp add: bucket_start_def)
  have "(i + 1) * count - 1 < Suc ?k * n"
    using dividend_less_div_times [OF n, of "(i + 1) * count - 1"] by simp
  then have "(i + 1) * count \<le> Suc ?k * n" by linarith
  then have "i + 1 \<le> Suc ?k * n div count" using assms(2) by (simp add: less_eq_div_iff_mult_less_eq)
  then show "i < bucket_start n count (Suc ?k)" by (simp add: bucket_start_def)
qed

section \<open>The contract of a history\<close>

text \<open>\<open>seen\<close> is what a write stores of a value.\<close>

locale history =
  fixes put :: "'a \<Rightarrow> 's \<Rightarrow> 's"
    and seen :: "'a \<Rightarrow> 'b"
    and items :: "'s \<Rightarrow> 'b list"
    and room :: "'s \<Rightarrow> nat"
    and ok :: "'s \<Rightarrow> bool"
  assumes put_items: "ok s \<Longrightarrow> items (put x s) = lastn (room s) (items s @ [seen x])"
    and put_room: "ok s \<Longrightarrow> room (put x s) = room s"
    and put_ok: "ok s \<Longrightarrow> ok (put x s)"
    and items_le: "ok s \<Longrightarrow> length (items s) \<le> room s"
begin

lemma puts:
  assumes "ok s"
  shows "items (fold put xs s) = lastn (room s) (items s @ map seen xs)"
    and "room (fold put xs s) = room s" and "ok (fold put xs s)"
proof -
  have "items (fold put xs s) = lastn (room s) (items s @ map seen xs)
      \<and> room (fold put xs s) = room s \<and> ok (fold put xs s)"
    using assms
  proof (induction xs arbitrary: s)
    case Nil
    then show ?case using items_le by simp
  next
    case (Cons x xs)
    have "items (fold put xs (put x s)) = lastn (room s) (items (put x s) @ map seen xs)"
      using Cons.IH [OF put_ok [OF Cons.prems]] put_room [OF Cons.prems] by simp
    also have "\<dots> = lastn (room s) (items s @ seen x # map seen xs)"
      using put_items [OF Cons.prems, of x] lastn_append [of "room s" "items s @ [seen x]"] by simp
    finally show ?case
      using Cons.IH [OF put_ok [OF Cons.prems]] put_room [OF Cons.prems] by simp
  qed
  then show "items (fold put xs s) = lastn (room s) (items s @ map seen xs)"
    "room (fold put xs s) = room s" "ok (fold put xs s)" by simp_all
qed

text \<open>Once as many values have been written as there is room for, nothing older is left.\<close>

lemma puts_refill:
  "ok s \<Longrightarrow> room s \<le> length xs \<Longrightarrow> items (fold put xs s) = lastn (room s) (map seen xs)"
  by (simp add: puts(1) lastn_append_right)

end

end
