(* ===== verification/ScopeBuffer.thy ===== *)
theory ScopeBuffer
  imports Window Validate
begin

text \<open>
  The viewer's buffer of a time stream (\<^verbatim>\<open>STREAM_TIME_BUFFER\<close> in
  \<^verbatim>\<open>src/src/watch_viewer.c\<close>): a ring of samples on the stream's own time line. A packet
  that repeats samples is cut, a gap in the sequence is filled with zeros, and the drawing
  selects its samples by sequence number. The specification of a stream is the \<open>timeline\<close>:
  the number of its first sample and all values from there on; the ring holds the last of them.
\<close>

section \<open>State\<close>

abbreviation INT_MAX :: "'a::numeral" where "INT_MAX \<equiv> 2147483647"
abbreviation SCOPE_RENDER_LATENCY_MS :: cfloat where "SCOPE_RENDER_LATENCY_MS \<equiv> Fin 50"
abbreviation NANOSECONDS_PER_SECOND :: cfloat where "NANOSECONDS_PER_SECOND \<equiv> Fin 1000000000"

record STREAM_TIME_BUFFER =
  sc_buffer :: "cfloat list option"
  sc_points :: "(cfloat \<times> cfloat) list option"
  sc_write_index :: nat
  sc_capacity :: nat
  sc_window_samples :: nat
  sc_valid_samples :: nat
  sc_ymin :: cfloat
  sc_ymax :: cfloat
  sc_sample_rate :: cfloat
  sc_total_samples :: u64
  sc_next_sequence :: int
  sc_has_sequence :: bool
  sc_unsupported :: bool

definition zero_scope :: STREAM_TIME_BUFFER where
  "zero_scope = \<lparr>sc_buffer = None, sc_points = None, sc_write_index = 0, sc_capacity = 0,
     sc_window_samples = 0, sc_valid_samples = 0, sc_ymin = Fin 0, sc_ymax = Fin 0,
     sc_sample_rate = Fin 0, sc_total_samples = 0, sc_next_sequence = 0,
     sc_has_sequence = False, sc_unsupported = False\<rparr>"

definition clear_scope_stream :: "STREAM_TIME_BUFFER \<Rightarrow> STREAM_TIME_BUFFER" where
  "clear_scope_stream s = zero_scope"

definition reject_scope_stream :: "STREAM_TIME_BUFFER \<Rightarrow> cfloat \<Rightarrow> STREAM_TIME_BUFFER" where
  "reject_scope_stream s rate =
     (clear_scope_stream s)\<lparr>sc_sample_rate := rate, sc_unsupported := True\<rparr>"

text \<open>Conversions of a \<^verbatim>\<open>double\<close> to 64-bit integers, undefined out of range.\<close>

fun to_u64 :: "cfloat \<Rightarrow> u64 option" where
  "to_u64 (Fin q) = (if - 1 < q \<and> q < 18446744073709551616 then Some (of_int (trunc_rat q)) else None)"
| "to_u64 _ = None"

fun to_i64 :: "cfloat \<Rightarrow> int option" where
  "to_i64 (Fin q) = (if i64 (trunc_rat q) then Some (trunc_rat q) else None)"
| "to_i64 _ = None"

definition scope_latency_samples :: "cfloat \<Rightarrow> u64 option" where
  "scope_latency_samples rate =
     (let samples = fceil (fdiv f64 (fmul f64 rate SCOPE_RENDER_LATENCY_MS) (Fin 1000)) in
      if Fin 0 < samples then to_u64 samples else Some 0)"

text \<open>\<open>mem\<close> says whether the two allocations succeed; the flag of the result is the
  function's. \<^const>\<open>None\<close> is the undefined conversion of an enormous sample rate.\<close>

definition ensure_scope_buffer ::
  "bool \<Rightarrow> STREAM_TIME_BUFFER \<Rightarrow> cfloat \<Rightarrow> cfloat \<Rightarrow> cfloat \<Rightarrow> cfloat \<Rightarrow> (bool \<times> STREAM_TIME_BUFFER) option"
where
  "ensure_scope_buffer mem s win rate ymin ymax =
     (if sc_unsupported s \<and> feq (sc_sample_rate s) rate then Some (False, s) else
      let requested_length = fmul f64 win rate in
      if \<not> isfinite requested_length \<or> requested_length \<le> Fin 0 \<or> Fin INT_MAX < requested_length
      then Some (False, reject_scope_stream s rate) else
      (case (to_u32 (fceil requested_length), scope_latency_samples rate) of
         (Some window_samples, Some latency_samples) \<Rightarrow>
           let requested_capacity = ucast window_samples + latency_samples + MAX_STREAM_SAMPLES in
           if requested_capacity > INT_MAX then Some (False, reject_scope_stream s rate) else
           let capacity = unat requested_capacity; window = unat window_samples in
           if sc_buffer s \<noteq> None \<and> sc_points s \<noteq> None \<and> feq (sc_sample_rate s) rate
             \<and> sc_window_samples s = window
           then Some (True, s\<lparr>sc_ymin := ymin, sc_ymax := ymax\<rparr>)
           else
             let s0 = clear_scope_stream s in
             if \<not> mem then Some (False, reject_scope_stream s0 rate)
             else Some (True, s0\<lparr>sc_buffer := Some (replicate capacity (Fin 0)),
               sc_points := Some (replicate window (Fin 0, Fin 0)), sc_write_index := 0,
               sc_capacity := capacity, sc_window_samples := window, sc_valid_samples := 0,
               sc_ymin := ymin, sc_ymax := ymax, sc_sample_rate := rate\<rparr>)
       | _ \<Rightarrow> None))"

section \<open>Appending\<close>

definition append_scope_value :: "cfloat \<Rightarrow> STREAM_TIME_BUFFER \<Rightarrow> STREAM_TIME_BUFFER" where
  "append_scope_value sample s = s\<lparr>
     sc_buffer := map_option (\<lambda>b. b[sc_write_index s := if isfinite sample then sample else Fin 0])
       (sc_buffer s),
     sc_write_index := (sc_write_index s + 1) mod sc_capacity s,
     sc_total_samples := sc_total_samples s + 1,
     sc_valid_samples := (if sc_valid_samples s < sc_capacity s then sc_valid_samples s + 1
       else sc_valid_samples s)\<rparr>"

definition append_scope_gap :: "u64 \<Rightarrow> STREAM_TIME_BUFFER \<Rightarrow> STREAM_TIME_BUFFER" where
  "append_scope_gap gap s =
     (if gap \<ge> of_nat (sc_capacity s)
      then s\<lparr>sc_buffer := map_option (\<lambda>b. replicate (sc_capacity s) (Fin 0)) (sc_buffer s),
        sc_total_samples := sc_total_samples s + gap,
        sc_write_index := unat ((sc_total_samples s + gap) mod of_nat (sc_capacity s)),
        sc_valid_samples := sc_capacity s\<rparr>
      else fold append_scope_value (replicate (unat gap) (Fin 0)) s)"

definition append_scope_samples ::
  "cfloat list \<Rightarrow> nat \<Rightarrow> int \<Rightarrow> STREAM_TIME_BUFFER \<Rightarrow> STREAM_TIME_BUFFER" where
  "append_scope_samples vals nsamples seq s =
     (let s0 = (if \<not> sc_has_sequence s
                then s\<lparr>sc_next_sequence := seq, sc_has_sequence := True\<rparr> else s) in
      if seq < sc_next_sequence s0 \<and> nat (sc_next_sequence s0 - seq) \<ge> nsamples then s0
      else
        let (values1, nsamples1, seq1, s1) =
              (if seq < sc_next_sequence s0
               then let overlap = nat (sc_next_sequence s0 - seq) in
                 (drop overlap vals, nsamples - overlap, sc_next_sequence s0, s0)
               else if seq > sc_next_sequence s0
               then (vals, nsamples, seq, append_scope_gap (of_int (seq - sc_next_sequence s0)) s0)
               else (vals, nsamples, seq, s0)) in
        (fold append_scope_value (take nsamples1 values1) s1)
          \<lparr>sc_next_sequence := seq1 + int nsamples1\<rparr>)"

section \<open>Selecting what is drawn\<close>

definition scope_buffer_index :: "STREAM_TIME_BUFFER \<Rightarrow> int \<Rightarrow> nat" where
  "scope_buffer_index s seq =
     (let distance_from_end = (of_int (sc_next_sequence s - seq) :: u64);
          distance = unat (distance_from_end mod of_nat (sc_capacity s)) in
      (sc_write_index s + sc_capacity s - distance) mod sc_capacity s)"

definition scope_display_sample :: "STREAM_TIME_BUFFER \<Rightarrow> nat \<Rightarrow> nat \<Rightarrow> cfloat" where
  "scope_display_sample s first_buffer_index display_index =
     the (sc_buffer s) ! ((first_buffer_index + display_index) mod sc_capacity s)"

text \<open>The part of \<^verbatim>\<open>draw_scope_stream\<close> that decides which samples are drawn: the sequence
  number of the first, and how many. \<open>None\<close> is one of the early returns.\<close>

definition scope_visible :: "STREAM_TIME_BUFFER \<Rightarrow> int \<Rightarrow> (int \<times> nat) option" where
  "scope_visible s graph_display_end =
     (if sc_buffer s = None \<or> sc_points s = None \<or> sc_valid_samples s = 0 then None
      else
        let oldest_available = sc_next_sequence s - int (sc_valid_samples s);
            display_end = (if graph_display_end > sc_next_sequence s then sc_next_sequence s
              else graph_display_end) in
        if display_end \<le> oldest_available then None
        else
          let available = nat (display_end - oldest_available);
              point_count = (if available < sc_window_samples s then available
                else sc_window_samples s) in
          if point_count = 0 then None else Some (display_end - int point_count, point_count))"

text \<open>One pixel column of the drawing: the range of the samples in it, and its first and last
  sample, which are joined to the neighbouring columns.\<close>

definition scope_column ::
  "STREAM_TIME_BUFFER \<Rightarrow> nat \<Rightarrow> nat \<Rightarrow> nat \<Rightarrow> nat \<Rightarrow> cfloat \<times> cfloat \<times> cfloat \<times> cfloat" where
  "scope_column s first_buffer_index point_count column_count column =
     (let first_in_column = bucket_start point_count column_count column;
          end_in_column = bucket_start point_count column_count (column + 1);
          sample = scope_display_sample s first_buffer_index;
          (minimum, maximum) = fold
            (\<lambda>i (mn, mx). (if sample i < mn then sample i else mn, if mx < sample i then sample i else mx))
            [first_in_column + 1..<end_in_column] (sample first_in_column, sample first_in_column) in
      (minimum, maximum, sample first_in_column, sample (end_in_column - 1)))"

section \<open>The display clock\<close>

text \<open>The conversions of the 64-bit counters to \<^verbatim>\<open>double\<close>.\<close>

definition of_i64 :: "int \<Rightarrow> cfloat" where
  "of_i64 n = fround f64 (of_int n)"

definition of_u64 :: "u64 \<Rightarrow> cfloat" where
  "of_u64 w = fround f64 (of_nat (unat w))"

record SCOPE_CLOCK =
  display_end_sample :: cfloat
  last_render_ns :: u64
  display_started :: bool

text \<open>What the scan over the streams has found so far.\<close>

record SCOPE_SCAN =
  latest_safe_sample :: cfloat
  latest_received_sample :: cfloat
  minimum_full_window_end :: cfloat
  timeline_sample_rate :: cfloat
  found_stream :: bool
  found_full_window :: bool

definition scope_active :: "STREAM_TIME_BUFFER \<Rightarrow> bool" where
  "scope_active s \<longleftrightarrow> \<not> (sc_buffer s = None \<or> \<not> sc_has_sequence s \<or> sc_valid_samples s = 0)"

definition scan_stream :: "STREAM_TIME_BUFFER \<Rightarrow> SCOPE_SCAN \<Rightarrow> SCOPE_SCAN option" where
  "scan_stream s f =
     (if \<not> scope_active s then Some f else
      (case scope_latency_samples (sc_sample_rate s) of
         None \<Rightarrow> None
       | Some latency_samples \<Rightarrow>
           let next = of_i64 (sc_next_sequence s);
               stream_latest = fsub f64 next (of_u64 latency_samples);
               f1 = (if \<not> found_stream f \<or> stream_latest < latest_safe_sample f
                     then f\<lparr>latest_safe_sample := stream_latest\<rparr> else f);
               f2 = (if \<not> found_stream f \<or> next < latest_received_sample f
                     then f1\<lparr>latest_received_sample := next\<rparr> else f1);
               f3 = (if \<not> found_stream f then f2\<lparr>timeline_sample_rate := sc_sample_rate s\<rparr> else f2);
               stream_minimum_end = fadd f64 (fsub f64 next (fround f64 (of_nat (sc_valid_samples s))))
                 (fround f64 (of_nat (sc_window_samples s)));
               f4 = (if sc_valid_samples s \<ge> sc_window_samples s
                     then (if \<not> found_full_window f \<or> minimum_full_window_end f < stream_minimum_end
                           then f3\<lparr>minimum_full_window_end := stream_minimum_end\<rparr> else f3)
                       \<lparr>found_full_window := True\<rparr>
                     else f3) in
           Some (f4\<lparr>found_stream := True\<rparr>)))"

fun scan_streams :: "STREAM_TIME_BUFFER list \<Rightarrow> SCOPE_SCAN \<Rightarrow> SCOPE_SCAN option" where
  "scan_streams [] f = Some f"
| "scan_streams (s # ss) f = Option.bind (scan_stream s f) (scan_streams ss)"

definition empty_scan :: SCOPE_SCAN where
  "empty_scan = \<lparr>latest_safe_sample = Fin 0, latest_received_sample = Fin 0,
     minimum_full_window_end = Fin 0, timeline_sample_rate = Fin 0, found_stream = False,
     found_full_window = False\<rparr>"

definition advance_scope_timeline ::
  "STREAM_TIME_BUFFER list \<Rightarrow> u64 \<Rightarrow> SCOPE_CLOCK \<Rightarrow> (bool \<times> SCOPE_CLOCK) option" where
  "advance_scope_timeline streams now_ns c =
     (case scan_streams streams empty_scan of
        None \<Rightarrow> None
      | Some f \<Rightarrow>
          if \<not> found_stream f then Some (False, c) else
          let c1 = (if \<not> display_started c
                then \<lparr>display_end_sample = latest_safe_sample f, last_render_ns = now_ns,
                  display_started = True\<rparr>
                else
                  let elapsed_ns = now_ns - last_render_ns c in
                  c\<lparr>display_end_sample := fadd f64 (display_end_sample c)
                      (fdiv f64 (fmul f64 (of_u64 elapsed_ns) (timeline_sample_rate f)) NANOSECONDS_PER_SECOND),
                    last_render_ns := now_ns\<rparr>);
              c2 = (if found_full_window f \<and> minimum_full_window_end f \<le> latest_safe_sample f
                      \<and> display_end_sample c1 < minimum_full_window_end f
                    then c1\<lparr>display_end_sample := minimum_full_window_end f\<rparr> else c1);
              c3 = (if latest_received_sample f < display_end_sample c2
                    then c2\<lparr>display_end_sample := latest_received_sample f\<rparr> else c2) in
          Some (True, c3))"

section \<open>The ring holds the end of the timeline\<close>

definition scope_ok :: "STREAM_TIME_BUFFER \<Rightarrow> bool" where
  "scope_ok s \<longleftrightarrow> (\<exists>b. sc_buffer s = Some b \<and> length b = sc_capacity s)
     \<and> (\<exists>p. sc_points s = Some p \<and> length p = sc_window_samples s)
     \<and> 0 < sc_window_samples s \<and> sc_window_samples s + MAX_STREAM_SAMPLES \<le> sc_capacity s
     \<and> sc_capacity s \<le> INT_MAX \<and> sc_write_index s < sc_capacity s
     \<and> sc_valid_samples s \<le> sc_capacity s \<and> \<not> sc_unsupported s"

definition scope_items :: "STREAM_TIME_BUFFER \<Rightarrow> cfloat list" where
  "scope_items s = ring_window (the (sc_buffer s)) (sc_write_index s) (sc_valid_samples s)"

text \<open>What is stored of a sample.\<close>

definition plotted :: "cfloat \<Rightarrow> cfloat" where
  "plotted x = (if isfinite x then x else Fin 0)"

lemma scope_okD:
  assumes "scope_ok s"
  obtains b p where "sc_buffer s = Some b" "length b = sc_capacity s" "sc_points s = Some p"
    "length p = sc_window_samples s" "0 < sc_window_samples s" "0 < sc_capacity s"
    "sc_capacity s \<le> 2147483647" "sc_write_index s < sc_capacity s" "sc_valid_samples s \<le> sc_capacity s"
    "sc_window_samples s < sc_capacity s"
  using assms by (auto simp: scope_ok_def)

lemma length_scope_items [simp]: "length (scope_items s) = sc_valid_samples s"
  by (simp add: scope_items_def)

interpretation scope: history append_scope_value plotted scope_items sc_capacity scope_ok
proof
  fix s :: STREAM_TIME_BUFFER and x
  assume ok: "scope_ok s"
  from ok obtain b p where b: "sc_buffer s = Some b" "length b = sc_capacity s"
    "sc_write_index s < sc_capacity s" "sc_valid_samples s \<le> sc_capacity s" "0 < sc_capacity s"
    by (rule scope_okD)
  show "scope_items (append_scope_value x s) = lastn (sc_capacity s) (scope_items s @ [plotted x])"
    using ring_window_put [of "sc_write_index s" b "sc_valid_samples s" "plotted x"] b
    by (simp add: scope_items_def append_scope_value_def plotted_def cong: if_cong)
  show "scope_ok (append_scope_value x s)"
    using ok by (auto simp: scope_ok_def append_scope_value_def)
  show "length (scope_items s) \<le> sc_capacity s" using b by simp
qed (simp add: append_scope_value_def)

text \<open>Appending leaves the geometry and the sequence alone.\<close>

lemma append_scope_value_frame [simp]:
  "sc_next_sequence (append_scope_value x s) = sc_next_sequence s"
  "sc_has_sequence (append_scope_value x s) = sc_has_sequence s"
  "sc_window_samples (append_scope_value x s) = sc_window_samples s"
  "sc_sample_rate (append_scope_value x s) = sc_sample_rate s"
  "sc_ymin (append_scope_value x s) = sc_ymin s" "sc_ymax (append_scope_value x s) = sc_ymax s"
  by (simp_all add: append_scope_value_def)

lemma append_scope_values_frame [simp]:
  "sc_next_sequence (fold append_scope_value xs s) = sc_next_sequence s"
  "sc_has_sequence (fold append_scope_value xs s) = sc_has_sequence s"
  "sc_window_samples (fold append_scope_value xs s) = sc_window_samples s"
  "sc_sample_rate (fold append_scope_value xs s) = sc_sample_rate s"
  by (induction xs arbitrary: s) simp_all

lemma append_scope_gap_spec:
  assumes ok: "scope_ok s"
  shows "scope_ok (append_scope_gap gap s)"
    and "scope_items (append_scope_gap gap s)
      = lastn (sc_capacity s) (scope_items s @ replicate (unat gap) (Fin 0))"
    and "sc_capacity (append_scope_gap gap s) = sc_capacity s"
    and "sc_next_sequence (append_scope_gap gap s) = sc_next_sequence s"
    and "sc_has_sequence (append_scope_gap gap s) = sc_has_sequence s"
    and "sc_window_samples (append_scope_gap gap s) = sc_window_samples s"
    and "sc_sample_rate (append_scope_gap gap s) = sc_sample_rate s"
proof -
  from ok obtain b p where b: "sc_buffer s = Some b" "length b = sc_capacity s" "0 < sc_capacity s"
    "sc_capacity s \<le> 2147483647" "sc_write_index s < sc_capacity s" "sc_valid_samples s \<le> sc_capacity s"
    by (rule scope_okD)
  have cap: "unat (of_nat (sc_capacity s) :: u64) = sc_capacity s"
    using b(4) by (simp add: unat_of_nat take_bit_nat_eq_self)
  have big: "gap \<ge> of_nat (sc_capacity s) \<longleftrightarrow> sc_capacity s \<le> unat gap"
    by (simp add: word_le_nat_alt cap)
  let ?w = "unat ((sc_total_samples s + gap) mod of_nat (sc_capacity s))"
  have w: "?w < sc_capacity s" using b(3) by (simp add: unat_mod_distrib cap)
  have z: "ring_window (replicate (sc_capacity s) (Fin 0)) ?w (sc_capacity s)
      = replicate (sc_capacity s) (Fin 0)"
    using b(3) by (intro nth_equalityI) (simp_all add: ring_window_def)
  have p0: "plotted (Fin 0) = Fin 0" by (simp add: plotted_def)
  note puts = scope.puts [OF ok, of "replicate (unat gap) (Fin 0)", unfolded map_replicate p0]
  show "scope_ok (append_scope_gap gap s)"
    using ok b(1) w puts(3) by (auto simp: append_scope_gap_def scope_ok_def [of "s\<lparr>sc_buffer := _\<rparr>"] scope_ok_def)
  show "scope_items (append_scope_gap gap s)
      = lastn (sc_capacity s) (scope_items s @ replicate (unat gap) (Fin 0))"
  proof (cases "sc_capacity s \<le> unat gap")
    case True
    then have "scope_items (append_scope_gap gap s) = replicate (sc_capacity s) (Fin 0)"
      using b(1) z by (simp add: append_scope_gap_def big scope_items_def)
    also have "\<dots> = lastn (sc_capacity s) (replicate (unat gap) (Fin 0))"
      using True by (simp add: lastn_def)
    finally show ?thesis using True by (simp add: lastn_append_right)
  next
    case False
    then show ?thesis using puts(1) by (simp add: append_scope_gap_def big)
  qed
  show "sc_capacity (append_scope_gap gap s) = sc_capacity s"
    using puts(2) by (simp add: append_scope_gap_def)
qed (simp_all add: append_scope_gap_def del: fold_replicate)

lemma unat_u64_of_int:
  assumes "0 \<le> k" "k < 18446744073709551616"
  shows "unat (of_int k :: u64) = nat k"
proof -
  have "(of_int k :: u64) = of_nat (nat k)" using assms(1) by simp
  moreover have "nat k < 18446744073709551616" using assms by (simp add: nat_less_iff)
  then have "unat (of_nat (nat k) :: u64) = nat k" by (simp add: unat_of_nat take_bit_nat_eq_self del: of_nat_nat)
  ultimately show ?thesis by simp
qed

text \<open>A timeline is the number of the first sample and the values from there on. A packet that
  starts in the past contributes what is new in it, one that starts later leaves zeros.\<close>

type_synonym timeline = "int \<times> cfloat list"

definition timeline_end :: "timeline \<Rightarrow> int" where
  "timeline_end tm = fst tm + int (length (snd tm))"

definition extend_timeline :: "int \<Rightarrow> cfloat list \<Rightarrow> timeline option \<Rightarrow> timeline" where
  "extend_timeline seq xs tm = (case tm of
     None \<Rightarrow> (seq, map plotted xs)
   | Some t \<Rightarrow> (fst t, snd t @ replicate (nat (seq - timeline_end t)) (Fin 0)
       @ map plotted (drop (nat (timeline_end t - seq)) xs)))"

definition on_timeline :: "timeline option \<Rightarrow> STREAM_TIME_BUFFER \<Rightarrow> bool" where
  "on_timeline tm s \<longleftrightarrow> scope_ok s \<and> (case tm of
     None \<Rightarrow> \<not> sc_has_sequence s \<and> sc_valid_samples s = 0
   | Some t \<Rightarrow> sc_has_sequence s \<and> 0 \<le> fst t \<and> sc_next_sequence s = timeline_end t
       \<and> scope_items s = lastn (sc_capacity s) (snd t))"

lemma append_scope_samples_refines:
  assumes tm: "on_timeline tm s" and seq: "0 \<le> seq" "i64 seq" and n: "n \<le> length vals"
  shows "on_timeline (Some (extend_timeline seq (take n vals) tm)) (append_scope_samples vals n seq s)"
    and "sc_window_samples (append_scope_samples vals n seq s) = sc_window_samples s"
    and "sc_capacity (append_scope_samples vals n seq s) = sc_capacity s"
    and "sc_sample_rate (append_scope_samples vals n seq s) = sc_sample_rate s"
proof -
  have ok: "scope_ok s" using tm by (simp add: on_timeline_def)
  let ?s0 = "if \<not> sc_has_sequence s then s\<lparr>sc_next_sequence := seq, sc_has_sequence := True\<rparr> else s"
  let ?t = "case tm of None \<Rightarrow> (seq, []) | Some t \<Rightarrow> t"
  define s0 where "s0 = ?s0"
  define t where "t = ?t"
  have ok0: "scope_ok s0" using ok by (simp add: s0_def scope_ok_def)
  have s0: "sc_has_sequence s0" "sc_next_sequence s0 = timeline_end t" "0 \<le> fst t"
    "scope_items s0 = lastn (sc_capacity s0) (snd t)"
    using tm seq(1) by (auto simp: s0_def t_def on_timeline_def timeline_end_def scope_items_def
        ring_window_def split: option.splits)
  have ext: "extend_timeline seq (take n vals) tm = (fst t,
      snd t @ replicate (nat (seq - timeline_end t)) (Fin 0)
        @ map plotted (drop (nat (timeline_end t - seq)) (take n vals)))"
    by (auto simp: extend_timeline_def t_def timeline_end_def split: option.split)
  have geo: "sc_window_samples s0 = sc_window_samples s" "sc_capacity s0 = sc_capacity s"
    "sc_sample_rate s0 = sc_sample_rate s" by (simp_all add: s0_def)
  have end0: "0 \<le> timeline_end t" using s0(3) by (simp add: timeline_end_def)
  note run = append_scope_samples_def [of vals n seq s, folded s0_def, unfolded Let_def, folded s0_def]
  let ?r = "append_scope_samples vals n seq s"
  have "on_timeline (Some (extend_timeline seq (take n vals) tm)) ?r
    \<and> sc_window_samples ?r = sc_window_samples s \<and> sc_capacity ?r = sc_capacity s
    \<and> sc_sample_rate ?r = sc_sample_rate s"
  proof (cases "seq < timeline_end t")
    case past: True
    let ?o = "nat (timeline_end t - seq)"
    show ?thesis
    proof (cases "n \<le> ?o")
      case True
      then have "?r = s0" using run past s0(2) by simp
      moreover have "extend_timeline seq (take n vals) tm = t" using True past n by (simp add: ext)
      ultimately show ?thesis using s0 ok0 geo by (simp add: on_timeline_def)
    next
      case False
      let ?xs = "take (n - ?o) (drop ?o vals)"
      have r: "?r = (fold append_scope_value ?xs s0)\<lparr>sc_next_sequence := timeline_end t + int (n - ?o)\<rparr>"
        using run past False s0(2) by simp
      have l: "length ?xs = n - ?o" using n by simp
      have "scope_items ?r = scope_items (fold append_scope_value ?xs s0)" by (simp add: r scope_items_def)
      moreover have "scope_ok ?r \<longleftrightarrow> scope_ok (fold append_scope_value ?xs s0)" by (simp add: r scope_ok_def)
      ultimately show ?thesis
        using scope.puts [OF ok0, of ?xs] s0 geo past l n
        by (simp add: on_timeline_def ext timeline_end_def r drop_take lastn_append)
    qed
  next
    case False
    define s1 where "s1 = (if timeline_end t < seq then append_scope_gap (of_int (seq - timeline_end t)) s0 else s0)"
    have "seq - timeline_end t < 18446744073709551616"
      using seq(2) end0 by (simp add: i64_def INT64_MAX_def)
    then have gap: "unat (of_int (seq - timeline_end t) :: u64) = nat (seq - timeline_end t)"
      using False by (intro unat_u64_of_int) simp_all
    have s1: "scope_ok s1" "sc_capacity s1 = sc_capacity s" "sc_has_sequence s1"
      "sc_window_samples s1 = sc_window_samples s" "sc_sample_rate s1 = sc_sample_rate s"
      "scope_items s1 = lastn (sc_capacity s) (snd t @ replicate (nat (seq - timeline_end t)) (Fin 0))"
      using append_scope_gap_spec [OF ok0, of "of_int (seq - timeline_end t)"] ok0 s0 geo
      by (auto simp: s1_def gap lastn_append simp del: of_int_diff)
    have r: "?r = (fold append_scope_value (take n vals) s1)\<lparr>sc_next_sequence := seq + int n\<rparr>"
      using run False s0(2) by (auto simp: s1_def)
    have "scope_items ?r = scope_items (fold append_scope_value (take n vals) s1)"
      by (simp add: r scope_items_def)
    moreover have "scope_ok ?r \<longleftrightarrow> scope_ok (fold append_scope_value (take n vals) s1)"
      by (simp add: r scope_ok_def)
    ultimately show ?thesis
      using scope.puts [OF s1(1), of "take n vals"] s1 s0(3) False n
      by (simp add: on_timeline_def ext timeline_end_def r lastn_append)
  qed
  then show "on_timeline (Some (extend_timeline seq (take n vals) tm)) ?r"
    "sc_window_samples ?r = sc_window_samples s" "sc_capacity ?r = sc_capacity s"
    "sc_sample_rate ?r = sc_sample_rate s" by simp_all
qed

section \<open>Reading the timeline back\<close>

lemma ring_offset_mod:
  fixes w N d i :: nat
  assumes "d \<le> N"
  shows "((w + N - d) mod N + i) mod N = (w + N - d + i) mod N"
  by (rule mod_add_left_eq)

lemma timeline_read:
  assumes t: "on_timeline (Some t) s" and n: "first + int n \<le> sc_next_sequence s"
    and old: "sc_next_sequence s - int (sc_valid_samples s) \<le> first" and i: "i < n"
  shows "fst t \<le> first" "first + int n \<le> timeline_end t"
    "scope_display_sample s (scope_buffer_index s first) i = snd t ! nat (first + int i - fst t)"
proof -
  have ok: "scope_ok s" and nx: "sc_next_sequence s = timeline_end t"
    and it: "scope_items s = lastn (sc_capacity s) (snd t)"
    using t by (simp_all add: on_timeline_def)
  from ok obtain b where b: "sc_buffer s = Some b" "length b = sc_capacity s" "0 < sc_capacity s"
    "sc_capacity s \<le> 2147483647" "sc_write_index s < sc_capacity s" "sc_valid_samples s \<le> sc_capacity s"
    by (rule scope_okD)
  let ?N = "sc_capacity s" and ?w = "sc_write_index s" and ?v = "sc_valid_samples s"
  define d where "d = nat (sc_next_sequence s - first)"
  have d: "int d = sc_next_sequence s - first" "d \<le> ?v" "n \<le> d" "d \<le> ?N"
    using n old b(6) by (simp_all add: d_def)
  have v: "?v = min ?N (length (snd t))" using it length_scope_items [of s] by simp
  show "fst t \<le> first" using d v nx by (simp add: timeline_end_def)
  show "first + int n \<le> timeline_end t" using n nx by simp
  have "unat (of_int (sc_next_sequence s - first) :: u64) = d" "unat (of_nat ?N :: u64) = ?N"
    using d b(4) unat_u64_of_int [of "sc_next_sequence s - first"]
    by (linarith | simp add: unat_of_nat take_bit_nat_eq_self d_def [symmetric] del: of_int_diff)+
  then have u: "unat ((of_int (sc_next_sequence s - first) :: u64) mod of_nat ?N) = d mod ?N"
    by (simp only: unat_mod_distrib)
  have "scope_buffer_index s first = (?w + ?N - d mod ?N) mod ?N"
    unfolding scope_buffer_index_def Let_def u by simp
  also have "\<dots> = (?w + ?N - d) mod ?N"
    using d(4) by (cases "d = ?N") simp_all
  finally have idx: "scope_buffer_index s first = (?w + ?N - d) mod ?N" .
  have "scope_display_sample s (scope_buffer_index s first) i = b ! ((?w + ?N - d + i) mod ?N)"
    using ring_offset_mod [OF d(4), of ?w i] by (simp add: scope_display_sample_def idx b(1))
  also have "\<dots> = scope_items s ! (?v - d + i)"
  proof -
    have "?w + ?N - ?v + (?v - d + i) = ?w + ?N - d + i" "?v - d + i < ?v"
      using d i b(6) by simp_all
    then show ?thesis
      using nth_ring_window [of "?v - d + i" ?v b ?w] b by (simp add: scope_items_def)
  qed
  also have "\<dots> = snd t ! (length (snd t) - d + i)"
  proof -
    have "length (snd t) - ?N + (?v - d + i) = length (snd t) - d + i" using v d by simp
    then show ?thesis using v d i by (simp add: it lastn_def)
  qed
  also have "length (snd t) - d + i = nat (first + int i - fst t)"
    using d v nx by (simp add: timeline_end_def)
  finally show "scope_display_sample s (scope_buffer_index s first) i = snd t ! nat (first + int i - fst t)" .
qed

lemma scope_visible_read:
  assumes t: "on_timeline (Some t) s" and v: "scope_visible s e = Some (first, n)"
  shows "0 < n" "n \<le> sc_window_samples s" "fst t \<le> first" "first + int n \<le> timeline_end t"
    "first + int n \<le> e"
    "i < n \<Longrightarrow> scope_display_sample s (scope_buffer_index s first) i = snd t ! nat (first + int i - fst t)"
proof -
  let ?old = "sc_next_sequence s - int (sc_valid_samples s)"
  define e' where "e' = (if e > sc_next_sequence s then sc_next_sequence s else e)"
  have r: "?old < e'" "n = min (nat (e' - ?old)) (sc_window_samples s)" "first = e' - int n" "0 < n"
    using v by (auto simp: scope_visible_def Let_def e'_def split: if_splits)
  then show "0 < n" "n \<le> sc_window_samples s" by simp_all
  have b: "first + int n \<le> sc_next_sequence s" "?old \<le> first" using r by (auto simp: e'_def)
  show "first + int n \<le> e" using r(3) by (simp add: e'_def)
  note tr = timeline_read [OF t b]
  show "fst t \<le> first" "first + int n \<le> timeline_end t" using tr(1,2) r(4) by blast+
  show "i < n \<Longrightarrow> scope_display_sample s (scope_buffer_index s first) i = snd t ! nat (first + int i - fst t)"
    using tr(3) .
qed

section \<open>Geometry\<close>

lemma fround_f64_le:
  assumes "0 \<le> q" "q \<le> of_int m" "m < 9007199254740992"
  shows "\<exists>r. fround f64 q = Fin r \<and> 0 \<le> r \<and> r \<le> of_int m"
proof -
  have m: "0 \<le> m" using assms(1,2) by (metis dual_order.trans of_int_0_le_iff)
  have rm: "round_rat f64 (of_int m) = of_int m"
    using round_rat_representable [of m f64 0] m assms(3) by simp
  have r: "round_rat f64 q \<le> of_int m" "0 \<le> round_rat f64 q"
    using round_rat_mono [OF assms(2), of f64] round_rat_nonneg [OF assms(1)] by (simp_all add: rm)
  have "(of_int m :: rat) \<le> of_int 9007199254740991" using assms(3) by (simp only: of_int_le_iff)
  also have "\<dots> \<le> max_finite f64" by (simp add: max_finite_def power_int_def)
  finally have "round_rat f64 q \<le> max_finite f64" using r(1) by linarith
  moreover have "- max_finite f64 \<le> round_rat f64 q" using r(2) calculation by linarith
  ultimately show ?thesis using r by (simp add: fround_def Let_def)
qed

text \<open>A rate of at most a million million samples a second leaves the conversions defined.\<close>

lemma unat_ucast_u64: "unat (ucast (x :: u32) :: u64) = unat x"
proof -
  have "uint (ucast x :: u64) = uint x" by (rule uint_up_ucast) (simp add: is_up)
  then show ?thesis by (simp only: unat_eq_nat_uint)
qed

lemma to_u64_int:
  assumes "0 \<le> z" "z < 18446744073709551616"
  shows "to_u64 (Fin (of_int z)) = Some (of_int z)"
proof -
  have "(of_int z :: rat) < of_int 18446744073709551616" "(of_int (-1) :: rat) < of_int z"
    using assms by (simp_all only: of_int_less_iff)
  then show ?thesis by (simp add: trunc_rat_def)
qed

lemma to_u32_int:
  assumes "0 \<le> z" "z < 4294967296"
  shows "to_u32 (Fin (of_int z)) = Some (of_int z)"
proof -
  have "(of_int z :: rat) < of_int 4294967296" "(of_int (-1) :: rat) < of_int z"
    using assms by (simp_all only: of_int_less_iff)
  then show ?thesis by (simp add: trunc_rat_def)
qed

lemma scope_latency_bound:
  assumes "Fin 0 < rate" "rate \<le> Fin 1000000000000"
  shows "\<exists>l. scope_latency_samples rate = Some l \<and> unat l \<le> 50000000000"
proof -
  obtain q where q: "rate = Fin q" "0 < q" "q \<le> 1000000000000"
    using assms by (cases rate) (auto simp: less_eq_cfloat_def)
  from fround_f64_le [of "q * 50" 50000000000000] q obtain r where
    r: "fround f64 (q * 50) = Fin r" "0 \<le> r" "r \<le> 50000000000000" by auto
  from fround_f64_le [of "r / 1000" 50000000000] r obtain t where
    t: "fround f64 (r / 1000) = Fin t" "0 \<le> t" "t \<le> 50000000000" by auto
  have c: "0 \<le> \<lceil>t\<rceil>" "\<lceil>t\<rceil> \<le> 50000000000" using t(2,3) by (simp_all add: ceiling_le_iff)
  have lat: "scope_latency_samples rate = (if 0 < \<lceil>t\<rceil> then to_u64 (Fin (of_int \<lceil>t\<rceil>)) else Some 0)"
    using r(1) t(1) by (simp add: scope_latency_samples_def q(1) Let_def del: to_u64.simps)
  have "to_u64 (Fin (of_int \<lceil>t\<rceil>)) = Some (of_int \<lceil>t\<rceil>)"
    by (rule to_u64_int [OF c(1) le_less_trans [OF c(2)]]) simp
  moreover have "unat (of_int \<lceil>t\<rceil> :: u64) \<le> 50000000000"
    using unat_u64_of_int [of "\<lceil>t\<rceil>"] c by linarith
  ultimately show ?thesis unfolding lat by simp
qed

text \<open>What a stream of the viewer may look like: allocated, or without memory and without a
  timeline.\<close>

definition scope_wf :: "STREAM_TIME_BUFFER \<Rightarrow> bool" where
  "scope_wf s \<longleftrightarrow> scope_ok s \<or> sc_buffer s = None \<and> \<not> sc_has_sequence s \<and> sc_valid_samples s = 0"

lemma scope_wf_zero [simp]: "scope_wf zero_scope" "scope_wf (reject_scope_stream s rate)"
  by (simp_all add: scope_wf_def zero_scope_def reject_scope_stream_def clear_scope_stream_def)

lemma ensure_scope_buffer_spec:
  assumes wf: "scope_wf s" and rate: "Fin 0 < rate" "rate \<le> Fin 1000000000000"
  shows "\<exists>b s'. ensure_scope_buffer mem s win rate ymin ymax = Some (b, s') \<and> scope_wf s'
    \<and> (if b then feq (sc_sample_rate s') rate \<and> sc_ymin s' = ymin \<and> sc_ymax s' = ymax
           \<and> fceil (fmul f64 win rate) = Fin (of_nat (sc_window_samples s'))
           \<and> (on_timeline None s' \<or> scope_ok s \<and> s' = s\<lparr>sc_ymin := ymin, sc_ymax := ymax\<rparr>)
       else sc_unsupported s' \<and> feq (sc_sample_rate s') rate \<and> sc_buffer s' = None)"
proof -
  let ?len = "fmul f64 win rate"
  have fr: "feq rate rate" using rate by (cases rate) (auto simp: feq_def)
  consider "sc_unsupported s" "feq (sc_sample_rate s) rate"
    | "\<not> (sc_unsupported s \<and> feq (sc_sample_rate s) rate)"
      "\<not> isfinite ?len \<or> ?len \<le> Fin 0 \<or> Fin INT_MAX < ?len"
    | "\<not> (sc_unsupported s \<and> feq (sc_sample_rate s) rate)"
      "\<not> (\<not> isfinite ?len \<or> ?len \<le> Fin 0 \<or> Fin INT_MAX < ?len)" by blast
  then show ?thesis
  proof cases
    case 1
    then have "sc_buffer s = None" using wf by (auto simp: scope_wf_def scope_ok_def)
    then show ?thesis
      using 1 wf by (intro exI [of _ False] exI [of _ s]) (simp add: ensure_scope_buffer_def)
  next
    case 2
    then have "ensure_scope_buffer mem s win rate ymin ymax = Some (False, reject_scope_stream s rate)"
      by (auto simp: ensure_scope_buffer_def Let_def)
    then show ?thesis
      using fr by (intro exI [of _ False] exI [of _ "reject_scope_stream s rate"])
        (simp add: reject_scope_stream_def clear_scope_stream_def scope_wf_def zero_scope_def)
  next
    case 3
    then obtain q where q: "?len = Fin q" "0 < q" "q \<le> INT_MAX" by (cases ?len) auto
    have c: "0 < \<lceil>q\<rceil>" "\<lceil>q\<rceil> \<le> 2147483647" using q(2,3) by (simp_all add: ceiling_le_iff)
    then have u: "to_u32 (fceil ?len) = Some (of_int \<lceil>q\<rceil>)"
      using to_u32_int [of "\<lceil>q\<rceil>"] by (simp add: q(1) del: to_u32.simps)
    define w where "w = nat \<lceil>q\<rceil>"
    have w: "0 < w" "w \<le> 2147483647" "(of_int \<lceil>q\<rceil> :: u32) = of_nat w" "\<lceil>q\<rceil> = int w"
      using c unfolding w_def by (simp, linarith, simp_all)
    have uw: "unat (of_int \<lceil>q\<rceil> :: u32) = w" using w(2,3) unat_u32_of_nat [of w] by simp
    have cw: "unat (ucast (of_int \<lceil>q\<rceil> :: u32) :: u64) = w"
      using uw unat_ucast_u64 by metis
    obtain l where l: "scope_latency_samples rate = Some l" "unat l \<le> 50000000000"
      using scope_latency_bound [OF rate] by blast
    let ?cap = "ucast (of_int \<lceil>q\<rceil> :: u32) + l + 256 :: u64"
    have cap: "unat ?cap = w + unat l + 256"
    proof -
      have "unat (ucast (of_int \<lceil>q\<rceil> :: u32) + l) = w + unat l"
        using cw l(2) w(2) by (subst unat_add_lem [THEN iffD1]) auto
      then show ?thesis using l(2) w(2) by (subst unat_add_lem [THEN iffD1]) auto
    qed
    have le: "?cap > 2147483647 \<longleftrightarrow> 2147483647 < w + unat l + 256"
      by (simp add: word_less_nat_alt cap)
    note run = ensure_scope_buffer_def [of mem s win rate ymin ymax]
    let ?new = "zero_scope\<lparr>sc_buffer := Some (replicate (w + unat l + 256) (Fin 0)),
       sc_points := Some (replicate w (Fin 0, Fin 0)), sc_write_index := 0,
       sc_capacity := w + unat l + 256, sc_window_samples := w, sc_valid_samples := 0,
       sc_ymin := ymin, sc_ymax := ymax, sc_sample_rate := rate\<rparr>"
    have run: "ensure_scope_buffer mem s win rate ymin ymax =
       (if 2147483647 < w + unat l + 256 then Some (False, reject_scope_stream s rate)
        else if sc_buffer s \<noteq> None \<and> sc_points s \<noteq> None \<and> feq (sc_sample_rate s) rate \<and> sc_window_samples s = w
        then Some (True, s\<lparr>sc_ymin := ymin, sc_ymax := ymax\<rparr>)
        else if \<not> mem then Some (False, reject_scope_stream zero_scope rate)
        else Some (True, ?new))"
      unfolding run Let_def if_not_P [OF 3(1)] if_not_P [OF 3(2)] u l(1) prod.case option.case le cap uw
        clear_scope_stream_def ..
    have new: "scope_ok ?new" "on_timeline None ?new" if "w + unat l + 256 \<le> 2147483647"
      using w(1) that by (simp_all add: on_timeline_def scope_ok_def zero_scope_def)
    have rej: "sc_unsupported (reject_scope_stream s0 rate)" "sc_sample_rate (reject_scope_stream s0 rate) = rate"
      "sc_buffer (reject_scope_stream s0 rate) = None" for s0
      by (simp_all add: reject_scope_stream_def clear_scope_stream_def zero_scope_def)
    have old: "scope_ok s" if "sc_buffer s \<noteq> None"
      using wf that by (simp add: scope_wf_def)
    have upd: "scope_ok (s\<lparr>sc_ymin := ymin, sc_ymax := ymax\<rparr>) \<longleftrightarrow> scope_ok s" by (simp add: scope_ok_def)
    have f: "fceil ?len = Fin (of_nat w)" using w(4) by (simp add: q(1))
    let ?reuse = "sc_buffer s \<noteq> None \<and> sc_points s \<noteq> None \<and> feq (sc_sample_rate s) rate
      \<and> sc_window_samples s = w"
    consider s0 where "ensure_scope_buffer mem s win rate ymin ymax = Some (False, reject_scope_stream s0 rate)"
      | "ensure_scope_buffer mem s win rate ymin ymax = Some (True, s\<lparr>sc_ymin := ymin, sc_ymax := ymax\<rparr>)" ?reuse
      | "ensure_scope_buffer mem s win rate ymin ymax = Some (True, ?new)" "w + unat l + 256 \<le> 2147483647"
      using run by (metis not_less)
    then show ?thesis
    proof cases
      case 1
      then show ?thesis
        using rej [of s0] fr
        by (intro exI [of _ False] exI [of _ "reject_scope_stream s0 rate"]) simp
    next
      case 2
      have "scope_ok s" "sc_window_samples s = w" "feq (sc_sample_rate s) rate" using 2(2) old by simp_all
      then show ?thesis
        using 2(1) f upd
        by (intro exI [of _ True] exI [of _ "s\<lparr>sc_ymin := ymin, sc_ymax := ymax\<rparr>"]) (simp add: scope_wf_def)
    next
      case 3
      then show ?thesis
        using new [OF 3(2)] f fr
        by (intro exI [of _ True] exI [of _ ?new]) (simp add: scope_wf_def)
    qed
  qed
qed

section \<open>Packets in order\<close>

definition timeline_of :: "(int \<times> cfloat list) list \<Rightarrow> timeline option" where
  "timeline_of ps = fold (\<lambda>p tm. Some (extend_timeline (fst p) (snd p) tm)) ps None"

definition feed_scope :: "(int \<times> cfloat list) list \<Rightarrow> STREAM_TIME_BUFFER \<Rightarrow> STREAM_TIME_BUFFER" where
  "feed_scope = fold (\<lambda>p. append_scope_samples (snd p) (length (snd p)) (fst p))"

lemma feed_scope_refines:
  assumes "on_timeline None s" "\<forall>p \<in> set ps. 0 \<le> fst p \<and> i64 (fst p)"
  shows "on_timeline (timeline_of ps) (feed_scope ps s)"
  using assms(2)
proof (induction ps rule: rev_induct)
  case Nil
  then show ?case using assms(1) by (simp add: timeline_of_def feed_scope_def)
next
  case (snoc p ps)
  then have "on_timeline (timeline_of ps) (feed_scope ps s)" "0 \<le> fst p" "i64 (fst p)" by simp_all
  from append_scope_samples_refines(1) [OF this, of "length (snd p)" "snd p"]
  show ?case by (simp add: timeline_of_def feed_scope_def)
qed

definition in_order :: "(int \<times> cfloat list) list \<Rightarrow> bool" where
  "in_order = sorted_wrt (\<lambda>p q. fst p + int (length (snd p)) \<le> fst q)"

definition covers :: "int \<times> cfloat list \<Rightarrow> int \<Rightarrow> bool" where
  "covers p n \<longleftrightarrow> fst p \<le> n \<and> n < fst p + int (length (snd p))"

lemma timeline_in_order:
  "in_order ps \<Longrightarrow> timeline_of ps = Some t \<Longrightarrow>
     (\<forall>p \<in> set ps. fst t \<le> fst p \<and> fst p + int (length (snd p)) \<le> timeline_end t
        \<and> (\<forall>j < length (snd p). snd t ! nat (fst p + int j - fst t) = plotted (snd p ! j)))
     \<and> (\<exists>p \<in> set ps. timeline_end t = fst p + int (length (snd p)))
     \<and> (\<forall>n. fst t \<le> n \<longrightarrow> n < timeline_end t \<longrightarrow> (\<forall>p \<in> set ps. \<not> covers p n) \<longrightarrow> snd t ! nat (n - fst t) = Fin 0)"
proof (induction ps arbitrary: t rule: rev_induct)
  case Nil
  then show ?case by (simp add: timeline_of_def)
next
  case (snoc p ps)
  have ord: "in_order ps" "\<forall>q \<in> set ps. fst q + int (length (snd q)) \<le> fst p"
    using snoc.prems(1) by (simp_all add: in_order_def sorted_wrt_append)
  have t: "t = extend_timeline (fst p) (snd p) (timeline_of ps)"
    using snoc.prems(2) by (simp add: timeline_of_def)
  show ?case
  proof (cases "timeline_of ps")
    case None
    then have "ps = []" by (cases ps rule: rev_cases) (simp_all add: timeline_of_def)
    then show ?thesis
      using t None by (auto simp: extend_timeline_def timeline_end_def covers_def)
  next
    case (Some t0)
    note IH = snoc.IH [OF ord(1) Some]
    have e0: "timeline_end t0 \<le> fst p" using IH ord(2) by auto
    let ?gap = "nat (fst p - timeline_end t0)"
    have t: "t = (fst t0, snd t0 @ replicate ?gap (Fin 0) @ map plotted (snd p))"
      using t Some e0 by (simp add: extend_timeline_def)
    have en: "timeline_end t = fst p + int (length (snd p))"
      using e0 by (simp add: t timeline_end_def)
    have len: "int (length (snd t0)) = timeline_end t0 - fst t0" by (simp add: timeline_end_def)
    have old: "snd t ! k = snd t0 ! k" if "int k < timeline_end t0 - fst t0" for k
      using that len by (simp add: t nth_append)
    have new: "snd t ! nat (fst p + int j - fst t0) = plotted (snd p ! j)" if "j < length (snd p)" for j
    proof -
      have "nat (fst p + int j - fst t0) = length (snd t0) + (?gap + j)" using len e0 by linarith
      then show ?thesis using that by (simp add: t nth_append)
    qed
    have zero: "snd t ! nat (n - fst t0) = Fin 0" if "timeline_end t0 \<le> n" "n < fst p" for n
    proof -
      have "nat (n - fst t0) = length (snd t0) + nat (n - timeline_end t0)" using len that by linarith
      moreover have "nat (n - timeline_end t0) < ?gap" using that by simp
      ultimately show ?thesis by (simp add: t nth_append)
    qed
    have start: "fst t = fst t0" by (simp add: t)
    have "fst t0 \<le> timeline_end t0" by (simp add: timeline_end_def)
    then have a: "fst t \<le> fst q \<and> fst q + int (length (snd q)) \<le> timeline_end t
        \<and> (\<forall>j < length (snd q). snd t ! nat (fst q + int j - fst t) = plotted (snd q ! j))"
      if q: "q \<in> set (ps @ [p])" for q
    proof (cases "q \<in> set ps")
      case True
      then have i: "fst t0 \<le> fst q" "fst q + int (length (snd q)) \<le> timeline_end t0"
        "\<forall>j < length (snd q). snd t0 ! nat (fst q + int j - fst t0) = plotted (snd q ! j)"
        using IH by auto
      then show ?thesis using old e0 en start by auto
    next
      case False
      then show ?thesis using q new en e0 start \<open>fst t0 \<le> timeline_end t0\<close> by auto
    qed
    have "snd t ! nat (n - fst t) = Fin 0"
      if n: "fst t \<le> n" "n < timeline_end t" "\<forall>q \<in> set (ps @ [p]). \<not> covers q n" for n
    proof (cases "n < timeline_end t0")
      case True
      then show ?thesis using IH n old start by auto
    next
      case False
      then show ?thesis using zero n en start by (auto simp: covers_def)
    qed
    then show ?thesis using a en by auto
  qed
qed

section \<open>Columns\<close>

lemma finite_le_trans: "isfinite y \<Longrightarrow> x \<le> y \<Longrightarrow> y \<le> z \<Longrightarrow> x \<le> (z :: cfloat)"
  by (cases x; cases y; cases z) (auto simp: less_eq_cfloat_def)

lemma finite_not_less: "isfinite x \<Longrightarrow> isfinite y \<Longrightarrow> \<not> x < y \<Longrightarrow> y \<le> x"
  by (cases x; cases y) auto

lemma finite_le_refl: "isfinite x \<Longrightarrow> x \<le> x"
  by (cases x) auto

lemma minmax_fold:
  assumes "\<forall>i \<in> set is. isfinite (f i)" "isfinite mn" "isfinite mx"
    and "fold (\<lambda>i (mn, mx). (if f i < mn then f i else mn, if mx < f i then f i else mx)) is (mn, mx) = (a, b)"
  shows "isfinite a \<and> isfinite b \<and> a \<le> mn \<and> mx \<le> b \<and> (\<forall>i \<in> set is. a \<le> f i \<and> f i \<le> b)
    \<and> a \<in> insert mn (f ` set is) \<and> b \<in> insert mx (f ` set is)"
  using assms
proof (induction "is" arbitrary: mn mx)
  case Nil
  then show ?case by (auto intro: finite_le_refl)
next
  case (Cons i "is")
  let ?mn = "if f i < mn then f i else mn" and ?mx = "if mx < f i then f i else mx"
  have fin: "isfinite (f i)" "isfinite ?mn" "isfinite ?mx" using Cons.prems by simp_all
  have IH: "isfinite a \<and> isfinite b \<and> a \<le> ?mn \<and> ?mx \<le> b \<and> (\<forall>i \<in> set is. a \<le> f i \<and> f i \<le> b)
    \<and> a \<in> insert ?mn (f ` set is) \<and> b \<in> insert ?mx (f ` set is)"
    by (rule Cons.IH) (use Cons.prems fin in auto)
  have "?mn \<le> mn" "?mn \<le> f i" "mx \<le> ?mx" "f i \<le> ?mx"
    using fin Cons.prems(2,3) finite_not_less finite_le_refl by (auto simp: less_eq_cfloat_def)
  then have "a \<le> mn" "a \<le> f i" "mx \<le> b" "f i \<le> b"
    using IH finite_le_trans [OF fin(2)] finite_le_trans [OF fin(3)] by blast+
  then show ?case using IH by (auto split: if_splits)
qed

lemma scope_column_spec:
  assumes fin: "\<forall>i < n. isfinite (scope_display_sample s first i)"
    and c: "0 < count" "count \<le> n" "k < count"
    and col: "scope_column s first n count k = (mn, mx, x, y)"
  defines "a \<equiv> bucket_start n count k" and "b \<equiv> bucket_start n count (Suc k)"
  shows "a < b" "b \<le> n" "x = scope_display_sample s first a" "y = scope_display_sample s first (b - 1)"
    "\<And>i. a \<le> i \<Longrightarrow> i < b \<Longrightarrow> mn \<le> scope_display_sample s first i \<and> scope_display_sample s first i \<le> mx"
    "\<exists>i. a \<le> i \<and> i < b \<and> mn = scope_display_sample s first i"
    "\<exists>i. a \<le> i \<and> i < b \<and> mx = scope_display_sample s first i"
proof -
  show ab: "a < b" unfolding a_def b_def using c bucket_nonempty by blast
  show bn: "b \<le> n" unfolding b_def using c by (intro bucket_le) simp_all
  let ?f = "scope_display_sample s first"
  have r: "fold (\<lambda>i (mn, mx). (if ?f i < mn then ?f i else mn, if mx < ?f i then ?f i else mx))
      [a + 1..<b] (?f a, ?f a) = (mn, mx)" "x = ?f a" "y = ?f (b - 1)"
    using col by (auto simp: scope_column_def Let_def a_def b_def split: prod.splits)
  then show "x = ?f a" "y = ?f (b - 1)" by simp_all
  have m: "mn \<le> ?f a" "?f a \<le> mx" "\<forall>i \<in> set [a + 1..<b]. mn \<le> ?f i \<and> ?f i \<le> mx"
    "mn \<in> insert (?f a) (?f ` set [a + 1..<b])" "mx \<in> insert (?f a) (?f ` set [a + 1..<b])"
    using minmax_fold [OF _ _ _ r(1)] fin ab bn by auto
  show "mn \<le> ?f i \<and> ?f i \<le> mx" if "a \<le> i" "i < b" for i
    using m(1-3) that by (cases "i = a") auto
  have "insert (?f a) (?f ` set [a + 1..<b]) \<subseteq> ?f ` {a..<b}" using ab by auto
  then have "mn \<in> ?f ` {a..<b}" "mx \<in> ?f ` {a..<b}" using m(4,5) by blast+
  then show "\<exists>i. a \<le> i \<and> i < b \<and> mn = ?f i" "\<exists>i. a \<le> i \<and> i < b \<and> mx = ?f i" by auto
qed

lemma timeline_finite: "timeline_of ps = Some t \<Longrightarrow> x \<in> set (snd t) \<Longrightarrow> isfinite x"
proof (induction ps arbitrary: t rule: rev_induct)
  case Nil
  then show ?case by (simp add: timeline_of_def)
next
  case (snoc p ps)
  have pl: "isfinite (plotted y)" for y by (simp add: plotted_def)
  have t: "t = extend_timeline (fst p) (snd p) (timeline_of ps)"
    using snoc.prems(1) by (simp add: timeline_of_def)
  show ?case
    using snoc.IH snoc.prems(2) pl unfolding t
    by (cases "timeline_of ps") (auto simp: extend_timeline_def)
qed

section \<open>The clock\<close>

lemma of_i64_finite:
  assumes "i64 n" shows "isfinite (of_i64 n)"
proof -
  have "isfinite (fround f64 (of_int k))" if "\<bar>k\<bar> \<le> 9223372036854775808" for k
  proof -
    have p: "(9223372036854775808 :: rat) = of_int 1 * 2 powi 63" by (simp add: power_int_def)
    have r: "round_rat f64 9223372036854775808 = 9223372036854775808"
      unfolding p by (rule round_rat_representable) simp_all
    have "(of_int \<bar>k\<bar> :: rat) \<le> of_int 9223372036854775808" using that by (simp only: of_int_le_iff)
    then have "(of_int k :: rat) \<le> 9223372036854775808" "(-9223372036854775808 :: rat) \<le> of_int k" by linarith+
    then have "round_rat f64 (of_int k) \<le> 9223372036854775808" "- 9223372036854775808 \<le> round_rat f64 (of_int k)"
      using round_rat_mono [of "of_int k" 9223372036854775808 f64]
        round_rat_mono [of "-9223372036854775808" "of_int k" f64] r round_rat_minus [of f64 9223372036854775808]
      by simp_all
    moreover have "(9223372036854775808 :: rat) \<le> max_finite f64" by (simp add: max_finite_def power_int_def)
    ultimately show ?thesis by (simp add: fround_def Let_def)
  qed
  then show ?thesis using assms by (auto simp: of_i64_def i64_def INT64_MAX_def)
qed

text \<open>After the scan: the received limit is at most the end of every active stream.\<close>

lemma scan_streams_received:
  assumes "scan_streams ss f = Some f'" "\<forall>s \<in> set ss. i64 (sc_next_sequence s)"
    and "found_stream f \<longrightarrow> isfinite (latest_received_sample f)"
  shows "(found_stream f' \<longleftrightarrow> found_stream f \<or> (\<exists>s \<in> set ss. scope_active s))
    \<and> (found_stream f' \<longrightarrow> isfinite (latest_received_sample f'))
    \<and> (found_stream f \<longrightarrow> latest_received_sample f' \<le> latest_received_sample f)
    \<and> (\<forall>s \<in> set ss. scope_active s \<longrightarrow> latest_received_sample f' \<le> of_i64 (sc_next_sequence s))"
  using assms
proof (induction ss arbitrary: f)
  case Nil
  then show ?case by (auto intro: finite_le_refl)
next
  case (Cons s ss)
  obtain f1 where f1: "scan_stream s f = Some f1" "scan_streams ss f1 = Some f'"
    using Cons.prems(1) by (auto split: bind_splits)
  let ?next = "of_i64 (sc_next_sequence s)"
  have fin: "isfinite ?next" using of_i64_finite Cons.prems(2) by simp
  show ?case
  proof (cases "scope_active s")
    case False
    then have "f1 = f" using f1(1) by (simp add: scan_stream_def)
    then show ?thesis using Cons.IH [OF f1(2)] Cons.prems False by auto
  next
    case True
    then have g: "found_stream f1" "latest_received_sample f1
        = (if \<not> found_stream f \<or> ?next < latest_received_sample f then ?next else latest_received_sample f)"
      using f1(1) by (auto simp: scan_stream_def Let_def split: option.splits)
    have fin1: "isfinite (latest_received_sample f1)" using g(2) fin Cons.prems(3) by simp
    have "latest_received_sample f1 \<le> ?next"
      "found_stream f \<longrightarrow> latest_received_sample f1 \<le> latest_received_sample f"
      using g(2) fin Cons.prems(3) finite_le_refl finite_not_less by (auto simp: less_eq_cfloat_def)
    then show ?thesis
      using Cons.IH [OF f1(2)] Cons.prems(2) g(1) fin1 True finite_le_trans [OF fin1] by auto
  qed
qed

section \<open>Properties\<close>

text \<open>C7: \<^verbatim>\<open>append_scope_samples\<close> refines the extension of a timeline: a packet that starts
  before the end contributes only what is new, one that starts after it leaves zeros in the gap,
  and the ring holds the last values of the timeline, as many as it has room for. A gap of any
  length, longer than the ring included, keeps the ring within its bounds.\<close>

theorem scope_append_refines:
  assumes "on_timeline tm s" "0 \<le> seq" "seq \<le> INT64_MAX" "n \<le> length vals"
  shows "on_timeline (Some (extend_timeline seq (take n vals) tm)) (append_scope_samples vals n seq s)"
  using append_scope_samples_refines(1) [OF assms(1,2) _ assms(4)] assms(2,3)
  by (simp add: i64_def INT64_MAX_def)

definition sample_scope_buffer :: STREAM_TIME_BUFFER where
  "sample_scope_buffer = zero_scope\<lparr>sc_buffer := Some (replicate 260 (Fin 0)),
     sc_points := Some (replicate 4 (Fin 0, Fin 0)), sc_capacity := 260, sc_window_samples := 4\<rparr>"

lemma sample_scope_buffer_ok: "on_timeline None sample_scope_buffer"
  by (simp add: on_timeline_def scope_ok_def sample_scope_buffer_def zero_scope_def)

theorem scope_append_refines_witness:
  "on_timeline (Some (extend_timeline 5 (take 2 [Fin 1, NaN, Fin 3]) None))
     (append_scope_samples [Fin 1, NaN, Fin 3] 2 5 sample_scope_buffer)"
  by (rule scope_append_refines [OF sample_scope_buffer_ok]) (simp_all add: INT64_MAX_def)

text \<open>C23: What is drawn is what was sent. After any packets in order, with gaps between them or
  not, the sample drawn for a number is the packet's sample with that number, zero in place of
  one that is not finite, and zero where no packet had it.\<close>

theorem scope_shows_what_was_sent:
  assumes "on_timeline None s0" "\<forall>p \<in> set ps. 0 \<le> fst p \<and> fst p \<le> INT64_MAX" "in_order ps"
    and "scope_visible (feed_scope ps s0) e = Some (first, n)"
  shows "0 < n \<and> first + int n \<le> e
    \<and> (\<forall>i < n. scope_display_sample (feed_scope ps s0) (scope_buffer_index (feed_scope ps s0) first) i =
        (case find (\<lambda>p. covers p (first + int i)) ps of
           Some p \<Rightarrow> plotted (snd p ! nat (first + int i - fst p))
         | None \<Rightarrow> Fin 0))"
proof -
  let ?s = "feed_scope ps s0"
  have "\<forall>p \<in> set ps. 0 \<le> fst p \<and> i64 (fst p)"
    using assms(2) by (fastforce simp: i64_def INT64_MAX_def)
  note on = feed_scope_refines [OF assms(1) this]
  have "timeline_of ps \<noteq> None"
  proof
    assume "timeline_of ps = None"
    then have "sc_valid_samples ?s = 0" using on by (simp add: on_timeline_def)
    then show False using assms(4) by (simp add: scope_visible_def)
  qed
  then obtain t where t: "timeline_of ps = Some t" by auto
  note r = scope_visible_read [OF on [unfolded t] assms(4)]
  note io = timeline_in_order [OF assms(3) t]
  have "scope_display_sample ?s (scope_buffer_index ?s first) i =
      (case find (\<lambda>p. covers p (first + int i)) ps of
         Some p \<Rightarrow> plotted (snd p ! nat (first + int i - fst p)) | None \<Rightarrow> Fin 0)" if i: "i < n" for i
  proof (cases "find (\<lambda>p. covers p (first + int i)) ps")
    case None
    then have "\<forall>p \<in> set ps. \<not> covers p (first + int i)" by (auto simp: find_None_iff)
    then show ?thesis using io r(3,4) r(6) [OF i] i None by auto
  next
    case (Some p)
    then have p: "p \<in> set ps" "covers p (first + int i)" by (auto simp: find_Some_iff)
    let ?j = "nat (first + int i - fst p)"
    have j: "?j < length (snd p)" "fst p + int ?j = first + int i" using p(2) by (auto simp: covers_def)
    then have "snd t ! nat (first + int i - fst t) = plotted (snd p ! ?j)" using io p(1) by metis
    then show ?thesis using r(6) [OF i] Some by simp
  qed
  then show ?thesis using r(1,5) by blast
qed

theorem scope_shows_what_was_sent_witness:
  "\<exists>first n. scope_visible (feed_scope [(3, [Fin 1, Fin 2]), (6, [NaN])] sample_scope_buffer) 9 = Some (first, n)
    \<and> 0 < n \<and> first + int n \<le> 9
    \<and> (\<forall>i < n. scope_display_sample (feed_scope [(3, [Fin 1, Fin 2]), (6, [NaN])] sample_scope_buffer)
          (scope_buffer_index (feed_scope [(3, [Fin 1, Fin 2]), (6, [NaN])] sample_scope_buffer) first) i =
        (case find (\<lambda>p. covers p (first + int i)) [(3, [Fin 1, Fin 2]), (6, [NaN])] of
           Some p \<Rightarrow> plotted (snd p ! nat (first + int i - fst p))
         | None \<Rightarrow> Fin 0))"
proof -
  let ?ps = "[(3, [Fin 1, Fin 2]), (6, [NaN])]"
  have "scope_visible (feed_scope ?ps sample_scope_buffer) 9 \<noteq> None" by code_simp
  then obtain first n where v: "scope_visible (feed_scope ?ps sample_scope_buffer) 9 = Some (first, n)" by auto
  have "in_order ?ps" by (simp add: in_order_def)
  from scope_shows_what_was_sent [OF sample_scope_buffer_ok _ this v] v show ?thesis
    by (simp add: INT64_MAX_def)
qed

text \<open>Collapsing samples into pixel columns loses none and invents none: every sample to be
  drawn lies within the range of its column, and both ends of a column's range are samples of
  that column.\<close>

theorem scope_columns_cover:
  assumes "\<forall>i < n. isfinite (scope_display_sample s first i)" "0 < count" "count \<le> n"
  shows "(\<forall>i < n. \<exists>k < count. \<exists>mn mx x y. scope_column s first n count k = (mn, mx, x, y)
      \<and> mn \<le> scope_display_sample s first i \<and> scope_display_sample s first i \<le> mx)
    \<and> (\<forall>k < count. \<forall>mn mx x y. scope_column s first n count k = (mn, mx, x, y) \<longrightarrow>
        (\<exists>i < n. mn = scope_display_sample s first i) \<and> (\<exists>i < n. mx = scope_display_sample s first i))"
proof (intro conjI allI impI)
  fix i
  assume "i < n"
  then obtain k where k: "k < count" "bucket_start n count k \<le> i" "i < bucket_start n count (Suc k)"
    using bucket_cover assms(2) by blast
  obtain mn mx x y where c: "scope_column s first n count k = (mn, mx, x, y)" by (metis prod_cases4)
  from scope_column_spec(5) [OF assms k(1) c k(2,3)] k(1) c
  show "\<exists>k < count. \<exists>mn mx x y. scope_column s first n count k = (mn, mx, x, y)
      \<and> mn \<le> scope_display_sample s first i \<and> scope_display_sample s first i \<le> mx" by blast
next
  fix k mn mx x y
  assume k: "k < count" and c: "scope_column s first n count k = (mn, mx, x, y)"
  note sp = scope_column_spec [OF assms k c]
  show "\<exists>i < n. mn = scope_display_sample s first i" "\<exists>i < n. mx = scope_display_sample s first i"
    using sp(2,6,7) by (meson less_le_trans)+
qed

theorem scope_columns_cover_witness:
  "\<exists>k < 2. \<exists>mn mx x y. scope_column (feed_scope [(3, [Fin 1, Fin 7, Fin 2])] sample_scope_buffer) 0 3 2 k = (mn, mx, x, y)
     \<and> mn \<le> Fin 7 \<and> Fin 7 \<le> mx"
proof -
  let ?s = "feed_scope [(3, [Fin 1, Fin 7, Fin 2])] sample_scope_buffer"
  have "scope_display_sample ?s 0 0 = Fin 1" "scope_display_sample ?s 0 1 = Fin 7" "scope_display_sample ?s 0 2 = Fin 2"
    by code_simp+
  then have fin: "\<forall>i < 3. isfinite (scope_display_sample ?s 0 i)" and v: "scope_display_sample ?s 0 1 = Fin 7"
    by (auto simp: numeral_3_eq_3 numeral_2_eq_2 less_Suc_eq)
  from conjunct1 [OF scope_columns_cover [OF fin, of 2]] have "\<exists>k < 2. \<exists>mn mx x y.
      scope_column ?s 0 3 2 k = (mn, mx, x, y)
      \<and> mn \<le> scope_display_sample ?s 0 1 \<and> scope_display_sample ?s 0 1 \<le> mx" by simp
  then show ?thesis unfolding v .
qed

text \<open>C25: The display clock never shows what has not arrived: whatever time has passed between
  two frames, its position is at most the end of every stream that has samples.\<close>

theorem display_clock_not_ahead:
  assumes "advance_scope_timeline ss now_ns c = Some (True, c')"
    and "\<forall>s \<in> set ss. i64 (sc_next_sequence s)"
  shows "\<forall>s \<in> set ss. scope_active s \<longrightarrow> \<not> of_i64 (sc_next_sequence s) < display_end_sample c'"
proof (intro ballI impI)
  fix s
  assume s: "s \<in> set ss" "scope_active s"
  obtain f where f: "scan_streams ss empty_scan = Some f" "found_stream f"
    using assms(1) by (auto simp: advance_scope_timeline_def split: option.splits if_splits)
  have r: "isfinite (latest_received_sample f)" "latest_received_sample f \<le> of_i64 (sc_next_sequence s)"
    using scan_streams_received [OF f(1) assms(2)] f(2) s by (simp_all add: empty_scan_def)
  have "\<not> latest_received_sample f < display_end_sample c'"
    using assms(1) f by (auto simp: advance_scope_timeline_def Let_def split: if_splits)
      (cases "latest_received_sample f"; simp)+
  then show "\<not> of_i64 (sc_next_sequence s) < display_end_sample c'"
    using r by (cases "latest_received_sample f"; cases "of_i64 (sc_next_sequence s)"; cases "display_end_sample c'")
      (auto simp: less_eq_cfloat_def)
qed

theorem display_clock_not_ahead_witness:
  "\<exists>c'. advance_scope_timeline [feed_scope [(3, [Fin 1, Fin 7, Fin 2])] sample_scope_buffer] 7
       \<lparr>display_end_sample = Fin 9, last_render_ns = 4, display_started = True\<rparr> = Some (True, c')
     \<and> \<not> of_i64 (sc_next_sequence (feed_scope [(3, [Fin 1, Fin 7, Fin 2])] sample_scope_buffer))
         < display_end_sample c'"
proof -
  let ?s = "feed_scope [(3, [Fin 1, Fin 7, Fin 2])] sample_scope_buffer"
  let ?c = "\<lparr>display_end_sample = Fin 9, last_render_ns = 4, display_started = True\<rparr>"
  have s: "sc_sample_rate ?s = Fin 0" "i64 (sc_next_sequence ?s)" "scope_active ?s" by code_simp+
  have "scope_latency_samples (Fin 0) = Some 0"
    by (simp add: scope_latency_samples_def fround_def Let_def max_finite_def)
  then obtain f where "scan_streams [?s] empty_scan = Some f" "found_stream f"
    using s by (simp add: scan_stream_def Let_def)
  then obtain c' where a: "advance_scope_timeline [?s] 7 ?c = Some (True, c')"
    by (auto simp: advance_scope_timeline_def Let_def)
  show ?thesis using s(2,3) using display_clock_not_ahead [OF a] a by simp
qed

end
