(* ===== verification/FtableAssembly.thy ===== *)
theory FtableAssembly
  imports ScopeBuffer StreamQueue
begin

text \<open>
  The viewer's side of a table transfer (\<^verbatim>\<open>STREAM_FTABLE_BUFFER\<close> in
  \<^verbatim>\<open>src/src/watch_viewer.c\<close>): chunks of a table arrive in any order, some of them more
  than once, and the table is shown when every chunk has arrived. The specification is the table
  itself and the set of the chunks received so far.
\<close>

section \<open>State\<close>

abbreviation MAX_FTABLE_RENDER_BUCKETS :: "'a::numeral" where "MAX_FTABLE_RENDER_BUCKETS \<equiv> 16384"

record STREAM_FTABLE_BUFFER =
  fb_samples :: "cfloat list option"
  fb_received_chunks :: "bool list option"
  fb_envelope_minimums :: "cfloat list option"
  fb_envelope_maximums :: "cfloat list option"
  fb_transfer_id :: u32
  fb_total_samples :: u32
  fb_total_chunks :: nat
  fb_received_count :: nat
  fb_envelope_count :: nat
  fb_data_minimum :: cfloat
  fb_data_maximum :: cfloat
  fb_has_range :: bool
  fb_assembling :: bool
  fb_display_ready :: bool
  fb_unsupported :: bool

definition zero_ftable :: STREAM_FTABLE_BUFFER where
  "zero_ftable = \<lparr>fb_samples = None, fb_received_chunks = None, fb_envelope_minimums = None,
     fb_envelope_maximums = None, fb_transfer_id = 0, fb_total_samples = 0, fb_total_chunks = 0,
     fb_received_count = 0, fb_envelope_count = 0, fb_data_minimum = Fin 0, fb_data_maximum = Fin 0,
     fb_has_range = False, fb_assembling = False, fb_display_ready = False, fb_unsupported = False\<rparr>"

definition clear_ftable_stream :: "STREAM_FTABLE_BUFFER \<Rightarrow> STREAM_FTABLE_BUFFER" where
  "clear_ftable_stream s = zero_ftable"

definition reject_ftable_stream ::
  "STREAM_FTABLE_BUFFER \<Rightarrow> WATCH_MSG_FTABLE_DATA \<Rightarrow> STREAM_FTABLE_BUFFER" where
  "reject_ftable_stream s d = (clear_ftable_stream s)\<lparr>fb_transfer_id := transfer_id d,
     fb_total_samples := total_samples d, fb_unsupported := True\<rparr>"

text \<open>\<open>mem\<close> says whether the two allocations succeed; the flag of the result is the
  function's.\<close>

definition ensure_ftable_stream ::
  "bool \<Rightarrow> STREAM_FTABLE_BUFFER \<Rightarrow> WATCH_MSG_FTABLE_DATA \<Rightarrow> bool \<times> STREAM_FTABLE_BUFFER" where
  "ensure_ftable_stream mem s d =
     (if fb_samples s \<noteq> None \<and> fb_transfer_id s = transfer_id d \<and> fb_total_samples s = total_samples d
      then (True, s)
      else if fb_unsupported s \<and> fb_transfer_id s = transfer_id d \<and> fb_total_samples s = total_samples d
      then (False, s)
      else if \<not> mem then (False, reject_ftable_stream (clear_ftable_stream s) d)
      else
        let chunks = unat ((total_samples d + MAX_STREAM_SAMPLES - 1) div MAX_STREAM_SAMPLES) in
        (True, (clear_ftable_stream s)\<lparr>
          fb_samples := Some (replicate (unat (total_samples d)) (Fin 0)),
          fb_total_chunks := chunks, fb_received_chunks := Some (replicate chunks False),
          fb_transfer_id := transfer_id d, fb_total_samples := total_samples d,
          fb_assembling := True\<rparr>))"

text \<open>One bucket of the envelope.\<close>

definition envelope_bucket :: "cfloat list \<Rightarrow> nat \<Rightarrow> nat \<Rightarrow> cfloat \<times> cfloat" where
  "envelope_bucket xs count bucket =
     (let first = bucket_start (length xs) count bucket;
          end_index = bucket_start (length xs) count (bucket + 1) in
      fold (\<lambda>i (mn, mx). (fmin mn (xs ! i), fmax mx (xs ! i))) [first + 1..<end_index]
        (xs ! first, xs ! first))"

definition prepare_ftable_envelope :: "bool \<Rightarrow> STREAM_FTABLE_BUFFER \<Rightarrow> bool \<times> STREAM_FTABLE_BUFFER" where
  "prepare_ftable_envelope mem s =
     (let count = (if unat (fb_total_samples s) < MAX_FTABLE_RENDER_BUCKETS
            then unat (fb_total_samples s) else MAX_FTABLE_RENDER_BUCKETS) in
      if \<not> mem then (False, s)
      else
        let buckets = map (envelope_bucket (the (fb_samples s)) count) [0..<count] in
        (True, s\<lparr>fb_envelope_minimums := Some (map fst buckets),
           fb_envelope_maximums := Some (map snd buckets), fb_envelope_count := count\<rparr>))"

text \<open>The samples of a chunk, stored from an offset on, and the range they widen.\<close>

fun store_ftable_samples :: "nat \<Rightarrow> cfloat list \<Rightarrow> STREAM_FTABLE_BUFFER \<Rightarrow> STREAM_FTABLE_BUFFER" where
  "store_ftable_samples offset [] s = s"
| "store_ftable_samples offset (x # xs) s =
     (let sample = (if isfinite x then x else Fin 0);
          s1 = s\<lparr>fb_samples := map_option (\<lambda>b. b[offset := sample]) (fb_samples s)\<rparr>;
          s2 = (if \<not> fb_has_range s1
                then s1\<lparr>fb_data_minimum := sample, fb_data_maximum := sample, fb_has_range := True\<rparr>
                else s1\<lparr>fb_data_minimum := fmin (fb_data_minimum s1) sample,
                  fb_data_maximum := fmax (fb_data_maximum s1) sample\<rparr>) in
      store_ftable_samples (offset + 1) xs s2)"

text \<open>The part of \<^verbatim>\<open>process_ftable_packet\<close> behind its lookup. \<open>mem\<close> and \<open>envelope_mem\<close> say
  whether the allocations of the buffers and of the envelope succeed.\<close>

definition accept_ftable_chunk ::
  "bool \<Rightarrow> bool \<Rightarrow> WATCH_MSG_FTABLE_DATA \<Rightarrow> STREAM_FTABLE_BUFFER \<Rightarrow> STREAM_FTABLE_BUFFER" where
  "accept_ftable_chunk mem envelope_mem d s =
     (if fb_display_ready s \<and> fb_transfer_id s = transfer_id d \<and> fb_total_samples s = total_samples d then s
      else
        let (ensured, s1) = ensure_ftable_stream mem s d in
        if \<not> ensured then s1
        else if \<not> fb_assembling s1 then s1
        else
          let chunk_index = unat (sample_offset d div MAX_STREAM_SAMPLES) in
          if the (fb_received_chunks s1) ! chunk_index then s1
          else
            let count = unat (ft_sample_count d);
                s2 = store_ftable_samples (unat (sample_offset d)) (take count (ft_samples d)) s1;
                s3 = s2\<lparr>fb_received_chunks := map_option (\<lambda>r. r[chunk_index := True]) (fb_received_chunks s2),
                       fb_received_count := fb_received_count s2 + count\<rparr> in
            if fb_received_count s3 = unat (fb_total_samples s3)
            then
              let s4 = s3\<lparr>fb_received_chunks := None, fb_assembling := False\<rparr>;
                  (prepared, s5) = prepare_ftable_envelope envelope_mem s4 in
              if \<not> prepared then s5 else s5\<lparr>fb_display_ready := True\<rparr>
            else s3)"

section \<open>A transfer\<close>

text \<open>\<open>chunk_of tid T c d\<close>: the message carries chunk \<open>c\<close> of the table \<open>T\<close>, sent under the
  transfer identifier \<open>tid\<close>.\<close>

definition chunk_of :: "u32 \<Rightarrow> cfloat list \<Rightarrow> nat \<Rightarrow> WATCH_MSG_FTABLE_DATA \<Rightarrow> bool" where
  "chunk_of tid T c d \<longleftrightarrow> transfer_id d = tid \<and> unat (total_samples d) = length T
     \<and> 256 * c < length T \<and> unat (sample_offset d) = 256 * c
     \<and> unat (ft_sample_count d) = min 256 (length T - 256 * c)
     \<and> take (unat (ft_sample_count d)) (ft_samples d) = take 256 (drop (256 * c) T)"

text \<open>The positions of the table that the chunks of \<open>R\<close> cover.\<close>

definition covered :: "'a list \<Rightarrow> nat set \<Rightarrow> nat set" where
  "covered T R = {i. i < length T \<and> i div 256 \<in> R}"

text \<open>The range holds of the values at the positions \<open>I\<close>.\<close>

definition range_of :: "cfloat list \<Rightarrow> nat set \<Rightarrow> STREAM_FTABLE_BUFFER \<Rightarrow> bool" where
  "range_of T I s \<longleftrightarrow> (fb_has_range s \<longleftrightarrow> I \<noteq> {})
     \<and> (I \<noteq> {} \<longrightarrow> isfinite (fb_data_minimum s) \<and> isfinite (fb_data_maximum s)
         \<and> (\<forall>i \<in> I. fb_data_minimum s \<le> plotted (T ! i) \<and> plotted (T ! i) \<le> fb_data_maximum s)
         \<and> (\<exists>i \<in> I. fb_data_minimum s = plotted (T ! i)) \<and> (\<exists>i \<in> I. fb_data_maximum s = plotted (T ! i)))"

definition table_size_ok :: "'a list \<Rightarrow> bool" where
  "table_size_ok T \<longleftrightarrow> 0 < length T \<and> length T \<le> MAX_FTABLE_SAMPLES"

definition chunk_count :: "'a list \<Rightarrow> nat" where
  "chunk_count T = (length T + 255) div 256"

text \<open>The two states of a transfer that goes well.\<close>

definition assembling :: "u32 \<Rightarrow> cfloat list \<Rightarrow> nat set \<Rightarrow> STREAM_FTABLE_BUFFER \<Rightarrow> bool" where
  "assembling tid T R s \<longleftrightarrow> fb_transfer_id s = tid \<and> unat (fb_total_samples s) = length T
     \<and> (\<exists>b. fb_samples s = Some b \<and> length b = length T \<and> (\<forall>i \<in> covered T R. b ! i = plotted (T ! i)))
     \<and> (\<exists>r. fb_received_chunks s = Some r \<and> length r = chunk_count T \<and> (\<forall>c < chunk_count T. r ! c \<longleftrightarrow> c \<in> R))
     \<and> R \<subseteq> {..<chunk_count T} \<and> fb_received_count s = card (covered T R)
     \<and> fb_assembling s \<and> \<not> fb_display_ready s \<and> range_of T (covered T R) s"

definition assembled :: "u32 \<Rightarrow> cfloat list \<Rightarrow> STREAM_FTABLE_BUFFER \<Rightarrow> bool" where
  "assembled tid T s \<longleftrightarrow> fb_transfer_id s = tid \<and> unat (fb_total_samples s) = length T
     \<and> fb_samples s = Some (map plotted T) \<and> \<not> fb_assembling s \<and> fb_display_ready s
     \<and> range_of T {..<length T} s
     \<and> fb_envelope_count s = min MAX_FTABLE_RENDER_BUCKETS (length T)
     \<and> fb_envelope_minimums s = Some (map (\<lambda>k. fst (envelope_bucket (map plotted T) (fb_envelope_count s) k))
          [0..<fb_envelope_count s])
     \<and> fb_envelope_maximums s = Some (map (\<lambda>k. snd (envelope_bucket (map plotted T) (fb_envelope_count s) k))
          [0..<fb_envelope_count s])"

section \<open>Chunks and positions\<close>

lemma covered_finite [simp]: "finite (covered T R)"
  by (simp add: covered_def)

lemma chunk_less: "i < length T \<Longrightarrow> i div 256 < chunk_count T"
proof -
  assume "i < length T"
  then have "i div 256 * 256 < length T" using div_times_less_eq_dividend [of i 256] by linarith
  then show ?thesis by (simp add: chunk_count_def)
qed

lemma chunk_inhabited: "c < chunk_count T \<longleftrightarrow> 256 * c < length T"
  by (auto simp: chunk_count_def)

definition chunk_positions :: "'a list \<Rightarrow> nat \<Rightarrow> nat set" where
  "chunk_positions T c = {256 * c..<256 * c + min 256 (length T - 256 * c)}"

lemma in_chunk: "i \<in> chunk_positions T c \<longleftrightarrow> i < length T \<and> i div 256 = c"
proof -
  have d: "i div 256 = c \<longleftrightarrow> 256 * c \<le> i \<and> i < 256 * c + 256"
  proof
    assume "i div 256 = c"
    then show "256 * c \<le> i \<and> i < 256 * c + 256"
      using mult_div_mod_eq [of 256 i] mod_less_divisor [of 256 i] by auto
  next
    assume "256 * c \<le> i \<and> i < 256 * c + 256"
    then show "i div 256 = c" by (intro div_nat_eqI) auto
  qed
  show ?thesis unfolding chunk_positions_def atLeastLessThan_iff d min_def by auto
qed

lemma covered_insert: "covered T (insert c R) = covered T R \<union> chunk_positions T c"
  by (rule set_eqI) (auto simp only: covered_def in_chunk Un_iff mem_Collect_eq insert_iff)

lemma covered_new: "c \<notin> R \<Longrightarrow> covered T R \<inter> chunk_positions T c = {}"
  by (auto simp only: covered_def in_chunk mem_Collect_eq Int_iff empty_iff)

lemma covered_all: "covered T R = {..<length T} \<longleftrightarrow> {..<chunk_count T} \<subseteq> R"
proof
  assume a: "covered T R = {..<length T}"
  show "{..<chunk_count T} \<subseteq> R"
  proof
    fix c
    assume "c \<in> {..<chunk_count T}"
    then have "256 * c \<in> covered T R" using a by (simp add: chunk_inhabited)
    then show "c \<in> R" by (simp add: covered_def)
  qed
next
  assume "{..<chunk_count T} \<subseteq> R"
  then have "i div 256 \<in> R" if "i < length T" for i using chunk_less [OF that] by blast
  then show "covered T R = {..<length T}" by (auto simp only: covered_def lessThan_iff mem_Collect_eq)
qed

lemma card_covered: "card (covered T R) = length T \<longleftrightarrow> {..<chunk_count T} \<subseteq> R"
proof -
  have sub: "covered T R \<subseteq> {..<length T}" by (auto simp: covered_def)
  then have "card (covered T R) = length T \<longleftrightarrow> covered T R = {..<length T}"
    using card_subset_eq [OF finite_lessThan, of "covered T R" "length T"] card_lessThan by metis
  then show ?thesis by (simp add: covered_all)
qed

section \<open>Storing a chunk\<close>

lemma fmin_finite: "isfinite x \<Longrightarrow> isfinite y \<Longrightarrow> fmin x y = (if y < x then y else x)"
  by (cases x; cases y) (auto simp: fmin_def)

lemma fmax_finite: "isfinite x \<Longrightarrow> isfinite y \<Longrightarrow> fmax x y = (if x < y then y else x)"
  by (cases x; cases y) (auto simp: fmax_def)

lemma plotted_finite [simp]: "isfinite (plotted x)"
  by (simp add: plotted_def)

lemma range_of_insert:
  assumes r: "range_of T I s" and i: "i < length T"
    and mn: "fb_has_range s' " "fb_data_minimum s' = (if fb_has_range s then fmin (fb_data_minimum s) (plotted (T ! i)) else plotted (T ! i))"
    and mx: "fb_data_maximum s' = (if fb_has_range s then fmax (fb_data_maximum s) (plotted (T ! i)) else plotted (T ! i))"
  shows "range_of T (insert i I) s'"
proof (cases "I = {}")
  case True
  then show ?thesis using r mn mx finite_le_refl by (simp add: range_of_def)
next
  case False
  let ?x = "plotted (T ! i)"
  have f: "isfinite (fb_data_minimum s)" "isfinite (fb_data_maximum s)" "fb_has_range s"
    and b: "\<forall>j \<in> I. fb_data_minimum s \<le> plotted (T ! j) \<and> plotted (T ! j) \<le> fb_data_maximum s"
    and e: "\<exists>j \<in> I. fb_data_minimum s = plotted (T ! j)" "\<exists>j \<in> I. fb_data_maximum s = plotted (T ! j)"
    using r False by (auto simp: range_of_def)
  have m: "fb_data_minimum s' = (if ?x < fb_data_minimum s then ?x else fb_data_minimum s)"
    "fb_data_maximum s' = (if fb_data_maximum s < ?x then ?x else fb_data_maximum s)"
    using mn mx f by (simp_all add: fmin_finite fmax_finite)
  have le: "fb_data_minimum s' \<le> fb_data_minimum s" "fb_data_minimum s' \<le> ?x"
    "fb_data_maximum s \<le> fb_data_maximum s'" "?x \<le> fb_data_maximum s'"
    using f m finite_not_less finite_le_refl by (auto simp: less_eq_cfloat_def)
  have "\<forall>j \<in> insert i I. fb_data_minimum s' \<le> plotted (T ! j) \<and> plotted (T ! j) \<le> fb_data_maximum s'"
    using b le finite_le_trans [OF f(1)] finite_le_trans [OF f(2)] by blast
  moreover have "\<exists>j \<in> insert i I. fb_data_minimum s' = plotted (T ! j)"
    "\<exists>j \<in> insert i I. fb_data_maximum s' = plotted (T ! j)"
    using e m by auto
  moreover have "isfinite (fb_data_minimum s')" "isfinite (fb_data_maximum s')" using f m by simp_all
  ultimately show ?thesis using mn(1) by (simp add: range_of_def)
qed

text \<open>Only the samples and the range change.\<close>

lemma store_ftable_samples_spec:
  "fb_samples s = Some b \<Longrightarrow> length b = length T \<Longrightarrow> off + length xs \<le> length T \<Longrightarrow>
   \<forall>j < length xs. xs ! j = T ! (off + j) \<Longrightarrow> range_of T I s \<Longrightarrow>
     \<exists>mn mx h. store_ftable_samples off xs s = s\<lparr>fb_samples := Some (store_at off (map plotted xs) b),
         fb_data_minimum := mn, fb_data_maximum := mx, fb_has_range := h\<rparr>
       \<and> range_of T (I \<union> {off..<off + length xs}) (store_ftable_samples off xs s)"
proof (induction off xs s arbitrary: b I rule: store_ftable_samples.induct)
  case (1 off s)
  then show ?case
    by (intro exI [of _ "fb_data_minimum s"] exI [of _ "fb_data_maximum s"] exI [of _ "fb_has_range s"]) simp
next
  case (2 off x xs s)
  let ?x = "if isfinite x then x else Fin 0"
  let ?s1 = "s\<lparr>fb_samples := map_option (\<lambda>b. b[off := ?x]) (fb_samples s)\<rparr>"
  let ?s2 = "if \<not> fb_has_range ?s1
      then ?s1\<lparr>fb_data_minimum := ?x, fb_data_maximum := ?x, fb_has_range := True\<rparr>
      else ?s1\<lparr>fb_data_minimum := fmin (fb_data_minimum ?s1) ?x, fb_data_maximum := fmax (fb_data_maximum ?s1) ?x\<rparr>"
  have x: "x = T ! off" "off < length T" using "2.prems"(3,4) by auto
  have p: "?x = plotted x" by (simp add: plotted_def)
  have r2: "range_of T (insert off I) ?s2"
    by (rule range_of_insert [OF "2.prems"(5) x(2)]) (auto simp: plotted_def x(1))
  have b2: "fb_samples ?s2 = Some (b[off := plotted x])" using "2.prems"(1) by (simp add: p)
  have "\<forall>j < length xs. xs ! j = T ! (off + 1 + j)" using "2.prems"(4) by auto
  then obtain mn mx h where IH: "store_ftable_samples (off + 1) xs ?s2 = ?s2\<lparr>
      fb_samples := Some (store_at (off + 1) (map plotted xs) (b[off := plotted x])),
      fb_data_minimum := mn, fb_data_maximum := mx, fb_has_range := h\<rparr>"
    "range_of T (insert off I \<union> {off + 1..<off + 1 + length xs}) (store_ftable_samples (off + 1) xs ?s2)"
    using "2.IH" [OF refl refl refl b2 _ _ _ r2] "2.prems"(2,3) by auto
  have e: "store_ftable_samples off (x # xs) s = store_ftable_samples (off + 1) xs ?s2"
    by (simp only: store_ftable_samples.simps Let_def)
  have i: "insert off I \<union> {off + 1..<off + 1 + length xs} = I \<union> {off..<off + length (x # xs)}" by auto
  show ?case
    using IH unfolding e i
    by (intro exI [of _ mn] exI [of _ mx] exI [of _ h]) simp
qed

section \<open>Accepting a chunk\<close>

lemma chunk_ofD:
  assumes "chunk_of tid T c d"
  shows "transfer_id d = tid" "unat (total_samples d) = length T" "c < chunk_count T"
    "unat (sample_offset d div 256) = c" "unat (sample_offset d) = 256 * c"
    "take (unat (ft_sample_count d)) (ft_samples d) = take 256 (drop (256 * c) T)"
    "unat (ft_sample_count d) = card (chunk_positions T c)"
    "256 * c + unat (ft_sample_count d) \<le> length T"
  using assms by (auto simp: chunk_of_def chunk_inhabited unat_div chunk_positions_def)

lemma assembling_samples:
  assumes "assembling tid T R s" "{..<chunk_count T} \<subseteq> R"
  shows "fb_samples s = Some (map plotted T)" "fb_received_count s = length T"
proof -
  have all: "covered T R = {..<length T}" using assms(2) by (simp add: covered_all)
  obtain b where b: "fb_samples s = Some b" "length b = length T" "\<forall>i \<in> covered T R. b ! i = plotted (T ! i)"
    using assms(1) by (auto simp: assembling_def)
  then have "b = map plotted T" by (intro nth_equalityI) (simp_all add: all)
  then show "fb_samples s = Some (map plotted T)" using b(1) by simp
  show "fb_received_count s = length T" using assms(1) all by (simp add: assembling_def)
qed

text \<open>The stores of a chunk that has not been received.\<close>

definition stored :: "WATCH_MSG_FTABLE_DATA \<Rightarrow> STREAM_FTABLE_BUFFER \<Rightarrow> STREAM_FTABLE_BUFFER" where
  "stored d s =
     (let count = unat (ft_sample_count d);
          s2 = store_ftable_samples (unat (sample_offset d)) (take count (ft_samples d)) s in
      s2\<lparr>fb_received_chunks := map_option (\<lambda>r. r[unat (sample_offset d div MAX_STREAM_SAMPLES) := True])
           (fb_received_chunks s2),
         fb_received_count := fb_received_count s2 + count\<rparr>)"

lemma stored_assembling:
  assumes a: "assembling tid T R s" and d: "chunk_of tid T c d" and new: "c \<notin> R"
  shows "assembling tid T (insert c R) (stored d s)"
proof -
  note cd = chunk_ofD [OF d]
  let ?xs = "take (unat (ft_sample_count d)) (ft_samples d)" and ?off = "256 * c"
  obtain b r where b: "fb_samples s = Some b" "length b = length T" "\<forall>i \<in> covered T R. b ! i = plotted (T ! i)"
    and r: "fb_received_chunks s = Some r" "length r = chunk_count T" "\<forall>k < chunk_count T. r ! k \<longleftrightarrow> k \<in> R"
    using a by (auto simp: assembling_def)
  have xs: "?xs = take 256 (drop ?off T)" using cd(6) .
  have len: "length ?xs = unat (ft_sample_count d)" unfolding xs using d by (simp add: chunk_of_def)
  have off: "?off + length ?xs \<le> length T" using cd(8) len by simp
  have nth: "\<forall>j < length ?xs. ?xs ! j = T ! (?off + j)"
    unfolding xs using cd(3) by (simp add: chunk_inhabited)
  have pos: "{?off..<?off + length ?xs} = chunk_positions T c"
    using len d by (simp add: chunk_positions_def chunk_of_def)
  have rg: "range_of T (covered T R) s" using a by (simp add: assembling_def)
  let ?b = "store_at ?off (map plotted ?xs) b"
  from store_ftable_samples_spec [OF b(1,2) off nth rg] obtain mn mx h where
    s2: "store_ftable_samples ?off ?xs s = s\<lparr>fb_samples := Some ?b,
       fb_data_minimum := mn, fb_data_maximum := mx, fb_has_range := h\<rparr>"
    and rg2: "range_of T (covered T R \<union> chunk_positions T c) (store_ftable_samples ?off ?xs s)"
    unfolding pos by blast
  have st: "stored d s = s\<lparr>fb_samples := Some ?b, fb_data_minimum := mn, fb_data_maximum := mx,
      fb_has_range := h, fb_received_chunks := Some (r[c := True]),
      fb_received_count := fb_received_count s + unat (ft_sample_count d)\<rparr>"
    unfolding stored_def Let_def cd(5) s2 by (simp add: r(1) cd(4))
  have vals: "?b ! i = plotted (T ! i)" if i: "i \<in> covered T (insert c R)" for i
  proof (cases "i \<in> chunk_positions T c")
    case True
    then have i: "?off \<le> i" "i < ?off + length ?xs" unfolding pos [symmetric] by simp_all
    then have j: "i - ?off < length ?xs" "?off + (i - ?off) = i" by auto
    have "?b ! i = map plotted ?xs ! (i - ?off)"
      using nth_store_at [of ?off "map plotted ?xs" b i] i off b(2) unfolding length_map by simp
    also have "\<dots> = plotted (?xs ! (i - ?off))" by (rule nth_map [OF j(1)])
    also have "?xs ! (i - ?off) = T ! i" using nth j by metis
    finally show ?thesis .
  next
    case False
    then have "i \<in> covered T R" using i unfolding covered_insert by blast
    moreover have "\<not> (?off \<le> i \<and> i < ?off + length ?xs)" using False unfolding pos [symmetric] by simp
    moreover have "i < length T" using calculation(1) by (simp add: covered_def)
    ultimately have "?b ! i = b ! i"
      using nth_store_at [of ?off "map plotted ?xs" b i] off b(2) unfolding length_map by (metis (no_types, lifting))
    then show ?thesis using b(3) \<open>i \<in> covered T R\<close> by simp
  qed
  have "card (covered T (insert c R)) = card (covered T R) + card (chunk_positions T c)"
    unfolding covered_insert using covered_new [OF new]
    by (intro card_Un_disjoint) (simp_all add: chunk_positions_def)
  then have cnt: "fb_received_count s + unat (ft_sample_count d) = card (covered T (insert c R))"
    using a cd(7) by (simp add: assembling_def)
  have rr: "\<forall>k < chunk_count T. r[c := True] ! k \<longleftrightarrow> k \<in> insert c R"
    using r cd(3) by (auto simp: nth_list_update)
  have rg3: "range_of T (covered T (insert c R)) (stored d s)"
    using rg2 unfolding covered_insert s2 st by (simp add: range_of_def)
  show ?thesis
    using a vals cnt rr rg3 b(2) r(2) cd(3) unfolding assembling_def st by simp
qed

lemma assembled_ensure:
  "assembled tid T s \<Longrightarrow> chunk_of tid T c d \<Longrightarrow> accept_ftable_chunk mem emem d s = s"
proof -
  assume "assembled tid T s" "chunk_of tid T c d"
  then have "fb_display_ready s" "fb_transfer_id s = transfer_id d" "fb_total_samples s = total_samples d"
    by (auto simp: assembled_def chunk_of_def word_unat_eq_iff)
  then show ?thesis by (simp add: accept_ftable_chunk_def)
qed

lemma accept_chunk_assembling:
  assumes a: "assembling tid T R s" and d: "chunk_of tid T c d"
  shows "if {..<chunk_count T} \<subseteq> insert c R \<and> c \<notin> R
    then assembled tid T (accept_ftable_chunk mem True d s)
    else assembling tid T (insert c R) (accept_ftable_chunk mem True d s)"
proof -
  note cd = chunk_ofD [OF d]
  obtain b r where b: "fb_samples s = Some b" and r: "fb_received_chunks s = Some r"
      "\<forall>k < chunk_count T. r ! k \<longleftrightarrow> k \<in> R"
    and f: "fb_transfer_id s = transfer_id d" "unat (fb_total_samples s) = length T" "fb_assembling s"
      "\<not> fb_display_ready s"
    using a cd(1) by (auto simp: assembling_def)
  have tot: "fb_total_samples s = total_samples d" using f(2) cd(2) by (simp add: word_unat_eq_iff)
  have e: "ensure_ftable_stream mem s d = (True, s)" using b f(1) tot by (simp add: ensure_ftable_stream_def)
  show ?thesis
  proof (cases "c \<in> R")
    case True
    then have "accept_ftable_chunk mem True d s = s"
      using e f r cd(3,4) by (simp add: accept_ftable_chunk_def)
    then show ?thesis using True a by (simp add: insert_absorb)
  next
    case False
    let ?s3 = "stored d s"
    have s3: "assembling tid T (insert c R) ?s3" by (rule stored_assembling [OF a d False])
    have run: "accept_ftable_chunk mem True d s =
       (if fb_received_count ?s3 = unat (fb_total_samples ?s3)
        then let s4 = ?s3\<lparr>fb_received_chunks := None, fb_assembling := False\<rparr>;
                 (prepared, s5) = prepare_ftable_envelope True s4 in
             if \<not> prepared then s5 else s5\<lparr>fb_display_ready := True\<rparr>
        else ?s3)"
      using e f(3,4) r cd(3,4) False unfolding accept_ftable_chunk_def stored_def Let_def by simp
    have full: "fb_received_count ?s3 = unat (fb_total_samples ?s3) \<longleftrightarrow> {..<chunk_count T} \<subseteq> insert c R"
      using s3 card_covered [of T "insert c R"] by (simp add: assembling_def)
    show ?thesis
    proof (cases "{..<chunk_count T} \<subseteq> insert c R")
      case True
      let ?s4 = "?s3\<lparr>fb_received_chunks := None, fb_assembling := False\<rparr>"
      note sm = assembling_samples [OF s3 True]
      have "range_of T {..<length T} ?s3" using s3 True covered_all [of T "insert c R"]
        by (simp add: assembling_def)
      then have "assembled tid T ((snd (prepare_ftable_envelope True ?s4))\<lparr>fb_display_ready := True\<rparr>)"
        using s3 sm(1)
        by (simp add: assembled_def assembling_def prepare_ftable_envelope_def Let_def range_of_def min_def)
      moreover have "accept_ftable_chunk mem True d s
          = (snd (prepare_ftable_envelope True ?s4))\<lparr>fb_display_ready := True\<rparr>"
        unfolding run using full True by (simp add: prepare_ftable_envelope_def Let_def)
      ultimately show ?thesis using True False by simp
    next
      case no: False
      then show ?thesis using run full s3 by simp
    qed
  qed
qed

text \<open>The first chunk of a transfer the buffer does not hold starts the assembly.\<close>

definition not_of :: "u32 \<Rightarrow> STREAM_FTABLE_BUFFER \<Rightarrow> bool" where
  "not_of tid s \<longleftrightarrow> fb_transfer_id s \<noteq> tid \<or> s = zero_ftable"

lemma chunk_total:
  "table_size_ok T \<Longrightarrow> unat (w :: u32) = length T \<Longrightarrow>
     unat ((w + MAX_STREAM_SAMPLES - 1) div MAX_STREAM_SAMPLES) = chunk_count T"
proof -
  assume a: "table_size_ok T" "unat w = length T"
  have "w + MAX_STREAM_SAMPLES - 1 = w + 255" by simp
  moreover have "unat (w + 255) = length T + 255"
    using a by (simp add: unat_word_ariths table_size_ok_def)
  ultimately show ?thesis by (simp only: unat_div chunk_count_def unat_numeral) simp
qed

lemma ensure_fresh:
  assumes n: "not_of tid s" and T: "table_size_ok T"
    and d: "transfer_id d = tid" "unat (total_samples d) = length T"
  obtains s1 where "ensure_ftable_stream True s d = (True, s1)" "assembling tid T {} s1"
proof
  let ?s1 = "(clear_ftable_stream s)\<lparr>fb_samples := Some (replicate (length T) (Fin 0)),
     fb_total_chunks := chunk_count T, fb_received_chunks := Some (replicate (chunk_count T) False),
     fb_transfer_id := tid, fb_total_samples := total_samples d, fb_assembling := True\<rparr>"
  show "ensure_ftable_stream True s d = (True, ?s1)"
    using n d chunk_total [OF T d(2)]
    by (auto simp: ensure_ftable_stream_def not_of_def zero_ftable_def Let_def)
  show "assembling tid T {} ?s1"
    using d by (simp add: assembling_def clear_ftable_stream_def zero_ftable_def covered_def range_of_def)
qed

lemma accept_fresh:
  assumes n: "not_of tid s" and T: "table_size_ok T" and d: "chunk_of tid T c d"
  obtains s1 where "assembling tid T {} s1" "accept_ftable_chunk True emem d s = accept_ftable_chunk True emem d s1"
proof -
  note cd = chunk_ofD [OF d]
  obtain s1 where s1: "ensure_ftable_stream True s d = (True, s1)" "assembling tid T {} s1"
    using ensure_fresh [OF n T cd(1,2)] .
  have "fb_samples s1 \<noteq> None" "fb_transfer_id s1 = transfer_id d" "fb_total_samples s1 = total_samples d"
    "\<not> fb_display_ready s1"
    using s1(2) cd(1,2) by (auto simp: assembling_def word_unat_eq_iff)
  then have e: "ensure_ftable_stream True s1 d = (True, s1)" by (auto simp: ensure_ftable_stream_def)
  have "\<not> (fb_display_ready s \<and> fb_transfer_id s = transfer_id d)"
    using n cd(1) by (auto simp: not_of_def zero_ftable_def)
  then have "accept_ftable_chunk True emem d s = accept_ftable_chunk True emem d s1"
    using s1(1) e \<open>\<not> fb_display_ready s1\<close> by (auto simp: accept_ftable_chunk_def)
  with s1(2) show thesis by (rule that)
qed

section \<open>A whole transfer\<close>

definition chunks_in :: "u32 \<Rightarrow> cfloat list \<Rightarrow> WATCH_MSG_FTABLE_DATA list \<Rightarrow> nat set" where
  "chunks_in tid T ds = {c. \<exists>d \<in> set ds. chunk_of tid T c d}"

definition transfer_state :: "u32 \<Rightarrow> cfloat list \<Rightarrow> nat set \<Rightarrow> STREAM_FTABLE_BUFFER \<Rightarrow> bool" where
  "transfer_state tid T R s \<longleftrightarrow>
     (if {..<chunk_count T} \<subseteq> R then assembled tid T s else assembling tid T R s)"

lemma chunk_unique: "chunk_of tid T c d \<Longrightarrow> chunk_of tid T c' d \<Longrightarrow> c = c'"
  by (simp add: chunk_of_def)

lemma chunks_in_Cons:
  "chunk_of tid T c d \<Longrightarrow> chunks_in tid T (d # ds) = insert c (chunks_in tid T ds)"
  by (auto simp: chunks_in_def dest: chunk_unique)

lemma transfer_step:
  assumes "transfer_state tid T R s" "chunk_of tid T c d"
  shows "transfer_state tid T (insert c R) (accept_ftable_chunk mem True d s)"
proof (cases "{..<chunk_count T} \<subseteq> R")
  case True
  then show ?thesis
    using assms assembled_ensure [of tid T s c d mem True] by (auto simp: transfer_state_def)
next
  case False
  then have a: "assembling tid T R s" using assms(1) by (simp add: transfer_state_def)
  show ?thesis
  proof (cases "c \<in> R")
    case True
    then show ?thesis
      using accept_chunk_assembling [OF a assms(2), of mem] False by (simp add: transfer_state_def insert_absorb)
  next
    case c: False
    then show ?thesis
      using accept_chunk_assembling [OF a assms(2), of mem] by (simp add: transfer_state_def split: if_splits)
  qed
qed

lemma transfer_run:
  assumes "transfer_state tid T R s" "\<forall>d \<in> set ds. \<exists>c. chunk_of tid T c d"
  shows "transfer_state tid T (R \<union> chunks_in tid T ds) (fold (accept_ftable_chunk mem True) ds s)"
  using assms
proof (induction ds arbitrary: R s)
  case Nil
  then show ?case by (simp add: chunks_in_def)
next
  case (Cons d ds)
  then obtain c where c: "chunk_of tid T c d" by auto
  show ?case
    using Cons.IH [OF transfer_step [OF Cons.prems(1) c]] Cons.prems(2) chunks_in_Cons [OF c]
    by simp
qed

lemma transfer_begin:
  assumes "not_of tid s" "table_size_ok T" "chunk_of tid T c d"
  shows "transfer_state tid T {c} (accept_ftable_chunk True True d s)"
proof -
  obtain s1 where s1: "assembling tid T {} s1" "accept_ftable_chunk True True d s = accept_ftable_chunk True True d s1"
    using accept_fresh [OF assms] .
  have "0 < chunk_count T" using chunk_less [of 0 T] assms(2) by (simp add: table_size_ok_def)
  then have "transfer_state tid T {} s1" using s1(1) by (auto simp: transfer_state_def)
  then show ?thesis using transfer_step [OF _ assms(3)] s1(2) by simp
qed

lemma transfer_whole:
  assumes "not_of tid s" "table_size_ok T" "ds \<noteq> []" "\<forall>d \<in> set ds. \<exists>c. chunk_of tid T c d"
  defines "s' \<equiv> fold (accept_ftable_chunk True True) ds s"
  shows "if {..<chunk_count T} \<subseteq> chunks_in tid T ds then assembled tid T s'
    else assembling tid T (chunks_in tid T ds) s'"
proof -
  obtain d ds' where ds: "ds = d # ds'" using assms(3) by (cases ds) auto
  obtain c where c: "chunk_of tid T c d" using assms(4) ds by auto
  have "transfer_state tid T (chunks_in tid T ds) s'"
    using transfer_run [OF transfer_begin [OF assms(1,2) c], of ds' True] assms(4) chunks_in_Cons [OF c]
    by (simp add: ds s'_def)
  then show ?thesis by (simp add: transfer_state_def)
qed

text \<open>Chunks of a table that reach a stream in any order, with repetitions, build up exactly
  that table. As long as a chunk is missing the buffer is being assembled and holds the values
  (a zero for a value that is no number) at the positions received; it is ready for display exactly
  when every chunk has arrived, with the whole table, its smallest and largest value, and
  the envelope computed from it.\<close>

theorem ftable_assembles:
  assumes "not_of tid s" "table_size_ok T" "ds \<noteq> []" "\<forall>d \<in> set ds. \<exists>c. chunk_of tid T c d"
  defines "s' \<equiv> fold (accept_ftable_chunk True True) ds s"
  shows "if {..<chunk_count T} \<subseteq> chunks_in tid T ds then assembled tid T s'
    else assembling tid T (chunks_in tid T ds) s'"
  unfolding s'_def by (rule transfer_whole [OF assms(1-4)])

theorem ftable_assembles_witness:
  "assembled 7 [Fin 1, NaN] (fold (accept_ftable_chunk True True)
     (replicate 2 \<lparr>ft_graph_id = 1, ft_stream_id = 0, transfer_id = 7, sample_offset = 0,
        ft_sample_count = 2, total_samples = 2, ft_samples = [Fin 1, NaN]\<rparr>) zero_ftable)"
proof -
  let ?d = "\<lparr>ft_graph_id = 1, ft_stream_id = 0, transfer_id = 7, sample_offset = 0,
        ft_sample_count = 2, total_samples = 2, ft_samples = [Fin 1, NaN]\<rparr> :: WATCH_MSG_FTABLE_DATA"
  have d: "chunk_of 7 [Fin 1, NaN] 0 ?d" by (simp add: chunk_of_def)
  have "{..<chunk_count [Fin 1, NaN]} \<subseteq> chunks_in 7 [Fin 1, NaN] (replicate 2 ?d)"
    using d by (auto simp: chunks_in_def chunk_count_def)
  then show ?thesis
    using ftable_assembles [of 7 zero_ftable "[Fin 1, NaN]" "replicate 2 ?d"] d
    by (auto simp: not_of_def table_size_ok_def)
qed

section \<open>From the plugin to the viewer\<close>

text \<open>A chunk's datagram passes the viewer's check and carries the chunk.\<close>

lemma chunk_on_wire:
  assumes wf: "transfer_wf st table" and c: "c < chunk_count table"
  defines "w \<equiv> on_wire (chunk_packet st table (256 * c))"
  shows "validate_ftable_data_packet (fst w) (int (snd w))"
    "chunk_of (ftable_transfer_id st) table c (pk_ftable (fst w))"
proof -
  let ?st = "st\<lparr>ftable_next_sample := 256 * c\<rparr>"
  let ?p = "ftable_packet ?st table" and ?m = "min 256 (length table - 256 * c)"
  have wf': "transfer_wf ?st table" using wf by (simp add: transfer_wf_def)
  note fs = ftable_packet_fields [OF wf', unfolded WATCH_STREAM.simps]
  have tot: "ftable_total_samples ?st = length table" using wf by (simp add: transfer_wf_def)
  have len: "length table \<le> 1073741824" and pos: "256 * c < length table"
    using wf c by (simp_all add: transfer_wf_def chunk_inhabited)
  have pb: "packet_bytes ?p = 48 + 4 * ?m" using ftable_packet_bytes [of ?st table] tot by simp
  have w: "w = (datagram ?p (48 + 4 * ?m), 48 + 4 * ?m)"
    by (simp add: w_def on_wire_def chunk_packet_def pb)
  have fl: "floats_sent (48 + 4 * ?m) OFF_FT_SAMPLES = ?m" by (simp add: floats_sent_def)
  have d: "pk_ftable (fst w) = (pk_ftable ?p)\<lparr>ft_samples := take ?m (ft_samples (pk_ftable ?p))\<rparr>"
    unfolding w fst_conv by (simp add: datagram_def fl)
  have u: "unat (of_nat (256 * c) :: u32) = 256 * c" "unat (of_nat (length table) :: u32) = length table"
    "unat (of_nat ?m :: u32) = ?m"
    using len pos by (simp_all add: unat_u32_of_nat del: of_nat_mult)
  show chunk: "chunk_of (ftable_transfer_id st) table c (pk_ftable (fst w))"
    unfolding chunk_of_def d using fs pos u
    by (simp add: table_chunk_def take_drop min_def del: of_nat_mult)
  have h: "header (fst w) = header ?p" unfolding w by simp
  note hd = ftable_packet_header [of ?st table, unfolded tot]
  let ?d = "pk_ftable (fst w)"
  have ineq: "sample_offset ?d < total_samples ?d" "total_samples ?d \<le> 1073741824" "total_samples ?d \<noteq> 0"
    "unat (total_samples ?d - sample_offset ?d) = length table - 256 * c"
    using chunk len pos
    by (auto simp: chunk_of_def word_less_nat_alt word_le_nat_alt unat_sub word_unat_eq_iff)
  have cnt: "ft_sample_count ?d = (if total_samples ?d - sample_offset ?d < 256
      then total_samples ?d - sample_offset ?d else 256)"
    using chunk ineq(4) by (auto simp: chunk_of_def word_less_nat_alt word_unat_eq_iff min_def)
  have n: "ft_sample_count ?d = of_nat ?m" "?m \<noteq> 0" "?m \<le> 256" using d fs(5) pos by simp_all
  then have n': "ft_sample_count ?d \<noteq> 0" "ft_sample_count ?d \<le> 256" "unat (ft_sample_count ?d) = ?m"
    using u(3) by (auto simp: word_le_nat_alt word_unat_eq_iff)
  have al: "sample_offset ?d mod 256 = 0"
    using chunk by (simp add: chunk_of_def word_unat_eq_iff unat_mod)
  have hv: "validate_header (header (fst w)) (int (snd w))"
  proof -
    have "unat (24 + of_nat ?m * 4 :: u32) = 24 + 4 * ?m"
      using n(3) by (simp add: unat_word_ariths unat_u32_of_nat)
    then have "uint (24 + of_nat ?m * 4 :: u32) = 24 + 4 * int ?m" unfolding uint_nat by simp
    then show ?thesis unfolding h hd by (simp add: validate_header_def w)
  qed
  have pl: "payload_size (header (fst w)) = 24 + ft_sample_count ?d * 4"
    unfolding h hd n(1) by simp
  have "\<not> ft_sample_count ?d > total_samples ?d - sample_offset ?d"
    using cnt ineq(4) n'(3) by (simp add: word_less_nat_alt)
  moreover have "ft_graph_id ?d \<noteq> 0" "\<not> ft_stream_id ?d \<ge> 64" "transfer_id ?d \<noteq> 0"
    using wf d fs by (auto simp: transfer_wf_def not_le)
  moreover have "msg_type (header (fst w)) = msg_code FTABLE_DATA" "\<not> sequence (header (fst w)) < 0"
    using wf unfolding h hd by (simp_all add: transfer_wf_def)
  ultimately show "validate_ftable_data_packet (fst w) (int (snd w))"
    unfolding validate_ftable_data_packet_def Let_def
    using hv ineq(1-3) n'(1,2) al pl cnt by (simp add: not_less not_le)
qed

text \<open>C6: The table the plugin sends is the table the viewer shows. Every datagram of a transfer
  passes the viewer's check, and a stream that receives each chunk at least once, in whatever
  order, ends ready for display with exactly the samples of the table (a zero for one that is no
  number).\<close>

theorem ftable_transfer_roundtrip:
  assumes "transfer_wf st table" "not_of (ftable_transfer_id st) s" "set cs = {..<chunk_count table}"
  defines "ds \<equiv> map (\<lambda>c. on_wire (chunk_packet st table (256 * c))) cs"
  shows "list_all (\<lambda>(p, n). validate_ftable_data_packet p (int n)) ds
    \<and> fb_display_ready (fold (accept_ftable_chunk True True) (map (pk_ftable \<circ> fst) ds) s)
    \<and> fb_samples (fold (accept_ftable_chunk True True) (map (pk_ftable \<circ> fst) ds) s) = Some (map plotted table)"
proof -
  let ?tid = "ftable_transfer_id st" and ?ms = "map (pk_ftable \<circ> fst) ds"
  have v: "list_all (\<lambda>(p, n). validate_ftable_data_packet p (int n)) ds"
  proof -
    have "case w of (p, n) \<Rightarrow> validate_ftable_data_packet p (int n)" if w: "w \<in> set ds" for w
    proof -
      obtain c where "c < chunk_count table" "w = on_wire (chunk_packet st table (256 * c))"
        using w assms(3) unfolding ds_def by auto
      then show ?thesis using chunk_on_wire(1) [OF assms(1)] by (simp only: case_prod_beta)
    qed
    then show ?thesis by (simp add: list_all_iff)
  qed
  have c: "chunk_of ?tid table c (pk_ftable (fst (on_wire (chunk_packet st table (256 * c)))))" if "c \<in> set cs" for c
    using chunk_on_wire(2) [OF assms(1)] that assms(3) by simp
  have T: "table_size_ok table" using assms(1) unfolding transfer_wf_def table_size_ok_def by blast
  then have "0 < chunk_count table" using chunk_less [of 0 table] by (simp add: table_size_ok_def)
  then have "set cs \<noteq> {}" unfolding assms(3) by blast
  then have "cs \<noteq> []" by force
  then have ne: "?ms \<noteq> []" by (simp add: ds_def)
  have each: "\<forall>d \<in> set ?ms. \<exists>c. chunk_of ?tid table c d" using c by (auto simp: ds_def)
  have "{..<chunk_count table} \<subseteq> chunks_in ?tid table ?ms"
    using c assms(3) by (auto simp: chunks_in_def ds_def)
  then have "assembled ?tid table (fold (accept_ftable_chunk True True) ?ms s)"
    using transfer_whole [OF assms(2) T ne each] by simp
  with v show ?thesis by (simp add: assembled_def)
qed

theorem ftable_transfer_roundtrip_witness:
  "fb_samples (fold (accept_ftable_chunk True True) (map (pk_ftable \<circ> fst)
      (map (\<lambda>c. on_wire (chunk_packet transfer_sample [Fin 1, Fin 2] (256 * c))) [0])) zero_ftable)
     = Some (map plotted [Fin 1, Fin 2])"
proof -
  have "transfer_wf transfer_sample [Fin 1, Fin 2]" "set [0] = {..<chunk_count [Fin 1, Fin 2]}"
    by (auto simp: transfer_wf_def transfer_sample_def zero_stream_def chunk_count_def)
  from ftable_transfer_roundtrip [OF this(1) _ this(2), of zero_ftable] show ?thesis
    by (simp add: not_of_def)
qed

section \<open>The envelope\<close>

lemma minmax_fold_fmin:
  assumes "\<forall>i \<in> set is. isfinite (f i)" "isfinite mn" "isfinite mx"
  shows "fold (\<lambda>i (mn, mx). (fmin mn (f i), fmax mx (f i))) is (mn, mx)
    = fold (\<lambda>i (mn, mx). (if f i < mn then f i else mn, if mx < f i then f i else mx)) is (mn, mx)"
  using assms by (induction "is" arbitrary: mn mx) (simp_all add: fmin_finite fmax_finite)

lemma envelope_bucket_spec:
  assumes fin: "\<forall>x \<in> set xs. isfinite x" and c: "0 < count" "count \<le> length xs" "k < count"
  defines "a \<equiv> bucket_start (length xs) count k" and "b \<equiv> bucket_start (length xs) count (Suc k)"
  shows "a < b" "b \<le> length xs"
    "\<And>i. a \<le> i \<Longrightarrow> i < b \<Longrightarrow> fst (envelope_bucket xs count k) \<le> xs ! i
       \<and> xs ! i \<le> snd (envelope_bucket xs count k)"
    "\<exists>i. a \<le> i \<and> i < b \<and> fst (envelope_bucket xs count k) = xs ! i"
    "\<exists>i. a \<le> i \<and> i < b \<and> snd (envelope_bucket xs count k) = xs ! i"
proof -
  show ab: "a < b" unfolding a_def b_def using c bucket_nonempty by blast
  show bn: "b \<le> length xs" unfolding b_def using c by (intro bucket_le) simp_all
  obtain mn mx where r: "fold (\<lambda>i (mn, mx). (if xs ! i < mn then xs ! i else mn, if mx < xs ! i then xs ! i else mx))
      [a + 1..<b] (xs ! a, xs ! a) = (mn, mx)" by fastforce
  have e: "envelope_bucket xs count k = (mn, mx)"
    using minmax_fold_fmin [of "[a + 1..<b]" "(!) xs" "xs ! a" "xs ! a"] fin ab bn r
    by (simp add: envelope_bucket_def Let_def a_def b_def)
  have m: "mn \<le> xs ! a" "xs ! a \<le> mx" "\<forall>i \<in> set [a + 1..<b]. mn \<le> xs ! i \<and> xs ! i \<le> mx"
    "mn \<in> insert (xs ! a) ((!) xs ` set [a + 1..<b])" "mx \<in> insert (xs ! a) ((!) xs ` set [a + 1..<b])"
    using minmax_fold [OF _ _ _ r] fin ab bn by auto
  show "fst (envelope_bucket xs count k) \<le> xs ! i \<and> xs ! i \<le> snd (envelope_bucket xs count k)"
    if "a \<le> i" "i < b" for i
    using m(1-3) that unfolding e by (cases "i = a") auto
  have "insert (xs ! a) ((!) xs ` set [a + 1..<b]) \<subseteq> (!) xs ` {a..<b}" using ab by auto
  then have "mn \<in> (!) xs ` {a..<b}" "mx \<in> (!) xs ` {a..<b}" using m(4,5) by blast+
  then show "\<exists>i. a \<le> i \<and> i < b \<and> fst (envelope_bucket xs count k) = xs ! i"
    "\<exists>i. a \<le> i \<and> i < b \<and> snd (envelope_bucket xs count k) = xs ! i"
    unfolding e by auto
qed

text \<open>The envelope of a table never hides a sample: the buckets cut the table into consecutive
  non-empty runs that cover it, at most 16384 of them, and each bucket's bounds enclose its run and
  are values of it.\<close>

theorem ftable_envelope_encloses:
  assumes "assembled tid T s" "0 < length T"
  shows "\<exists>mns mxs. fb_envelope_minimums s = Some mns \<and> fb_envelope_maximums s = Some mxs
    \<and> length mns = min 16384 (length T) \<and> length mxs = length mns
    \<and> (\<forall>i < length T. \<exists>k < length mns. bucket_start (length T) (length mns) k \<le> i
         \<and> i < bucket_start (length T) (length mns) (Suc k))
    \<and> (\<forall>k < length mns. \<forall>i. bucket_start (length T) (length mns) k \<le> i \<longrightarrow>
         i < bucket_start (length T) (length mns) (Suc k) \<longrightarrow>
         mns ! k \<le> plotted (T ! i) \<and> plotted (T ! i) \<le> mxs ! k)
    \<and> (\<forall>k < length mns. mns ! k \<in> set (map plotted T) \<and> mxs ! k \<in> set (map plotted T))"
proof -
  let ?n = "min 16384 (length T)" and ?xs = "map plotted T"
  let ?mns = "map (\<lambda>k. fst (envelope_bucket ?xs ?n k)) [0..<?n]"
    and ?mxs = "map (\<lambda>k. snd (envelope_bucket ?xs ?n k)) [0..<?n]"
  have n: "0 < ?n" "?n \<le> length ?xs" using assms(2) by simp_all
  have fin: "\<forall>x \<in> set ?xs. isfinite x" by simp
  note b = envelope_bucket_spec [OF fin n]
  have cover: "\<exists>k < ?n. bucket_start (length T) ?n k \<le> i \<and> i < bucket_start (length T) ?n (Suc k)"
    if "i < length T" for i using bucket_cover [OF that n(1)] by blast
  have bounds: "?mns ! k \<le> plotted (T ! i) \<and> plotted (T ! i) \<le> ?mxs ! k"
    if "k < ?n" "bucket_start (length T) ?n k \<le> i" "i < bucket_start (length T) ?n (Suc k)" for k i
    using b(2,3) [OF that(1), unfolded length_map] that by fastforce
  have mem: "?mns ! k \<in> set ?xs \<and> ?mxs ! k \<in> set ?xs" if k: "k < ?n" for k
  proof -
    have le: "bucket_start (length T) ?n (Suc k) \<le> length T" using b(2) [OF k] by simp
    obtain i j where ij: "i < bucket_start (length T) ?n (Suc k)" "j < bucket_start (length T) ?n (Suc k)"
      "fst (envelope_bucket ?xs ?n k) = ?xs ! i" "snd (envelope_bucket ?xs ?n k) = ?xs ! j"
      using b(4,5) [OF k] unfolding length_map by blast
    moreover have "i < length T" "j < length T" using ij(1,2) le by linarith+
    moreover have "?mns ! k = fst (envelope_bucket ?xs ?n k)" "?mxs ! k = snd (envelope_bucket ?xs ?n k)"
      using k by simp_all
    ultimately have "i < length T" "j < length T" "?mns ! k = ?xs ! i" "?mxs ! k = ?xs ! j" by simp_all
    then show ?thesis using nth_mem [of _ ?xs] by (metis length_map)
  qed
  show ?thesis
    using assms(1) cover bounds mem
    by (intro exI [of _ ?mns] exI [of _ ?mxs]) (simp add: assembled_def)
qed

theorem ftable_envelope_encloses_witness:
  "\<exists>mns mxs. fb_envelope_minimums (accept_ftable_chunk True True
        \<lparr>ft_graph_id = 1, ft_stream_id = 0, transfer_id = 7, sample_offset = 0, ft_sample_count = 2,
         total_samples = 2, ft_samples = [Fin 1, Fin 3]\<rparr> zero_ftable) = Some mns
      \<and> fb_envelope_maximums (accept_ftable_chunk True True
        \<lparr>ft_graph_id = 1, ft_stream_id = 0, transfer_id = 7, sample_offset = 0, ft_sample_count = 2,
         total_samples = 2, ft_samples = [Fin 1, Fin 3]\<rparr> zero_ftable) = Some mxs
      \<and> length mns = 2 \<and> length mxs = 2"
proof -
  let ?d = "\<lparr>ft_graph_id = 1, ft_stream_id = 0, transfer_id = 7, sample_offset = 0,
        ft_sample_count = 2, total_samples = 2, ft_samples = [Fin 1, Fin 3]\<rparr> :: WATCH_MSG_FTABLE_DATA"
  have d: "chunk_of 7 [Fin 1, Fin 3] 0 ?d" by (simp add: chunk_of_def)
  have "{..<chunk_count [Fin 1, Fin 3]} \<subseteq> chunks_in 7 [Fin 1, Fin 3] [?d]"
    using d by (auto simp: chunks_in_def chunk_count_def)
  then have "assembled 7 [Fin 1, Fin 3] (accept_ftable_chunk True True ?d zero_ftable)"
    using transfer_whole [of 7 zero_ftable "[Fin 1, Fin 3]" "[?d]"] d
    by (auto simp: not_of_def table_size_ok_def)
  from ftable_envelope_encloses [OF this] show ?thesis by auto
qed

end
