(* ===== verification/Ranges.thy ===== *)
theory Ranges
  imports Validate
begin

text \<open>
  The ranges of a graph's axes that follow from its configuration alone
  (\<^verbatim>\<open>resolve_scope_range\<close> to \<^verbatim>\<open>resolve_meter_axis\<close> and
  \<^verbatim>\<open>resolve_spectral_static_range\<close> in \<^verbatim>\<open>src/src/watch_viewer.c\<close>), the
  names of the axes, and the value a spectral bin is drawn with. A configuration that passed the
  viewer's check has a usable range, unless a limit is so large that adding the default span to it
  is lost in rounding.
\<close>

section \<open>Constants\<close>

abbreviation DEFAULT_X_TICKS :: "'a::numeral" where "DEFAULT_X_TICKS \<equiv> 10"
abbreviation DEFAULT_Y_TICKS :: "'a::numeral" where "DEFAULT_Y_TICKS \<equiv> 8"
abbreviation POINT_TICKS :: "'a::numeral" where "POINT_TICKS \<equiv> 8"
abbreviation METER_DEFAULT_DB_SPAN :: cfloat where "METER_DEFAULT_DB_SPAN \<equiv> Fin 60"
abbreviation SPECTRAL_DB_FLOOR :: cfloat where "SPECTRAL_DB_FLOOR \<equiv> Fin (- 160)"

section \<open>Ranges\<close>

text \<open>Each resolver writes the minimum and the maximum; here they are returned.\<close>

definition resolve_scope_range :: "WATCH_MSG_TIME_CONFIG \<Rightarrow> cfloat \<times> cfloat" where
  "resolve_scope_range c =
     (let r = time_yrange c in
      if is_min_auto r \<noteq> 0 \<and> is_max_auto r \<noteq> 0 then (Fin (- 1), Fin 1)
      else if is_min_auto r \<noteq> 0 then let ymax = range_max r in (fsub f32 ymax (Fin 2), ymax)
      else if is_max_auto r \<noteq> 0 then let ymin = range_min r in (ymin, fadd f32 ymin (Fin 2))
      else (range_min r, range_max r))"

definition resolve_point_range :: "WATCH_RANGE \<Rightarrow> cfloat \<times> cfloat" where
  "resolve_point_range r =
     (if is_min_auto r \<noteq> 0 \<and> is_max_auto r \<noteq> 0 then (Fin (- 1), Fin 1)
      else if is_min_auto r \<noteq> 0 then let maximum = range_max r in (fsub f32 maximum (Fin 2), maximum)
      else if is_max_auto r \<noteq> 0 then let minimum = range_min r in (minimum, fadd f32 minimum (Fin 2))
      else (range_min r, range_max r))"

definition resolve_meter_range :: "WATCH_MSG_METER_CONFIG \<Rightarrow> cfloat \<times> cfloat" where
  "resolve_meter_range c =
     (let decibel = (meter_scale c = WATCH_SCALE_DECIBEL);
          span = (if decibel then METER_DEFAULT_DB_SPAN else Fin 1);
          r = meter_yrange c in
      if is_min_auto r \<noteq> 0 \<and> is_max_auto r \<noteq> 0
      then (if decibel then fneg METER_DEFAULT_DB_SPAN else Fin 0, if decibel then Fin 0 else Fin 1)
      else if is_min_auto r \<noteq> 0 then let ymax = range_max r in (fsub f32 ymax span, ymax)
      else if is_max_auto r \<noteq> 0 then let ymin = range_min r in (ymin, fadd f32 ymin span)
      else (range_min r, range_max r))"

definition resolve_meter_axis :: "WATCH_MSG_METER_CONFIG \<Rightarrow> cfloat \<times> cfloat \<times> u32" where
  "resolve_meter_axis c =
     (let (ymin, ymax) = resolve_meter_range c;
          range_divisions = (if meter_nyticks c = 0 then DEFAULT_Y_TICKS else meter_nyticks c) in
      (ymin, fadd f32 ymax (fdiv f32 (fsub f32 ymax ymin) (of_u32 f32 range_divisions)),
       range_divisions + 1))"

definition resolve_spectral_static_range :: "WATCH_MSG_SPECTRAL_CONFIG \<Rightarrow> cfloat \<times> cfloat" where
  "resolve_spectral_static_range c =
     (let default_minimum = (if spec_scale c = WATCH_SCALE_DECIBEL then Fin (- 120) else Fin 0);
          default_maximum = (if spec_scale c = WATCH_SCALE_DECIBEL then Fin 0 else Fin 1);
          r = value_range c;
          minimum = (if is_min_auto r \<noteq> 0 then default_minimum else range_min r);
          maximum = (if is_max_auto r \<noteq> 0 then default_maximum else range_max r) in
      if maximum \<le> minimum
      then (if is_max_auto r \<noteq> 0 then (minimum, fadd f32 minimum (Fin 1))
            else (fsub f32 maximum (Fin 1), maximum))
      else (minimum, maximum))"

text \<open>What a bin's power is drawn as. The square root and the logarithm are those of the C
  library: parameters.\<close>

definition spectral_display_value :: "(cfloat \<Rightarrow> cfloat) \<Rightarrow> (cfloat \<Rightarrow> cfloat) \<Rightarrow> cfloat \<Rightarrow> u32 \<Rightarrow> cfloat" where
  "spectral_display_value sqrtf log10f power0 scale =
     (let power = (if \<not> isfinite power0 \<or> power0 < Fin 0 then Fin 0 else power0) in
      if scale = WATCH_SCALE_LINEAR_GAIN then sqrtf power
      else if scale = WATCH_SCALE_LINEAR_POWER then power
      else if scale = WATCH_SCALE_DECIBEL
      then (if power \<le> Fin 0 then SPECTRAL_DB_FLOOR
            else fmax (fmul f32 (Fin 10) (log10f power)) SPECTRAL_DB_FLOOR)
      else Fin 0)"

section \<open>Names and colours\<close>

definition x_axis_label :: "WATCH_MSG_CONFIG \<Rightarrow> string" where
  "x_axis_label c =
     (if domain c = WATCH_DOMAIN_SPECTRUM then ''Frequency (Hz)''
      else if domain c = WATCH_DOMAIN_FTABLE then ''Table index''
      else if domain c = WATCH_DOMAIN_POINT then ''x''
      else if domain c = WATCH_DOMAIN_METER then ''Channel''
      else ''Time (s)'')"

definition y_axis_label :: "WATCH_MSG_CONFIG \<Rightarrow> string" where
  "y_axis_label c =
     (if domain c = WATCH_DOMAIN_OSCILLOSCOPE then ''Amplitude''
      else if domain c = WATCH_DOMAIN_CONTROL then ''Value''
      else if domain c = WATCH_DOMAIN_SPECTRUM
      then (if spec_scale (set_spectral (settings c)) = WATCH_SCALE_LINEAR_POWER then ''Power''
            else if spec_scale (set_spectral (settings c)) = WATCH_SCALE_DECIBEL then ''Level (dB)''
            else ''Gain'')
      else if domain c = WATCH_DOMAIN_SPECTROGRAM then ''Frequency (Hz)''
      else if domain c = WATCH_DOMAIN_FTABLE then ''Value''
      else if domain c = WATCH_DOMAIN_POINT then ''y''
      else if domain c = WATCH_DOMAIN_METER
      then (if meter_scale (set_meter (settings c)) = WATCH_SCALE_DECIBEL then ''Level (dB)'' else ''Gain'')
      else [])"

definition themed_component :: "u32 \<Rightarrow> 8 word \<Rightarrow> 8 word" where
  "themed_component th light_component =
     (if th = WATCH_THEME_DARK then 255 - light_component else light_component)"

section \<open>Rounding a shifted limit\<close>

lemma fround_mono: "a \<le> b \<Longrightarrow> 0 < prec fmt \<Longrightarrow> fround fmt a \<le> fround fmt b"
  using round_rat_mono [of a b fmt]
  by (auto simp: fround_def Let_def less_eq_cfloat_def)

lemma less_le_cfloat: "(x :: cfloat) < y \<Longrightarrow> y \<le> z \<Longrightarrow> x < z"
  by (cases x; cases y; cases z) (auto simp: less_eq_cfloat_def)

lemma le_less_cfloat: "(x :: cfloat) \<le> y \<Longrightarrow> y < z \<Longrightarrow> x < z"
  by (cases x; cases y; cases z) (auto simp: less_eq_cfloat_def)

text \<open>Below \<open>2 ^ 24\<close> the integers are floats, so that a shift by one or more is never lost.\<close>

abbreviation exact_below :: rat where "exact_below \<equiv> 16777215"

lemma shift_up:
  assumes "\<bar>q\<bar> < exact_below" "1 \<le> d"
  shows "Fin q < fround f32 (q + d)"
proof -
  have "\<bar>\<lfloor>q\<rfloor> + 1\<bar> < 16777216" using assms(1) by (auto simp: abs_less_iff) linarith+
  then have "fround f32 (of_int (\<lfloor>q\<rfloor> + 1)) = Fin (of_int (\<lfloor>q\<rfloor> + 1))" by (rule fround_f32_int)
  moreover have "fround f32 (of_int (\<lfloor>q\<rfloor> + 1)) \<le> fround f32 (q + d)"
    using assms(2) by (intro fround_mono) (simp_all, linarith)
  moreover have "q < of_int (\<lfloor>q\<rfloor> + 1)" by linarith
  ultimately show ?thesis using less_le_cfloat [of "Fin q" "Fin (of_int (\<lfloor>q\<rfloor> + 1))"] by simp
qed

lemma shift_down:
  assumes "\<bar>q\<bar> < exact_below" "1 \<le> d"
  shows "fround f32 (q - d) < Fin q"
proof -
  have "\<bar>\<lceil>q\<rceil> - 1\<bar> < 16777216" using assms(1) by (auto simp: abs_less_iff) linarith+
  then have "fround f32 (of_int (\<lceil>q\<rceil> - 1)) = Fin (of_int (\<lceil>q\<rceil> - 1))" by (rule fround_f32_int)
  moreover have "fround f32 (q - d) \<le> fround f32 (of_int (\<lceil>q\<rceil> - 1))"
    using assms(2) by (intro fround_mono) (simp_all, linarith)
  moreover have "of_int (\<lceil>q\<rceil> - 1) < q" by linarith
  ultimately show ?thesis using le_less_cfloat [of _ "Fin (of_int (\<lceil>q\<rceil> - 1))" "Fin q"] by simp
qed

lemma max_finite_big: "16777300 < max_finite f32"
  by (simp add: max_finite_def)

lemma shift_finite:
  assumes "\<bar>q\<bar> < exact_below" "\<bar>d\<bar> \<le> 60"
  shows "isfinite (fround f32 (q + d))"
proof -
  have "\<bar>q + d\<bar> \<le> max_finite f32" using assms max_finite_big by (auto simp: abs_le_iff abs_less_iff)
  then show ?thesis using fround_f32_finite(1) by simp
qed

section \<open>Usable ranges\<close>

definition usable :: "cfloat \<times> cfloat \<Rightarrow> bool" where
  "usable r \<longleftrightarrow> isfinite (fst r) \<and> isfinite (snd r) \<and> fst r < snd r"

text \<open>The limits that are given are below \<^term>\<open>exact_below\<close> in size.\<close>

definition moderate :: "WATCH_RANGE \<Rightarrow> bool" where
  "moderate r \<longleftrightarrow> (is_min_auto r = 0 \<longrightarrow> fabsf (range_min r) < Fin exact_below)
     \<and> (is_max_auto r = 0 \<longrightarrow> fabsf (range_max r) < Fin exact_below)"

lemma moderate_limit: "isfinite x \<Longrightarrow> fabsf x < Fin exact_below \<Longrightarrow> \<exists>q. x = Fin q \<and> \<bar>q\<bar> < exact_below"
  by (cases x) auto

lemma usable_above: "\<bar>q\<bar> < exact_below \<Longrightarrow> 1 \<le> d \<Longrightarrow> d \<le> 60 \<Longrightarrow> usable (Fin q, fadd f32 (Fin q) (Fin d))"
  using shift_up [of q d] shift_finite [of q d] by (simp add: usable_def)

lemma usable_below: "\<bar>q\<bar> < exact_below \<Longrightarrow> 1 \<le> d \<Longrightarrow> d \<le> 60 \<Longrightarrow> usable (fsub f32 (Fin q) (Fin d), Fin q)"
  using shift_down [of q d] shift_finite [of q "- d"] by (simp add: usable_def fsub_def)

text \<open>The four cases of a range that passed \<^const>\<open>valid_range\<close>.\<close>

lemma valid_range_cases:
  assumes "valid_range r nn" "moderate r"
  obtains "is_min_auto r \<noteq> 0" "is_max_auto r \<noteq> 0"
  | q where "is_min_auto r \<noteq> 0" "is_max_auto r = 0" "range_max r = Fin q" "\<bar>q\<bar> < exact_below"
  | q where "is_min_auto r = 0" "is_max_auto r \<noteq> 0" "range_min r = Fin q" "\<bar>q\<bar> < exact_below"
  | p q where "is_min_auto r = 0" "is_max_auto r = 0" "range_min r = Fin p" "range_max r = Fin q" "p < q"
proof -
  have mn: "\<exists>q. range_min r = Fin q \<and> \<bar>q\<bar> < exact_below" if "is_min_auto r = 0"
    using assms that moderate_limit [of "range_min r"] by (auto simp: valid_range_def moderate_def split: if_splits)
  have mx: "\<exists>q. range_max r = Fin q \<and> \<bar>q\<bar> < exact_below" if "is_max_auto r = 0"
    using assms that moderate_limit [of "range_max r"] by (auto simp: valid_range_def moderate_def split: if_splits)
  have lt: "range_min r < range_max r" if "is_min_auto r = 0" "is_max_auto r = 0"
    using assms(1) that by (auto simp: valid_range_def split: if_splits)
  show thesis using that mn mx lt by (cases "is_min_auto r = 0"; cases "is_max_auto r = 0") fastforce+
qed

lemma usable_Fin [simp]: "usable (Fin p, Fin q) \<longleftrightarrow> p < q"
  by (simp add: usable_def)

lemmas resolvers = resolve_scope_range_def resolve_point_range_def resolve_meter_range_def

lemma resolve_usable:
  assumes "valid_range r nn" "moderate r"
  shows "usable (resolve_scope_range (t\<lparr>time_yrange := r\<rparr>))" "usable (resolve_point_range r)"
    "usable (resolve_meter_range (m\<lparr>meter_yrange := r\<rparr>))"
proof -
  have "usable (resolve_scope_range (t\<lparr>time_yrange := r\<rparr>)) \<and> usable (resolve_point_range r)
      \<and> usable (resolve_meter_range (m\<lparr>meter_yrange := r\<rparr>))"
    using assms
  proof (cases rule: valid_range_cases)
    case (2 q)
    then show ?thesis using usable_below [of q] by (simp add: resolvers Let_def)
  next
    case (3 q)
    then show ?thesis using usable_above [of q] by (simp add: resolvers Let_def)
  qed (simp_all add: resolvers Let_def)
  then show "usable (resolve_scope_range (t\<lparr>time_yrange := r\<rparr>))" "usable (resolve_point_range r)"
    "usable (resolve_meter_range (m\<lparr>meter_yrange := r\<rparr>))" by simp_all
qed

lemma resolve_spectral_usable:
  assumes "valid_range r nn" "moderate r"
  shows "usable (resolve_spectral_static_range (c\<lparr>value_range := r\<rparr>))"
  using assms
proof (cases rule: valid_range_cases)
  case 1
  then show ?thesis by (simp add: resolve_spectral_static_range_def)
next
  case (2 q)
  then show ?thesis using usable_below [of q 1]
    by (auto simp: resolve_spectral_static_range_def Let_def)
next
  case (3 q)
  then show ?thesis using usable_above [of q 1]
    by (auto simp: resolve_spectral_static_range_def Let_def)
next
  case (4 p q)
  then show ?thesis by (simp add: resolve_spectral_static_range_def)
qed

text \<open>An axis whose configuration passed the viewer's check can be drawn: the range the
  viewer resolves for a scope, a point plane, a meter or a spectrum, whatever limits are left
  automatic, is finite and not empty, provided the given limits are below \<open>2 ^ 24\<close> in size.\<close>

theorem axis_ranges_usable:
  assumes "valid_range r nn" "moderate r"
  shows "usable (resolve_scope_range (t\<lparr>time_yrange := r\<rparr>)) \<and> usable (resolve_point_range r)
    \<and> usable (resolve_meter_range (m\<lparr>meter_yrange := r\<rparr>))
    \<and> usable (resolve_spectral_static_range (c\<lparr>value_range := r\<rparr>))"
  using resolve_usable [OF assms] resolve_spectral_usable [OF assms] by blast

theorem axis_ranges_usable_witness:
  "usable (resolve_point_range \<lparr>is_min_auto = 0, is_max_auto = 1, range_min = Fin 100, range_max = Fin 0\<rparr>)"
proof -
  let ?r = "\<lparr>is_min_auto = 0, is_max_auto = 1, range_min = Fin 100, range_max = Fin 0\<rparr>"
  have "valid_range ?r False" "moderate ?r" by (simp_all add: valid_range_def moderate_def)
  from axis_ranges_usable [OF this] show ?thesis by blast
qed

text \<open>Without the bound the range can be empty: \<open>2 ^ 25 + 2\<close> is rounded back to \<open>2 ^ 25\<close>, and the
  divisor \<open>maximum - minimum\<close> of every drawn position is zero.\<close>

lemma range_collapses:
  "valid_range \<lparr>is_min_auto = 0, is_max_auto = 1, range_min = Fin 33554432, range_max = Fin 0\<rparr> False
   \<and> resolve_point_range \<lparr>is_min_auto = 0, is_max_auto = 1, range_min = Fin 33554432, range_max = Fin 0\<rparr>
       = (Fin 33554432, Fin 33554432)"
proof -
  have "ilog2 33554434 < 26" by (rule ilog2_less) simp_all
  moreover have "25 \<le> ilog2 33554434"
  proof (rule ccontr)
    assume "\<not> 25 \<le> ilog2 33554434"
    then have "(2::rat) powi (ilog2 33554434 + 1) \<le> 2 powi 25" by (intro power_int_increasing) simp_all
    then show False using ilog2_bounds [of 33554434] by simp
  qed
  ultimately have "ilog2 33554434 = 25" by linarith
  then have "ulp_exp f32 33554434 = 2" by (simp add: ulp_exp_def)
  moreover have "\<lfloor>16777217 / 2 :: rat\<rfloor> = 8388608" by (simp add: floor_eq_iff)
  ultimately have "round_rat f32 33554434 = 33554432" by (simp add: round_rat_def round_even_def Let_def)
  then have "fround f32 33554434 = Fin 33554432" using max_finite_big
    by (simp add: fround_def Let_def max_finite_def)
  then show ?thesis by (simp add: valid_range_def resolve_point_range_def Let_def)
qed

section \<open>The value of a bin\<close>

text \<open>Whatever power arrives, a decibel value does not fall below the floor.\<close>

lemma spectral_display_floor:
  "SPECTRAL_DB_FLOOR \<le> spectral_display_value sqrtf log10f pw WATCH_SCALE_DECIBEL"
proof -
  have fm: "SPECTRAL_DB_FLOOR \<le> fmax x SPECTRAL_DB_FLOOR" for x
    by (cases x) (auto simp: fmax_def less_eq_cfloat_def)
  show ?thesis by (simp add: spectral_display_value_def Let_def fm)
qed

end
