(* ===== verification/SpectralAssembly.thy ===== *)
theory SpectralAssembly
  imports Window Ranges
begin

text \<open>
  The viewer's side of a spectral stream (\<^verbatim>\<open>STREAM_SPECTRAL_BUFFER\<close> in
  \<^verbatim>\<open>src/src/watch_viewer.c\<close>): the bins of a frame arrive in chunks, in any order and mixed
  with chunks of later and of earlier frames. A complete frame replaces the spectrum, or becomes
  the next column of the spectrogram's texture, a ring of columns. The specification is a
  machine that knows frames by their sequence numbers only.
\<close>

section \<open>State\<close>

abbreviation MAX_SPECTROGRAM_TEXELS :: "'a::numeral" where "MAX_SPECTROGRAM_TEXELS \<equiv> 16777216"

type_synonym rgba = "8 word \<times> 8 word \<times> 8 word \<times> 8 word"

text \<open>The texture is the list of its columns, a column the list of its pixels from the top.\<close>

record STREAM_SPECTRAL_BUFFER =
  sb_assembly_bins :: "cfloat list option"
  sb_received_bins :: "bool list option"
  sb_display_bins :: "cfloat list option"
  sb_plot_points :: "(cfloat \<times> cfloat) list option"
  sb_history_texture :: "rgba list list option"
  sb_color_column :: "rgba list option"
  sb_frame_sequence :: int
  sb_frame_id :: u32
  sb_fft_size :: u32
  sb_hop_size :: u32
  sb_sample_rate :: u32
  sb_total_bins :: u32
  sb_received_count :: nat
  sb_history_capacity :: nat
  sb_history_write_index :: nat
  sb_valid_history_frames :: nat
  sb_has_frame :: bool
  sb_assembling :: bool
  sb_display_ready :: bool
  sb_unsupported :: bool

definition zero_spectral :: STREAM_SPECTRAL_BUFFER where
  "zero_spectral = \<lparr>sb_assembly_bins = None, sb_received_bins = None, sb_display_bins = None,
     sb_plot_points = None, sb_history_texture = None, sb_color_column = None, sb_frame_sequence = 0,
     sb_frame_id = 0, sb_fft_size = 0, sb_hop_size = 0, sb_sample_rate = 0, sb_total_bins = 0,
     sb_received_count = 0, sb_history_capacity = 0, sb_history_write_index = 0,
     sb_valid_history_frames = 0, sb_has_frame = False, sb_assembling = False,
     sb_display_ready = False, sb_unsupported = False\<rparr>"

definition clear_spectral_stream :: "STREAM_SPECTRAL_BUFFER \<Rightarrow> STREAM_SPECTRAL_BUFFER" where
  "clear_spectral_stream s = zero_spectral"

definition reject_spectral_stream ::
  "STREAM_SPECTRAL_BUFFER \<Rightarrow> WATCH_MSG_SPECTRAL_DATA \<Rightarrow> STREAM_SPECTRAL_BUFFER" where
  "reject_spectral_stream s d = (clear_spectral_stream s)\<lparr>sb_fft_size := fft_size d,
     sb_hop_size := hop_size d, sb_sample_rate := spec_sample_rate d, sb_total_bins := total_bins d,
     sb_unsupported := True\<rparr>"

text \<open>What the host grants: the allocations, the texture SDL creates and prepares, the size it
  allows at most, and the update of a column.\<close>

record SPECTRAL_HOST =
  assembly_mem :: bool
  display_mem :: bool
  column_mem :: bool
  texture_made :: bool
  max_texture_size :: int
  texture_updated :: bool

section \<open>Colours\<close>

text \<open>\<^verbatim>\<open>lroundf\<close>: to the nearest integer, halfway cases away from zero.\<close>

definition round_away :: "rat \<Rightarrow> int" where
  "round_away q = (if 0 \<le> q then \<lfloor>q + 1 / 2\<rfloor> else - \<lfloor>- q + 1 / 2\<rfloor>)"

fun lroundf :: "cfloat \<Rightarrow> int" where
  "lroundf (Fin q) = round_away q"
| "lroundf _ = 0"

definition spectral_grayscale :: "cfloat \<Rightarrow> cfloat \<Rightarrow> cfloat \<Rightarrow> u32 \<Rightarrow> rgba" where
  "spectral_grayscale value minimum maximum th =
     (let normalized0 = fdiv f32 (fsub f32 value minimum) (fsub f32 maximum minimum);
          normalized = fmin (fmax normalized0 (Fin 0)) (Fin 1);
          light_shade = of_int (lroundf (fmul f32 (fsub f32 (Fin 1) normalized) (Fin 255)));
          shade = themed_component th light_shade in
      (shade, shade, shade, 255))"

section \<open>Buffers of a stream\<close>

text \<open>A blank texture of \<open>width\<close> columns.\<close>

definition create_spectrogram_texture ::
  "SPECTRAL_HOST \<Rightarrow> u32 \<Rightarrow> u32 \<Rightarrow> u32 \<Rightarrow> rgba list list option" where
  "create_spectrogram_texture h width height th =
     (if width = 0 \<or> height = 0 \<or> width > 2147483647 \<or> height > 2147483647
        \<or> (ucast width * ucast height :: u64) > MAX_SPECTROGRAM_TEXELS then None
      else if max_texture_size h > 0
        \<and> (int (unat width) > max_texture_size h \<or> int (unat height) > max_texture_size h) then None
      else if \<not> texture_made h then None
      else let background = themed_component th 255 in
        Some (replicate (unat width) (replicate (unat height) (background, background, background, 255))))"

definition same_format :: "STREAM_SPECTRAL_BUFFER \<Rightarrow> WATCH_MSG_SPECTRAL_DATA \<Rightarrow> bool" where
  "same_format s d \<longleftrightarrow> sb_fft_size s = fft_size d \<and> sb_hop_size s = hop_size d
     \<and> sb_sample_rate s = spec_sample_rate d \<and> sb_total_bins s = total_bins d"

text \<open>The columns a history of the configured length needs.\<close>

definition requested_history :: "WATCH_MSG_SPECTRAL_CONFIG \<Rightarrow> WATCH_MSG_SPECTRAL_DATA \<Rightarrow> cfloat" where
  "requested_history c d =
     fceil (fdiv f64 (fmul f64 (history_seconds c) (of_u32 f64 (spec_sample_rate d))) (of_u32 f64 (hop_size d)))"

definition ensure_spectral_stream ::
  "SPECTRAL_HOST \<Rightarrow> WATCH_MSG_CONFIG \<Rightarrow> STREAM_SPECTRAL_BUFFER \<Rightarrow> WATCH_MSG_SPECTRAL_DATA
     \<Rightarrow> bool \<times> STREAM_SPECTRAL_BUFFER" where
  "ensure_spectral_stream h c s d =
     (let metadata_matches = (sb_assembly_bins s \<noteq> None \<and> sb_received_bins s \<noteq> None \<and> same_format s d) in
      if sb_unsupported s \<and> same_format s d then (False, s)
      else if metadata_matches
      then (if domain c = WATCH_DOMAIN_SPECTRUM
            then (sb_display_bins s \<noteq> None \<and> sb_plot_points s \<noteq> None, s)
            else (sb_history_texture s \<noteq> None \<and> sb_color_column s \<noteq> None, s))
      else
        let s0 = clear_spectral_stream s; n = unat (total_bins d) in
        if \<not> assembly_mem h then (False, reject_spectral_stream s0 d)
        else
          let s1 = s0\<lparr>sb_assembly_bins := Some (replicate n (Fin 0)),
                sb_received_bins := Some (replicate n False), sb_fft_size := fft_size d,
                sb_hop_size := hop_size d, sb_sample_rate := spec_sample_rate d, sb_total_bins := total_bins d\<rparr> in
          if domain c = WATCH_DOMAIN_SPECTRUM
          then (if \<not> display_mem h then (False, reject_spectral_stream s1 d)
                else (True, s1\<lparr>sb_display_bins := Some (replicate n (Fin 0)),
                  sb_plot_points := Some (replicate n (Fin 0, Fin 0))\<rparr>))
          else
            let requested = requested_history (set_spectral (settings c)) d in
            if \<not> isfinite requested \<or> requested < Fin 1 \<or> Fin 2147483647 < requested
               \<or> Fin MAX_SPECTROGRAM_TEXELS < fmul f64 requested (of_u32 f64 (total_bins d))
            then (False, reject_spectral_stream s1 d)
            else
              (case to_u32 requested of
                 None \<Rightarrow> (False, reject_spectral_stream s1 d)
               | Some width \<Rightarrow>
                   (case create_spectrogram_texture h width (total_bins d) (theme c) of
                      Some texture \<Rightarrow>
                        if \<not> column_mem h then (False, reject_spectral_stream s1 d)
                        else (True, s1\<lparr>sb_history_capacity := unat width,
                          sb_color_column := Some (replicate n (0, 0, 0, 0)),
                          sb_history_texture := Some texture\<rparr>)
                    | None \<Rightarrow> (False, reject_spectral_stream s1 d))))"

definition begin_spectral_frame :: "packet \<Rightarrow> STREAM_SPECTRAL_BUFFER \<Rightarrow> STREAM_SPECTRAL_BUFFER" where
  "begin_spectral_frame p s = s\<lparr>
     sb_received_bins := map_option (\<lambda>r. replicate (unat (sb_total_bins s)) False) (sb_received_bins s),
     sb_received_count := 0, sb_frame_sequence := sequence (header p),
     sb_frame_id := frame_id (pk_spectral p), sb_has_frame := True, sb_assembling := True\<rparr>"

section \<open>The history\<close>

definition put_column :: "rgba list \<Rightarrow> STREAM_SPECTRAL_BUFFER \<Rightarrow> STREAM_SPECTRAL_BUFFER" where
  "put_column column s = s\<lparr>
     sb_history_texture := map_option (\<lambda>t. t[sb_history_write_index s := column]) (sb_history_texture s),
     sb_history_write_index := (sb_history_write_index s + 1) mod sb_history_capacity s,
     sb_valid_history_frames := (if sb_valid_history_frames s < sb_history_capacity s
       then sb_valid_history_frames s + 1 else sb_valid_history_frames s)\<rparr>"

text \<open>The pixels of a frame, bin by bin from the bottom row of the column up. \<open>display\<close> is
  \<^const>\<open>spectral_display_value\<close> with the library's functions.\<close>

definition paint_column ::
  "(cfloat \<Rightarrow> u32 \<Rightarrow> cfloat) \<Rightarrow> WATCH_MSG_SPECTRAL_CONFIG \<Rightarrow> u32 \<Rightarrow> cfloat list \<Rightarrow> rgba list \<Rightarrow> rgba list" where
  "paint_column display c th bins0 column =
     (let (minimum, maximum) = resolve_spectral_static_range c; n = length bins0 in
      fold (\<lambda>bin cc. cc[n - 1 - bin := spectral_grayscale (display (bins0 ! bin) (spec_scale c)) minimum maximum th])
        [0..<n] column)"

definition append_spectrogram_frame ::
  "SPECTRAL_HOST \<Rightarrow> (cfloat \<Rightarrow> u32 \<Rightarrow> cfloat) \<Rightarrow> WATCH_MSG_SPECTRAL_CONFIG \<Rightarrow> u32
     \<Rightarrow> STREAM_SPECTRAL_BUFFER \<Rightarrow> bool \<times> STREAM_SPECTRAL_BUFFER" where
  "append_spectrogram_frame h display c th s =
     (let column = paint_column display c th
            (take (unat (sb_total_bins s)) (the (sb_assembly_bins s))) (the (sb_color_column s));
          s1 = s\<lparr>sb_color_column := Some column\<rparr> in
      if \<not> texture_updated h then (False, s1) else (True, put_column column s1))"

section \<open>A packet\<close>

text \<open>One bin: its value, and the mark that it has been received.\<close>

definition store_bin :: "nat \<Rightarrow> cfloat \<Rightarrow> STREAM_SPECTRAL_BUFFER \<Rightarrow> STREAM_SPECTRAL_BUFFER" where
  "store_bin destination pw s =
     (let s1 = s\<lparr>sb_assembly_bins := map_option (\<lambda>b. b[destination :=
            if isfinite pw \<and> Fin 0 \<le> pw then pw else Fin 0]) (sb_assembly_bins s)\<rparr> in
      if \<not> the (sb_received_bins s1) ! destination
      then s1\<lparr>sb_received_bins := map_option (\<lambda>r. r[destination := True]) (sb_received_bins s1),
        sb_received_count := sb_received_count s1 + 1\<rparr>
      else s1)"

fun store_bins :: "nat \<Rightarrow> cfloat list \<Rightarrow> STREAM_SPECTRAL_BUFFER \<Rightarrow> STREAM_SPECTRAL_BUFFER" where
  "store_bins destination [] s = s"
| "store_bins destination (pw # pws) s = store_bins (destination + 1) pws (store_bin destination pw s)"

text \<open>The end of \<^verbatim>\<open>process_spectral_packet\<close>: a complete frame goes to the display.\<close>

definition finish_spectral_frame ::
  "SPECTRAL_HOST \<Rightarrow> (cfloat \<Rightarrow> u32 \<Rightarrow> cfloat) \<Rightarrow> WATCH_MSG_CONFIG \<Rightarrow> WATCH_MSG_SPECTRAL_DATA
     \<Rightarrow> STREAM_SPECTRAL_BUFFER \<Rightarrow> STREAM_SPECTRAL_BUFFER" where
  "finish_spectral_frame h display c d s3 =
     (let s4 = s3\<lparr>sb_assembling := False\<rparr> in
      if domain c = WATCH_DOMAIN_SPECTRUM
      then s4\<lparr>sb_display_bins := map_option (\<lambda>b. the (sb_assembly_bins s4)) (sb_display_bins s4),
        sb_display_ready := True\<rparr>
      else
        let (appended, s5) = append_spectrogram_frame h display (set_spectral (settings c)) (theme c) s4 in
        if appended then s5 else reject_spectral_stream s5 d)"

definition collect_bins ::
  "SPECTRAL_HOST \<Rightarrow> (cfloat \<Rightarrow> u32 \<Rightarrow> cfloat) \<Rightarrow> WATCH_MSG_CONFIG \<Rightarrow> WATCH_MSG_SPECTRAL_DATA
     \<Rightarrow> STREAM_SPECTRAL_BUFFER \<Rightarrow> STREAM_SPECTRAL_BUFFER" where
  "collect_bins h display c d s2 =
     (let s3 = store_bins (unat (bin_offset d)) (take (unat (bin_count d)) (bins d)) s2 in
      if sb_received_count s3 \<noteq> unat (sb_total_bins s3) then s3
      else finish_spectral_frame h display c d s3)"

text \<open>The part of \<^verbatim>\<open>process_spectral_packet\<close> behind its lookup.\<close>

definition accept_spectral_chunk ::
  "SPECTRAL_HOST \<Rightarrow> (cfloat \<Rightarrow> u32 \<Rightarrow> cfloat) \<Rightarrow> WATCH_MSG_CONFIG \<Rightarrow> packet
     \<Rightarrow> STREAM_SPECTRAL_BUFFER \<Rightarrow> STREAM_SPECTRAL_BUFFER" where
  "accept_spectral_chunk h display c p s =
     (let d = pk_spectral p; seq = sequence (header p) in
      if sb_has_frame s \<and> seq < sb_frame_sequence s then s
      else if sb_has_frame s \<and> seq = sb_frame_sequence s
        \<and> (frame_id d \<noteq> sb_frame_id s \<or> \<not> same_format s d) then s
      else
        let (ensured, s1) = ensure_spectral_stream h c s d in
        if \<not> ensured then s1
        else if sb_has_frame s1 \<and> \<not> seq > sb_frame_sequence s1
          \<and> (seq < sb_frame_sequence s1 \<or> frame_id d \<noteq> sb_frame_id s1 \<or> \<not> sb_assembling s1) then s1
        else
          let s2 = (if \<not> sb_has_frame s1 \<or> seq > sb_frame_sequence s1 then begin_spectral_frame p s1 else s1) in
          collect_bins h display c d s2)"

section \<open>The ring of columns\<close>

definition texture_ok :: "STREAM_SPECTRAL_BUFFER \<Rightarrow> bool" where
  "texture_ok s \<longleftrightarrow> (\<exists>t. sb_history_texture s = Some t \<and> length t = sb_history_capacity s)
     \<and> 0 < sb_history_capacity s \<and> sb_history_write_index s < sb_history_capacity s
     \<and> sb_valid_history_frames s \<le> sb_history_capacity s"

definition texture_items :: "STREAM_SPECTRAL_BUFFER \<Rightarrow> rgba list list" where
  "texture_items s =
     ring_window (the (sb_history_texture s)) (sb_history_write_index s) (sb_valid_history_frames s)"

interpretation texture: history put_column id texture_items sb_history_capacity texture_ok
proof
  fix s :: STREAM_SPECTRAL_BUFFER and x
  assume ok: "texture_ok s"
  then obtain t where t: "sb_history_texture s = Some t" "length t = sb_history_capacity s"
    "sb_history_write_index s < sb_history_capacity s" "sb_valid_history_frames s \<le> sb_history_capacity s"
    by (auto simp: texture_ok_def)
  show "texture_items (put_column x s) = lastn (sb_history_capacity s) (texture_items s @ [id x])"
    using ring_window_put [of "sb_history_write_index s" t "sb_valid_history_frames s" x] t
    by (simp add: texture_items_def put_column_def cong: if_cong)
  show "texture_ok (put_column x s)" using ok by (auto simp: texture_ok_def put_column_def)
  show "length (texture_items s) \<le> sb_history_capacity s" using t by (simp add: texture_items_def)
qed (simp add: put_column_def)

text \<open>Painting a column overwrites all of it: the lowest bin is the lowest row.\<close>

lemma paint_loop:
  "length cc = n \<Longrightarrow> m \<le> n \<Longrightarrow>
     length (fold (\<lambda>bin cc. cc[n - 1 - bin := g bin]) [0..<m] cc) = n
     \<and> (\<forall>row < n. n - m \<le> row \<longrightarrow> fold (\<lambda>bin cc. cc[n - 1 - bin := g bin]) [0..<m] cc ! row = g (n - 1 - row))"
proof (induction m)
  case (Suc m)
  let ?f = "fold (\<lambda>bin cc. cc[n - 1 - bin := g bin]) [0..<m] cc"
  have IH: "length ?f = n" "\<forall>row < n. n - m \<le> row \<longrightarrow> ?f ! row = g (n - 1 - row)" using Suc by auto
  have "?f[n - 1 - m := g m] ! row = g (n - 1 - row)" if "row < n" "n - Suc m \<le> row" for row
  proof (cases "row = n - 1 - m")
    case True
    then show ?thesis using IH(1) Suc.prems(2) that by simp
  next
    case False
    then show ?thesis using IH(2) Suc.prems(2) that by simp
  qed
  then show ?case using IH(1) by simp
qed simp

definition column_of ::
  "(cfloat \<Rightarrow> u32 \<Rightarrow> cfloat) \<Rightarrow> WATCH_MSG_SPECTRAL_CONFIG \<Rightarrow> u32 \<Rightarrow> cfloat list \<Rightarrow> rgba list" where
  "column_of display c th xs =
     (let (minimum, maximum) = resolve_spectral_static_range c in
      rev (map (\<lambda>x. spectral_grayscale (display x (spec_scale c)) minimum maximum th) xs))"

lemma paint_column_eq:
  "length cc = length xs \<Longrightarrow> paint_column display c th xs cc = column_of display c th xs"
proof -
  assume len: "length cc = length xs"
  obtain mn mx where r: "resolve_spectral_static_range c = (mn, mx)" by fastforce
  let ?g = "\<lambda>bin. spectral_grayscale (display (xs ! bin) (spec_scale c)) mn mx th"
  note p = paint_loop [OF len order_refl, of ?g]
  show ?thesis
    unfolding paint_column_def column_of_def Let_def r case_prod_conv
    by (rule nth_equalityI) (use p in \<open>simp_all add: rev_nth\<close>)
qed

section \<open>Frames by number\<close>

text \<open>The machine the viewer implements. It knows the frame it collects, the positions it has, and
  the frames it has shown. A chunk of an older frame is ignored, one of a newer frame abandons the
  current one, and a frame is shown when its last position arrives.\<close>

record FRAME_VIEW =
  fv_current :: "int option"
  fv_got :: "nat set"
  fv_shown :: "int list"

definition blank_view :: FRAME_VIEW where
  "blank_view = \<lparr>fv_current = None, fv_got = {}, fv_shown = []\<rparr>"

definition accept_frame :: "nat \<Rightarrow> int \<Rightarrow> nat set \<Rightarrow> FRAME_VIEW \<Rightarrow> FRAME_VIEW" where
  "accept_frame n q I v =
     (if \<exists>c. fv_current v = Some c \<and> (q < c \<or> q = c \<and> fv_got v = {..<n}) then v
      else
        let got = (if fv_current v = Some q then fv_got v \<union> I else I) in
        \<lparr>fv_current = Some q, fv_got = got,
         fv_shown = (if got = {..<n} then fv_shown v @ [q] else fv_shown v)\<rparr>)"

record FRAME =
  fr_id :: u32
  fr_bins :: "cfloat list"

definition of_format :: "WATCH_MSG_SPECTRAL_DATA \<Rightarrow> WATCH_MSG_SPECTRAL_DATA \<Rightarrow> bool" where
  "of_format d0 d \<longleftrightarrow> fft_size d = fft_size d0 \<and> hop_size d = hop_size d0
     \<and> spec_sample_rate d = spec_sample_rate d0 \<and> total_bins d = total_bins d0"

definition chunk_positions_of :: "packet \<Rightarrow> nat set" where
  "chunk_positions_of p = {unat (bin_offset (pk_spectral p))..<
     unat (bin_offset (pk_spectral p)) + unat (bin_count (pk_spectral p))}"

text \<open>The packet carries a piece of the frame that has its sequence number.\<close>

definition frame_chunk :: "WATCH_MSG_SPECTRAL_DATA \<Rightarrow> (int \<Rightarrow> FRAME) \<Rightarrow> packet \<Rightarrow> bool" where
  "frame_chunk d0 F p \<longleftrightarrow>
     (let d = pk_spectral p; f = F (sequence (header p)); off = unat (bin_offset d); k = unat (bin_count d) in
      of_format d0 d \<and> frame_id d = fr_id f \<and> length (fr_bins f) = unat (total_bins d0)
      \<and> 0 < k \<and> off + k \<le> unat (total_bins d0) \<and> take k (bins d) = take k (drop off (fr_bins f)))"

text \<open>What is drawn of a power.\<close>

definition drawn :: "cfloat \<Rightarrow> cfloat" where
  "drawn x = (if isfinite x \<and> Fin 0 \<le> x then x else Fin 0)"

definition buffers_ready :: "WATCH_MSG_CONFIG \<Rightarrow> WATCH_MSG_SPECTRAL_DATA \<Rightarrow> STREAM_SPECTRAL_BUFFER \<Rightarrow> bool" where
  "buffers_ready c d0 s \<longleftrightarrow> same_format s d0 \<and> \<not> sb_unsupported s
     \<and> (\<exists>b. sb_assembly_bins s = Some b \<and> length b = unat (total_bins d0))
     \<and> (\<exists>r. sb_received_bins s = Some r \<and> length r = unat (total_bins d0))
     \<and> (if domain c = WATCH_DOMAIN_SPECTRUM
        then sb_display_bins s \<noteq> None \<and> sb_plot_points s \<noteq> None
        else texture_ok s \<and> (\<exists>cc. sb_color_column s = Some cc \<and> length cc = unat (total_bins d0)))"

definition marks :: "bool list \<Rightarrow> nat set" where
  "marks r = {i. i < length r \<and> r ! i}"

text \<open>The frame being collected.\<close>

definition collecting :: "(int \<Rightarrow> FRAME) \<Rightarrow> FRAME_VIEW \<Rightarrow> STREAM_SPECTRAL_BUFFER \<Rightarrow> bool" where
  "collecting F v s \<longleftrightarrow> (case fv_current v of
     None \<Rightarrow> \<not> sb_has_frame s
   | Some q \<Rightarrow> sb_has_frame s \<and> sb_frame_sequence s = q \<and> sb_frame_id s = fr_id (F q)
       \<and> marks (the (sb_received_bins s)) = fv_got v \<and> sb_received_count s = card (fv_got v)
       \<and> (sb_assembling s \<longleftrightarrow> fv_got v \<noteq> {..<unat (sb_total_bins s)})
       \<and> (\<forall>i \<in> fv_got v. the (sb_assembly_bins s) ! i = drawn (fr_bins (F q) ! i)))"

text \<open>What has been shown: the last complete frame, or the columns of the last ones.\<close>

definition showing ::
  "(cfloat \<Rightarrow> u32 \<Rightarrow> cfloat) \<Rightarrow> WATCH_MSG_CONFIG \<Rightarrow> (int \<Rightarrow> FRAME) \<Rightarrow> int list \<Rightarrow> STREAM_SPECTRAL_BUFFER \<Rightarrow> bool" where
  "showing display c F shown s \<longleftrightarrow>
     (if domain c = WATCH_DOMAIN_SPECTRUM
      then (sb_display_ready s \<longleftrightarrow> shown \<noteq> [])
        \<and> (shown \<noteq> [] \<longrightarrow> sb_display_bins s = Some (map drawn (fr_bins (F (last shown)))))
      else texture_items s = lastn (sb_history_capacity s)
        (map (\<lambda>q. column_of display (set_spectral (settings c)) (theme c) (map drawn (fr_bins (F q)))) shown))"

definition viewing ::
  "(cfloat \<Rightarrow> u32 \<Rightarrow> cfloat) \<Rightarrow> WATCH_MSG_CONFIG \<Rightarrow> WATCH_MSG_SPECTRAL_DATA \<Rightarrow> (int \<Rightarrow> FRAME)
     \<Rightarrow> FRAME_VIEW \<Rightarrow> STREAM_SPECTRAL_BUFFER \<Rightarrow> bool" where
  "viewing display c d0 F v s \<longleftrightarrow> buffers_ready c d0 s \<and> collecting F v s \<and> showing display c F (fv_shown v) s"

section \<open>Storing bins\<close>

lemma drawn_finite [simp]: "isfinite (drawn x)"
  by (simp add: drawn_def)

lemma marks_update: "i < length r \<Longrightarrow> marks (r[i := True]) = insert i (marks r)"
  by (auto simp: marks_def nth_list_update)

lemma marks_finite [simp]: "finite (marks r)"
  by (simp add: marks_def)

lemma store_bin_eq:
  "sb_assembly_bins s = Some b \<Longrightarrow> sb_received_bins s = Some r \<Longrightarrow> i < length r \<Longrightarrow>
     store_bin i x s = s\<lparr>sb_assembly_bins := Some (b[i := drawn x]), sb_received_bins := Some (r[i := True]),
       sb_received_count := sb_received_count s + (if r ! i then 0 else 1)\<rparr>"
proof -
  assume a: "sb_assembly_bins s = Some b" "sb_received_bins s = Some r" "i < length r"
  show ?thesis
  proof (cases "r ! i")
    case True
    then have "r[i := True] = r" by (metis list_update_id)
    then show ?thesis using a True by (simp add: store_bin_def drawn_def Let_def)
  next
    case False
    then show ?thesis using a by (simp add: store_bin_def drawn_def Let_def)
  qed
qed

lemma store_bins_spec:
  "sb_assembly_bins s = Some b \<Longrightarrow> sb_received_bins s = Some r \<Longrightarrow> length b = length r \<Longrightarrow>
   off + length xs \<le> length r \<Longrightarrow> sb_received_count s = card (marks r) \<Longrightarrow>
     \<exists>r'. store_bins off xs s = s\<lparr>sb_assembly_bins := Some (store_at off (map drawn xs) b),
         sb_received_bins := Some r', sb_received_count := card (marks r')\<rparr>
       \<and> length r' = length r \<and> marks r' = marks r \<union> {off..<off + length xs}"
proof (induction off xs s arbitrary: b r rule: store_bins.induct)
  case (1 off s)
  then show ?case by (intro exI [of _ r]) simp
next
  case (2 off x xs s)
  let ?s = "store_bin off x s" and ?r = "r[off := True]"
  have i: "off < length r" using "2.prems"(4) by simp
  have mem: "off \<in> marks r \<longleftrightarrow> r ! off" using i by (simp add: marks_def)
  have eq: "?s = s\<lparr>sb_assembly_bins := Some (b[off := drawn x]), sb_received_bins := Some ?r,
      sb_received_count := card (marks ?r)\<rparr>"
    using store_bin_eq [OF "2.prems"(1,2) i, of x] "2.prems"(5) mem marks_update [OF i]
    by (simp add: card_insert_if)
  have pre: "sb_assembly_bins ?s = Some (b[off := drawn x])" "sb_received_bins ?s = Some ?r"
    "length (b[off := drawn x]) = length ?r" "off + 1 + length xs \<le> length ?r"
    "sb_received_count ?s = card (marks ?r)"
    using "2.prems"(3,4) by (simp_all add: eq)
  obtain r' where
    r': "store_bins (off + 1) xs ?s = ?s\<lparr>sb_assembly_bins := Some (store_at (off + 1) (map drawn xs) (b[off := drawn x])),
         sb_received_bins := Some r', sb_received_count := card (marks r')\<rparr>"
      "length r' = length ?r" "marks r' = marks ?r \<union> {off + 1..<off + 1 + length xs}"
    using "2.IH" [OF pre] by blast
  have "marks r' = marks r \<union> {off..<off + length (x # xs)}"
    unfolding r'(3) marks_update [OF i] by auto
  moreover have "store_bins off (x # xs) s = s\<lparr>sb_assembly_bins := Some (store_at off (map drawn (x # xs)) b),
      sb_received_bins := Some r', sb_received_count := card (marks r')\<rparr>"
    using r'(1) by (simp add: eq)
  ultimately show ?case using r'(2) unfolding length_list_update by blast
qed

section \<open>A packet refines a step of the machine\<close>

lemma ensure_ready:
  "buffers_ready c d0 s \<Longrightarrow> of_format d0 d \<Longrightarrow> ensure_spectral_stream h c s d = (True, s)"
  by (auto simp: buffers_ready_def ensure_spectral_stream_def same_format_def of_format_def texture_ok_def Let_def
      split: if_splits)

lemma frame_chunkD:
  assumes "frame_chunk d0 F p"
  defines "d \<equiv> pk_spectral p" and "n \<equiv> unat (total_bins d0)"
  shows "of_format d0 d" "frame_id d = fr_id (F (sequence (header p)))"
    "length (fr_bins (F (sequence (header p)))) = n" "chunk_positions_of p \<subseteq> {..<n}" "chunk_positions_of p \<noteq> {}"
    "length (take (unat (bin_count d)) (bins d)) = unat (bin_count d)"
    "unat (bin_offset d) + unat (bin_count d) \<le> n"
    "\<And>j. j < unat (bin_count d) \<Longrightarrow>
       take (unat (bin_count d)) (bins d) ! j = fr_bins (F (sequence (header p))) ! (unat (bin_offset d) + j)"
proof -
  let ?f = "F (sequence (header p))" and ?k = "unat (bin_count d)" and ?off = "unat (bin_offset d)"
  have a: "of_format d0 d" "frame_id d = fr_id ?f" "length (fr_bins ?f) = n" "0 < ?k" "?off + ?k \<le> n"
    "take ?k (bins d) = take ?k (drop ?off (fr_bins ?f))"
    using assms(1) unfolding frame_chunk_def Let_def d_def n_def by blast+
  show "of_format d0 d" "frame_id d = fr_id ?f" "length (fr_bins ?f) = n" "?off + ?k \<le> n" by (fact a)+
  show "chunk_positions_of p \<subseteq> {..<n}" "chunk_positions_of p \<noteq> {}"
    using a(4,5) by (auto simp: chunk_positions_of_def d_def)
  show "length (take ?k (bins d)) = ?k" unfolding a(6) using a(3,5) by simp
  show "take ?k (bins d) ! j = fr_bins ?f ! (?off + j)" if "j < ?k" for j
    unfolding a(6) using that a(3,5) by simp
qed

text \<open>The state with a chunk's bins stored.\<close>

lemma add_chunk:
  assumes rd: "buffers_ready c d0 s" and col: "collecting F v s" "fv_current v = Some (sequence (header p))"
    and as: "sb_assembling s" and ch: "frame_chunk d0 F p"
  defines "s3 \<equiv> store_bins (unat (bin_offset (pk_spectral p)))
      (take (unat (bin_count (pk_spectral p))) (bins (pk_spectral p))) s"
    and "G \<equiv> fv_got v \<union> chunk_positions_of p"
  obtains b r where "s3 = s\<lparr>sb_assembly_bins := Some b, sb_received_bins := Some r, sb_received_count := card G\<rparr>"
    "length b = unat (total_bins d0)" "length r = unat (total_bins d0)" "marks r = G"
    "\<And>i. i \<in> G \<Longrightarrow> b ! i = drawn (fr_bins (F (sequence (header p))) ! i)"
proof -
  let ?d = "pk_spectral p"
  let ?off = "unat (bin_offset ?d)" and ?k = "unat (bin_count ?d)" and ?f = "F (sequence (header p))"
  let ?xs = "take ?k (bins ?d)"
  note ch = frame_chunkD [OF ch]
  obtain b r where b: "sb_assembly_bins s = Some b" "length b = unat (total_bins d0)"
    and r: "sb_received_bins s = Some r" "length r = unat (total_bins d0)"
    using rd by (auto simp: buffers_ready_def)
  have g: "marks r = fv_got v" "sb_received_count s = card (marks r)"
    "\<And>i. i \<in> fv_got v \<Longrightarrow> b ! i = drawn (fr_bins ?f ! i)"
    using col b r by (simp_all add: collecting_def)
  have len: "length ?xs = ?k" by (rule ch(6))
  have "length b = length r" "?off + length ?xs \<le> length r" using b(2) r(2) ch(7) len by simp_all
  from store_bins_spec [OF b(1) r(1) this g(2)] obtain r' where
    r': "s3 = s\<lparr>sb_assembly_bins := Some (store_at ?off (map drawn ?xs) b), sb_received_bins := Some r',
        sb_received_count := card (marks r')\<rparr>"
      "length r' = length r" "marks r' = marks r \<union> {?off..<?off + length ?xs}"
    unfolding s3_def by blast
  have pos: "{?off..<?off + length ?xs} = chunk_positions_of p" unfolding len by (simp add: chunk_positions_of_def)
  have G: "marks r' = G" using r'(3) g(1) pos by (simp add: G_def)
  have val: "store_at ?off (map drawn ?xs) b ! i = drawn (fr_bins ?f ! i)" if i: "i \<in> G" for i
  proof -
    have fit: "?off + length (map drawn ?xs) \<le> length b" using b(2) ch(7) len by simp
    have "i < length r'" using i unfolding G [symmetric] by (simp add: marks_def)
    then have il: "i < length b" using r'(2) b(2) r(2) by simp
    note nth = nth_store_at [OF fit il]
    show ?thesis
    proof (cases "?off \<le> i \<and> i < ?off + ?k")
      case True
      then have j: "i - ?off < ?k" by linarith
      then have "map drawn ?xs ! (i - ?off) = drawn (?xs ! (i - ?off))" using len by (intro nth_map) simp
      then show ?thesis using nth True ch(8) [OF j] len by simp
    next
      case False
      then have "i \<notin> chunk_positions_of p" by (simp add: chunk_positions_of_def)
      then have "i \<in> fv_got v" using i by (simp add: G_def)
      then show ?thesis unfolding nth length_map len using False g(3) by (simp only: if_False)
    qed
  qed
  show thesis
  proof (rule that [where b = "store_at ?off (map drawn ?xs) b" and r = r'])
    show "s3 = s\<lparr>sb_assembly_bins := Some (store_at ?off (map drawn ?xs) b), sb_received_bins := Some r',
        sb_received_count := card G\<rparr>" using r'(1) G by simp
    show "length (store_at ?off (map drawn ?xs) b) = unat (total_bins d0)" using b(2) by simp
    show "length r' = unat (total_bins d0)" using r'(2) r(2) by simp
  qed (use G val in auto)
qed

text \<open>A complete frame is shown.\<close>

lemma finish_frame:
  fixes d :: WATCH_MSG_SPECTRAL_DATA
  assumes rd: "buffers_ready c d0 s" and b: "sb_assembly_bins s = Some (map drawn (fr_bins (F q)))"
    and len: "length (fr_bins (F q)) = unat (total_bins d0)"
    and sh: "showing display c F shown s" and up: "texture_updated h"
  defines "s' \<equiv> finish_spectral_frame h display c d s"
  shows "buffers_ready c d0 s'" "showing display c F (shown @ [q]) s'"
    "sb_has_frame s' = sb_has_frame s" "sb_frame_sequence s' = sb_frame_sequence s"
    "sb_frame_id s' = sb_frame_id s" "sb_received_bins s' = sb_received_bins s"
    "sb_received_count s' = sb_received_count s" "\<not> sb_assembling s'"
    "sb_assembly_bins s' = sb_assembly_bins s" "sb_total_bins s' = sb_total_bins s"
proof -
  have *: "buffers_ready c d0 s' \<and> showing display c F (shown @ [q]) s'
    \<and> sb_has_frame s' = sb_has_frame s \<and> sb_frame_sequence s' = sb_frame_sequence s
    \<and> sb_frame_id s' = sb_frame_id s \<and> sb_received_bins s' = sb_received_bins s
    \<and> sb_received_count s' = sb_received_count s \<and> \<not> sb_assembling s'
    \<and> sb_assembly_bins s' = sb_assembly_bins s \<and> sb_total_bins s' = sb_total_bins s"
  proof (cases "domain c = WATCH_DOMAIN_SPECTRUM")
    case True
    then obtain db where "sb_display_bins s = Some db" using rd by (auto simp: buffers_ready_def)
    then show ?thesis
      using rd b True unfolding s'_def
      by (simp add: finish_spectral_frame_def buffers_ready_def same_format_def showing_def Let_def)
  next
    case False
    obtain cc where cc: "sb_color_column s = Some cc" "length cc = unat (total_bins d0)" and tx: "texture_ok s"
      and n: "sb_total_bins s = total_bins d0"
      using rd False by (auto simp: buffers_ready_def same_format_def)
    let ?col = "column_of display (set_spectral (settings c)) (theme c) (map drawn (fr_bins (F q)))"
    let ?s5 = "s\<lparr>sb_assembling := False, sb_color_column := Some ?col\<rparr>"
    have s': "s' = put_column ?col ?s5"
      using False up b cc len n unfolding s'_def
      by (simp add: finish_spectral_frame_def append_spectrogram_frame_def paint_column_eq Let_def)
    have tx5: "texture_ok ?s5" using tx by (simp add: texture_ok_def)
    have "texture_items ?s5 = texture_items s" by (simp add: texture_items_def)
    then have "texture_items s' = lastn (sb_history_capacity s) (texture_items s @ [?col])"
      using texture.put_items [OF tx5, of ?col] unfolding s' by simp
    moreover have "texture_ok s'" unfolding s' by (rule texture.put_ok [OF tx5])
    moreover have "sb_history_capacity s' = sb_history_capacity s" unfolding s' by (simp add: put_column_def)
    moreover have "length ?col = unat (total_bins d0)"
      using len by (simp add: column_of_def split: prod.split)
    ultimately show ?thesis
      using rd sh False lastn_append [of "sb_history_capacity s"] unfolding s'
      by (simp add: buffers_ready_def same_format_def showing_def put_column_def)
  qed
  then show "buffers_ready c d0 s'" "showing display c F (shown @ [q]) s'"
    "sb_has_frame s' = sb_has_frame s" "sb_frame_sequence s' = sb_frame_sequence s"
    "sb_frame_id s' = sb_frame_id s" "sb_received_bins s' = sb_received_bins s"
    "sb_received_count s' = sb_received_count s" "\<not> sb_assembling s'"
    "sb_assembly_bins s' = sb_assembly_bins s" "sb_total_bins s' = sb_total_bins s" by blast+
qed

text \<open>A new frame, or more of the current one.\<close>

lemma begin_frame:
  assumes "buffers_ready c d0 s" "showing display c F shown s" "frame_chunk d0 F p"
  defines "s' \<equiv> begin_spectral_frame p s"
  shows "buffers_ready c d0 s'" "showing display c F shown s'" "sb_assembling s'"
    "collecting F \<lparr>fv_current = Some (sequence (header p)), fv_got = {}, fv_shown = shown\<rparr> s'"
proof -
  note ch = frame_chunkD [OF assms(3)]
  obtain r where r: "sb_received_bins s = Some r" and n: "sb_total_bins s = total_bins d0"
    using assms(1) by (auto simp: buffers_ready_def same_format_def)
  have m: "marks (replicate k False) = {}" for k by (simp add: marks_def)
  have "{..<unat (total_bins d0)} \<noteq> {}" using ch(4,5) by blast
  then show "collecting F \<lparr>fv_current = Some (sequence (header p)), fv_got = {}, fv_shown = shown\<rparr> s'"
    using r n ch(2) by (auto simp: s'_def begin_spectral_frame_def collecting_def m)
  show "buffers_ready c d0 s'" using assms(1) r n
    by (auto simp: s'_def begin_spectral_frame_def buffers_ready_def same_format_def texture_ok_def)
  show "showing display c F shown s'"
  proof -
    have "texture_items s' = texture_items s" by (simp add: s'_def begin_spectral_frame_def texture_items_def)
    then show ?thesis using assms(2) by (simp add: s'_def begin_spectral_frame_def showing_def)
  qed
  show "sb_assembling s'" by (simp add: s'_def begin_spectral_frame_def)
qed

lemma collect_chunk:
  assumes rd: "buffers_ready c d0 s" and sh: "showing display c F (fv_shown v) s"
    and col: "collecting F v s" "fv_current v = Some (sequence (header p))" "fv_got v \<noteq> {..<unat (total_bins d0)}"
      "fv_got v \<subseteq> {..<unat (total_bins d0)}"
    and ch: "frame_chunk d0 F p" and up: "texture_updated h"
  defines "G \<equiv> fv_got v \<union> chunk_positions_of p" and "n \<equiv> unat (total_bins d0)"
  shows "viewing display c d0 F \<lparr>fv_current = Some (sequence (header p)), fv_got = G,
      fv_shown = (if G = {..<n} then fv_shown v @ [sequence (header p)] else fv_shown v)\<rparr>
    (collect_bins h display c (pk_spectral p) s)"
proof -
  let ?q = "sequence (header p)"
  define s3 where "s3 = store_bins (unat (bin_offset (pk_spectral p)))
      (take (unat (bin_count (pk_spectral p))) (bins (pk_spectral p))) s"
  note run = collect_bins_def [of h display c "pk_spectral p" s, folded s3_def, unfolded Let_def]
  note chd = frame_chunkD [OF ch]
  have tot: "sb_total_bins s = total_bins d0" using rd by (simp add: buffers_ready_def same_format_def)
  have as: "sb_assembling s" using col(1-3) tot by (simp add: collecting_def)
  obtain b r where s3: "s3 = s\<lparr>sb_assembly_bins := Some b, sb_received_bins := Some r, sb_received_count := card G\<rparr>"
    and len: "length b = n" "length r = n" and G: "marks r = G"
    and val: "\<And>i. i \<in> G \<Longrightarrow> b ! i = drawn (fr_bins (F ?q) ! i)"
    by (rule add_chunk [OF rd col(1,2) as ch, folded s3_def G_def n_def]) (rule that, assumption+)
  have "texture_ok s3 = texture_ok s" by (simp add: s3 texture_ok_def)
  then have rd3: "buffers_ready c d0 s3" using rd len
    by (simp add: s3 buffers_ready_def same_format_def n_def)
  have "texture_items s3 = texture_items s" by (simp add: s3 texture_items_def)
  then have sh3: "showing display c F (fv_shown v) s3" using sh by (simp add: s3 showing_def)
  have sub: "G \<subseteq> {..<n}" using col(4) chd(4) by (simp add: G_def n_def)
  then have full: "card G = n \<longleftrightarrow> G = {..<n}" by (metis card_lessThan card_subset_eq finite_lessThan)
  have cond: "sb_received_count s3 \<noteq> unat (sb_total_bins s3) \<longleftrightarrow> G \<noteq> {..<n}"
    using full by (simp add: s3 tot n_def)
  have id: "sb_has_frame s" "sb_frame_sequence s = ?q" "sb_frame_id s = fr_id (F ?q)"
    using col(1,2) by (simp_all add: collecting_def)
  show ?thesis
  proof (cases "G = {..<n}")
    case False
    then have "collecting F \<lparr>fv_current = Some ?q, fv_got = G, fv_shown = fv_shown v\<rparr> s3"
      using id G val as by (simp add: collecting_def s3 tot n_def)
    then show ?thesis using False cond rd3 sh3 unfolding run by (simp add: viewing_def)
  next
    case True
    have lenF: "length (fr_bins (F ?q)) = n" using chd(3) by (simp add: n_def)
    have "b = map drawn (fr_bins (F ?q))"
      by (rule nth_equalityI) (use len lenF val True in simp_all)
    then have b: "sb_assembly_bins s3 = Some (map drawn (fr_bins (F ?q)))" by (simp add: s3)
    note fin = finish_frame [OF rd3 b lenF [unfolded n_def] sh3 up, of "pk_spectral p"]
    have "collecting F \<lparr>fv_current = Some ?q, fv_got = G, fv_shown = fv_shown v @ [?q]\<rparr>
        (finish_spectral_frame h display c (pk_spectral p) s3)"
      using id G val fin(3-10) True by (simp add: collecting_def s3 tot n_def)
    then show ?thesis using True cond fin(1,2) unfolding run by (simp add: viewing_def)
  qed
qed

lemma viewing_step:
  assumes vw: "viewing display c d0 F v s" and ch: "frame_chunk d0 F p" and up: "texture_updated h"
    and got: "fv_got v \<subseteq> {..<unat (total_bins d0)}"
  shows "viewing display c d0 F
     (accept_frame (unat (total_bins d0)) (sequence (header p)) (chunk_positions_of p) v)
     (accept_spectral_chunk h display c p s)"
proof -
  let ?q = "sequence (header p)" and ?n = "unat (total_bins d0)" and ?d = "pk_spectral p"
  have rd: "buffers_ready c d0 s" and col: "collecting F v s" and sh: "showing display c F (fv_shown v) s"
    using vw by (simp_all add: viewing_def)
  note chd = frame_chunkD [OF ch]
  have fmt: "same_format s ?d" and tot: "sb_total_bins s = total_bins d0"
    using rd chd(1) by (auto simp: buffers_ready_def same_format_def of_format_def)
  have ens: "ensure_spectral_stream h c s ?d = (True, s)" by (rule ensure_ready [OF rd chd(1)])
  let ?v0 = "\<lparr>fv_current = Some ?q, fv_got = {}, fv_shown = fv_shown v\<rparr>"
  note b = begin_frame [OF rd sh ch]
  have "{} \<noteq> {..<?n}" using chd(4,5) by blast
  then have fresh: "viewing display c d0 F \<lparr>fv_current = Some ?q, fv_got = chunk_positions_of p,
      fv_shown = (if chunk_positions_of p = {..<?n} then fv_shown v @ [?q] else fv_shown v)\<rparr>
      (collect_bins h display c ?d (begin_spectral_frame p s))"
    using collect_chunk [of c d0 "begin_spectral_frame p s" display F ?v0 p h] b ch up by (simp split del: if_split cong: if_cong)
  show ?thesis
  proof (cases "fv_current v")
    case None
    then have "\<not> sb_has_frame s" using col by (simp add: collecting_def)
    then have "accept_spectral_chunk h display c p s = collect_bins h display c ?d (begin_spectral_frame p s)"
      using ens by (simp add: accept_spectral_chunk_def Let_def)
    then show ?thesis
      using fresh None by (simp add: accept_frame_def Let_def)
  next
    case (Some q)
    then have id: "sb_has_frame s" "sb_frame_sequence s = q" "sb_frame_id s = fr_id (F q)"
      "sb_assembling s \<longleftrightarrow> fv_got v \<noteq> {..<?n}"
      using col tot by (simp_all add: collecting_def)
    consider "?q < q" | "?q = q" "fv_got v = {..<?n}" | "?q = q" "fv_got v \<noteq> {..<?n}" | "q < ?q" by linarith
    then show ?thesis
    proof cases
      case 1
      then show ?thesis using vw id Some by (simp add: accept_spectral_chunk_def accept_frame_def Let_def)
    next
      case 2
      then show ?thesis using vw id Some ens fmt chd(2)
        by (simp add: accept_spectral_chunk_def accept_frame_def Let_def)
    next
      case 3
      then have "accept_spectral_chunk h display c p s = collect_bins h display c ?d s"
        using id ens fmt chd(2) by (simp add: accept_spectral_chunk_def Let_def)
      then show ?thesis
        using collect_chunk [OF rd sh col _ 3(2) got ch up] Some 3
        by (simp add: accept_frame_def Let_def split del: if_split cong: if_cong)
    next
      case 4
      then have "accept_spectral_chunk h display c p s = collect_bins h display c ?d (begin_spectral_frame p s)"
        using id ens by (simp add: accept_spectral_chunk_def Let_def)
      then show ?thesis
        using fresh Some 4 by (simp add: accept_frame_def Let_def)
    qed
  qed
qed

section \<open>A stream from its first packet on\<close>

lemma create_texture_length:
  "create_spectrogram_texture h w ht th = Some t \<Longrightarrow> length t = unat w \<and> 0 < unat w"
  by (auto simp: create_spectrogram_texture_def Let_def unat_gt_0 split: if_splits)

lemma ensure_zero_format:
  "of_format d0 d \<Longrightarrow> ensure_spectral_stream h c zero_spectral d = ensure_spectral_stream h c zero_spectral d0"
  by (auto simp: ensure_spectral_stream_def of_format_def same_format_def zero_spectral_def
      clear_spectral_stream_def reject_spectral_stream_def requested_history_def Let_def split: option.split)

lemma ensure_zero:
  assumes "fst (ensure_spectral_stream h c zero_spectral d0)"
  shows "viewing display c d0 F blank_view (snd (ensure_spectral_stream h c zero_spectral d0))"
    (is "viewing _ _ _ _ _ ?s1")
proof -
  have no: "\<not> sb_unsupported zero_spectral" "sb_assembly_bins zero_spectral = None"
    by (simp_all add: zero_spectral_def)
  have "buffers_ready c d0 ?s1 \<and> \<not> sb_has_frame ?s1 \<and> showing display c F [] ?s1"
  proof (cases "domain c = WATCH_DOMAIN_SPECTRUM")
    case True
    then show ?thesis using assms no
      by (auto simp: ensure_spectral_stream_def buffers_ready_def same_format_def showing_def
          clear_spectral_stream_def Let_def zero_spectral_def split: if_splits)
  next
    case False
    from assms False obtain w tx where w: "to_u32 (requested_history (set_spectral (settings c)) d0) = Some w"
      and tx: "create_spectrogram_texture h w (total_bins d0) (theme c) = Some tx"
      using no by (auto simp: ensure_spectral_stream_def Let_def split: if_splits option.splits)
    note cl = create_texture_length [OF tx]
    have s1: "?s1 = zero_spectral\<lparr>sb_assembly_bins := Some (replicate (unat (total_bins d0)) (Fin 0)),
        sb_received_bins := Some (replicate (unat (total_bins d0)) False), sb_fft_size := fft_size d0,
        sb_hop_size := hop_size d0, sb_sample_rate := spec_sample_rate d0, sb_total_bins := total_bins d0,
        sb_history_capacity := unat w,
        sb_color_column := Some (replicate (unat (total_bins d0)) (0, 0, 0, 0)),
        sb_history_texture := Some tx\<rparr>"
      using assms False no w tx
      by (auto simp: ensure_spectral_stream_def clear_spectral_stream_def Let_def split: if_splits)
    show ?thesis using False cl unfolding s1
      by (simp add: buffers_ready_def same_format_def showing_def zero_spectral_def texture_ok_def
          texture_items_def ring_window_def)
  qed
  then show ?thesis by (simp add: viewing_def collecting_def blank_view_def)
qed

lemma accept_zero:
  assumes "fst (ensure_spectral_stream h c zero_spectral d0)" "frame_chunk d0 F p"
  shows "accept_spectral_chunk h display c p zero_spectral
    = accept_spectral_chunk h display c p (snd (ensure_spectral_stream h c zero_spectral d0))"
proof -
  let ?s1 = "snd (ensure_spectral_stream h c zero_spectral d0)"
  note fmt = frame_chunkD(1) [OF assms(2)]
  have e: "ensure_spectral_stream h c zero_spectral (pk_spectral p) = (True, ?s1)"
    using ensure_zero_format [OF fmt, of h c] assms(1) by (simp add: prod_eq_iff)
  have vw: "viewing display c d0 F blank_view ?s1" by (rule ensure_zero [OF assms(1)])
  then have "ensure_spectral_stream h c ?s1 (pk_spectral p) = (True, ?s1)" "\<not> sb_has_frame ?s1"
    using ensure_ready [OF _ fmt] by (simp_all add: viewing_def collecting_def blank_view_def)
  then show ?thesis using e by (simp add: accept_spectral_chunk_def zero_spectral_def Let_def)
qed

text \<open>The run of the machine on the numbers and positions of the packets.\<close>

definition frames_seen :: "nat \<Rightarrow> packet list \<Rightarrow> FRAME_VIEW \<Rightarrow> FRAME_VIEW" where
  "frames_seen n ps v = fold (\<lambda>p. accept_frame n (sequence (header p)) (chunk_positions_of p)) ps v"

lemma accept_frame_sub:
  "fv_got v \<subseteq> {..<n} \<Longrightarrow> I \<subseteq> {..<n} \<Longrightarrow> fv_got (accept_frame n q I v) \<subseteq> {..<n}"
  by (auto simp: accept_frame_def Let_def)

text \<open>Frames are shown in the order of their numbers, each at most once.\<close>

definition view_ok :: "nat \<Rightarrow> FRAME_VIEW \<Rightarrow> bool" where
  "view_ok n v \<longleftrightarrow> sorted_wrt (<) (fv_shown v) \<and> fv_got v \<subseteq> {..<n}
     \<and> (\<forall>q \<in> set (fv_shown v). \<exists>c. fv_current v = Some c \<and> (q < c \<or> q = c \<and> fv_got v = {..<n}))"

lemma accept_frame_ok:
  assumes "view_ok n v" "I \<subseteq> {..<n}"
  shows "view_ok n (accept_frame n q I v)"
proof (cases "\<exists>c. fv_current v = Some c \<and> (q < c \<or> q = c \<and> fv_got v = {..<n})")
  case True
  then show ?thesis using assms(1) by (simp add: accept_frame_def)
next
  case False
  let ?got = "if fv_current v = Some q then fv_got v \<union> I else I"
  have lt: "r < q" if "r \<in> set (fv_shown v)" for r
    using assms(1) that False unfolding view_ok_def by force
  have "?got \<subseteq> {..<n}" using assms by (auto simp: view_ok_def)
  moreover have "sorted_wrt (<) (fv_shown v @ [q])" using assms(1) lt by (simp add: view_ok_def sorted_wrt_append)
  ultimately show ?thesis
    using assms(1) lt False unfolding accept_frame_def view_ok_def Let_def by auto
qed

lemma frames_seen_refines:
  assumes "viewing display c d0 F v s" "view_ok (unat (total_bins d0)) v" "texture_updated h"
    and "\<forall>p \<in> set ps. frame_chunk d0 F p"
  shows "viewing display c d0 F (frames_seen (unat (total_bins d0)) ps v)
      (fold (accept_spectral_chunk h display c) ps s)
    \<and> view_ok (unat (total_bins d0)) (frames_seen (unat (total_bins d0)) ps v)"
  using assms
proof (induction ps arbitrary: v s)
  case Nil
  then show ?case by (simp add: frames_seen_def)
next
  case (Cons p ps)
  have ch: "frame_chunk d0 F p" using Cons.prems(4) by simp
  have got: "fv_got v \<subseteq> {..<unat (total_bins d0)}" using Cons.prems(2) by (simp add: view_ok_def)
  show ?case
    using Cons.IH [OF viewing_step [OF Cons.prems(1) ch Cons.prems(3) got]
        accept_frame_ok [OF Cons.prems(2) frame_chunkD(4) [OF ch]] Cons.prems(3)] Cons.prems(4)
    by (simp add: frames_seen_def)
qed

text \<open>C8: A spectrum or spectrogram stream implements the machine that knows frames by their numbers
  only. Whatever the order and the repetition of the chunks of its frames, old and new ones mixed,
  a frame reaches the display when all its bins have arrived and no newer frame has begun; the
  spectrum shows the last such frame, the spectrogram's texture the columns of the last ones,
  oldest first; and frames are shown in the order of their numbers, none twice.\<close>

theorem spectral_stream_refines:
  assumes "fst (ensure_spectral_stream h c zero_spectral d0)" "texture_updated h" "ps \<noteq> []"
    and "\<forall>p \<in> set ps. frame_chunk d0 F p"
  defines "v \<equiv> frames_seen (unat (total_bins d0)) ps blank_view"
  shows "viewing display c d0 F v (fold (accept_spectral_chunk h display c) ps zero_spectral)
    \<and> sorted_wrt (<) (fv_shown v)"
proof -
  obtain p ps' where ps: "ps = p # ps'" using assms(3) by (cases ps) auto
  have ch: "frame_chunk d0 F p" using assms(4) ps by simp
  let ?s1 = "snd (ensure_spectral_stream h c zero_spectral d0)"
  have "fold (accept_spectral_chunk h display c) ps zero_spectral
      = fold (accept_spectral_chunk h display c) ps ?s1"
    using accept_zero [OF assms(1) ch, of display] by (simp add: ps)
  moreover have "view_ok (unat (total_bins d0)) blank_view" by (simp add: view_ok_def blank_view_def)
  ultimately show ?thesis
    using frames_seen_refines [OF ensure_zero [OF assms(1)] _ assms(2,4)] by (simp add: v_def view_ok_def)
qed

text \<open>A frame whose chunks cover it is shown, unless a newer one has begun.\<close>

lemma accept_frame_collects:
  assumes "q \<notin> set (fv_shown v)" "fv_current v = Some q" "fv_got v \<subset> {..<n}" "\<Union> (set Is) \<subseteq> {..<n}"
  shows "fv_shown (fold (accept_frame n q) Is v)
    = (if {..<n} \<subseteq> fv_got v \<union> \<Union> (set Is) then fv_shown v @ [q] else fv_shown v)"
  using assms
proof (induction Is arbitrary: v)
  case Nil
  then show ?case by auto
next
  case (Cons I Is)
  let ?v = "\<lparr>fv_current = Some q, fv_got = fv_got v \<union> I,
      fv_shown = (if fv_got v \<union> I = {..<n} then fv_shown v @ [q] else fv_shown v)\<rparr>"
  have step: "accept_frame n q I v = ?v" using Cons.prems by (auto simp: accept_frame_def Let_def)
  show ?case
  proof (cases "fv_got v \<union> I = {..<n}")
    case True
    then have "accept_frame n q J ?v = ?v" for J by (simp add: accept_frame_def)
    then have "fold (accept_frame n q) Is ?v = ?v" by (induction Is) simp_all
    then show ?thesis using step True by auto
  next
    case False
    then have "fv_got ?v \<subset> {..<n}" using Cons.prems(3,4) by auto
    then show ?thesis using Cons.IH [of ?v] Cons.prems(1,4) step False by (auto simp: Un_assoc)
  qed
qed

lemma accept_frame_begins:
  "case_option True (\<lambda>k. k < q) (fv_current v) \<Longrightarrow> 0 < n \<Longrightarrow>
     accept_frame n q I v = accept_frame n q I \<lparr>fv_current = Some q, fv_got = {}, fv_shown = fv_shown v\<rparr>"
  by (auto simp: accept_frame_def Let_def lessThan_empty_iff split: option.splits)

text \<open>C26: A frame newer than all before reaches the display as soon as its chunks, in any order and
  however cut, have brought all its bins.\<close>

theorem spectral_frame_arrives:
  assumes "viewing display c d0 F v s" "view_ok (unat (total_bins d0)) v" "texture_updated h"
    and "\<forall>p \<in> set ps. frame_chunk d0 F p \<and> sequence (header p) = q"
    and "case_option True (\<lambda>k. k < q) (fv_current v)" "ps \<noteq> []"
    and "{..<unat (total_bins d0)} \<subseteq> \<Union> (chunk_positions_of ` set ps)"
  shows "showing display c F (fv_shown v @ [q]) (fold (accept_spectral_chunk h display c) ps s)"
proof -
  let ?n = "unat (total_bins d0)" and ?v0 = "\<lparr>fv_current = Some q, fv_got = {}, fv_shown = fv_shown v\<rparr>"
  obtain p ps' where ps: "ps = p # ps'" using assms(6) by (cases ps) auto
  have ch: "chunk_positions_of p \<subseteq> {..<?n}" if "p \<in> set ps" for p
    using frame_chunkD(4) assms(4) that by blast
  have n: "0 < ?n" using frame_chunkD(4,5) [of d0 F p] assms(4) ps by auto
  have fold_q: "frames_seen ?n qs u = fold (accept_frame ?n q) (map chunk_positions_of qs) u"
    if "\<forall>p \<in> set qs. sequence (header p) = q" for qs u
    using that unfolding frames_seen_def by (induction qs arbitrary: u) simp_all
  have "frames_seen ?n ps v = fold (accept_frame ?n q) (map chunk_positions_of ps) ?v0"
    using fold_q [of ps v] assms(4) accept_frame_begins [OF assms(5) n] by (simp add: ps)
  moreover have "q \<notin> set (fv_shown ?v0)"
    using assms(2,5) by (auto simp: view_ok_def split: option.splits)
  then have "fv_shown (fold (accept_frame ?n q) (map chunk_positions_of ps) ?v0) = fv_shown v @ [q]"
    using accept_frame_collects [of q ?v0 ?n "map chunk_positions_of ps"] ch n assms(7) by auto
  moreover have "viewing display c d0 F (frames_seen ?n ps v) (fold (accept_spectral_chunk h display c) ps s)"
    using frames_seen_refines [OF assms(1-3)] assms(4) by blast
  ultimately show ?thesis by (simp add: viewing_def)
qed

section \<open>A concrete stream\<close>

definition sample_format :: WATCH_MSG_SPECTRAL_DATA where
  "sample_format = \<lparr>spec_graph_id = 1, spec_stream_id = 0, frame_id = 0, fft_size = 2, hop_size = 1,
     spec_sample_rate = 8000, spec_format = 0, bin_offset = 0, bin_count = 2, total_bins = 2,
     bins = [Fin 1, NaN]\<rparr>"

definition sample_chunk :: packet where
  "sample_chunk = zero_packet\<lparr>pk_spectral := sample_format\<rparr>"

definition sample_host :: SPECTRAL_HOST where
  "sample_host = \<lparr>assembly_mem = True, display_mem = True, column_mem = True, texture_made = True,
     max_texture_size = 0, texture_updated = True\<rparr>"

definition sample_frames :: "int \<Rightarrow> FRAME" where
  "sample_frames q = \<lparr>fr_id = 0, fr_bins = [Fin 1, NaN]\<rparr>"

lemma sample_chunk_ok:
  "frame_chunk sample_format sample_frames sample_chunk" "sequence (header sample_chunk) = 0"
  "chunk_positions_of sample_chunk = {..<2}"
  by (auto simp: frame_chunk_def of_format_def sample_chunk_def sample_format_def sample_frames_def
      zero_packet_def zero_header_def chunk_positions_of_def)

lemma sample_ensured:
  "fst (ensure_spectral_stream sample_host (zero_config\<lparr>domain := WATCH_DOMAIN_SPECTRUM\<rparr>) zero_spectral sample_format)"
  by (simp add: ensure_spectral_stream_def sample_host_def zero_config_def zero_spectral_def
      clear_spectral_stream_def same_format_def Let_def)

theorem spectral_stream_refines_witness:
  "viewing (\<lambda>x _. x) (zero_config\<lparr>domain := WATCH_DOMAIN_SPECTRUM\<rparr>) sample_format sample_frames
     (frames_seen (unat (total_bins sample_format)) [sample_chunk] blank_view)
     (fold (accept_spectral_chunk sample_host (\<lambda>x _. x) (zero_config\<lparr>domain := WATCH_DOMAIN_SPECTRUM\<rparr>))
       [sample_chunk] zero_spectral)"
  using spectral_stream_refines [OF sample_ensured, of "[sample_chunk]" sample_frames "\<lambda>x _. x"]
    sample_chunk_ok(1) by (simp add: sample_host_def)

theorem spectral_frame_arrives_witness:
  "sb_display_bins (fold (accept_spectral_chunk sample_host (\<lambda>x _. x)
        (zero_config\<lparr>domain := WATCH_DOMAIN_SPECTRUM\<rparr>)) [sample_chunk]
      (snd (ensure_spectral_stream sample_host (zero_config\<lparr>domain := WATCH_DOMAIN_SPECTRUM\<rparr>) zero_spectral
        sample_format)))
    = Some [Fin 1, Fin 0]"
proof -
  have n: "unat (total_bins sample_format) = 2" by (simp add: sample_format_def)
  have "showing (\<lambda>x _. x) (zero_config\<lparr>domain := WATCH_DOMAIN_SPECTRUM\<rparr>) sample_frames (fv_shown blank_view @ [0])
    (fold (accept_spectral_chunk sample_host (\<lambda>x _. x)
        (zero_config\<lparr>domain := WATCH_DOMAIN_SPECTRUM\<rparr>)) [sample_chunk]
      (snd (ensure_spectral_stream sample_host (zero_config\<lparr>domain := WATCH_DOMAIN_SPECTRUM\<rparr>) zero_spectral
        sample_format)))"
    by (rule spectral_frame_arrives [OF ensure_zero [OF sample_ensured]])
      (use sample_chunk_ok n in \<open>auto simp: blank_view_def view_ok_def sample_host_def\<close>)
  then show ?thesis by (simp add: showing_def zero_config_def sample_frames_def drawn_def blank_view_def)
qed

end
