(* ===== verification/PointMeter.thy ===== *)
theory PointMeter
  imports ScopeBuffer Ranges
begin

text \<open>
  The viewer's buffers without a time axis (\<^verbatim>\<open>STREAM_POINT_BUFFER\<close> and
  \<^verbatim>\<open>STREAM_METER_BUFFER\<close> in \<^verbatim>\<open>src/src/watch_viewer.c\<close>): the trail behind a moving point, a
  ring of its last positions, and the levels of a meter with their held peaks.
\<close>

section \<open>The trail of a point\<close>

text \<open>\<^verbatim>\<open>0.1f\<close>.\<close>

abbreviation POINT_TRAIL_SECONDS :: cfloat where "POINT_TRAIL_SECONDS \<equiv> Fin (13421773 / 134217728)"
abbreviation POINT_TRAIL_MAX_SAMPLES :: "'a::numeral" where "POINT_TRAIL_MAX_SAMPLES \<equiv> 16384"

text \<open>\<open>pb_coordinates\<close> has two entries for each point.\<close>

record STREAM_POINT_BUFFER =
  pb_coordinates :: "cfloat list option"
  pb_plot_points :: "(cfloat \<times> cfloat) list option"
  pb_capacity :: nat
  pb_write_index :: nat
  pb_valid_points :: nat
  pb_sample_rate :: cfloat
  pb_unsupported :: bool

definition zero_point :: STREAM_POINT_BUFFER where
  "zero_point = \<lparr>pb_coordinates = None, pb_plot_points = None, pb_capacity = 0, pb_write_index = 0,
     pb_valid_points = 0, pb_sample_rate = Fin 0, pb_unsupported = False\<rparr>"

definition clear_point_stream :: "STREAM_POINT_BUFFER \<Rightarrow> STREAM_POINT_BUFFER" where
  "clear_point_stream s = zero_point"

definition point_trail_capacity :: "cfloat \<Rightarrow> nat" where
  "point_trail_capacity rate =
     (let trail = fceil (fmul f64 POINT_TRAIL_SECONDS rate) in
      if \<not> Fin 2 \<le> trail then 2
      else if Fin POINT_TRAIL_MAX_SAMPLES < trail then POINT_TRAIL_MAX_SAMPLES
      else (case to_u32 trail of Some n \<Rightarrow> unat n | None \<Rightarrow> 0))"

definition ensure_point_buffer :: "bool \<Rightarrow> STREAM_POINT_BUFFER \<Rightarrow> cfloat \<Rightarrow> bool \<times> STREAM_POINT_BUFFER" where
  "ensure_point_buffer mem s rate =
     (if pb_unsupported s \<and> feq (pb_sample_rate s) rate then (False, s)
      else
        let capacity = point_trail_capacity rate in
        if pb_coordinates s \<noteq> None \<and> pb_plot_points s \<noteq> None \<and> pb_capacity s = capacity
        then (True, s\<lparr>pb_sample_rate := rate\<rparr>)
        else
          let s0 = clear_point_stream s in
          if \<not> mem then (False, (clear_point_stream s0)\<lparr>pb_sample_rate := rate, pb_unsupported := True\<rparr>)
          else (True, s0\<lparr>pb_coordinates := Some (replicate (capacity * 2) (Fin 0)),
            pb_plot_points := Some (replicate capacity (Fin 0, Fin 0)), pb_capacity := capacity,
            pb_sample_rate := rate\<rparr>))"

definition append_point :: "cfloat \<times> cfloat \<Rightarrow> STREAM_POINT_BUFFER \<Rightarrow> STREAM_POINT_BUFFER" where
  "append_point xy s =
     (let (x, y) = xy; base = pb_write_index s * 2 in
      s\<lparr>pb_coordinates := map_option (\<lambda>c. (c[base := if isfinite x then x else Fin 0])
            [base + 1 := if isfinite y then y else Fin 0]) (pb_coordinates s),
        pb_write_index := (pb_write_index s + 1) mod pb_capacity s,
        pb_valid_points := (if pb_valid_points s < pb_capacity s then pb_valid_points s + 1
          else pb_valid_points s)\<rparr>)"

text \<open>The points of a packet, two samples each.\<close>

definition append_points :: "nat \<Rightarrow> cfloat list \<Rightarrow> STREAM_POINT_BUFFER \<Rightarrow> STREAM_POINT_BUFFER" where
  "append_points count vals s = fold (\<lambda>i. append_point (vals ! (i * 2), vals ! (i * 2 + 1))) [0..<count] s"

text \<open>The part of \<^verbatim>\<open>process_point_packet\<close> behind its lookup.\<close>

definition accept_points :: "bool \<Rightarrow> WATCH_MSG_DATA \<Rightarrow> STREAM_POINT_BUFFER \<Rightarrow> STREAM_POINT_BUFFER" where
  "accept_points mem d s =
     (let (ensured, s1) = ensure_point_buffer mem s (data_sample_rate d) in
      if ensured then append_points (unat (sample_count d)) (samples d) s1 else s1)"

text \<open>The loop of \<^verbatim>\<open>render_point\<close> that reads the ring, oldest point first.\<close>

definition trail_points :: "STREAM_POINT_BUFFER \<Rightarrow> (cfloat \<times> cfloat) list" where
  "trail_points s =
     (let first = (pb_write_index s + pb_capacity s - pb_valid_points s) mod pb_capacity s in
      map (\<lambda>i. let base = ((first + i) mod pb_capacity s) * 2 in
        (the (pb_coordinates s) ! base, the (pb_coordinates s) ! (base + 1))) [0..<pb_valid_points s])"

definition point_ok :: "STREAM_POINT_BUFFER \<Rightarrow> bool" where
  "point_ok s \<longleftrightarrow> (\<exists>c. pb_coordinates s = Some c \<and> length c = 2 * pb_capacity s) \<and> pb_plot_points s \<noteq> None
     \<and> 0 < pb_capacity s \<and> pb_write_index s < pb_capacity s \<and> pb_valid_points s \<le> pb_capacity s
     \<and> \<not> pb_unsupported s"

definition pairs :: "'a list \<Rightarrow> ('a \<times> 'a) list" where
  "pairs c = map (\<lambda>j. (c ! (2 * j), c ! (2 * j + 1))) [0..<length c div 2]"

lemma length_pairs [simp]: "length (pairs c) = length c div 2"
  by (simp add: pairs_def)

lemma pairs_update:
  assumes "length c = 2 * n" "w < n"
  shows "pairs ((c[2 * w := x])[2 * w + 1 := y]) = (pairs c)[w := (x, y)]"
proof (rule nth_equalityI)
  fix j assume "j < length (pairs ((c[2 * w := x])[2 * w + 1 := y]))"
  then have j: "j < n" using assms(1) by simp
  have "2 * w + 1 \<noteq> 2 * j" "2 * w \<noteq> 2 * j + 1" by presburger+
  then show "pairs ((c[2 * w := x])[2 * w + 1 := y]) ! j = (pairs c)[w := (x, y)] ! j"
    using assms j by (cases "j = w") (simp_all add: pairs_def)
qed simp

lemma trail_window:
  "point_ok s \<Longrightarrow> trail_points s = ring_window (pairs (the (pb_coordinates s))) (pb_write_index s) (pb_valid_points s)"
proof -
  assume "point_ok s"
  then obtain c where c: "pb_coordinates s = Some c" "length c = 2 * pb_capacity s" "0 < pb_capacity s"
    by (auto simp: point_ok_def)
  show ?thesis
    unfolding trail_points_def Let_def ring_window_def ring_start_def
    by (rule map_cong) (use c in \<open>simp_all add: pairs_def mult.commute\<close>)
qed

definition plotted_point :: "cfloat \<times> cfloat \<Rightarrow> cfloat \<times> cfloat" where
  "plotted_point xy = (plotted (fst xy), plotted (snd xy))"

interpretation trail: history append_point plotted_point trail_points pb_capacity point_ok
proof
  fix s :: STREAM_POINT_BUFFER and xy :: "cfloat \<times> cfloat"
  assume ok: "point_ok s"
  obtain x y where xy: "xy = (x, y)" by fastforce
  from ok obtain c where c: "pb_coordinates s = Some c" "length c = 2 * pb_capacity s" "0 < pb_capacity s"
    "pb_write_index s < pb_capacity s" "pb_valid_points s \<le> pb_capacity s"
    by (auto simp: point_ok_def)
  show ok': "point_ok (append_point xy s)"
    using ok by (auto simp: point_ok_def append_point_def xy Let_def)
  have a: "the (pb_coordinates (append_point xy s))
      = (c[2 * pb_write_index s := plotted x])[2 * pb_write_index s + 1 := plotted y]"
    using c(1) by (simp add: append_point_def xy Let_def plotted_def mult.commute)
  have b: "pb_write_index (append_point xy s) = (pb_write_index s + 1) mod pb_capacity s"
    "pb_valid_points (append_point xy s)
      = (if pb_valid_points s < pb_capacity s then pb_valid_points s + 1 else pb_valid_points s)"
    by (simp_all add: append_point_def xy Let_def)
  have "trail_points (append_point xy s) = ring_window ((pairs c)[pb_write_index s := (plotted x, plotted y)])
      ((pb_write_index s + 1) mod pb_capacity s)
      (if pb_valid_points s < pb_capacity s then pb_valid_points s + 1 else pb_valid_points s)"
    unfolding trail_window [OF ok'] a b pairs_update [OF c(2,4)] ..
  then show "trail_points (append_point xy s) = lastn (pb_capacity s) (trail_points s @ [plotted_point xy])"
    using ring_window_put [of "pb_write_index s" "pairs c" "pb_valid_points s" "(plotted x, plotted y)"] c
    by (simp add: trail_window [OF ok] plotted_point_def xy cong: if_cong)
  show "length (trail_points s) \<le> pb_capacity s" using c by (simp add: trail_points_def Let_def)
qed (simp add: append_point_def Let_def split: prod.split)

text \<open>The trail is at least a segment, and bounded.\<close>

lemma point_trail_capacity_bounds:
  "2 \<le> point_trail_capacity rate" "point_trail_capacity rate \<le> 16384"
proof -
  have "2 \<le> point_trail_capacity rate \<and> point_trail_capacity rate \<le> 16384"
  proof (cases "fceil (fmul f64 POINT_TRAIL_SECONDS rate)")
    case (Fin q)
    then have int: "\<exists>z. q = of_int z" by (cases "fmul f64 POINT_TRAIL_SECONDS rate") auto
    then obtain z where z: "q = of_int z" ..
    show ?thesis
    proof (cases "2 \<le> z \<and> z \<le> 16384")
      case True
      then have "(of_int z :: u32) = of_nat (nat z)" "nat z < 4294967296" by (simp, linarith)
      then have "unat (of_int z :: u32) = nat z" using unat_u32_of_nat by metis
      then show ?thesis using True
        by (simp add: point_trail_capacity_def Fin z trunc_rat_def nat_le_iff le_nat_iff)
    next
      case False
      then show ?thesis by (auto simp: point_trail_capacity_def Fin z)
    qed
  qed (simp_all add: point_trail_capacity_def less_eq_cfloat_def)
  then show "2 \<le> point_trail_capacity rate" "point_trail_capacity rate \<le> 16384" by simp_all
qed

lemma ensure_point_ok:
  assumes "point_ok s \<or> s = zero_point"
  shows "fst (ensure_point_buffer True s rate) \<and> point_ok (snd (ensure_point_buffer True s rate))
    \<and> pb_capacity (snd (ensure_point_buffer True s rate)) = point_trail_capacity rate
    \<and> trail_points (snd (ensure_point_buffer True s rate))
       = (if pb_capacity s = point_trail_capacity rate then trail_points s else [])"
proof (cases "pb_coordinates s \<noteq> None \<and> pb_plot_points s \<noteq> None \<and> pb_capacity s = point_trail_capacity rate")
  case True
  then show ?thesis using assms
    by (auto simp: ensure_point_buffer_def zero_point_def point_ok_def trail_points_def)
next
  case False
  have "pb_capacity s \<noteq> point_trail_capacity rate"
    using False assms point_trail_capacity_bounds(1) [of rate] by (auto simp: point_ok_def zero_point_def)
  moreover have "\<not> pb_unsupported s" using assms by (auto simp: point_ok_def zero_point_def)
  ultimately show ?thesis using False point_trail_capacity_bounds(1) [of rate]
    by (simp add: ensure_point_buffer_def clear_point_stream_def zero_point_def point_ok_def trail_points_def Let_def)
qed

section \<open>A meter\<close>

text \<open>\<^verbatim>\<open>1.5f\<close> and \<^verbatim>\<open>1.0f\<close>.\<close>

abbreviation METER_PEAK_HOLD_SECONDS :: cfloat where "METER_PEAK_HOLD_SECONDS \<equiv> Fin (3 / 2)"
abbreviation METER_PEAK_RELEASE_SECONDS :: cfloat where "METER_PEAK_RELEASE_SECONDS \<equiv> Fin 1"

record STREAM_METER_BUFFER =
  mb_level :: "cfloat list"
  mb_peak :: "cfloat list"
  mb_peak_time_ns :: "u64 list"
  mb_last_frame_ns :: u64
  mb_has_frame :: bool

definition zero_meter :: STREAM_METER_BUFFER where
  "zero_meter = \<lparr>mb_level = replicate MAX_METER_CHANNELS (Fin 0), mb_peak = replicate MAX_METER_CHANNELS (Fin 0),
     mb_peak_time_ns = replicate MAX_METER_CHANNELS 0, mb_last_frame_ns = 0, mb_has_frame = False\<rparr>"

definition meter_start :: "WATCH_MSG_METER_CONFIG \<Rightarrow> u64 \<Rightarrow> STREAM_METER_BUFFER \<Rightarrow> STREAM_METER_BUFFER" where
  "meter_start c now_ns s =
     (if \<not> mb_has_frame s
      then let (ymin, ymax) = resolve_meter_range c in
        s\<lparr>mb_level := replicate MAX_METER_CHANNELS ymin, mb_peak := replicate MAX_METER_CHANNELS ymin,
          mb_last_frame_ns := now_ns, mb_has_frame := True\<rparr>
      else s)"

definition meter_level :: "u64 \<Rightarrow> cfloat list \<Rightarrow> nat \<Rightarrow> STREAM_METER_BUFFER \<Rightarrow> STREAM_METER_BUFFER" where
  "meter_level now_ns ls i s =
     (let level = ls ! i in
      if \<not> isfinite level then s
      else
        let s1 = s\<lparr>mb_level := (mb_level s)[i := level]\<rparr> in
        if mb_peak s1 ! i \<le> level
        then s1\<lparr>mb_peak := (mb_peak s1)[i := level], mb_peak_time_ns := (mb_peak_time_ns s1)[i := now_ns]\<rparr>
        else s1)"

text \<open>The channels a packet sets: those of the configuration only.\<close>

definition shown_channels :: "WATCH_MSG_METER_CONFIG \<Rightarrow> WATCH_MSG_METER_DATA \<Rightarrow> u32" where
  "shown_channels c d = (if channel_count d > nchnls c then nchnls c else channel_count d)"

text \<open>The part of \<^verbatim>\<open>process_meter_packet\<close> behind its lookup.\<close>

definition accept_levels ::
  "WATCH_MSG_METER_CONFIG \<Rightarrow> WATCH_MSG_METER_DATA \<Rightarrow> u64 \<Rightarrow> STREAM_METER_BUFFER \<Rightarrow> STREAM_METER_BUFFER" where
  "accept_levels c d now_ns s =
     fold (meter_level now_ns (levels d)) [0..<unat (shown_channels c d)] (meter_start c now_ns s)"

text \<open>The part of \<^verbatim>\<open>render_meter\<close> that changes the buffer: a peak that has been held long enough
  falls towards the bottom of the axis, but not below its bar. \<open>expf\<close> is the C library's.\<close>

definition seconds_since :: "u64 \<Rightarrow> u64 \<Rightarrow> cfloat" where
  "seconds_since now_ns earlier = to_float (fdiv f64 (of_u64 (now_ns - earlier)) NANOSECONDS_PER_SECOND)"

definition release_peak ::
  "(cfloat \<Rightarrow> cfloat) \<Rightarrow> cfloat \<Rightarrow> cfloat \<Rightarrow> u64 \<Rightarrow> nat \<Rightarrow> STREAM_METER_BUFFER \<Rightarrow> STREAM_METER_BUFFER" where
  "release_peak expf ymin elapsed now_ns i s =
     (let held = seconds_since now_ns (mb_peak_time_ns s ! i);
          s1 = (if METER_PEAK_HOLD_SECONDS < held
            then s\<lparr>mb_peak := (mb_peak s)[i := fadd f32 ymin (fmul f32 (fsub f32 (mb_peak s ! i) ymin)
                   (expf (fdiv f32 (fneg elapsed) METER_PEAK_RELEASE_SECONDS)))]\<rparr>
            else s) in
      s1\<lparr>mb_peak := (mb_peak s1)[i := fmax (mb_peak s1 ! i) (mb_level s1 ! i)]\<rparr>)"

definition release_peaks ::
  "(cfloat \<Rightarrow> cfloat) \<Rightarrow> WATCH_MSG_METER_CONFIG \<Rightarrow> u64 \<Rightarrow> STREAM_METER_BUFFER \<Rightarrow> STREAM_METER_BUFFER" where
  "release_peaks expf c now_ns s =
     (let (ymin, ytop, divisions) = resolve_meter_axis c in
      if \<not> mb_has_frame s \<or> nchnls c = 0 \<or> \<not> ymin < ytop then s
      else
        let elapsed0 = seconds_since now_ns (mb_last_frame_ns s);
            elapsed = (if \<not> Fin 0 < elapsed0 \<or> Fin 1 < elapsed0 then Fin 0 else elapsed0) in
        fold (release_peak expf ymin elapsed now_ns) [0..<unat (nchnls c)] (s\<lparr>mb_last_frame_ns := now_ns\<rparr>))"

section \<open>Bars and peaks\<close>

text \<open>A meter receives packets and is drawn, in any order.\<close>

datatype meter_event = Levels WATCH_MSG_METER_DATA u64 | Frame u64

definition meter_step ::
  "(cfloat \<Rightarrow> cfloat) \<Rightarrow> WATCH_MSG_METER_CONFIG \<Rightarrow> meter_event \<Rightarrow> STREAM_METER_BUFFER \<Rightarrow> STREAM_METER_BUFFER" where
  "meter_step expf c e s = (case e of
     Levels d now_ns \<Rightarrow> accept_levels c d now_ns s
   | Frame now_ns \<Rightarrow> release_peaks expf c now_ns s)"

text \<open>The specification of a bar: nothing before the first packet, then the last number received
  for the channel, or the bottom of the axis.\<close>

definition bar_step :: "WATCH_MSG_METER_CONFIG \<Rightarrow> nat \<Rightarrow> meter_event \<Rightarrow> cfloat option \<Rightarrow> cfloat option" where
  "bar_step c i e b = (case e of
     Frame _ \<Rightarrow> b
   | Levels d _ \<Rightarrow>
       if i < unat (shown_channels c d) \<and> isfinite (levels d ! i) then Some (levels d ! i)
       else (case b of None \<Rightarrow> Some (fst (resolve_meter_range c)) | Some x \<Rightarrow> Some x))"

definition meter_ok :: "STREAM_METER_BUFFER \<Rightarrow> bool" where
  "meter_ok s \<longleftrightarrow> length (mb_level s) = 32 \<and> length (mb_peak s) = 32 \<and> length (mb_peak_time_ns s) = 32
     \<and> (mb_has_frame s \<longrightarrow> (\<forall>i < 32. isfinite (mb_level s ! i) \<and> mb_level s ! i \<le> mb_peak s ! i))"

definition bar_of :: "nat \<Rightarrow> STREAM_METER_BUFFER \<Rightarrow> cfloat option" where
  "bar_of i s = (if mb_has_frame s then Some (mb_level s ! i) else None)"

lemma not_le_peak: "isfinite l \<Longrightarrow> x \<le> p \<Longrightarrow> \<not> p \<le> l \<Longrightarrow> l \<le> (p :: cfloat)"
  by (cases l; cases p; cases x) (auto simp: less_eq_cfloat_def)

lemma le_fmax: "isfinite l \<Longrightarrow> l \<le> fmax x l"
  by (cases l; cases x) (auto simp: fmax_def less_eq_cfloat_def)

lemma meter_level_ok:
  assumes "meter_ok s" "mb_has_frame s" "i < 32"
  shows "meter_ok (meter_level now ls i s)" "mb_has_frame (meter_level now ls i s)"
    "j < 32 \<Longrightarrow> mb_level (meter_level now ls i s) ! j
       = (if j = i \<and> isfinite (ls ! i) then ls ! i else mb_level s ! j)"
  using assms not_le_peak [of "ls ! i" "mb_level s ! i" "mb_peak s ! i"] finite_le_refl
  by (auto simp: meter_ok_def meter_level_def Let_def nth_list_update)

lemma meter_levels_ok:
  assumes "meter_ok s" "mb_has_frame s" "n \<le> 32"
  shows "meter_ok (fold (meter_level now ls) [0..<n] s) \<and> mb_has_frame (fold (meter_level now ls) [0..<n] s)
    \<and> (\<forall>j < 32. mb_level (fold (meter_level now ls) [0..<n] s) ! j
         = (if j < n \<and> isfinite (ls ! j) then ls ! j else mb_level s ! j))"
  using assms(3)
proof (induction n)
  case (Suc n)
  let ?s = "fold (meter_level now ls) [0..<n] s"
  have IH: "meter_ok ?s" "mb_has_frame ?s"
    "\<forall>j < 32. mb_level ?s ! j = (if j < n \<and> isfinite (ls ! j) then ls ! j else mb_level s ! j)"
    using Suc by simp_all
  then show ?case using meter_level_ok [OF IH(1,2), where i = n and now = now and ls = ls] Suc.prems
    by (auto simp: less_Suc_eq)
qed (use assms in simp)

lemma release_peak_ok:
  assumes "meter_ok s" "mb_has_frame s" "i < 32"
  shows "meter_ok (release_peak expf ymin elapsed now i s)" "mb_has_frame (release_peak expf ymin elapsed now i s)"
    "mb_level (release_peak expf ymin elapsed now i s) = mb_level s"
  using assms le_fmax
  by (auto simp: meter_ok_def release_peak_def Let_def nth_list_update)

lemma release_peak_loop_ok:
  assumes "meter_ok s" "mb_has_frame s" "n \<le> 32"
  shows "meter_ok (fold (release_peak expf ymin elapsed now) [0..<n] s)
    \<and> mb_has_frame (fold (release_peak expf ymin elapsed now) [0..<n] s)
    \<and> mb_level (fold (release_peak expf ymin elapsed now) [0..<n] s) = mb_level s"
  using assms(3)
proof (induction n)
  case (Suc n)
  then show ?case using release_peak_ok [of "fold (release_peak expf ymin elapsed now) [0..<n] s" n] by simp
qed (use assms in simp)

lemma meter_step_ok:
  assumes ok: "meter_ok s" and c: "unat (nchnls c) \<le> 32" "isfinite (fst (resolve_meter_range c))"
  shows "meter_ok (meter_step expf c e s)"
    and "i < 32 \<Longrightarrow> bar_of i (meter_step expf c e s) = bar_step c i e (bar_of i s)"
proof -
  have "meter_ok (meter_step expf c e s)
    \<and> (\<forall>i < 32. bar_of i (meter_step expf c e s) = bar_step c i e (bar_of i s))"
  proof (cases e)
    case (Levels d now)
    let ?s = "meter_start c now s"
    have n: "unat (shown_channels c d) \<le> 32" using c(1) by (auto simp: shown_channels_def word_less_nat_alt)
    have "meter_ok ?s \<and> mb_has_frame ?s
      \<and> (\<forall>i < 32. mb_level ?s ! i = (if mb_has_frame s then mb_level s ! i else fst (resolve_meter_range c)))"
      using ok c(2) finite_le_refl by (auto simp: meter_start_def meter_ok_def split: prod.splits)
    then show ?thesis
      using meter_levels_ok [of ?s "unat (shown_channels c d)" now "levels d"] n
      by (auto simp: meter_step_def Levels accept_levels_def bar_of_def bar_step_def)
  next
    case (Frame now)
    have l: "meter_ok (s\<lparr>mb_last_frame_ns := now\<rparr>)" using ok by (simp add: meter_ok_def)
    show ?thesis
    proof (cases "mb_has_frame s")
      case True
      then show ?thesis
        using ok release_peak_loop_ok [OF l, of "unat (nchnls c)" expf] c(1)
        by (auto simp: meter_step_def Frame release_peaks_def bar_of_def bar_step_def Let_def split: prod.splits)
    next
      case False
      then show ?thesis
        using ok by (auto simp: meter_step_def Frame release_peaks_def bar_of_def bar_step_def split: prod.splits)
    qed
  qed
  then show "meter_ok (meter_step expf c e s)"
    and "i < 32 \<Longrightarrow> bar_of i (meter_step expf c e s) = bar_step c i e (bar_of i s)" by blast+
qed

lemma fmax_above: "isfinite l \<Longrightarrow> l \<le> x \<Longrightarrow> fmax x l = x"
  by (cases l; cases x) (auto simp: fmax_def less_eq_cfloat_def)

lemma held_peak_step:
  assumes "meter_ok s" "mb_has_frame s" "i < 32"
    and "\<not> METER_PEAK_HOLD_SECONDS < seconds_since now (mb_peak_time_ns s ! i)"
  shows "mb_peak (release_peak expf ymin elapsed now j s) ! i = mb_peak s ! i"
    "mb_peak_time_ns (release_peak expf ymin elapsed now j s) = mb_peak_time_ns s"
proof -
  have "fmax (mb_peak s ! i) (mb_level s ! i) = mb_peak s ! i" "length (mb_peak s) = 32"
    using assms by (simp_all add: meter_ok_def fmax_above)
  then show "mb_peak (release_peak expf ymin elapsed now j s) ! i = mb_peak s ! i"
    using assms(3,4) by (cases "i = j") (auto simp: release_peak_def Let_def)
  show "mb_peak_time_ns (release_peak expf ymin elapsed now j s) = mb_peak_time_ns s"
    by (simp add: release_peak_def Let_def)
qed

lemma held_peaks:
  assumes "meter_ok s" "mb_has_frame s" "n \<le> 32" "i < 32"
    and "\<not> METER_PEAK_HOLD_SECONDS < seconds_since now (mb_peak_time_ns s ! i)"
  shows "mb_peak (fold (release_peak expf ymin elapsed now) [0..<n] s) ! i = mb_peak s ! i
    \<and> mb_peak_time_ns (fold (release_peak expf ymin elapsed now) [0..<n] s) = mb_peak_time_ns s"
  using assms(3)
proof (induction n)
  case (Suc n)
  let ?s = "fold (release_peak expf ymin elapsed now) [0..<n] s"
  have ok: "meter_ok ?s" "mb_has_frame ?s"
    using release_peak_loop_ok [OF assms(1,2), of n expf ymin elapsed now] Suc.prems by simp_all
  have IH: "mb_peak ?s ! i = mb_peak s ! i" "mb_peak_time_ns ?s = mb_peak_time_ns s"
    using Suc by simp_all
  have "\<not> METER_PEAK_HOLD_SECONDS < seconds_since now (mb_peak_time_ns ?s ! i)" using IH assms(5) by simp
  from held_peak_step [OF ok assms(4) this] show ?case using IH by simp
qed simp

definition meter_run ::
  "(cfloat \<Rightarrow> cfloat) \<Rightarrow> WATCH_MSG_METER_CONFIG \<Rightarrow> meter_event list \<Rightarrow> STREAM_METER_BUFFER" where
  "meter_run expf c es = fold (meter_step expf c) es zero_meter"

lemma meter_run_ok:
  assumes "unat (nchnls c) \<le> 32" "isfinite (fst (resolve_meter_range c))"
  shows "meter_ok (meter_run expf c es) \<and> (\<forall>i < 32. bar_of i (meter_run expf c es) = fold (bar_step c i) es None)"
proof -
  have "meter_ok (fold (meter_step expf c) es s)
    \<and> (\<forall>i < 32. bar_of i (fold (meter_step expf c) es s) = fold (bar_step c i) es (bar_of i s))"
    if "meter_ok s" for s
    using that
  proof (induction es arbitrary: s)
    case (Cons e es)
    then show ?case using meter_step_ok [OF Cons.prems assms] by simp
  qed simp
  moreover have "meter_ok zero_meter" "bar_of i zero_meter = None" for i
    by (simp_all add: meter_ok_def zero_meter_def bar_of_def)
  ultimately show ?thesis by (simp add: meter_run_def)
qed

text \<open>C28: In every order of packets and drawings a meter's bar is the last number received for its
  channel, the bottom of the axis before one arrives; its peak mark is never below the bar; and
  drawing does not move a peak that has been held for no more than a second and a half. This
  holds whatever the exponential function of the C library returns.\<close>

theorem meter_bars_and_peaks:
  assumes "unat (nchnls c) \<le> 32" "isfinite (fst (resolve_meter_range c))" "i < 32"
    and "mb_has_frame (meter_run expf c es)"
  shows "Some (mb_level (meter_run expf c es) ! i) = fold (bar_step c i) es None
    \<and> mb_level (meter_run expf c es) ! i \<le> mb_peak (meter_run expf c es) ! i
    \<and> (\<forall>now. \<not> METER_PEAK_HOLD_SECONDS < seconds_since now (mb_peak_time_ns (meter_run expf c es) ! i) \<longrightarrow>
         mb_peak (release_peaks expf c now (meter_run expf c es)) ! i = mb_peak (meter_run expf c es) ! i)"
proof -
  let ?s = "meter_run expf c es"
  have ok: "meter_ok ?s" and bar: "bar_of i ?s = fold (bar_step c i) es None"
    using meter_run_ok [OF assms(1,2), of expf es] assms(3) by blast+
  have "mb_peak (release_peaks expf c now ?s) ! i = mb_peak ?s ! i"
    if "\<not> METER_PEAK_HOLD_SECONDS < seconds_since now (mb_peak_time_ns ?s ! i)" for now
  proof -
    have l: "meter_ok (?s\<lparr>mb_last_frame_ns := now\<rparr>)" "mb_has_frame (?s\<lparr>mb_last_frame_ns := now\<rparr>)"
      using ok assms(4) by (simp_all add: meter_ok_def)
    show ?thesis
      using held_peaks [OF l assms(1,3), of now expf] that
      by (auto simp: release_peaks_def Let_def split: prod.splits)
  qed
  then show ?thesis using ok bar assms(3,4) by (auto simp: meter_ok_def bar_of_def)
qed

theorem meter_bars_and_peaks_witness:
  "mb_level (meter_run (\<lambda>_. Fin 1) \<lparr>nchnls = 1, meter_nyticks = 0, meter_scale = 0,
       meter_yrange = \<lparr>is_min_auto = 1, is_max_auto = 1, range_min = Fin 0, range_max = Fin 0\<rparr>\<rparr>
     [Levels \<lparr>meter_graph_id = 1, meter_stream_id = 0, channel_count = 1, levels = [Fin 2]\<rparr> 5]) ! 0 = Fin 2"
proof -
  let ?c = "\<lparr>nchnls = 1, meter_nyticks = 0, meter_scale = 0,
       meter_yrange = \<lparr>is_min_auto = 1, is_max_auto = 1, range_min = Fin 0, range_max = Fin 0\<rparr>\<rparr>"
  let ?d = "\<lparr>meter_graph_id = 1, meter_stream_id = 0, channel_count = 1, levels = [Fin 2]\<rparr> :: WATCH_MSG_METER_DATA"
  have c: "unat (nchnls ?c) \<le> 32" "isfinite (fst (resolve_meter_range ?c))"
    by (simp_all add: resolve_meter_range_def)
  have ch: "shown_channels ?c ?d = 1" by (simp add: shown_channels_def)
  have "bar_of 0 (meter_run (\<lambda>_. Fin 1) ?c [Levels ?d 5]) = Some (Fin 2)"
    using meter_run_ok [OF c, of "\<lambda>_. Fin 1" "[Levels ?d 5]"] ch by (simp add: bar_step_def)
  then have "mb_has_frame (meter_run (\<lambda>_. Fin 1) ?c [Levels ?d 5])" by (auto simp: bar_of_def split: if_splits)
  from meter_bars_and_peaks [OF c _ this, of 0] show ?thesis using ch by (simp add: bar_step_def)
qed

text \<open>The points a packet carries, as they are drawn.\<close>

definition packet_points :: "WATCH_MSG_DATA \<Rightarrow> (cfloat \<times> cfloat) list" where
  "packet_points d = map (\<lambda>i. plotted_point (samples d ! (i * 2), samples d ! (i * 2 + 1))) [0..<unat (sample_count d)]"

text \<open>One packet: the trail before it is extended, unless the rate calls for another capacity.\<close>

lemma accept_points_trail:
  fixes d :: WATCH_MSG_DATA
  assumes "point_ok s \<or> s = zero_point"
  defines "cap \<equiv> point_trail_capacity (data_sample_rate d)"
  shows "trail_points (accept_points True d s) = lastn cap
      ((if pb_capacity s = cap then trail_points s else []) @ packet_points d)
    \<and> point_ok (accept_points True d s) \<and> pb_capacity (accept_points True d s) = cap"
proof -
  obtain s1 where s1: "ensure_point_buffer True s (data_sample_rate d) = (True, s1)" "point_ok s1" "pb_capacity s1 = cap"
    "trail_points s1 = (if pb_capacity s = cap then trail_points s else [])"
    using ensure_point_ok [OF assms(1), of "data_sample_rate d"]
    by (cases "ensure_point_buffer True s (data_sample_rate d)") (simp add: cap_def)
  let ?xs = "map (\<lambda>i. (samples d ! (i * 2), samples d ! (i * 2 + 1))) [0..<unat (sample_count d)]"
  have "accept_points True d s = fold append_point ?xs s1"
    by (simp add: accept_points_def s1(1) append_points_def fold_map comp_def)
  then show ?thesis
    using trail.puts [OF s1(2), of ?xs] s1(3,4) by (simp add: comp_def packet_points_def)
qed

text \<open>C30: The trail a point graph draws is the last points received, oldest first, over any number of
  packets: each packet extends the trail before it, so that nothing is lost but what exceeds the
  trail's capacity, which is a tenth of a second at the stream's rate, but at least a segment and at
  most 16384 points. A coordinate that is no number is drawn as zero. Only a rate with another
  capacity starts the trail anew.\<close>

theorem point_trail_last_points:
  assumes "point_ok s \<or> s = zero_point"
    and "ds \<noteq> []" "\<forall>d \<in> set ds. point_trail_capacity (data_sample_rate d) = cap"
  defines "s' \<equiv> fold (accept_points True) ds s"
  shows "trail_points s' = lastn cap
      ((if pb_capacity s = cap then trail_points s else []) @ concat (map packet_points ds))
    \<and> point_ok s' \<and> pb_capacity s' = cap \<and> 2 \<le> cap \<and> cap \<le> 16384"
proof -
  have "trail_points (fold (accept_points True) ds s) = lastn cap
      ((if pb_capacity s = cap then trail_points s else []) @ concat (map packet_points ds))
    \<and> point_ok (fold (accept_points True) ds s) \<and> pb_capacity (fold (accept_points True) ds s) = cap"
    using assms(1-3)
  proof (induction ds arbitrary: s)
    case (Cons d ds)
    have a: "trail_points (accept_points True d s) = lastn cap
        ((if pb_capacity s = cap then trail_points s else []) @ packet_points d)"
      "point_ok (accept_points True d s)" "pb_capacity (accept_points True d s) = cap"
      using accept_points_trail [OF Cons.prems(1), of d] Cons.prems(3) by simp_all
    show ?case
    proof (cases "ds = []")
      case False
      then show ?thesis
        using Cons.IH [of "accept_points True d s"] a Cons.prems(3)
          lastn_append [of cap "(if pb_capacity s = cap then trail_points s else []) @ packet_points d"
            "concat (map packet_points ds)"] by simp
    qed (use a in simp)
  qed simp
  moreover have "2 \<le> cap \<and> cap \<le> 16384"
    using assms(2,3) point_trail_capacity_bounds by (metis list.set_intros(1) neq_Nil_conv)
  ultimately show ?thesis unfolding s'_def by blast
qed

theorem point_trail_last_points_witness:
  "trail_points (fold (accept_points True)
     [\<lparr>data_graph_id = 1, data_stream_id = 0, data_sample_rate = Fin 1, sample_count = 1, samples = [Fin 1, NaN]\<rparr>,
      \<lparr>data_graph_id = 1, data_stream_id = 0, data_sample_rate = Fin 1, sample_count = 2, samples = [Fin 3, Fin 4, Fin 5, Fin 6]\<rparr>] zero_point)
     = [(Fin 3, Fin 4), (Fin 5, Fin 6)]"
proof -
  let ?d = "\<lparr>data_graph_id = 1, data_stream_id = 0, data_sample_rate = Fin 1, sample_count = 1, samples = [Fin 1, NaN]\<rparr>"
  let ?e = "\<lparr>data_graph_id = 1, data_stream_id = 0, data_sample_rate = Fin 1, sample_count = 2, samples = [Fin 3, Fin 4, Fin 5, Fin 6]\<rparr>"
  have "fround f64 (13421773 / 134217728) \<le> fround f64 1" by (rule fround_mono) (simp_all add: f64_def)
  also have "fround f64 1 = Fin 1"
    using round_rat_representable [of 1 f64 0] by (simp add: fround_def f64_def max_finite_def)
  finally have cap: "point_trail_capacity (Fin 1) = 2"
    by (cases "fround f64 (13421773 / 134217728)") (auto simp: point_trail_capacity_def less_eq_cfloat_def Let_def trunc_rat_def)
  have "packet_points ?d = [(Fin 1, Fin 0)]" "packet_points ?e = [(Fin 3, Fin 4), (Fin 5, Fin 6)]"
    by (simp_all add: packet_points_def plotted_point_def plotted_def upt_rec)
  then show ?thesis
    using point_trail_last_points [of zero_point "[?d, ?e]" 2] cap by (simp add: lastn_def)
qed

end
