(* ===== verification/Ticks.thy ===== *)
theory Ticks
  imports Ranges
begin

text \<open>
  The labels of the axes (\<^verbatim>\<open>format_tick_value\<close> to \<^verbatim>\<open>ensure_tick_labels\<close> and
  \<^verbatim>\<open>draw_tick_labels\<close> in \<^verbatim>\<open>src/src/watch_viewer.c\<close>): which grid lines are numbered, with
  which text, when the labels are made anew, and which of them are drawn.

  A text that \<^verbatim>\<open>snprintf\<close> prints is represented by what is printed (\<^verbatim>\<open>%.4g\<close> and a suffix
  of one letter never fill the buffer of 32 bytes). Turning it into a texture is the host's: it
  answers the size of the label, or fails.
\<close>

section \<open>Labels\<close>

abbreviation MAX_NUMBERED_TICK_INTERVALS :: "'a::numeral" where "MAX_NUMBERED_TICK_INTERVALS \<equiv> 10"

datatype TICK_VALUE_FORMAT = TICK_FORMAT_NUMBER | TICK_FORMAT_TIME | TICK_FORMAT_FREQUENCY | TICK_FORMAT_CHANNEL

datatype tick_text = Printed cfloat string | ChannelName nat | AxisName string

record TEXT_LABEL =
  lb_texture :: tick_text
  lb_width :: cfloat
  lb_height :: cfloat

record TICK_LABEL_ENTRY =
  te_label :: TEXT_LABEL
  te_grid_index :: nat

record TICK_AXIS_LABELS =
  ta_entries :: "TICK_LABEL_ENTRY list"
  ta_intervals :: nat

record TICK_LABEL_CACHE =
  tc_x :: TICK_AXIS_LABELS
  tc_y :: TICK_AXIS_LABELS
  tc_xmin :: cfloat
  tc_xmax :: cfloat
  tc_ymin :: cfloat
  tc_ymax :: cfloat
  tc_density :: cfloat
  tc_x_format :: TICK_VALUE_FORMAT
  tc_y_format :: TICK_VALUE_FORMAT
  tc_ready :: bool

definition no_labels :: TICK_AXIS_LABELS where
  "no_labels = \<lparr>ta_entries = [], ta_intervals = 0\<rparr>"

text \<open>The host: whether the font opens and the entries can be allocated, and the textures.\<close>

record LABEL_HOST =
  font_opens :: bool
  entries_mem :: bool
  text_size :: "tick_text \<Rightarrow> (cfloat \<times> cfloat) option"

definition create_text_label :: "LABEL_HOST \<Rightarrow> tick_text \<Rightarrow> TEXT_LABEL option" where
  "create_text_label h t = map_option (\<lambda>(w, ht). \<lparr>lb_texture = t, lb_width = w, lb_height = ht\<rparr>) (text_size h t)"

definition format_tick_value :: "cfloat \<Rightarrow> TICK_VALUE_FORMAT \<Rightarrow> tick_text" where
  "format_tick_value value0 format =
     (let v = (if fabsf value0 < fround f64 (1 / 10 ^ 12) then Fin 0 else value0);
          magnitude = fabsf v in
      if format = TICK_FORMAT_FREQUENCY
      then (if Fin 1000000 \<le> magnitude then Printed (fdiv f64 v (Fin 1000000)) ''M''
            else if Fin 1000 \<le> magnitude then Printed (fdiv f64 v (Fin 1000)) ''k''
            else Printed v [])
      else Printed v [])"

section \<open>The numbered grid lines\<close>

text \<open>The loop \<^verbatim>\<open>for (grid_index = 0; grid_index < intervals; grid_index += stride)\<close>.\<close>

function tick_positions :: "nat \<Rightarrow> nat \<Rightarrow> nat \<Rightarrow> nat list" where
  "tick_positions stride i intervals =
     (if 0 < stride \<and> i < intervals then i # tick_positions stride (i + stride) intervals else [])"
  by pat_completeness auto
termination by (relation "measure (\<lambda>(stride, i, intervals). intervals - i)") auto

declare tick_positions.simps [simp del]

definition tick_value :: "cfloat \<Rightarrow> cfloat \<Rightarrow> nat \<Rightarrow> nat \<Rightarrow> cfloat" where
  "tick_value minimum maximum intervals grid_index =
     (let fraction = fdiv f64 (fround f64 (of_nat grid_index)) (fround f64 (of_nat intervals)) in
      fadd f64 minimum (fmul f64 (fsub f32 maximum minimum) fraction))"

text \<open>The labels in order; the first that cannot be made undoes all.\<close>

fun make_entries :: "LABEL_HOST \<Rightarrow> (tick_text \<times> nat) list \<Rightarrow> TICK_LABEL_ENTRY list option" where
  "make_entries h [] = Some []"
| "make_entries h ((t, g) # ts) =
     (case create_text_label h t of
        None \<Rightarrow> None
      | Some l \<Rightarrow> map_option ((#) \<lparr>te_label = l, te_grid_index = g\<rparr>) (make_entries h ts))"

definition prepare_tick_axis ::
  "LABEL_HOST \<Rightarrow> nat \<Rightarrow> cfloat \<Rightarrow> cfloat \<Rightarrow> TICK_VALUE_FORMAT \<Rightarrow> TICK_AXIS_LABELS option" where
  "prepare_tick_axis h intervals minimum maximum format =
     (if intervals = 0 then None
      else
        let stride = (intervals + MAX_NUMBERED_TICK_INTERVALS - 1) div MAX_NUMBERED_TICK_INTERVALS in
        if \<not> entries_mem h then None
        else map_option (\<lambda>es. \<lparr>ta_entries = es, ta_intervals = intervals\<rparr>)
          (make_entries h
            (map (\<lambda>g. (format_tick_value (tick_value minimum maximum intervals g) format, g))
                 (tick_positions stride 0 intervals)
             @ [(format_tick_value maximum format, intervals)])))"

definition prepare_channel_tick_axis :: "LABEL_HOST \<Rightarrow> u32 \<Rightarrow> TICK_AXIS_LABELS option" where
  "prepare_channel_tick_axis h n =
     (if n = 0 \<or> n > MAX_METER_CHANNELS then None
      else if \<not> entries_mem h then None
      else map_option (\<lambda>es. \<lparr>ta_entries = es, ta_intervals = unat n * 2\<rparr>)
        (make_entries h (map (\<lambda>i. (ChannelName (i + 1), 2 * i + 1)) [0..<unat n])))"

text \<open>Both axes are written to the same place, the numeric one last. \<^const>\<open>None\<close> is the undefined
  conversion of the maximum to an unsigned integer.\<close>

record AXES =
  x_intervals :: nat
  y_intervals :: nat
  axis_xmin :: cfloat
  axis_xmax :: cfloat
  axis_ymin :: cfloat
  axis_ymax :: cfloat
  axis_x_format :: TICK_VALUE_FORMAT
  axis_y_format :: TICK_VALUE_FORMAT

definition prepare_tick_labels ::
  "LABEL_HOST \<Rightarrow> AXES \<Rightarrow> cfloat \<Rightarrow> TICK_LABEL_CACHE \<Rightarrow> (bool \<times> TICK_LABEL_CACHE) option" where
  "prepare_tick_labels h a density cache =
     (if \<not> font_opens h then Some (False, cache)
      else
        (case to_u32 (axis_xmax a) of
           None \<Rightarrow> None
         | Some channels \<Rightarrow>
             let channel_tick_axis = prepare_channel_tick_axis h channels;
                 tick_axis = prepare_tick_axis h (x_intervals a) (axis_xmin a) (axis_xmax a) (axis_x_format a);
                 next_x = (case tick_axis of Some t \<Rightarrow> Some t | None \<Rightarrow> channel_tick_axis);
                 created = (if axis_x_format a = TICK_FORMAT_CHANNEL then channel_tick_axis \<noteq> None
                   else tick_axis \<noteq> None);
                 next_y = (if created
                   then prepare_tick_axis h (y_intervals a) (axis_ymin a) (axis_ymax a) (axis_y_format a)
                   else None) in
             (case (created, next_x, next_y) of
                (True, Some tx, Some ty) \<Rightarrow>
                  Some (True, \<lparr>tc_x = tx, tc_y = ty, tc_xmin = axis_xmin a, tc_xmax = axis_xmax a,
                    tc_ymin = axis_ymin a, tc_ymax = axis_ymax a, tc_density = density,
                    tc_x_format = axis_x_format a, tc_y_format = axis_y_format a, tc_ready = True\<rparr>)
              | _ \<Rightarrow> Some (False, cache))))"

definition labels_current :: "AXES \<Rightarrow> cfloat \<Rightarrow> TICK_LABEL_CACHE \<Rightarrow> bool" where
  "labels_current a density cache \<longleftrightarrow> tc_ready cache
     \<and> ta_intervals (tc_x cache) = x_intervals a \<and> ta_intervals (tc_y cache) = y_intervals a
     \<and> feq (tc_xmin cache) (axis_xmin a) \<and> feq (tc_xmax cache) (axis_xmax a)
     \<and> feq (tc_ymin cache) (axis_ymin a) \<and> feq (tc_ymax cache) (axis_ymax a)
     \<and> tc_x_format cache = axis_x_format a \<and> tc_y_format cache = axis_y_format a
     \<and> fabsf (fsub f32 (tc_density cache) density) < fround f32 (1 / 100)"

definition ensure_tick_labels ::
  "LABEL_HOST \<Rightarrow> AXES \<Rightarrow> cfloat \<Rightarrow> TICK_LABEL_CACHE \<Rightarrow> (bool \<times> TICK_LABEL_CACHE) option" where
  "ensure_tick_labels h a density cache =
     (if labels_current a density cache then Some (True, cache) else prepare_tick_labels h a density cache)"

text \<open>The window's size in points is the host's answer.\<close>

definition graph_pixel_density :: "int \<Rightarrow> int \<Rightarrow> (int \<times> int) option \<Rightarrow> cfloat" where
  "graph_pixel_density width heigth logical =
     (case logical of
        None \<Rightarrow> Fin 1
      | Some (logical_width, logical_height) \<Rightarrow>
          if width \<le> 0 \<or> heigth \<le> 0 \<or> logical_width \<le> 0 \<or> logical_height \<le> 0 then Fin 1
          else
            let horizontal = fdiv f32 (fround f32 (of_int width)) (fround f32 (of_int logical_width));
                vertical = fdiv f32 (fround f32 (of_int heigth)) (fround f32 (of_int logical_height)) in
            fmax (Fin 1) (fmin horizontal vertical))"

section \<open>The labels that are drawn\<close>

text \<open>One axis of \<^verbatim>\<open>draw_tick_labels\<close>. \<open>place\<close> gives the two edges of an entry along the axis, in
  the direction of the axis; \<open>crowded\<close> is the test against the label drawn before and the
  last one.\<close>

fun draw_labels ::
  "('e \<Rightarrow> 'p) \<Rightarrow> ('p option \<Rightarrow> 'p \<Rightarrow> bool) \<Rightarrow> nat \<Rightarrow> nat \<Rightarrow> 'p option \<Rightarrow> 'e list \<Rightarrow> 'p list" where
  "draw_labels place crowded count i previous [] = []"
| "draw_labels place crowded count i previous (e # es) =
     (let p = place e; endpoint = (i = 0 \<or> i + 1 = count) in
      if \<not> endpoint \<and> crowded previous p then draw_labels place crowded count (i + 1) previous es
      else p # draw_labels place crowded count (i + 1) (Some p) es)"

text \<open>Left and right edge of a label of the horizontal axis.\<close>

definition x_edges :: "cfloat \<Rightarrow> cfloat \<Rightarrow> nat \<Rightarrow> TICK_LABEL_ENTRY \<Rightarrow> cfloat \<times> cfloat" where
  "x_edges plot_left plot_width intervals e =
     (let fraction = fdiv f32 (fround f32 (of_nat (te_grid_index e))) (fround f32 (of_nat intervals));
          center = fadd f32 plot_left (fmul f32 fraction plot_width);
          left = fsub f32 center (fmul f32 (lb_width (te_label e)) (Fin (1 / 2))) in
      (left, fadd f32 left (lb_width (te_label e))))"

definition draw_x_labels :: "cfloat \<Rightarrow> cfloat \<Rightarrow> cfloat \<Rightarrow> TICK_AXIS_LABELS \<Rightarrow> (cfloat \<times> cfloat) list" where
  "draw_x_labels plot_left plot_width gap a =
     (let last_x_left = fst (x_edges plot_left plot_width (ta_intervals a) (last (ta_entries a))) in
      draw_labels (x_edges plot_left plot_width (ta_intervals a))
        (\<lambda>previous (left, right).
           left < fadd f32 (case previous of None \<Rightarrow> NInf | Some q \<Rightarrow> snd q) gap
           \<or> last_x_left < fadd f32 right gap)
        (length (ta_entries a)) 0 None (ta_entries a))"

text \<open>Top and bottom edge of a label of the vertical axis, which runs upwards.\<close>

definition y_edges :: "cfloat \<Rightarrow> cfloat \<Rightarrow> nat \<Rightarrow> TICK_LABEL_ENTRY \<Rightarrow> cfloat \<times> cfloat" where
  "y_edges plot_bottom plot_heigth intervals e =
     (let fraction = fdiv f32 (fround f32 (of_nat (te_grid_index e))) (fround f32 (of_nat intervals));
          center = fsub f32 plot_bottom (fmul f32 fraction plot_heigth);
          top = fsub f32 center (fmul f32 (lb_height (te_label e)) (Fin (1 / 2))) in
      (top, fadd f32 top (lb_height (te_label e))))"

definition draw_y_labels ::
  "cfloat \<Rightarrow> cfloat \<Rightarrow> cfloat \<Rightarrow> cfloat \<Rightarrow> TICK_AXIS_LABELS \<Rightarrow> (cfloat \<times> cfloat) list" where
  "draw_y_labels plot_top plot_bottom plot_heigth gap a =
     (let last_y_bottom = fadd f32 plot_top
            (fmul f32 (lb_height (te_label (last (ta_entries a)))) (Fin (1 / 2))) in
      draw_labels (y_edges plot_bottom plot_heigth (ta_intervals a))
        (\<lambda>previous (top, bottom).
           (case previous of None \<Rightarrow> PInf | Some q \<Rightarrow> fst q) < fadd f32 bottom gap
           \<or> fsub f32 top gap < last_y_bottom)
        (length (ta_entries a)) 0 None (ta_entries a))"

section \<open>Which lines are numbered\<close>

lemma tick_positions_eq:
  "0 < stride \<Longrightarrow> tick_positions stride i n = map (\<lambda>k. i + stride * k) [0..<(n - i + (stride - 1)) div stride]"
proof (induction stride i n rule: tick_positions.induct)
  case (1 stride i n)
  show ?case
  proof (cases "i < n")
    case True
    let ?m = "(n - (i + stride) + (stride - 1)) div stride"
    have m: "(n - i + (stride - 1)) div stride = Suc ?m"
    proof (cases "stride \<le> n - i")
      case le: True
      then have "n - i + (stride - 1) = n - (i + stride) + (stride - 1) + stride" by linarith
      then show ?thesis using "1.prems" by (metis div_add_self2 Suc_eq_plus1 less_numeral_extra(3))
    next
      case lt: False
      then have "(n - i + (stride - 1)) div stride = 1" using True "1.prems" by (intro div_nat_eqI) auto
      moreover have "?m = 0" using lt "1.prems" by simp
      ultimately show ?thesis by (simp only: One_nat_def)
    qed
    have "tick_positions stride i n = i # map (\<lambda>k. i + stride + stride * k) [0..<?m]"
      using 1 True by (subst tick_positions.simps) simp
    also have "\<dots> = map (\<lambda>k. i + stride * k) [0..<Suc ?m]"
      unfolding upt_conv_Cons [OF zero_less_Suc] map_Suc_upt [symmetric] by simp
    finally show ?thesis unfolding m .
  next
    case False
    then show ?thesis using "1.prems" by (subst tick_positions.simps) simp
  qed
qed

lemma make_entries_index: "make_entries h ts = Some es \<Longrightarrow> map te_grid_index es = map snd ts"
  by (induction h ts arbitrary: es rule: make_entries.induct) (auto split: option.splits)

lemma make_entries_text: "make_entries h ts = Some es \<Longrightarrow> map (lb_texture \<circ> te_label) es = map fst ts"
  by (induction h ts arbitrary: es rule: make_entries.induct) (auto simp: create_text_label_def split: option.splits)

lemma make_entries_total: "(\<And>t. text_size h t \<noteq> None) \<Longrightarrow> make_entries h ts \<noteq> None"
  by (induction ts) (auto simp: create_text_label_def split: option.split)

text \<open>A numeric axis is labelled at evenly spaced grid lines, in order, from the first line to
  the last, and never with more than eleven labels; the last label is the maximum.\<close>

theorem tick_axis_positions:
  assumes "prepare_tick_axis h n mn mx fmt = Some a"
  defines "stride \<equiv> (n + 9) div 10" and "m \<equiv> (n + (n + 9) div 10 - 1) div ((n + 9) div 10)"
  shows "map te_grid_index (ta_entries a) = map (\<lambda>k. stride * k) [0..<m] @ [n]
    \<and> stride * (m - 1) < n \<and> 0 < m \<and> m \<le> 10 \<and> ta_intervals a = n
    \<and> lb_texture (te_label (last (ta_entries a))) = format_tick_value mx fmt"
proof -
  have n: "0 < n" using assms(1) by (auto simp: prepare_tick_axis_def split: if_splits)
  then have s: "0 < stride" "n \<le> 10 * stride" by (simp_all add: stride_def div_greater_zero_iff)
  let ?ts = "map (\<lambda>g. (format_tick_value (tick_value mn mx n g) fmt, g)) (tick_positions stride 0 n)
      @ [(format_tick_value mx fmt, n)]"
  have st: "(n + 10 - 1) div 10 = stride" by (simp add: stride_def)
  obtain es where es: "make_entries h ?ts = Some es" and a: "a = \<lparr>ta_entries = es, ta_intervals = n\<rparr>"
    using assms(1) n unfolding prepare_tick_axis_def Let_def st by (auto split: if_splits)
  have m: "m = (n + (stride - 1)) div stride" using s(1) by (simp add: m_def stride_def)
  have idx: "map te_grid_index es = map (\<lambda>k. stride * k) [0..<m] @ [n]"
    using make_entries_index [OF es] tick_positions_eq [OF s(1), of 0 n] by (simp add: comp_def m)
  have "map (lb_texture \<circ> te_label) es = map fst ?ts" by (rule make_entries_text [OF es])
  then have "last (map (lb_texture \<circ> te_label) es) = format_tick_value mx fmt" by simp
  moreover have ne: "es \<noteq> []" using idx by auto
  ultimately have lst: "lb_texture (te_label (last es)) = format_tick_value mx fmt" by (simp add: last_map)
  have m0: "0 < m" unfolding m using n s(1) by (simp add: div_greater_zero_iff)
  have "m \<le> 10"
  proof (rule ccontr)
    assume "\<not> m \<le> 10"
    then have "11 * stride \<le> m * stride" by (intro mult_right_mono) simp_all
    also have "\<dots> \<le> n + (stride - 1)" unfolding m by (rule div_times_less_eq_dividend)
    finally show False using s by linarith
  qed
  moreover have "stride * (m - 1) < n"
  proof -
    have le: "m * stride \<le> n + (stride - 1)" unfolding m by (rule div_times_less_eq_dividend)
    obtain k where k: "m = Suc k" using m0 by (cases m) auto
    have "stride * k + stride \<le> n + (stride - 1)" using le unfolding k by (simp add: mult.commute)
    then show ?thesis unfolding k using s(1) by simp
  qed
  ultimately show ?thesis using idx lst m0 by (simp add: a)
qed

theorem tick_axis_positions_witness:
  "\<exists>a. prepare_tick_axis \<lparr>font_opens = True, entries_mem = True, text_size = \<lambda>_. Some (Fin 1, Fin 1)\<rparr>
       20 (Fin 0) (Fin 1) TICK_FORMAT_NUMBER = Some a
     \<and> map te_grid_index (ta_entries a) = map (\<lambda>k. 2 * k) [0..<10] @ [20]"
proof -
  let ?h = "\<lparr>font_opens = True, entries_mem = True, text_size = \<lambda>_. Some (Fin 1, Fin 1)\<rparr>"
  have "prepare_tick_axis ?h 20 (Fin 0) (Fin 1) TICK_FORMAT_NUMBER \<noteq> None"
    using make_entries_total [of ?h] by (simp add: prepare_tick_axis_def)
  then obtain a where a: "prepare_tick_axis ?h 20 (Fin 0) (Fin 1) TICK_FORMAT_NUMBER = Some a" by blast
  from tick_axis_positions [OF a] have "map te_grid_index (ta_entries a) = map (\<lambda>k. 2 * k) [0..<10] @ [20]" by simp
  with a show ?thesis by blast
qed

text \<open>C32: The channel names of a meter are made and then overwritten: when every label can be made, the
  horizontal axis of a meter carries numbers.\<close>

theorem meter_names_overwritten:
  assumes "font_opens h" "entries_mem h" "\<And>t. text_size h t \<noteq> None"
    and "axis_x_format a = TICK_FORMAT_CHANNEL" "0 < x_intervals a" "0 < y_intervals a"
    and "to_u32 (axis_xmax a) = Some n" "n \<noteq> 0" "n \<le> 32"
  shows "\<exists>c'. prepare_tick_labels h a density c = Some (True, c')
    \<and> (\<forall>e \<in> set (ta_entries (tc_x c')). \<exists>v s. lb_texture (te_label e) = Printed v s)"
proof -
  have ax: "prepare_tick_axis h k mn mx fmt \<noteq> None" if "0 < k" for k mn mx fmt
    using that assms(2) make_entries_total [OF assms(3)] by (simp add: prepare_tick_axis_def)
  have "prepare_channel_tick_axis h n \<noteq> None"
    using assms(2,8,9) make_entries_total [OF assms(3)] by (simp add: prepare_channel_tick_axis_def not_less)
  moreover obtain tx where tx: "prepare_tick_axis h (x_intervals a) (axis_xmin a) (axis_xmax a) (axis_x_format a) = Some tx"
    using ax [OF assms(5)] by blast
  moreover obtain ty where "prepare_tick_axis h (y_intervals a) (axis_ymin a) (axis_ymax a) (axis_y_format a) = Some ty"
    using ax [OF assms(6)] by blast
  ultimately obtain c' where c': "prepare_tick_labels h a density c = Some (True, c')" "tc_x c' = tx"
    using assms(1,4,7) by (auto simp: prepare_tick_labels_def)
  obtain es where es: "make_entries h (map (\<lambda>g. (format_tick_value (tick_value (axis_xmin a) (axis_xmax a) (x_intervals a) g) (axis_x_format a), g))
        (tick_positions ((x_intervals a + 10 - 1) div 10) 0 (x_intervals a))
      @ [(format_tick_value (axis_xmax a) (axis_x_format a), x_intervals a)]) = Some es" and "ta_entries tx = es"
    using tx by (auto simp: prepare_tick_axis_def Let_def split: if_splits)
  have num: "\<exists>v s. format_tick_value x f = Printed v s" for x f
    by (simp add: format_tick_value_def Let_def)
  have "\<exists>v s. lb_texture (te_label e) = Printed v s" if "e \<in> set es" for e
  proof -
    have "(lb_texture \<circ> te_label) e \<in> set (map (lb_texture \<circ> te_label) es)" using that by simp
    then show ?thesis unfolding make_entries_text [OF es] using num by auto
  qed
  then show ?thesis using c' \<open>ta_entries tx = es\<close> by auto
qed

theorem meter_names_overwritten_witness:
  fixes h :: LABEL_HOST and a :: AXES
  defines "h \<equiv> \<lparr>font_opens = True, entries_mem = True, text_size = \<lambda>_. Some (Fin 20, Fin 10)\<rparr>"
    and "a \<equiv> \<lparr>x_intervals = 4, y_intervals = 9, axis_xmin = Fin 0, axis_xmax = Fin 2, axis_ymin = Fin 0,
      axis_ymax = Fin 1, axis_x_format = TICK_FORMAT_CHANNEL, axis_y_format = TICK_FORMAT_NUMBER\<rparr>"
  shows "\<forall>c. \<exists>c'. prepare_tick_labels h a (Fin 1) c = Some (True, c')
    \<and> (\<forall>e \<in> set (ta_entries (tc_x c')). \<exists>v s. lb_texture (te_label e) = Printed v s)"
proof
  fix c
  have "to_u32 (Fin 2) = Some 2" by (simp add: trunc_rat_def)
  then show "\<exists>c'. prepare_tick_labels h a (Fin 1) c = Some (True, c')
    \<and> (\<forall>e \<in> set (ta_entries (tc_x c')). \<exists>v s. lb_texture (te_label e) = Printed v s)"
    using meter_names_overwritten [of h a 2 "Fin 1" c] by (simp add: h_def a_def)
qed

section \<open>Drawn labels keep apart\<close>

lemma draw_labels_Nil [simp]: "draw_labels place crowded count i previous [] = []"
  by simp

lemma draw_labels_last:
  "es \<noteq> [] \<Longrightarrow> i + length es = count \<Longrightarrow>
     draw_labels place crowded count i previous es \<noteq> []
     \<and> last (draw_labels place crowded count i previous es) = place (last es)"
proof (induction es arbitrary: i previous)
  case (Cons e es)
  show ?case
  proof (cases es)
    case Nil
    then show ?thesis using Cons.prems by simp
  next
    case (Cons e' es')
    then show ?thesis using Cons.IH [of "i + 1"] Cons.prems by (auto simp: Let_def)
  qed
qed simp

lemma draw_labels_apart:
  "i + length es = count \<Longrightarrow> 0 < i \<Longrightarrow> k + 1 < length (draw_labels place crowded count i previous es) \<Longrightarrow>
     \<not> crowded (if k = 0 then previous else Some (draw_labels place crowded count i previous es ! (k - 1)))
         (draw_labels place crowded count i previous es ! k)"
proof (induction es arbitrary: i k previous)
  case (Cons e es)
  let ?p = "place e"
  show ?case
  proof (cases "\<not> (i = 0 \<or> i + 1 = count) \<and> crowded previous ?p")
    case True
    then show ?thesis using Cons.IH [of "Suc i" k previous] Cons.prems by (simp split: if_splits)
  next
    case drawn: False
    then have eq: "draw_labels place crowded count i previous (e # es)
        = ?p # draw_labels place crowded count (i + 1) (Some ?p) es"
      by (auto simp: Let_def)
    show ?thesis
    proof (cases k)
      case 0
      then have "es \<noteq> []" using Cons.prems(3) unfolding eq by auto
      then have "i + 1 \<noteq> count" using Cons.prems(1) by (cases es) auto
      then show ?thesis using drawn Cons.prems(2) 0 unfolding eq by simp
    next
      case (Suc j)
      then show ?thesis
        using Cons.IH [of "i + 1" j "Some ?p"] Cons.prems unfolding eq
        by (cases j) auto
    qed
  qed
qed simp

lemma draw_labels_interior:
  assumes "ps = draw_labels place crowded (length es) 0 None es" "0 < k" "k + 1 < length ps"
  shows "\<not> crowded (Some (ps ! (k - 1))) (ps ! k)"
proof (cases es)
  case Nil
  then show ?thesis using assms by simp
next
  case (Cons e es')
  then have ps: "ps = place e # draw_labels place crowded (length es) 1 (Some (place e)) es'"
    using assms(1) by (simp add: Let_def)
  obtain j where k: "k = Suc j" using assms(2) by (cases k) auto
  show ?thesis
    using draw_labels_apart [of 1 es' "length es" j place crowded "Some (place e)"] assms(3) Cons k
    unfolding ps by (cases j) auto
qed

text \<open>The last label of the vertical axis is centred on the top of the plot.\<close>

lemma y_edges_top:
  assumes "te_grid_index e = n" "0 < n" "n < 16777216" "ht = Fin q" "fround f32 q = Fin q" "fsub f32 bt ht = tp"
  shows "y_edges bt ht n e = (let top = fsub f32 tp (fmul f32 (lb_height (te_label e)) (Fin (1 / 2))) in
    (top, fadd f32 top (lb_height (te_label e))))"
proof -
  have "fround f32 (of_nat n) = Fin (of_nat n)" using fround_f32_int [of "int n"] assms(3) by simp
  moreover have "fround f32 1 = Fin 1" using fround_f32_int [of 1] by simp
  ultimately show ?thesis using assms by (simp add: y_edges_def Let_def)
qed

text \<open>C37: The labels drawn on an axis do not run into each other: the first and the last are always
  drawn, and every other one that is drawn keeps the gap to the one drawn before it and to the
  last. On the vertical axis, which runs upwards, the last label is centred on the top of the plot, and
  the others keep the gap to its lower half.\<close>

theorem drawn_labels_apart:
  fixes l w gap tp bt ht :: cfloat
  assumes "ta_entries a \<noteq> []"
  defines "xs \<equiv> draw_x_labels l w gap a" and "ys \<equiv> draw_y_labels tp bt ht gap a"
    and "half \<equiv> fmul f32 (lb_height (te_label (last (ta_entries a)))) (Fin (1 / 2))"
  shows "hd xs = x_edges l w (ta_intervals a) (hd (ta_entries a))
    \<and> last xs = x_edges l w (ta_intervals a) (last (ta_entries a))
    \<and> (\<forall>k. 0 < k \<longrightarrow> k + 1 < length xs \<longrightarrow>
         \<not> fst (xs ! k) < fadd f32 (snd (xs ! (k - 1))) gap \<and> \<not> fst (last xs) < fadd f32 (snd (xs ! k)) gap)
    \<and> hd ys = y_edges bt ht (ta_intervals a) (hd (ta_entries a))
    \<and> last ys = y_edges bt ht (ta_intervals a) (last (ta_entries a))
    \<and> (\<forall>k. 0 < k \<longrightarrow> k + 1 < length ys \<longrightarrow> \<not> fst (ys ! (k - 1)) < fadd f32 (snd (ys ! k)) gap
         \<and> \<not> fsub f32 (fst (ys ! k)) gap < fadd f32 tp half)
    \<and> (te_grid_index (last (ta_entries a)) = ta_intervals a \<and> 0 < ta_intervals a \<and> ta_intervals a < 16777216
         \<and> ht = Fin q \<and> fround f32 q = Fin q \<and> fsub f32 bt ht = tp \<longrightarrow> fst (last ys) = fsub f32 tp half)"
proof -
  obtain e es where es: "ta_entries a = e # es" using assms(1) by (cases "ta_entries a") auto
  have first: "hd (draw_labels place crowded n 0 None (ta_entries a)) = place (hd (ta_entries a))" for place crowded n
    by (simp add: es Let_def)
  have lst: "last (draw_labels place crowded (length (ta_entries a)) 0 None (ta_entries a)) = place (last (ta_entries a))"
    for place crowded using draw_labels_last [OF assms(1), of 0 "length (ta_entries a)" place crowded None] by simp
  have x: "hd xs = x_edges l w (ta_intervals a) (hd (ta_entries a))"
    "last xs = x_edges l w (ta_intervals a) (last (ta_entries a))"
    unfolding xs_def draw_x_labels_def Let_def by (rule first, rule lst)
  have y: "hd ys = y_edges bt ht (ta_intervals a) (hd (ta_entries a))"
    "last ys = y_edges bt ht (ta_intervals a) (last (ta_entries a))"
    unfolding ys_def draw_y_labels_def Let_def by (rule first, rule lst)
  have "\<not> fst (xs ! k) < fadd f32 (snd (xs ! (k - 1))) gap \<and> \<not> fst (last xs) < fadd f32 (snd (xs ! k)) gap"
    if "0 < k" "k + 1 < length xs" for k
    using draw_labels_interior [OF xs_def [unfolded draw_x_labels_def Let_def, THEN meta_eq_to_obj_eq] that] x(2)
    by (auto split: prod.splits)
  moreover have "\<not> fst (ys ! (k - 1)) < fadd f32 (snd (ys ! k)) gap \<and> \<not> fsub f32 (fst (ys ! k)) gap < fadd f32 tp half"
    if "0 < k" "k + 1 < length ys" for k
    using draw_labels_interior [OF ys_def [unfolded draw_y_labels_def Let_def, THEN meta_eq_to_obj_eq] that]
    by (auto simp: half_def split: prod.splits)
  moreover have "fst (last ys) = fsub f32 tp half"
    if "te_grid_index (last (ta_entries a)) = ta_intervals a \<and> 0 < ta_intervals a \<and> ta_intervals a < 16777216
      \<and> ht = Fin q \<and> fround f32 q = Fin q \<and> fsub f32 bt ht = tp"
  proof -
    from that have "te_grid_index (last (ta_entries a)) = ta_intervals a" "0 < ta_intervals a"
      "ta_intervals a < 16777216" "ht = Fin q" "fround f32 q = Fin q" "fsub f32 bt ht = tp" by blast+
    from y_edges_top [OF this] show ?thesis unfolding y(2) half_def by (simp only: Let_def fst_conv)
  qed
  ultimately show ?thesis using x y by blast
qed

theorem drawn_labels_apart_witness:
  fixes a :: TICK_AXIS_LABELS
  defines "a \<equiv> \<lparr>ta_entries = [\<lparr>te_label = \<lparr>lb_texture = ChannelName 0, lb_width = Fin 10, lb_height = Fin 10\<rparr>, te_grid_index = 0\<rparr>,
      \<lparr>te_label = \<lparr>lb_texture = ChannelName 1, lb_width = Fin 10, lb_height = Fin 10\<rparr>, te_grid_index = 1\<rparr>,
      \<lparr>te_label = \<lparr>lb_texture = ChannelName 2, lb_width = Fin 10, lb_height = Fin 10\<rparr>, te_grid_index = 2\<rparr>], ta_intervals = 2\<rparr>"
  shows "fst (last (draw_y_labels (Fin 2) (Fin 18) (Fin 16) (Fin 3) a)) = fsub f32 (Fin 2) (Fin 5)
    \<and> hd (draw_x_labels (Fin 0) (Fin 100) (Fin 3) a) = x_edges (Fin 0) (Fin 100) 2 (hd (ta_entries a))"
proof -
  have f: "fround f32 5 = Fin 5" "fround f32 16 = Fin 16" "fround f32 2 = Fin 2"
    using fround_f32_int [of 5] fround_f32_int [of 16] fround_f32_int [of 2] by simp_all
  have ne: "ta_entries a \<noteq> []" by (simp add: a_def)
  have top: "te_grid_index (last (ta_entries a)) = ta_intervals a \<and> 0 < ta_intervals a \<and> ta_intervals a < 16777216
      \<and> Fin 16 = Fin (16 :: rat) \<and> fround f32 16 = Fin 16 \<and> fsub f32 (Fin 18) (Fin 16) = Fin 2"
    using f by (simp add: a_def fsub_def)
  have half: "fmul f32 (lb_height (te_label (last (ta_entries a)))) (Fin (1 / 2)) = Fin 5" "ta_intervals a = 2"
    using f by (simp_all add: a_def)
  note r = drawn_labels_apart [OF ne, of "Fin 0" "Fin 100" "Fin 3" "Fin 2" "Fin 18" "Fin 16" 16, unfolded half(1)]
  show ?thesis using r top half(2) by metis
qed

end
