(* ===== verification/Axes.thy ===== *)
theory Axes
  imports Ticks FtableAssembly SpectralAssembly
begin

text \<open>
  Ranges that depend on the data received (\<^verbatim>\<open>resolve_ftable_range\<close>,
  \<^verbatim>\<open>resolve_frequency_axis_range\<close>, \<^verbatim>\<open>spectral_bin_range\<close>), the two axes of a graph
  (\<^verbatim>\<open>ensure_graph_tick_labels\<close>) and the area it is drawn in, in
  \<^verbatim>\<open>src/src/watch_viewer.c\<close>.
\<close>

section \<open>A table's range\<close>

text \<open>The scan over the streams: whether one is displayed, and the range of all that are.\<close>

definition scan_ftable :: "STREAM_FTABLE_BUFFER \<Rightarrow> bool \<times> cfloat \<times> cfloat \<Rightarrow> bool \<times> cfloat \<times> cfloat" where
  "scan_ftable s acc =
     (let (found, mn, mx) = acc in
      if \<not> fb_display_ready s \<or> \<not> fb_has_range s then acc
      else if \<not> found then (True, fb_data_minimum s, fb_data_maximum s)
      else (True, fmin mn (fb_data_minimum s), fmax mx (fb_data_maximum s)))"

text \<open>\<open>streams\<close> is the graph's array, or a null pointer; the flag of the result is the function's.\<close>

definition resolve_ftable_range ::
  "WATCH_MSG_FTABLE_CONFIG \<Rightarrow> STREAM_FTABLE_BUFFER list option \<Rightarrow> (cfloat \<times> cfloat) option" where
  "resolve_ftable_range c streams =
     (let r = ft_yrange c;
          needs_data = (is_min_auto r \<noteq> 0 \<or> is_max_auto r \<noteq> 0);
          (found, data_minimum, data_maximum) =
            (case streams of
               Some ss \<Rightarrow> if needs_data then fold scan_ftable ss (False, Fin 0, Fin 0) else (False, Fin 0, Fin 0)
             | None \<Rightarrow> (False, Fin 0, Fin 0)) in
      if needs_data \<and> \<not> found then None
      else
        let ymin = (if is_min_auto r \<noteq> 0 then data_minimum else range_min r);
            ymax = (if is_max_auto r \<noteq> 0 then data_maximum else range_max r);
            tenth = fround f32 (1 / 10);
            (lo, hi) =
              (if ymax \<le> ymin
               then
                 (if is_min_auto r \<noteq> 0 \<and> is_max_auto r \<noteq> 0
                  then let center = fmul f32 (fadd f32 ymin ymax) (Fin (1 / 2));
                           padding = fmax (fmul f32 (fabsf center) tenth) (Fin 1) in
                    (fsub f32 center padding, fadd f32 center padding)
                  else if is_min_auto r \<noteq> 0
                  then (fsub f32 ymax (fmax (fmul f32 (fabsf ymax) tenth) (Fin 1)), ymax)
                  else if is_max_auto r \<noteq> 0
                  then (ymin, fadd f32 ymin (fmax (fmul f32 (fabsf ymin) tenth) (Fin 1)))
                  else (ymin, ymax))
               else (ymin, ymax)) in
        if lo < hi then Some (lo, hi) else None)"

section \<open>A spectrum's frequencies\<close>

fun reference_stream :: "STREAM_SPECTRAL_BUFFER list \<Rightarrow> STREAM_SPECTRAL_BUFFER option" where
  "reference_stream [] = None"
| "reference_stream (s # ss) = (if sb_sample_rate s > 0 then Some s else reference_stream ss)"

definition resolve_frequency_axis_range ::
  "WATCH_MSG_SPECTRAL_CONFIG \<Rightarrow> STREAM_SPECTRAL_BUFFER list \<Rightarrow> (cfloat \<times> cfloat) option" where
  "resolve_frequency_axis_range c streams =
     (let r = frequency_range c; ref = reference_stream streams in
      if ref = None \<and> is_max_auto r \<noteq> 0 then None
      else
        let nyquist = (case ref of None \<Rightarrow> Fin 0
              | Some s \<Rightarrow> fmul f32 (of_u32 f32 (sb_sample_rate s)) (Fin (1 / 2)));
            minimum0 = (if is_min_auto r \<noteq> 0 then Fin 0 else range_min r);
            maximum0 = (if is_max_auto r \<noteq> 0 then nyquist else range_max r);
            (minimum, maximum) =
              (if ref \<noteq> None
               then (fmin (fmax minimum0 (Fin 0)) nyquist, fmin (fmax maximum0 (Fin 0)) nyquist)
               else (minimum0, maximum0)) in
        if minimum < maximum then Some (minimum, maximum) else None)"

text \<open>The bins within the range of frequencies. The outer \<^const>\<open>None\<close> is an undefined conversion,
  the inner one the result \<^verbatim>\<open>false\<close>.\<close>

record BIN_RANGE =
  first_bin :: u32
  last_bin :: u32
  minimum_frequency :: cfloat
  maximum_frequency :: cfloat

definition spectral_bin_range ::
  "WATCH_MSG_SPECTRAL_CONFIG \<Rightarrow> STREAM_SPECTRAL_BUFFER \<Rightarrow> BIN_RANGE option option" where
  "spectral_bin_range c s =
     (let nyquist = fmul f32 (of_u32 f32 (sb_sample_rate s)) (Fin (1 / 2));
          r = frequency_range c;
          minimum = (if is_min_auto r \<noteq> 0 then Fin 0 else fmin (fmax (range_min r) (Fin 0)) nyquist);
          maximum = (if is_max_auto r \<noteq> 0 then nyquist else fmin (fmax (range_max r) (Fin 0)) nyquist) in
      if maximum \<le> minimum then Some None
      else
        let bin_width = fdiv f64 (of_u32 f64 (sb_sample_rate s)) (of_u32 f64 (sb_fft_size s)) in
        (case (to_u32 (fceil (fdiv f64 minimum bin_width)), to_u32 (ffloor (fdiv f64 maximum bin_width))) of
           (Some first, Some last0) \<Rightarrow>
             if first \<ge> sb_total_bins s then Some None
             else
               let last = (if last0 \<ge> sb_total_bins s then sb_total_bins s - 1 else last0) in
               if last < first then Some None
               else Some (Some \<lparr>first_bin = first, last_bin = last, minimum_frequency = minimum,
                 maximum_frequency = maximum\<rparr>)
         | _ \<Rightarrow> None))"

text \<open>The bins it selects exist.\<close>

lemma spectral_bin_range_in:
  assumes "spectral_bin_range c s = Some (Some b)"
  shows "first_bin b \<le> last_bin b" "last_bin b < sb_total_bins s"
proof -
  have below: "x - 1 < (x :: u32)" if "y < x" for x y :: u32
  proof -
    have "x \<noteq> 0" using that by auto
    then have "unat (x - 1) = unat x - 1" "0 < unat x" by (simp_all add: unat_minus_one unat_gt_0)
    then show ?thesis by (simp add: word_less_nat_alt)
  qed
  have f: "\<not> sb_total_bins s \<le> first_bin b" "\<not> last_bin b < first_bin b"
    "last_bin b = sb_total_bins s - 1 \<or> \<not> sb_total_bins s \<le> last_bin b"
    using assms unfolding spectral_bin_range_def Let_def by (auto split: option.splits if_split_asm)
  show "first_bin b \<le> last_bin b" using f(2) by (simp add: not_less)
  show "last_bin b < sb_total_bins s"
    using f(1,3) below [of "first_bin b" "sb_total_bins s"] by (auto simp: not_le)
qed

section \<open>The axes of a graph\<close>

text \<open>What \<^verbatim>\<open>ensure_graph_tick_labels\<close> passes on, by domain; \<^const>\<open>None\<close> is the result
  \<^verbatim>\<open>false\<close>.\<close>

definition ticks_or :: "nat \<Rightarrow> u32 \<Rightarrow> nat" where
  "ticks_or dflt n = (if n = 0 then dflt else unat n)"

definition graph_axes ::
  "WATCH_MSG_CONFIG \<Rightarrow> STREAM_FTABLE_BUFFER list option \<Rightarrow> STREAM_SPECTRAL_BUFFER list \<Rightarrow> AXES option" where
  "graph_axes g ftable_streams spectral_streams =
     (if is_time_domain (domain g)
      then
        let c = set_time (settings g); (ymin, ymax) = resolve_scope_range c in
        Some \<lparr>x_intervals = ticks_or DEFAULT_X_TICKS (time_nxticks c),
          y_intervals = ticks_or DEFAULT_Y_TICKS (time_nyticks c), axis_xmin = Fin 0, axis_xmax = win_size c,
          axis_ymin = ymin, axis_ymax = ymax, axis_x_format = TICK_FORMAT_TIME,
          axis_y_format = TICK_FORMAT_NUMBER\<rparr>
      else if is_point_domain (domain g)
      then
        let c = set_point (settings g); (xmin, xmax) = resolve_point_range (point_xrange c);
            (ymin, ymax) = resolve_point_range (point_yrange c) in
        Some \<lparr>x_intervals = POINT_TICKS, y_intervals = POINT_TICKS, axis_xmin = xmin, axis_xmax = xmax,
          axis_ymin = ymin, axis_ymax = ymax, axis_x_format = TICK_FORMAT_NUMBER,
          axis_y_format = TICK_FORMAT_NUMBER\<rparr>
      else if is_meter_domain (domain g)
      then
        let c = set_meter (settings g); (ymin, ytop, divisions) = resolve_meter_axis c in
        Some \<lparr>x_intervals = unat (nchnls c * 2), y_intervals = unat divisions, axis_xmin = Fin 0,
          axis_xmax = of_u32 f32 (nchnls c), axis_ymin = ymin, axis_ymax = ytop,
          axis_x_format = TICK_FORMAT_CHANNEL, axis_y_format = TICK_FORMAT_NUMBER\<rparr>
      else if is_ftable_domain (domain g)
      then
        let c = set_ftable (settings g) in
        (case resolve_ftable_range c ftable_streams of
           None \<Rightarrow> None
         | Some (ymin, ymax) \<Rightarrow>
             Some \<lparr>x_intervals = DEFAULT_X_TICKS, y_intervals = DEFAULT_Y_TICKS, axis_xmin = Fin 0,
               axis_xmax = (if ft_win_size c > 1 then of_u32 f32 (ft_win_size c - 1) else Fin 1),
               axis_ymin = ymin, axis_ymax = ymax, axis_x_format = TICK_FORMAT_NUMBER,
               axis_y_format = TICK_FORMAT_NUMBER\<rparr>)
      else if domain g = WATCH_DOMAIN_SPECTRUM
      then
        let c = set_spectral (settings g) in
        (case resolve_frequency_axis_range c spectral_streams of
           None \<Rightarrow> None
         | Some (xmin, xmax) \<Rightarrow>
             let (ymin, ymax) = resolve_spectral_static_range c in
             Some \<lparr>x_intervals = ticks_or DEFAULT_X_TICKS (spec_nxticks c),
               y_intervals = ticks_or DEFAULT_Y_TICKS (spec_nyticks c), axis_xmin = xmin, axis_xmax = xmax,
               axis_ymin = ymin, axis_ymax = ymax, axis_x_format = TICK_FORMAT_FREQUENCY,
               axis_y_format = TICK_FORMAT_NUMBER\<rparr>)
      else if domain g = WATCH_DOMAIN_SPECTROGRAM
      then
        let c = set_spectral (settings g) in
        (case resolve_frequency_axis_range c spectral_streams of
           None \<Rightarrow> None
         | Some (ymin, ymax) \<Rightarrow>
             Some \<lparr>x_intervals = ticks_or DEFAULT_X_TICKS (spec_nxticks c),
               y_intervals = ticks_or DEFAULT_Y_TICKS (spec_nyticks c),
               axis_xmin = fneg (history_seconds c), axis_xmax = Fin 0, axis_ymin = ymin, axis_ymax = ymax,
               axis_x_format = TICK_FORMAT_TIME, axis_y_format = TICK_FORMAT_FREQUENCY\<rparr>)
      else None)"

definition ensure_graph_tick_labels ::
  "LABEL_HOST \<Rightarrow> WATCH_MSG_CONFIG \<Rightarrow> STREAM_FTABLE_BUFFER list option \<Rightarrow> STREAM_SPECTRAL_BUFFER list
     \<Rightarrow> cfloat \<Rightarrow> TICK_LABEL_CACHE \<Rightarrow> (bool \<times> TICK_LABEL_CACHE) option" where
  "ensure_graph_tick_labels h g ftable_streams spectral_streams density cache =
     (case graph_axes g ftable_streams spectral_streams of
        None \<Rightarrow> Some (False, cache)
      | Some a \<Rightarrow> ensure_tick_labels h a density cache)"

section \<open>The plot area\<close>

record PLOT_AREA =
  pa_left :: cfloat
  pa_right :: cfloat
  pa_top :: cfloat
  pa_bottom :: cfloat
  pa_width :: cfloat
  pa_heigth :: cfloat
  pa_x_center :: cfloat
  pa_y_center :: cfloat

definition maximum_tick_width :: "TICK_AXIS_LABELS \<Rightarrow> cfloat" where
  "maximum_tick_width a = fold (\<lambda>e m. fmax m (lb_width (te_label e))) (ta_entries a) (Fin 0)"

definition maximum_tick_height :: "TICK_AXIS_LABELS \<Rightarrow> cfloat" where
  "maximum_tick_height a = fold (\<lambda>e m. fmax m (lb_height (te_label e))) (ta_entries a) (Fin 0)"

text \<open>Sizes of the window in pixels, heights of the names of the axes.\<close>

definition get_plot_area ::
  "cfloat \<Rightarrow> int \<Rightarrow> int \<Rightarrow> cfloat \<Rightarrow> cfloat \<Rightarrow> TICK_LABEL_CACHE \<Rightarrow> PLOT_AREA" where
  "get_plot_area density width heigth x_label_height y_label_height labels =
     (let outer_padding = fmul f32 (Fin 8) density; tick_gap = fmul f32 (Fin 3) density;
          axis_gap = fmul f32 (Fin 6) density; mark_length = fmul f32 (Fin 5) density;
          x_tick_height = maximum_tick_height (tc_x labels); x_tick_width = maximum_tick_width (tc_x labels);
          y_tick_height = maximum_tick_height (tc_y labels); y_tick_width = maximum_tick_width (tc_y labels);
          left = fadd f32 (fadd f32 (fadd f32 (fadd f32 (fadd f32 outer_padding y_label_height) axis_gap)
                   y_tick_width) tick_gap) mark_length;
          right = fsub f32 (fround f32 (of_int width))
                   (fmax outer_padding (fadd f32 (fmul f32 x_tick_width (Fin (1 / 2))) outer_padding));
          top = fmax outer_padding (fadd f32 (fmul f32 y_tick_height (Fin (1 / 2))) outer_padding);
          bottom = fsub f32 (fsub f32 (fsub f32 (fsub f32 (fsub f32 (fsub f32 (fround f32 (of_int heigth))
                   outer_padding) x_label_height) axis_gap) x_tick_height) tick_gap) mark_length;
          plot_width = fsub f32 right left; plot_heigth = fsub f32 bottom top in
      \<lparr>pa_left = left, pa_right = right, pa_top = top, pa_bottom = bottom, pa_width = plot_width,
       pa_heigth = plot_heigth, pa_x_center = fadd f32 left (fmul f32 plot_width (Fin (1 / 2))),
       pa_y_center = fadd f32 top (fmul f32 plot_heigth (Fin (1 / 2)))\<rparr>)"

definition square_plot_area :: "PLOT_AREA \<Rightarrow> PLOT_AREA" where
  "square_plot_area p =
     (if pa_width p \<le> Fin 0 \<or> pa_heigth p \<le> Fin 0 then p
      else
        let side = fmin (pa_width p) (pa_heigth p); half = fmul f32 side (Fin (1 / 2)) in
        p\<lparr>pa_left := fsub f32 (pa_x_center p) half, pa_right := fadd f32 (pa_x_center p) half,
          pa_top := fsub f32 (pa_y_center p) half, pa_bottom := fadd f32 (pa_y_center p) half,
          pa_width := side, pa_heigth := side\<rparr>)"

section \<open>The table fits its axis\<close>

definition shown_table :: "STREAM_FTABLE_BUFFER \<Rightarrow> bool" where
  "shown_table s \<longleftrightarrow> fb_display_ready s \<and> fb_has_range s"

text \<open>The range of a table is one of floats.\<close>

definition float_range :: "STREAM_FTABLE_BUFFER \<Rightarrow> bool" where
  "float_range s \<longleftrightarrow> (\<exists>p q. fb_data_minimum s = Fin p \<and> fb_data_maximum s = Fin q \<and> p \<le> q
     \<and> fround f32 p = Fin p \<and> fround f32 q = Fin q)"

lemma scan_ftable_spec:
  assumes "\<forall>s \<in> set ss. shown_table s \<longrightarrow> float_range s"
  shows "\<exists>found p q. fold scan_ftable ss (False, Fin 0, Fin 0) = (found, Fin p, Fin q)
    \<and> (found \<longleftrightarrow> (\<exists>s \<in> set ss. shown_table s))
    \<and> (found \<longrightarrow> p \<le> q \<and> fround f32 p = Fin p \<and> fround f32 q = Fin q
        \<and> (\<forall>s \<in> set ss. shown_table s \<longrightarrow> Fin p \<le> fb_data_minimum s \<and> fb_data_maximum s \<le> Fin q))"
  using assms
proof (induction ss rule: rev_induct)
  case (snoc s ss)
  then obtain found p q where IH: "fold scan_ftable ss (False, Fin 0, Fin 0) = (found, Fin p, Fin q)"
    "found \<longleftrightarrow> (\<exists>s \<in> set ss. shown_table s)"
    "found \<longrightarrow> p \<le> q \<and> fround f32 p = Fin p \<and> fround f32 q = Fin q
        \<and> (\<forall>s \<in> set ss. shown_table s \<longrightarrow> Fin p \<le> fb_data_minimum s \<and> fb_data_maximum s \<le> Fin q)"
    by auto
  show ?case
  proof (cases "shown_table s")
    case False
    then have "scan_ftable s (found, Fin p, Fin q) = (found, Fin p, Fin q)"
      by (auto simp: scan_ftable_def shown_table_def)
    then show ?thesis using IH False by auto
  next
    case True
    then obtain a b where ab: "fb_data_minimum s = Fin a" "fb_data_maximum s = Fin b" "a \<le> b"
      "fround f32 a = Fin a" "fround f32 b = Fin b"
      using snoc.prems by (auto simp: float_range_def)
    let ?p = "if found then min p a else a" and ?q = "if found then max q b else b"
    have step: "scan_ftable s (found, Fin p, Fin q) = (True, Fin ?p, Fin ?q)"
      using True ab by (auto simp: scan_ftable_def shown_table_def fmin_def fmax_def)
    have "fround f32 ?p = Fin ?p" "fround f32 ?q = Fin ?q" "?p \<le> ?q"
      using ab IH(3) by (auto simp: min_def max_def)
    moreover have "\<forall>t \<in> set (ss @ [s]). shown_table t \<longrightarrow> Fin ?p \<le> fb_data_minimum t \<and> fb_data_maximum t \<le> Fin ?q"
    proof (intro ballI impI)
      fix t assume t: "t \<in> set (ss @ [s])" "shown_table t"
      show "Fin ?p \<le> fb_data_minimum t \<and> fb_data_maximum t \<le> Fin ?q"
      proof (cases "t \<in> set ss")
        case False
        then show ?thesis using t ab by simp
      next
        case in_ss: True
        then have f: found and le: "Fin p \<le> fb_data_minimum t" "fb_data_maximum t \<le> Fin q"
          using t(2) IH(2,3) by auto
        have "Fin ?p \<le> Fin p" "Fin q \<le> Fin ?q" using f by simp_all
        then show ?thesis using le finite_le_trans by (metis isfinite.simps(1))
      qed
    qed
    ultimately show ?thesis using IH(1) step True
      by (intro exI [of _ True] exI [of _ ?p] exI [of _ ?q]) simp
  qed
qed auto

text \<open>A padding is at least one.\<close>

lemma padding_ge_1:
  assumes "isfinite x"
  shows "Fin 1 \<le> fmax (fmul f32 (fabsf x) (fround f32 (1 / 10))) (Fin 1)"
  by (cases "fmul f32 (fabsf x) (fround f32 (1 / 10))") (auto simp: fmax_def less_eq_cfloat_def)

lemma padded_above: "fround f32 q = Fin q \<Longrightarrow> Fin 1 \<le> p \<Longrightarrow> Fin q \<le> fadd f32 (Fin q) p"
proof -
  assume q: "fround f32 q = Fin q" and p: "Fin 1 \<le> p"
  show ?thesis
  proof (cases p)
    case (Fin r)
    then have "fround f32 q \<le> fround f32 (q + r)" using p by (intro fround_mono) simp_all
    then show ?thesis using q Fin by simp
  qed (use p in \<open>auto simp: less_eq_cfloat_def\<close>)
qed

lemma padded_below: "fround f32 q = Fin q \<Longrightarrow> Fin 1 \<le> p \<Longrightarrow> fsub f32 (Fin q) p \<le> Fin q"
proof -
  assume q: "fround f32 q = Fin q" and p: "Fin 1 \<le> p"
  show ?thesis
  proof (cases p)
    case (Fin r)
    then have "fround f32 (q - r) \<le> fround f32 q" using p by (intro fround_mono) simp_all
    then show ?thesis using q Fin by (simp add: fsub_def)
  qed (use p in \<open>auto simp: less_eq_cfloat_def fsub_def\<close>)
qed

text \<open>Doubling and halving a float is exact unless it overflows.\<close>

lemma round_rat_double:
  assumes p: "round_rat fmt p = p"
  shows "round_rat fmt (p + p) = p + p"
proof (cases "p = 0")
  case False
  let ?u = "ulp_exp fmt p" and ?v = "ulp_exp fmt (p + p)"
  obtain m where m: "p = of_int m * 2 powi ?u"
    using p False by (metis round_rat_def)
  have "\<bar>p\<bar> < 2 powi (ilog2 \<bar>p\<bar> + 1)" using ilog2_bounds [of "\<bar>p\<bar>"] False by simp
  then have "\<bar>p + p\<bar> < 2 powi (ilog2 \<bar>p\<bar> + 2)"
    by (simp add: power_int_add abs_if split: if_splits)
  then have "ilog2 \<bar>p + p\<bar> < ilog2 \<bar>p\<bar> + 2" using False by (intro ilog2_less) auto
  then have v: "?v \<le> ?u + 1" unfolding ulp_exp_def by linarith
  have "p + p = of_int m * 2 powi (?u + 1)" by (subst (1 2) m) (simp add: power_int_add)
  then have "(p + p) / 2 powi ?v = of_int m * 2 powi (?u + 1 - ?v)" by (simp add: power_int_diff)
  also have "\<dots> = of_int (m * 2 ^ nat (?u + 1 - ?v))" using v by (simp add: power_int_def)
  finally have int: "(p + p) / 2 powi ?v = of_int (m * 2 ^ nat (?u + 1 - ?v))" .
  have "of_int (round_even ((p + p) / 2 powi ?v)) * 2 powi ?v = (p + p) / 2 powi ?v * 2 powi ?v"
    unfolding int round_even_of_int ..
  then show ?thesis using False by (simp add: round_rat_def)
qed simp

lemma fround_Fin_iff: "fround f32 q = Fin r \<Longrightarrow> r = round_rat f32 q"
  by (auto simp: fround_def Let_def split: if_splits)

lemma fround_double: "fround f32 p = Fin p \<Longrightarrow> fround f32 (p + p) = Fin x \<Longrightarrow> x = p + p"
  using round_rat_double [of f32 p] by (auto dest!: fround_Fin_iff)

lemma double_half:
  assumes "fround f32 p = Fin p"
  shows "fmul f32 (fadd f32 (Fin p) (Fin p)) (Fin (1 / 2)) \<in> {Fin p, PInf, NInf}"
proof (cases "fround f32 (p + p)")
  case (Fin x)
  then have "x = p + p" using fround_double assms by blast
  then show ?thesis using Fin assms by simp
qed (auto simp: inf_signed_def fround_def Let_def split: if_splits)

lemma lower_le: "x \<le> Fin a \<Longrightarrow> Fin a \<le> y \<Longrightarrow> x \<le> y"
  by (cases x; cases y) (auto simp: less_eq_cfloat_def)

lemma not_le_lt: "\<not> Fin a \<le> Fin b \<Longrightarrow> Fin b \<le> Fin a"
  by simp

text \<open>The limits of a resolved range, for the three kinds of automatic axis.\<close>

lemma both_auto_encloses:
  assumes "resolve_ftable_range c (Some ss) = Some (lo, hi)"
    and "fold scan_ftable ss (False, Fin 0, Fin 0) = (found, Fin p, Fin q)"
    and "is_min_auto (ft_yrange c) \<noteq> 0" "is_max_auto (ft_yrange c) \<noteq> 0"
    and "p \<le> q" "fround f32 p = Fin p"
  shows "lo \<le> Fin p \<and> Fin q \<le> hi"
proof (cases "q \<le> p")
  case False
  then show ?thesis using assms(1-5) by (auto simp: resolve_ftable_range_def Let_def split: if_splits)
next
  case True
  then have pq: "q = p" using assms by simp
  let ?c = "fmul f32 (fadd f32 (Fin p) (Fin p)) (Fin (1 / 2))"
  let ?d = "fmax (fmul f32 (fabsf ?c) (fround f32 (1 / 10))) (Fin 1)"
  have e: "lo = fsub f32 ?c ?d" "hi = fadd f32 ?c ?d" and lh: "lo < hi"
    using assms unfolding pq resolve_ftable_range_def Let_def
    by (simp_all del: fadd.simps fmul.simps split: if_splits)
  have "?c = Fin p"
  proof (rule ccontr)
    assume "?c \<noteq> Fin p"
    then have "?c = PInf \<or> ?c = NInf" using double_half assms(6) by blast
    then show False using lh unfolding e fsub_def by (cases ?d) auto
  qed
  then show ?thesis using padded_above padded_below padding_ge_1 [of ?c] assms(6) unfolding e pq by simp
qed

lemma min_auto_encloses:
  assumes "resolve_ftable_range c (Some ss) = Some (lo, hi)"
    and "fold scan_ftable ss (False, Fin 0, Fin 0) = (found, Fin p, Fin q)"
    and "is_min_auto (ft_yrange c) \<noteq> 0" "is_max_auto (ft_yrange c) = 0"
    and "range_max (ft_yrange c) = Fin a" "fround f32 a = Fin a"
  shows "lo \<le> Fin p \<and> hi = Fin a"
proof (cases "a \<le> p")
  case False
  then show ?thesis using assms(1-5) by (auto simp: resolve_ftable_range_def Let_def split: if_splits)
next
  case True
  have "lo = fsub f32 (Fin a) (fmax (fmul f32 (fabsf (Fin a)) (fround f32 (1 / 10))) (Fin 1))" "hi = Fin a"
    using assms(1-5) True unfolding resolve_ftable_range_def Let_def
    by (auto simp del: fadd.simps fmul.simps fabsf.simps split: if_splits)
  then show ?thesis using True padded_below [OF assms(6) padding_ge_1 [of "Fin a"]] lower_le by simp
qed

lemma max_auto_encloses:
  assumes "resolve_ftable_range c (Some ss) = Some (lo, hi)"
    and "fold scan_ftable ss (False, Fin 0, Fin 0) = (found, Fin p, Fin q)"
    and "is_min_auto (ft_yrange c) = 0" "is_max_auto (ft_yrange c) \<noteq> 0"
    and "range_min (ft_yrange c) = Fin a" "fround f32 a = Fin a"
  shows "lo = Fin a \<and> Fin q \<le> hi"
proof (cases "q \<le> a")
  case False
  then show ?thesis using assms(1-5) by (auto simp: resolve_ftable_range_def Let_def split: if_splits)
next
  case True
  have "hi = fadd f32 (Fin a) (fmax (fmul f32 (fabsf (Fin a)) (fround f32 (1 / 10))) (Fin 1))" "lo = Fin a"
    using assms(1-5) True unfolding resolve_ftable_range_def Let_def
    by (auto simp del: fadd.simps fmul.simps fabsf.simps split: if_splits)
  then show ?thesis
    using True padded_above [OF assms(6) padding_ge_1 [of "Fin a"]] lower_le [of "Fin q" a hi] by simp
qed

lemma needs_a_table:
  assumes "resolve_ftable_range c (Some ss) = Some (lo, hi)"
    and "fold scan_ftable ss (False, Fin 0, Fin 0) = (found, Fin p, Fin q)"
    and "is_min_auto (ft_yrange c) \<noteq> 0 \<or> is_max_auto (ft_yrange c) \<noteq> 0"
  shows found
  using assms by (auto simp: resolve_ftable_range_def Let_def split: if_splits)

text \<open>A limit of an accepted configuration that is a float.\<close>

lemma accepted_limit:
  assumes "valid_range r False"
  shows "is_min_auto r = 0 \<Longrightarrow> to_float (range_min r) = range_min r
      \<Longrightarrow> \<exists>a. range_min r = Fin a \<and> fround f32 a = Fin a"
    "is_max_auto r = 0 \<Longrightarrow> to_float (range_max r) = range_max r
      \<Longrightarrow> \<exists>a. range_max r = Fin a \<and> fround f32 a = Fin a"
  using assms by (cases "range_min r"; cases "range_max r"; auto simp: valid_range_def split: if_splits)+

text \<open>The padding around a constant table reaches the next float, so the axis is not empty.\<close>

lemma representable_le:
  assumes m: "\<bar>m\<bar> \<le> 2 ^ prec fmt" and e: "emin fmt \<le> e" and p: "0 < prec fmt"
  shows "round_rat fmt (of_int m * 2 powi e) = of_int m * 2 powi e"
proof (cases "\<bar>m\<bar> = 2 ^ prec fmt")
  case True
  obtain n where n: "prec fmt = Suc n" using p by (cases "prec fmt") auto
  define k where "k = (if 0 < m then 2 ^ n else - (2 ^ n) :: int)"
  have "m = 2 * k" using True by (auto simp: k_def n abs_if split: if_splits)
  then have "of_int m * 2 powi e = (of_int k * 2 powi (e + 1) :: rat)" by (simp add: power_int_add)
  moreover have "\<bar>k\<bar> < 2 ^ prec fmt" by (simp add: k_def n)
  ultimately show ?thesis using round_rat_representable [of k fmt "e + 1"] e by simp
qed (use round_rat_representable [OF _ e] m in auto)

lemma float_step:
  assumes q: "fround f32 q = Fin q"
  obtains u where "- 149 \<le> u" "2 powi u \<le> (1 :: rat) \<or> 2 powi (u + 23) \<le> \<bar>q\<bar>"
    "round_rat f32 (q + 2 powi u) = q + 2 powi u" "round_rat f32 (q - 2 powi u) = q - 2 powi u"
proof (cases "q = 0")
  case True
  then show ?thesis
    using that [of 0] round_rat_representable [of 1 f32 0] round_rat_representable [of "- 1" f32 0] by simp
next
  case False
  let ?u = "ulp_exp f32 q"
  have "q = round_rat f32 q" using q by (rule fround_Fin_iff)
  then obtain m where m: "q = of_int m * 2 powi ?u" using False by (metis round_rat_def)
  have u: "- 149 \<le> ?u" and up: "ilog2 \<bar>q\<bar> + 1 \<le> ?u + 24" by (simp_all add: ulp_exp_def)
  have b: "2 powi ilog2 \<bar>q\<bar> \<le> \<bar>q\<bar>" "\<bar>q\<bar> < 2 powi (ilog2 \<bar>q\<bar> + 1)"
    using ilog2_bounds [of "\<bar>q\<bar>"] False by simp_all
  have "\<bar>q\<bar> < 2 powi (?u + 24)"
    using b(2) power_int_increasing [OF up, of "2 :: rat"] by simp
  moreover have "\<bar>q\<bar> = of_int \<bar>m\<bar> * 2 powi ?u" by (subst m) (simp add: abs_mult)
  moreover have "(2 :: rat) powi (?u + 24) = 2 ^ 24 * 2 powi ?u" by (simp add: power_int_add)
  ultimately have "of_int \<bar>m\<bar> * 2 powi ?u < (2 ^ 24 :: rat) * 2 powi ?u" by (simp only:)
  then have "of_int \<bar>m\<bar> < (of_int (2 ^ 24) :: rat)" by simp
  then have "\<bar>m\<bar> < 2 ^ 24" by (simp only: of_int_less_iff)
  then have "\<bar>m + 1\<bar> \<le> 2 ^ 24" "\<bar>m - 1\<bar> \<le> 2 ^ 24" by simp_all
  then have "round_rat f32 (of_int (m + 1) * 2 powi ?u) = of_int (m + 1) * 2 powi ?u"
    "round_rat f32 (of_int (m - 1) * 2 powi ?u) = of_int (m - 1) * 2 powi ?u"
    using representable_le [of "m + 1" f32 ?u] representable_le [of "m - 1" f32 ?u] u by simp_all
  moreover have "of_int (m + 1) * 2 powi ?u = q + 2 powi ?u" "of_int (m - 1) * 2 powi ?u = q - 2 powi ?u"
    by (subst (2) m, simp add: algebra_simps)+
  moreover have "2 powi ?u \<le> (1 :: rat) \<or> 2 powi (?u + 23) \<le> \<bar>q\<bar>"
  proof (cases "?u \<le> 0")
    case True
    then show ?thesis using power_int_increasing [of ?u 0 "2 :: rat"] by simp
  next
    case False
    then have "?u + 23 = ilog2 \<bar>q\<bar>" by (auto simp: ulp_exp_def)
    then show ?thesis using b(1) by simp
  qed
  ultimately show ?thesis using that [of ?u] u by simp
qed

lemma tenth: obtains t where "fround f32 (1 / 10) = Fin t" "1 / 16 \<le> t" "t \<le> 1"
proof -
  have "round_rat f32 (1 / 16) \<le> round_rat f32 (1 / 10)" "round_rat f32 (1 / 10) \<le> round_rat f32 1"
    by (rule round_rat_mono; simp)+
  moreover have "round_rat f32 (1 / 16) = 1 / 16" "round_rat f32 1 = 1"
    using round_rat_representable [of 1 f32 "- 4"] round_rat_representable [of 1 f32 0]
    by (simp_all add: power_int_minus)
  moreover have "\<bar>1 / 10 :: rat\<bar> \<le> max_finite f32" by (simp add: max_finite_def power_int_def)
  ultimately show ?thesis using that fround_f32_finite(1) by metis
qed

lemma powi_126: "\<bar>q :: rat\<bar> \<le> 2 ^ 127 + 1 \<Longrightarrow> \<bar>q\<bar> \<le> max_finite f32"
  by (rule order_trans, assumption) (simp add: max_finite_def power_int_def)

lemma padded_strict:
  fixes q :: rat
  defines "d \<equiv> fmax (fmul f32 (fabsf (Fin q)) (fround f32 (1 / 10))) (Fin 1)"
  assumes q: "fround f32 q = Fin q" and b: "\<bar>q\<bar> \<le> 2 ^ 126"
  shows "\<exists>l h. fsub f32 (Fin q) d = Fin l \<and> fadd f32 (Fin q) d = Fin h \<and> l < q \<and> q < h"
proof -
  obtain t where t: "fround f32 (1 / 10) = Fin t" "1 / 16 \<le> t" "t \<le> 1" by (rule tenth)
  have r: "round_rat f32 \<bar>q\<bar> = \<bar>q\<bar>" using fround_Fin_iff [OF q] by (auto simp: abs_if round_rat_minus)
  have qt: "\<bar>q\<bar> * t \<le> \<bar>q\<bar>" "0 \<le> \<bar>q\<bar> * t" using t by (auto intro: mult_left_le)
  moreover have "(2 :: rat) ^ 126 \<le> 2 ^ 127 + 1" by simp
  ultimately have "\<bar>\<bar>q\<bar> * t\<bar> \<le> max_finite f32"
    using b abs_of_nonneg [OF qt(2)] by (intro powi_126) linarith
  then obtain p where p: "fround f32 (\<bar>q\<bar> * t) = Fin p" "p = round_rat f32 (\<bar>q\<bar> * t)"
    using fround_f32_finite(1) by blast
  define e where "e = max p 1"
  have d: "d = Fin e" unfolding d_def e_def t(1) by (simp add: p(1) fmax_def max_def)
  have p_le: "p \<le> \<bar>q\<bar>" using round_rat_mono [OF qt(1), of f32] r p(2) by simp
  obtain u where u: "- 149 \<le> u" "2 powi u \<le> (1 :: rat) \<or> 2 powi (u + 23) \<le> \<bar>q\<bar>"
    "round_rat f32 (q + 2 powi u) = q + 2 powi u" "round_rat f32 (q - 2 powi u) = q - 2 powi u"
    using float_step [OF q] by blast
  have ue: "2 powi u \<le> e"
  proof (cases "2 powi u \<le> (1 :: rat)")
    case False
    then have "2 powi u * 8388608 \<le> \<bar>q\<bar>" using u(2) by (simp add: power_int_add)
    moreover have "(0 :: rat) < 2 powi u" by simp
    ultimately have "2 powi u \<le> \<bar>q\<bar> * (1 / 16)" by linarith
    also have "\<dots> \<le> \<bar>q\<bar> * t" using t(2) by (intro mult_left_mono) auto
    finally have "round_rat f32 (2 powi u) \<le> p" unfolding p(2) by (rule round_rat_mono) simp
    moreover have "round_rat f32 (2 powi u) = 2 powi u"
      using round_rat_representable [of 1 f32 u] u(1) by simp
    ultimately show ?thesis by (simp add: e_def)
  qed (simp add: e_def)
  have "\<bar>q + e\<bar> \<le> max_finite f32" "\<bar>q - e\<bar> \<le> max_finite f32"
    by (rule powi_126; use b p_le in \<open>simp add: e_def max_def abs_if split: if_splits\<close>)+
  then have f: "fsub f32 (Fin q) d = Fin (round_rat f32 (q - e))" "fadd f32 (Fin q) d = Fin (round_rat f32 (q + e))"
    by (simp_all add: d fsub_def fround_f32_finite(1))
  have "q + 2 powi u \<le> round_rat f32 (q + e)" "round_rat f32 (q - e) \<le> q - 2 powi u"
    using round_rat_mono [of "q + 2 powi u" "q + e" f32] round_rat_mono [of "q - e" "q - 2 powi u" f32] ue u by simp_all
  moreover have "(0 :: rat) < 2 powi u" by simp
  ultimately have "round_rat f32 (q - e) < q" "q < round_rat f32 (q + e)" by linarith+
  then show ?thesis using f by blast
qed

lemma ordinary_centre:
  assumes q: "fround f32 p = Fin p" and b: "\<bar>p\<bar> \<le> 2 ^ 126"
  shows "fmul f32 (fadd f32 (Fin p) (Fin p)) (Fin (1 / 2)) = Fin p"
proof -
  have "\<bar>p + p\<bar> \<le> max_finite f32" using b by (intro powi_126) (simp add: abs_if split: if_splits)
  then have "isfinite (fadd f32 (Fin p) (Fin p))" by (simp add: fround_f32_finite(1))
  then show ?thesis using double_half [OF q] fround_double [OF q] q
    by (cases "fround f32 (p + p)") auto
qed


text \<open>A float whose double does not overflow; the limit is \<open>2 ^ 126\<close>, about \<open>8.5e37\<close>.\<close>

definition ordinary :: "cfloat \<Rightarrow> bool" where
  "ordinary x \<longleftrightarrow> (\<exists>q. x = Fin q \<and> fround f32 q = Fin q \<and> \<bar>q\<bar> \<le> 2 ^ 126)"

lemma ordinary_between: "ordinary (Fin q) \<longleftrightarrow> fround f32 q = Fin q \<and> \<bar>q\<bar> \<le> 2 ^ 126"
  by (simp add: ordinary_def)

lemma scan_ftable_ordinary:
  assumes "shown_table s \<longrightarrow> ordinary (fb_data_minimum s) \<and> ordinary (fb_data_maximum s)"
    and "ordinary a \<and> ordinary b" "scan_ftable s (f, a, b) = (found, mn, mx)"
  shows "ordinary mn \<and> ordinary mx"
  using assms by (auto simp: scan_ftable_def shown_table_def fmin_def fmax_def split: if_splits)

lemma scan_ordinary:
  assumes "\<forall>s \<in> set ss. shown_table s \<longrightarrow> ordinary (fb_data_minimum s) \<and> ordinary (fb_data_maximum s)"
    and "fold scan_ftable ss (False, Fin 0, Fin 0) = (found, mn, mx)"
  shows "ordinary mn \<and> ordinary mx"
  using assms
proof (induction ss arbitrary: found mn mx rule: rev_induct)
  case Nil
  have "ordinary (Fin 0)" using fround_f32_int [of 0] by (simp add: ordinary_def)
  moreover have "mn = Fin 0" "mx = Fin 0" using Nil by auto
  ultimately show ?case by simp
next
  case (snoc s ss)
  obtain f a b where f: "fold scan_ftable ss (False, Fin 0, Fin 0) = (f, a, b)" by (metis prod_cases3)
  then have "ordinary a \<and> ordinary b" using snoc by simp
  moreover have "scan_ftable s (f, a, b) = (found, mn, mx)" using snoc.prems f by simp
  ultimately show ?case using snoc.prems(1) scan_ftable_ordinary [of s a b f found mn mx] by simp
qed

lemma ftable_range_exists:
  assumes sc: "fold scan_ftable ss (False, Fin 0, Fin 0) = (found, Fin p, Fin q)"
    and found: "is_min_auto (ft_yrange c) \<noteq> 0 \<or> is_max_auto (ft_yrange c) \<noteq> 0 \<Longrightarrow> found \<and> p \<le> q"
    and v: "valid_range (ft_yrange c) False"
    and o: "ordinary (Fin p)" "ordinary (Fin q)"
      "is_min_auto (ft_yrange c) = 0 \<Longrightarrow> ordinary (range_min (ft_yrange c))"
      "is_max_auto (ft_yrange c) = 0 \<Longrightarrow> ordinary (range_max (ft_yrange c))"
  shows "\<exists>l h. resolve_ftable_range c (Some ss) = Some (Fin l, Fin h)"
proof (cases "is_min_auto (ft_yrange c) = 0"; cases "is_max_auto (ft_yrange c) = 0")
  assume a: "is_min_auto (ft_yrange c) = 0" "is_max_auto (ft_yrange c) = 0"
  then show ?thesis using v o(3,4) by (auto simp: resolve_ftable_range_def valid_range_def ordinary_def Let_def)
next
  assume a: "is_min_auto (ft_yrange c) = 0" "is_max_auto (ft_yrange c) \<noteq> 0"
  then obtain x where x: "range_min (ft_yrange c) = Fin x" "fround f32 x = Fin x" "\<bar>x\<bar> \<le> 2 ^ 126"
    using o(3) by (auto simp: ordinary_def)
  then show ?thesis using a found sc padded_strict [OF x(2,3)]
    by (auto simp: resolve_ftable_range_def Let_def simp del: fadd.simps fmul.simps fabsf.simps)
next
  assume a: "is_min_auto (ft_yrange c) \<noteq> 0" "is_max_auto (ft_yrange c) = 0"
  then obtain x where x: "range_max (ft_yrange c) = Fin x" "fround f32 x = Fin x" "\<bar>x\<bar> \<le> 2 ^ 126"
    using o(4) by (auto simp: ordinary_def)
  then show ?thesis using a found sc padded_strict [OF x(2,3)]
    by (auto simp: resolve_ftable_range_def Let_def simp del: fadd.simps fmul.simps fabsf.simps)
next
  assume a: "is_min_auto (ft_yrange c) \<noteq> 0" "is_max_auto (ft_yrange c) \<noteq> 0"
  have p: "fround f32 p = Fin p" "\<bar>p\<bar> \<le> 2 ^ 126" using o(1) by (auto simp: ordinary_def)
  show ?thesis using a found sc padded_strict [OF p] ordinary_centre [OF p]
    by (auto simp: resolve_ftable_range_def Let_def simp del: fadd.simps fmul.simps fabsf.simps)
qed

text \<open>A resolved range encloses the tables.\<close>

lemma ftable_range_encloses:
  assumes r: "resolve_ftable_range c (Some ss) = Some (lo, hi)"
    and v: "valid_range (ft_yrange c) False"
    and fl: "\<forall>s \<in> set ss. shown_table s \<longrightarrow> float_range s"
    and lim: "is_min_auto (ft_yrange c) = 0 \<longrightarrow> to_float (range_min (ft_yrange c)) = range_min (ft_yrange c)"
      "is_max_auto (ft_yrange c) = 0 \<longrightarrow> to_float (range_max (ft_yrange c)) = range_max (ft_yrange c)"
  shows "lo < hi
    \<and> (is_min_auto (ft_yrange c) \<noteq> 0 \<longrightarrow> (\<forall>s \<in> set ss. shown_table s \<longrightarrow> lo \<le> fb_data_minimum s))
    \<and> (is_max_auto (ft_yrange c) \<noteq> 0 \<longrightarrow> (\<forall>s \<in> set ss. shown_table s \<longrightarrow> fb_data_maximum s \<le> hi))
    \<and> (is_min_auto (ft_yrange c) = 0 \<longrightarrow> lo = range_min (ft_yrange c))
    \<and> (is_max_auto (ft_yrange c) = 0 \<longrightarrow> hi = range_max (ft_yrange c))"
proof -
  let ?r = "ft_yrange c"
  have lh: "lo < hi" using r by (auto simp: resolve_ftable_range_def Let_def split: prod.splits if_splits)
  obtain found p q where sc: "fold scan_ftable ss (False, Fin 0, Fin 0) = (found, Fin p, Fin q)"
    and sp: "found \<longrightarrow> p \<le> q \<and> fround f32 p = Fin p \<and> fround f32 q = Fin q
        \<and> (\<forall>s \<in> set ss. shown_table s \<longrightarrow> Fin p \<le> fb_data_minimum s \<and> fb_data_maximum s \<le> Fin q)"
    using scan_ftable_spec [OF fl] by blast
  have "(is_min_auto ?r \<noteq> 0 \<longrightarrow> lo \<le> Fin p) \<and> (is_max_auto ?r \<noteq> 0 \<longrightarrow> Fin q \<le> hi)
    \<and> (is_min_auto ?r = 0 \<longrightarrow> lo = range_min ?r) \<and> (is_max_auto ?r = 0 \<longrightarrow> hi = range_max ?r)"
  proof (cases "is_min_auto ?r = 0"; cases "is_max_auto ?r = 0")
    assume a: "is_min_auto ?r = 0" "is_max_auto ?r = 0"
    then show ?thesis using r unfolding resolve_ftable_range_def Let_def by (simp split: if_splits)
  next
    assume a: "is_min_auto ?r = 0" "is_max_auto ?r \<noteq> 0"
    then obtain x where x: "range_min ?r = Fin x" "fround f32 x = Fin x"
      using accepted_limit(1) [OF v] lim(1) by blast
    then show ?thesis using a max_auto_encloses [OF r sc a x] by simp
  next
    assume a: "is_min_auto ?r \<noteq> 0" "is_max_auto ?r = 0"
    then obtain x where x: "range_max ?r = Fin x" "fround f32 x = Fin x"
      using accepted_limit(2) [OF v] lim(2) by blast
    then show ?thesis using a min_auto_encloses [OF r sc a x] by simp
  next
    assume a: "is_min_auto ?r \<noteq> 0" "is_max_auto ?r \<noteq> 0"
    have found using needs_a_table [OF r sc] a by blast
    then show ?thesis using a both_auto_encloses [OF r sc a] sp by simp
  qed
  moreover have "found" if "is_min_auto ?r \<noteq> 0 \<or> is_max_auto ?r \<noteq> 0"
    using needs_a_table [OF r sc that] .
  ultimately show ?thesis using lh sp lower_le by blast
qed

text \<open>Beyond that magnitude the centre of a constant table overflows and the code finds no axis.\<close>

lemma huge_constant_table:
  assumes "is_min_auto (ft_yrange c) \<noteq> 0" "is_max_auto (ft_yrange c) \<noteq> 0"
    and "fb_display_ready s" "fb_has_range s" "fb_data_minimum s = FLT_MAX" "fb_data_maximum s = FLT_MAX"
  shows "resolve_ftable_range c (Some [s]) = None"
proof -
  have "round_rat f32 (max_finite f32 + max_finite f32) = max_finite f32 + max_finite f32"
    by (intro round_rat_double round_rat_max_finite) simp
  then have "fround f32 (max_finite f32 + max_finite f32) = PInf"
    using max_finite_f32_pos by (simp add: fround_def)
  then have c: "fmul f32 (fadd f32 FLT_MAX FLT_MAX) (Fin (1 / 2)) = PInf"
    by (simp add: FLT_MAX_def inf_signed_def)
  have "\<not> fsub f32 PInf d < fadd f32 PInf d" for d by (cases d) (simp_all add: fsub_def)
  then show ?thesis
    using assms c by (simp add: resolve_ftable_range_def scan_ftable_def FLT_MAX_def Let_def)
qed

text \<open>C36: The vertical axis of a table exists and encloses what is drawn. An accepted
  configuration gets a range unless a limit is automatic and no table is displayed; the range is
  finite and not empty, also for a constant table; an automatic lower limit is not above, and an
  automatic upper limit not below, any value of a table that is displayed, and a given limit is kept.
  The tables' values and the given limits are floats of at most \<open>2 ^ 126\<close> in magnitude.\<close>

theorem ftable_axis_encloses:
  assumes v: "valid_range (ft_yrange c) False"
    and tables: "\<forall>s \<in> set ss. shown_table s \<longrightarrow> ordinary (fb_data_minimum s)
      \<and> ordinary (fb_data_maximum s) \<and> fb_data_minimum s \<le> fb_data_maximum s"
    and limits: "is_min_auto (ft_yrange c) = 0 \<longrightarrow> ordinary (range_min (ft_yrange c))"
      "is_max_auto (ft_yrange c) = 0 \<longrightarrow> ordinary (range_max (ft_yrange c))"
  shows "(resolve_ftable_range c (Some ss) = None \<longleftrightarrow>
      (is_min_auto (ft_yrange c) \<noteq> 0 \<or> is_max_auto (ft_yrange c) \<noteq> 0) \<and> (\<forall>s \<in> set ss. \<not> shown_table s))
    \<and> (\<forall>lo hi. resolve_ftable_range c (Some ss) = Some (lo, hi) \<longrightarrow>
      isfinite lo \<and> isfinite hi \<and> lo < hi
      \<and> (is_min_auto (ft_yrange c) \<noteq> 0 \<longrightarrow> (\<forall>s \<in> set ss. shown_table s \<longrightarrow> lo \<le> fb_data_minimum s))
      \<and> (is_max_auto (ft_yrange c) \<noteq> 0 \<longrightarrow> (\<forall>s \<in> set ss. shown_table s \<longrightarrow> fb_data_maximum s \<le> hi))
      \<and> (is_min_auto (ft_yrange c) = 0 \<longrightarrow> lo = range_min (ft_yrange c))
      \<and> (is_max_auto (ft_yrange c) = 0 \<longrightarrow> hi = range_max (ft_yrange c)))"
proof -
  have fl: "\<forall>s \<in> set ss. shown_table s \<longrightarrow> float_range s"
    using tables by (fastforce simp: ordinary_def float_range_def)
  obtain found p q where sc: "fold scan_ftable ss (False, Fin 0, Fin 0) = (found, Fin p, Fin q)"
    and shown: "found \<longleftrightarrow> (\<exists>s \<in> set ss. shown_table s)" and pq: "found \<longrightarrow> p \<le> q"
    using scan_ftable_spec [OF fl] by blast
  have o: "ordinary (Fin p)" "ordinary (Fin q)" using scan_ordinary [OF _ sc] tables by simp_all
  have l: "is_min_auto (ft_yrange c) = 0 \<longrightarrow> to_float (range_min (ft_yrange c)) = range_min (ft_yrange c)"
    "is_max_auto (ft_yrange c) = 0 \<longrightarrow> to_float (range_max (ft_yrange c)) = range_max (ft_yrange c)"
    using limits by (auto simp: ordinary_def)
  let ?needs = "is_min_auto (ft_yrange c) \<noteq> 0 \<or> is_max_auto (ft_yrange c) \<noteq> 0"
  let ?R = "resolve_ftable_range c (Some ss)"
  have none: "?R = None" if "?needs" "\<not> found"
    using that sc by (simp add: resolve_ftable_range_def)
  have some: "\<exists>a b. ?R = Some (Fin a, Fin b)" if "?needs \<longrightarrow> found"
    using that pq limits by (intro ftable_range_exists [OF sc _ v o]) simp_all
  have enc: "isfinite lo \<and> isfinite hi" if "?R = Some (lo, hi)" for lo hi
    using that none some by fastforce
  have "?R = None \<longleftrightarrow> ?needs \<and> (\<forall>s \<in> set ss. \<not> shown_table s)"
    using none some shown by fastforce
  then show ?thesis using ftable_range_encloses [OF _ v fl l] enc by (intro conjI allI impI) blast+
qed

text \<open>A constant table has a range around its value, and two tables one around both.\<close>

theorem ftable_axis_encloses_witness:
  fixes s t :: STREAM_FTABLE_BUFFER and c :: WATCH_MSG_FTABLE_CONFIG
  defines "s \<equiv> zero_ftable\<lparr>fb_display_ready := True, fb_has_range := True, fb_data_minimum := Fin 5,
      fb_data_maximum := Fin 5\<rparr>"
    and "c \<equiv> \<lparr>ft_win_size = 2, ft_yrange = \<lparr>is_min_auto = 1, is_max_auto = 1, range_min = Fin 0,
      range_max = Fin 0\<rparr>\<rparr>"
  shows "\<exists>lo hi. resolve_ftable_range c (Some [zero_ftable, s]) = Some (lo, hi)
    \<and> lo < hi \<and> isfinite lo \<and> lo \<le> Fin 5 \<and> Fin 5 \<le> hi"
proof -
  have sh: "shown_table s" "\<not> shown_table zero_ftable"
    by (simp_all add: shown_table_def s_def zero_ftable_def)
  have d: "fb_data_minimum s = Fin 5" "fb_data_maximum s = Fin 5" "ordinary (Fin 5)"
    using fround_f32_int [of 5] by (simp_all add: s_def ordinary_def)
  have v: "valid_range (ft_yrange c) False" and a: "is_min_auto (ft_yrange c) = 1" "is_max_auto (ft_yrange c) = 1"
    by (simp_all add: c_def valid_range_def)
  have tables: "\<forall>u \<in> set [zero_ftable, s]. shown_table u \<longrightarrow> ordinary (fb_data_minimum u)
      \<and> ordinary (fb_data_maximum u) \<and> fb_data_minimum u \<le> fb_data_maximum u"
    using sh d by simp
  note r = ftable_axis_encloses [OF v tables]
  obtain lo hi where lh: "resolve_ftable_range c (Some [zero_ftable, s]) = Some (lo, hi)"
    using r a sh by force
  then show ?thesis using conjunct2 [OF r, rule_format, OF _ _ lh] a sh d by force
qed

end
