(* ===== verification/Launch.thy ===== *)
theory Launch
  imports Protocol
begin

text \<open>
  Starting the viewer on a POSIX host (\<^verbatim>\<open>src/src/watch_process.c\<close>): the search for its
  executable and the detached process it runs in. What the system says of files and processes
  is a parameter; the one thing the code changes, the mode of an unpacked asset, is a state.
\<close>

section \<open>Files\<close>

abbreviation PATH_MAX :: "'a::numeral" where "PATH_MAX \<equiv> 4096"
abbreviation WATCH_VIEWER_FILENAME :: string where "WATCH_VIEWER_FILENAME \<equiv> ''watch_viewer''"

text \<open>\<^verbatim>\<open>stat\<close> by path: whether the file is a regular one, and its mode. \<open>may_execute\<close> is what
  \<^verbatim>\<open>access\<close> answers for a file of that mode, \<open>may_chmod\<close> whether the mode can be changed.\<close>

record FILES =
  file_stat :: "string \<Rightarrow> (bool \<times> u32) option"
  may_execute :: "string \<Rightarrow> u32 \<Rightarrow> bool"
  may_chmod :: "string \<Rightarrow> bool"

record LAUNCH_HOST =
  getenv :: "string \<Rightarrow> string option"
  module_fname :: "string option"

definition access_X_OK :: "FILES \<Rightarrow> string \<Rightarrow> bool" where
  "access_X_OK fs path = (case file_stat fs path of None \<Rightarrow> False | Some (_, mode) \<Rightarrow> may_execute fs path mode)"

definition executable_file :: "FILES \<Rightarrow> string option \<Rightarrow> bool" where
  "executable_file fs path = (case path of None \<Rightarrow> False | Some p \<Rightarrow> p \<noteq> [] \<and> access_X_OK fs p)"

text \<open>The execute permission is added where the file may be read.\<close>

definition asset_mode :: "u32 \<Rightarrow> u32" where
  "asset_mode st_mode =
     (let mode = st_mode AND 0xFFF;
          mode1 = (if mode AND 0x100 \<noteq> 0 then mode OR 0x40 else mode);
          mode2 = (if mode1 AND 0x20 \<noteq> 0 then mode1 OR 0x8 else mode1) in
      if mode2 AND 0x4 \<noteq> 0 then mode2 OR 0x1 else mode2)"

definition executable_asset_file :: "FILES \<Rightarrow> string \<Rightarrow> bool \<times> FILES" where
  "executable_asset_file fs path =
     (if executable_file fs (Some path) then (True, fs)
      else
        (case file_stat fs path of
           None \<Rightarrow> (False, fs)
         | Some (regular, st_mode) \<Rightarrow>
             if \<not> regular then (False, fs)
             else if \<not> may_chmod fs path then (False, fs)
             else
               let fs1 = fs\<lparr>file_stat := (file_stat fs)(path \<mapsto> (regular, asset_mode st_mode))\<rparr> in
               (executable_file fs1 (Some path), fs1)))"

section \<open>Candidates\<close>

text \<open>\<^verbatim>\<open>snprintf\<close> into a buffer of \<^verbatim>\<open>PATH_MAX\<close> bytes: the text, when it fits.\<close>

definition fits_path :: "string \<Rightarrow> string option" where
  "fits_path t = (if t \<noteq> [] \<and> length t < PATH_MAX then Some t else None)"

definition join_path :: "string \<Rightarrow> nat \<Rightarrow> string option" where
  "join_path directory directory_length =
     fits_path (take directory_length directory
       @ (if directory_length > 0 \<and> directory ! (directory_length - 1) = CHR ''/'' then [] else ''/'')
       @ WATCH_VIEWER_FILENAME)"

text \<open>\<^verbatim>\<open>strrchr\<close>: the position of the last occurrence.\<close>

fun strrchr :: "string \<Rightarrow> char \<Rightarrow> nat option" where
  "strrchr [] c = None"
| "strrchr (x # xs) c = (case strrchr xs c of Some i \<Rightarrow> Some (Suc i) | None \<Rightarrow> if x = c then Some 0 else None)"

definition sibling_viewer_path :: "LAUNCH_HOST \<Rightarrow> FILES \<Rightarrow> string option" where
  "sibling_viewer_path h fs =
     (case module_fname h of
        None \<Rightarrow> None
      | Some fname \<Rightarrow>
          (case strrchr fname (CHR ''/'') of
             None \<Rightarrow> None
           | Some directory_length \<Rightarrow>
               (case join_path fname directory_length of
                  None \<Rightarrow> None
                | Some path \<Rightarrow> if executable_file fs (Some path) then Some path else None)))"

text \<open>The asset directory of a system other than macOS.\<close>

definition risset_suffix :: string where
  "risset_suffix = ''/.local/share/risset/assets/watch/'' @ WATCH_VIEWER_FILENAME"

definition risset_viewer_path :: "LAUNCH_HOST \<Rightarrow> FILES \<Rightarrow> string option \<times> FILES" where
  "risset_viewer_path h fs =
     (case getenv h ''HOME'' of
        None \<Rightarrow> (None, fs)
      | Some home \<Rightarrow>
          if home = [] then (None, fs)
          else
            (case fits_path (home @ risset_suffix) of
               None \<Rightarrow> (None, fs)
             | Some path \<Rightarrow>
                 let (ok, fs1) = executable_asset_file fs path in (if ok then Some path else None, fs1)))"

text \<open>The walk over the components of \<^verbatim>\<open>PATH\<close>: \<open>strcspn\<close> is the length up to the next colon.\<close>

definition strcspn :: "string \<Rightarrow> nat" where
  "strcspn t = length (takeWhile (\<lambda>c. c \<noteq> CHR '':'') t)"

lemma strcspn_le: "strcspn t \<le> length t"
  by (simp add: strcspn_def length_takeWhile_le)

function path_loop :: "FILES \<Rightarrow> string \<Rightarrow> string option" where
  "path_loop fs component =
     (let n = strcspn component;
          directory = (if n = 0 then ''.'' else component);
          directory_length = (if n = 0 then 1 else n);
          found = (if directory_length \<le> 2147483647 then join_path directory directory_length else None) in
      if executable_file fs found then found
      else if n = length component then None
      else path_loop fs (drop (n + 1) component))"
  by pat_completeness auto
termination
proof (relation "measure (length \<circ> snd)", goal_cases)
  case (2 fs component)
  then show ?case using strcspn_le [of component] by simp
qed simp

declare path_loop.simps [simp del]

definition path_viewer_path :: "LAUNCH_HOST \<Rightarrow> FILES \<Rightarrow> string option" where
  "path_viewer_path h fs = (case getenv h ''PATH'' of None \<Rightarrow> None | Some t \<Rightarrow> path_loop fs t)"

definition resolve_viewer_path :: "LAUNCH_HOST \<Rightarrow> FILES \<Rightarrow> string option \<times> FILES" where
  "resolve_viewer_path h fs =
     (let override = getenv h ''CSOUND_WATCH_VIEWER'' in
      if executable_file fs override \<and> fits_path (the override) \<noteq> None
      then (fits_path (the override), fs)
      else
        (case sibling_viewer_path h fs of
           Some path \<Rightarrow> (Some path, fs)
         | None \<Rightarrow>
             (case risset_viewer_path h fs of
                (Some path, fs1) \<Rightarrow> (Some path, fs1)
              | (None, fs1) \<Rightarrow> (path_viewer_path h fs1, fs1))))"

section \<open>The processes\<close>

abbreviation ENOENT :: int where "ENOENT \<equiv> 2"
abbreviation EINTR :: int where "EINTR \<equiv> 4"
abbreviation ECHILD :: int where "ECHILD \<equiv> 10"

text \<open>What the system answers to \<^verbatim>\<open>fork\<close> (an error, or none), to \<^verbatim>\<open>setsid\<close> and \<^verbatim>\<open>fork\<close> in the
  child, and to the calls of \<^verbatim>\<open>waitpid\<close>: the errors before the one that succeeds, and whether a
  signal ended the child.\<close>

record PROCESS_HOST =
  fork_error :: "int option"
  setsid_ok :: bool
  second_fork_ok :: bool
  wait_errors :: "int list"
  child_killed :: bool

text \<open>The exit code of the intermediate process, and whether it has started the viewer.\<close>

definition intermediate :: "PROCESS_HOST \<Rightarrow> int \<times> bool" where
  "intermediate h = (if \<not> setsid_ok h then (126, False) else if \<not> second_fork_ok h then (126, False) else (0, True))"

fun wait_loop :: "int list \<Rightarrow> int option" where
  "wait_loop [] = None"
| "wait_loop (e # es) = (if e \<noteq> EINTR then Some e else wait_loop es)"

record LAUNCHED =
  launch_result :: int
  viewer_program :: "string option"

definition watch_process_launch_viewer :: "LAUNCH_HOST \<Rightarrow> PROCESS_HOST \<Rightarrow> FILES \<Rightarrow> LAUNCHED \<times> FILES" where
  "watch_process_launch_viewer h ph fs =
     (case resolve_viewer_path h fs of
        (None, fs1) \<Rightarrow> (\<lparr>launch_result = ENOENT, viewer_program = None\<rparr>, fs1)
      | (Some executable, fs1) \<Rightarrow>
          (case fork_error ph of
             Some e \<Rightarrow> (\<lparr>launch_result = e, viewer_program = None\<rparr>, fs1)
           | None \<Rightarrow>
               let (status, started) = intermediate ph in
               (\<lparr>launch_result = (case wait_loop (wait_errors ph) of
                    Some e \<Rightarrow> e
                  | None \<Rightarrow> if \<not> child_killed ph \<and> status = 0 then 0 else ECHILD),
                 viewer_program = (if started then Some executable else None)\<rparr>, fs1)))"

section \<open>The documented order\<close>

text \<open>The specification: a list of candidates in the order \<^verbatim>\<open>watch_process.h\<close> documents, of which
  the first usable one is taken. An asset is usable also when its mode can be repaired.\<close>

datatype candidate = Program string | Asset string

primrec candidate_path :: "candidate \<Rightarrow> string" where
  "candidate_path (Program p) = p"
| "candidate_path (Asset p) = p"

primrec usable_candidate :: "FILES \<Rightarrow> candidate \<Rightarrow> bool" where
  "usable_candidate fs (Program p) = (p \<noteq> [] \<and> length p < PATH_MAX \<and> access_X_OK fs p)"
| "usable_candidate fs (Asset p) = (p \<noteq> [] \<and> length p < PATH_MAX \<and> fst (executable_asset_file fs p))"

fun split_path :: "string \<Rightarrow> string list" where
  "split_path [] = [[]]"
| "split_path (c # cs) =
     (if c = CHR '':'' then [] # split_path cs
      else (case split_path cs of [] \<Rightarrow> [[c]] | d # ds \<Rightarrow> (c # d) # ds))"

text \<open>The viewer in a directory; an empty component of \<^verbatim>\<open>PATH\<close> is the current directory.\<close>

definition viewer_in :: "string \<Rightarrow> string" where
  "viewer_in d = (if d \<noteq> [] \<and> last d = CHR ''/'' then d else d @ ''/'') @ WATCH_VIEWER_FILENAME"

definition path_directory :: "string \<Rightarrow> string" where
  "path_directory d = (if d = [] then ''.'' else d)"

definition candidates :: "LAUNCH_HOST \<Rightarrow> candidate list" where
  "candidates h =
     (case getenv h ''CSOUND_WATCH_VIEWER'' of None \<Rightarrow> [] | Some p \<Rightarrow> [Program p])
     @ (case module_fname h of None \<Rightarrow> [] | Some f \<Rightarrow>
         (case strrchr f (CHR ''/'') of None \<Rightarrow> [] | Some n \<Rightarrow> [Program (viewer_in (take n f))]))
     @ (case getenv h ''HOME'' of None \<Rightarrow> [] | Some home \<Rightarrow>
         if home = [] then [] else [Asset (home @ risset_suffix)])
     @ (case getenv h ''PATH'' of None \<Rightarrow> [] | Some t \<Rightarrow>
         map (\<lambda>d. Program (viewer_in (path_directory d))) (split_path t))"

lemma fits_path_Some: "fits_path p = Some q \<longleftrightarrow> q = p \<and> p \<noteq> [] \<and> length p < PATH_MAX"
  by (auto simp: fits_path_def)

lemma usable_program: "usable_candidate fs (Program p) \<longleftrightarrow> executable_file fs (fits_path p)"
  by (auto simp: executable_file_def fits_path_def)

lemma join_path_viewer_in: "n \<le> length d \<Longrightarrow> join_path d n = fits_path (viewer_in (take n d))"
proof -
  assume n: "n \<le> length d"
  have "last (take n d) = d ! (n - 1)" if "0 < n" using that n by (subst last_conv_nth) auto
  then show ?thesis using n by (auto simp: join_path_def viewer_in_def)
qed

lemma find_append: "find P (xs @ ys) = (case find P xs of None \<Rightarrow> find P ys | Some x \<Rightarrow> Some x)"
  by (induction xs) auto

lemma split_path_strcspn:
  "split_path t = take (strcspn t) t # (if strcspn t = length t then [] else split_path (drop (strcspn t + 1) t))"
  by (induction t) (auto simp: strcspn_def)

lemma executable_fits: "executable_file fs (fits_path p) \<Longrightarrow> fits_path p = Some p"
  by (auto simp: executable_file_def fits_path_def split: if_splits)

lemma path_loop_first:
  "path_loop fs t = map_option candidate_path
     (find (usable_candidate fs) (map (\<lambda>d. Program (viewer_in (path_directory d))) (split_path t)))"
proof (induction fs t rule: path_loop.induct)
  case (1 fs t)
  let ?n = "strcspn t" and ?d = "path_directory (take (strcspn t) t)"
  let ?found = "if (if ?n = 0 then 1 else ?n) \<le> 2147483647
      then join_path (if ?n = 0 then ''.'' else t) (if ?n = 0 then 1 else ?n) else None"
  have nt: "take ?n t = [] \<longleftrightarrow> ?n = 0" using strcspn_le [of t] by auto
  have long: "fits_path (viewer_in d) = None" if "2147483647 < length d" for d
    using that by (simp add: fits_path_def viewer_in_def)
  have attempt: "?found = fits_path (viewer_in ?d)"
  proof (cases "?n = 0")
    case True
    then show ?thesis using join_path_viewer_in [of 1 "''.''"] nt by (simp add: path_directory_def)
  next
    case False
    then show ?thesis
      using join_path_viewer_in [OF strcspn_le [of t]] long [of "take ?n t"] nt strcspn_le [of t]
      by (simp add: path_directory_def)
  qed
  have loop: "path_loop fs t = (if executable_file fs (fits_path (viewer_in ?d)) then fits_path (viewer_in ?d)
      else if ?n = length t then None else path_loop fs (drop (?n + 1) t))"
    unfolding path_loop.simps [of fs t] Let_def attempt ..
  show ?case
  proof (cases "executable_file fs (fits_path (viewer_in ?d))")
    case True
    then show ?thesis using loop executable_fits [OF True] usable_program [of fs "viewer_in ?d"]
      by (subst split_path_strcspn) (simp del: usable_candidate.simps)
  next
    case False
    then have "\<not> usable_candidate fs (Program (viewer_in ?d))" using usable_program by blast
    then show ?thesis using loop False 1 [OF refl refl refl refl] attempt
      by (subst split_path_strcspn) (simp del: usable_candidate.simps)
  qed
qed

text \<open>A repair that does not help changes no answer.\<close>

lemma asset_failed_access:
  "executable_asset_file fs p = (False, fs1) \<Longrightarrow> p \<noteq> [] \<Longrightarrow> access_X_OK fs1 q = access_X_OK fs q"
  by (auto simp: executable_asset_file_def executable_file_def access_X_OK_def Let_def
      split: option.splits if_splits)

lemma usable_same_access:
  "(\<And>q. access_X_OK fs1 q = access_X_OK fs q) \<Longrightarrow>
     usable_candidate fs1 (Program p) = usable_candidate fs (Program p)"
  by simp

lemma find_programs_same:
  "(\<And>q. access_X_OK fs1 q = access_X_OK fs q) \<Longrightarrow>
     find (usable_candidate fs1) (map (\<lambda>d. Program (g d)) ds) = find (usable_candidate fs) (map (\<lambda>d. Program (g d)) ds)"
  by (induction ds) auto

text \<open>The candidates of each step of the search.\<close>

definition sibling_candidates :: "LAUNCH_HOST \<Rightarrow> candidate list" where
  "sibling_candidates h = (case module_fname h of None \<Rightarrow> [] | Some f \<Rightarrow>
     (case strrchr f (CHR ''/'') of None \<Rightarrow> [] | Some n \<Rightarrow> [Program (viewer_in (take n f))]))"

definition asset_candidates :: "LAUNCH_HOST \<Rightarrow> candidate list" where
  "asset_candidates h = (case getenv h ''HOME'' of None \<Rightarrow> [] | Some home \<Rightarrow>
     if home = [] then [] else [Asset (home @ risset_suffix)])"

definition path_candidates :: "LAUNCH_HOST \<Rightarrow> candidate list" where
  "path_candidates h = (case getenv h ''PATH'' of None \<Rightarrow> [] | Some t \<Rightarrow>
     map (\<lambda>d. Program (viewer_in (path_directory d))) (split_path t))"

lemma strrchr_less: "strrchr t c = Some n \<Longrightarrow> n < length t"
  by (induction t arbitrary: n) (auto split: option.splits if_splits)

lemma sibling_first:
  "sibling_viewer_path h fs = map_option candidate_path (find (usable_candidate fs) (sibling_candidates h))"
proof (cases "module_fname h")
  case (Some f)
  show ?thesis
  proof (cases "strrchr f (CHR ''/'')")
    case None
    then show ?thesis using Some by (simp add: sibling_viewer_path_def sibling_candidates_def)
  next
    case n: (Some n)
    have "join_path f n = fits_path (viewer_in (take n f))"
      using join_path_viewer_in strrchr_less [OF n] by simp
    then have s: "sibling_viewer_path h fs
        = (case fits_path (viewer_in (take n f)) of None \<Rightarrow> None
           | Some path \<Rightarrow> if executable_file fs (Some path) then Some path else None)"
      using Some n by (simp add: sibling_viewer_path_def)
    have c: "sibling_candidates h = [Program (viewer_in (take n f))]"
      using Some n by (simp add: sibling_candidates_def)
    show ?thesis
    proof (cases "executable_file fs (fits_path (viewer_in (take n f)))")
      case True
      then show ?thesis using executable_fits [OF True] usable_program [of fs "viewer_in (take n f)"]
        unfolding s c by (simp del: usable_candidate.simps)
    next
      case False
      then show ?thesis using usable_program [of fs "viewer_in (take n f)"]
        unfolding s c by (auto simp del: usable_candidate.simps split: option.split)
    qed
  qed
qed (simp add: sibling_viewer_path_def sibling_candidates_def)

lemma risset_first:
  "fst (risset_viewer_path h fs) = map_option candidate_path (find (usable_candidate fs) (asset_candidates h))"
  "fst (risset_viewer_path h fs) = None \<Longrightarrow> access_X_OK (snd (risset_viewer_path h fs)) q = access_X_OK fs q"
proof -
  show "fst (risset_viewer_path h fs) = map_option candidate_path (find (usable_candidate fs) (asset_candidates h))"
    by (auto simp: risset_viewer_path_def asset_candidates_def fits_path_def risset_suffix_def
        split: option.splits prod.splits)
  assume "fst (risset_viewer_path h fs) = None"
  then show "access_X_OK (snd (risset_viewer_path h fs)) q = access_X_OK fs q"
    using asset_failed_access [of fs _ _ q]
    by (auto simp: risset_viewer_path_def fits_path_def risset_suffix_def split: option.splits prod.splits if_splits)
qed

lemma resolve_first:
  "fst (resolve_viewer_path h fs) = map_option candidate_path (find (usable_candidate fs) (candidates h))"
proof -
  let ?o = "case getenv h ''CSOUND_WATCH_VIEWER'' of None \<Rightarrow> [] | Some p \<Rightarrow> [Program p]"
  have cs: "candidates h = ?o @ sibling_candidates h @ asset_candidates h @ path_candidates h"
    by (simp add: candidates_def sibling_candidates_def asset_candidates_def path_candidates_def)
  have o: "map_option candidate_path (find (usable_candidate fs) ?o)
      = (if executable_file fs (getenv h ''CSOUND_WATCH_VIEWER'')
           \<and> fits_path (the (getenv h ''CSOUND_WATCH_VIEWER'')) \<noteq> None
         then fits_path (the (getenv h ''CSOUND_WATCH_VIEWER'')) else None)"
    by (auto simp: executable_file_def fits_path_def split: option.splits)
  obtain rp fs1 where r: "risset_viewer_path h fs = (rp, fs1)" by fastforce
  note rf = risset_first [of h fs, unfolded r fst_conv snd_conv]
  have p: "path_viewer_path h fs1 = map_option candidate_path (find (usable_candidate fs) (path_candidates h))"
    if "rp = None"
    using find_programs_same [OF rf(2) [OF that], of "\<lambda>d. viewer_in (path_directory d)"]
    by (auto simp: path_viewer_path_def path_candidates_def path_loop_first simp del: usable_candidate.simps
        split: option.splits)
  show ?thesis
    unfolding cs find_append resolve_viewer_path_def Let_def r
    using o sibling_first [of h fs] rf(1) p
    by (auto split: option.splits if_splits)
qed

lemma wait_loop_None: "wait_loop es = None \<longleftrightarrow> list_all (\<lambda>e. e = EINTR) es"
  by (induction es) auto

lemma wait_loop_Some: "wait_loop es = Some e \<Longrightarrow> e \<in> set es"
  by (induction es) (auto split: if_splits)

text \<open>C38: The viewer that is started is the first usable candidate in the documented order: the
  override, the plugin's own directory, the asset directory, the directories of \<open>PATH\<close>. The call
  reports success exactly when there is one, the processes could be created and the wait for the
  intermediate one was at most interrupted; the viewer is then running.\<close>

theorem launch_first_candidate:
  fixes h :: LAUNCH_HOST and fs :: FILES
  assumes "fork_error ph \<noteq> Some 0" "0 \<notin> set (wait_errors ph)"
  defines "r \<equiv> fst (watch_process_launch_viewer h ph fs)"
    and "first \<equiv> map_option candidate_path (find (usable_candidate fs) (candidates h))"
  shows "viewer_program r = (if fork_error ph = None \<and> setsid_ok ph \<and> second_fork_ok ph then first else None)
    \<and> (launch_result r = 0 \<longleftrightarrow> viewer_program r \<noteq> None \<and> \<not> child_killed ph
         \<and> list_all (\<lambda>e. e = EINTR) (wait_errors ph))
    \<and> (first = None \<longrightarrow> launch_result r = ENOENT)"
proof -
  obtain path fs1 where p: "resolve_viewer_path h fs = (path, fs1)" by fastforce
  then have first: "first = path" using resolve_first [of h fs] by (simp add: first_def)
  have w: "wait_loop (wait_errors ph) \<noteq> Some 0" using wait_loop_Some assms(2) by metis
  show ?thesis
    unfolding first r_def watch_process_launch_viewer_def p
    using assms(1) w wait_loop_None [of "wait_errors ph"]
    by (cases path; cases "fork_error ph"; cases "wait_loop (wait_errors ph)") (auto simp: intermediate_def)
qed

theorem launch_first_candidate_witness:
  "viewer_program (fst (watch_process_launch_viewer
      \<lparr>getenv = [''CSOUND_WATCH_VIEWER'' \<mapsto> ''/none'', ''PATH'' \<mapsto> '':/bin''], module_fname = None\<rparr>
      \<lparr>fork_error = None, setsid_ok = True, second_fork_ok = True, wait_errors = [4], child_killed = False\<rparr>
      \<lparr>file_stat = [''/bin/watch_viewer'' \<mapsto> (True, 0x1ED)], may_execute = \<lambda>_ _. True, may_chmod = \<lambda>_. False\<rparr>))
    = Some ''/bin/watch_viewer''"
proof -
  let ?h = "\<lparr>getenv = [''CSOUND_WATCH_VIEWER'' \<mapsto> ''/none'', ''PATH'' \<mapsto> '':/bin''], module_fname = None\<rparr>"
    and ?fs = "\<lparr>file_stat = [''/bin/watch_viewer'' \<mapsto> (True, 0x1ED)], may_execute = \<lambda>_ _. True, may_chmod = \<lambda>_. False\<rparr>"
    and ?ph = "\<lparr>fork_error = None, setsid_ok = True, second_fork_ok = True, wait_errors = [4], child_killed = False\<rparr>"
  have c: "candidates ?h = [Program ''/none'', Program ''./watch_viewer'', Program ''/bin/watch_viewer'']"
    by (simp add: candidates_def viewer_in_def path_directory_def)
  show ?thesis
    using launch_first_candidate [of ?ph ?h ?fs] unfolding c by (simp add: access_X_OK_def)
qed

end
