(* ===== verification/Socket.thy ===== *)
theory Socket
  imports Protocol
begin

text \<open>
  The socket helpers shared by the plugin and the viewer (\<^verbatim>\<open>src/src/watch_socket.c\<close>,
  POSIX variant): opening the viewer's socket with every failure undone, the argument checks of
  the two transfer functions, and the comparison of endpoints by which the viewer tells sessions
  apart. The answers of the system calls are parameters; \<^verbatim>\<open>errno\<close> is a state.
\<close>

abbreviation EINVAL :: int where "EINVAL \<equiv> 22"
abbreviation EAGAIN :: int where "EAGAIN \<equiv> 11"
abbreviation EWOULDBLOCK :: int where "EWOULDBLOCK \<equiv> 11"
abbreviation AF_INET :: u16 where "AF_INET \<equiv> 2"
abbreviation AF_INET6 :: u16 where "AF_INET6 \<equiv> 10"

section \<open>Endpoints\<close>

text \<open>\<^verbatim>\<open>struct sockaddr_storage\<close>, read as one of its variants; nothing relates the fields of
  different variants.\<close>

record watch_endpoint =
  sa_family :: u16
  sin_port :: u16
  sin_addr :: u32
  sin6_port :: u16
  sin6_scope_id :: u32
  sin6_addr :: "8 word list"
  ep_size :: u32

definition watch_endpoint_equal :: "watch_endpoint option \<Rightarrow> watch_endpoint option \<Rightarrow> bool" where
  "watch_endpoint_equal first second =
     (case (first, second) of
        (Some f, Some s) \<Rightarrow>
          if sa_family f \<noteq> sa_family s then False
          else if sa_family f = AF_INET then sin_port f = sin_port s \<and> sin_addr f = sin_addr s
          else if sa_family f = AF_INET6
          then sin6_port f = sin6_port s \<and> sin6_scope_id f = sin6_scope_id s \<and> sin6_addr f = sin6_addr s
          else False
      | _ \<Rightarrow> False)"

text \<open>What identifies an endpoint. Families other than the two have no identity.\<close>

datatype endpoint_id = V4 u16 u32 | V6 u16 u32 "8 word list"

definition endpoint_key :: "watch_endpoint \<Rightarrow> endpoint_id option" where
  "endpoint_key e =
     (if sa_family e = AF_INET then Some (V4 (sin_port e) (sin_addr e))
      else if sa_family e = AF_INET6 then Some (V6 (sin6_port e) (sin6_scope_id e) (sin6_addr e))
      else None)"

lemma watch_endpoint_equal_key:
  "watch_endpoint_equal (Some a) (Some b) \<longleftrightarrow> endpoint_key a \<noteq> None \<and> endpoint_key a = endpoint_key b"
  by (auto simp: watch_endpoint_equal_def endpoint_key_def)

section \<open>Errors and sockets\<close>

record SOCKET_STATE =
  fd_open :: bool
  errno :: int

text \<open>What the calls answer: an error code, or none. \<open>close_error\<close> is what \<^verbatim>\<open>close\<close> may leave
  in \<^verbatim>\<open>errno\<close>.\<close>

record SOCKET_HOST =
  socket_error :: "int option"
  pton_matches :: bool
  bind_error :: "int option"
  getfl_error :: "int option"
  setfl_error :: "int option"
  getfd_error :: "int option"
  setfd_error :: "int option"
  close_error :: "int option"

definition watch_socket_set_error :: "int \<Rightarrow> SOCKET_STATE \<Rightarrow> SOCKET_STATE" where
  "watch_socket_set_error e w = w\<lparr>errno := e\<rparr>"

definition watch_socket_close :: "SOCKET_HOST \<Rightarrow> SOCKET_STATE \<Rightarrow> SOCKET_STATE" where
  "watch_socket_close h w =
     (case close_error h of None \<Rightarrow> w\<lparr>fd_open := False\<rparr> | Some e \<Rightarrow> w\<lparr>fd_open := False, errno := e\<rparr>)"

text \<open>The result is zero or -1.\<close>

definition watch_socket_set_nonblocking :: "SOCKET_HOST \<Rightarrow> SOCKET_STATE \<Rightarrow> int \<times> SOCKET_STATE" where
  "watch_socket_set_nonblocking h w =
     (case getfl_error h of
        Some e \<Rightarrow> (- 1, w\<lparr>errno := e\<rparr>)
      | None \<Rightarrow>
          (case setfl_error h of
             Some e \<Rightarrow> (- 1, w\<lparr>errno := e\<rparr>)
           | None \<Rightarrow>
               (case getfd_error h of
                  Some e \<Rightarrow> (- 1, w\<lparr>errno := e\<rparr>)
                | None \<Rightarrow>
                    (case setfd_error h of
                       Some e \<Rightarrow> (- 1, w\<lparr>errno := e\<rparr>)
                     | None \<Rightarrow> (0, w)))))"

text \<open>The flag says whether a valid socket is returned; \<open>address\<close> is present or a null pointer.\<close>

definition watch_socket_udp_bind :: "SOCKET_HOST \<Rightarrow> string option \<Rightarrow> SOCKET_STATE \<Rightarrow> bool \<times> SOCKET_STATE" where
  "watch_socket_udp_bind h address w =
     (if address = None then (False, watch_socket_set_error EINVAL w)
      else
        (case socket_error h of
           Some e \<Rightarrow> (False, w\<lparr>errno := e\<rparr>)
         | None \<Rightarrow>
             let w1 = w\<lparr>fd_open := True\<rparr> in
             if \<not> pton_matches h then (False, watch_socket_set_error EINVAL (watch_socket_close h w1))
             else
               (case bind_error h of
                  Some e \<Rightarrow>
                    let w2 = w1\<lparr>errno := e\<rparr>; error_code = errno w2 in
                    (False, watch_socket_set_error error_code (watch_socket_close h w2))
                | None \<Rightarrow>
                    let (r, w2) = watch_socket_set_nonblocking h w1 in
                    if r \<noteq> 0
                    then let error_code = errno w2 in
                      (False, watch_socket_set_error error_code (watch_socket_close h w2))
                    else (True, w2))))"

text \<open>\<open>recvfrom\<close> answers the number of bytes and the sender, or an error; the sender's structure is
  cleared before.\<close>

definition watch_socket_receive_from ::
  "(u32 \<Rightarrow> int + int \<times> watch_endpoint) \<Rightarrow> bool \<Rightarrow> bool \<Rightarrow> u32 \<Rightarrow> watch_endpoint \<Rightarrow> SOCKET_STATE
     \<Rightarrow> int \<times> watch_endpoint \<times> SOCKET_STATE" where
  "watch_socket_receive_from recvfrom buffer_null sender_null capacity sender w =
     (if buffer_null \<or> sender_null \<or> capacity = 0 \<or> capacity > 2147483647
      then (- 1, sender, watch_socket_set_error EINVAL w)
      else
        let cleared = \<lparr>sa_family = 0, sin_port = 0, sin_addr = 0, sin6_port = 0, sin6_scope_id = 0,
              sin6_addr = replicate 16 0, ep_size = 128\<rparr> in
        (case recvfrom capacity of
           Inl e \<Rightarrow> (- 1, cleared, w\<lparr>errno := e\<rparr>)
         | Inr (received, s) \<Rightarrow> (received, s, w)))"

text \<open>\<open>sendto\<close> answers how much it took; anything but the whole datagram is a failure.\<close>

definition watch_socket_send_to ::
  "(u32 \<Rightarrow> int + int) \<Rightarrow> bool \<Rightarrow> bool \<Rightarrow> u32 \<Rightarrow> SOCKET_STATE \<Rightarrow> int \<times> SOCKET_STATE" where
  "watch_socket_send_to sendto buffer_null destination_null n w =
     (if buffer_null \<or> destination_null \<or> n = 0 \<or> n > 2147483647
      then (- 1, watch_socket_set_error EINVAL w)
      else
        (case sendto n of
           Inl e \<Rightarrow> (- 1, w\<lparr>errno := e\<rparr>)
         | Inr taken \<Rightarrow> (if taken = int (unat n) then 0 else - 1, w)))"

definition watch_socket_would_block :: "int \<Rightarrow> bool" where
  "watch_socket_would_block error_code \<longleftrightarrow> error_code = EAGAIN \<or> error_code = EWOULDBLOCK"

section \<open>No socket is left behind\<close>

text \<open>The first call that fails decides.\<close>

fun first_error :: "int option list \<Rightarrow> int option" where
  "first_error [] = None"
| "first_error (Some e # es) = Some e"
| "first_error (None # es) = first_error es"

definition bind_failure :: "SOCKET_HOST \<Rightarrow> string option \<Rightarrow> int option" where
  "bind_failure h address = first_error
     [if address = None then Some EINVAL else None, socket_error h,
      if pton_matches h then None else Some EINVAL, bind_error h,
      getfl_error h, setfl_error h, getfd_error h, setfd_error h]"

text \<open>Opening the viewer's socket succeeds exactly when every call does. Otherwise nothing
  stays open, and \<open>errno\<close> is that of the first call that failed, whatever closing the socket
  left there.\<close>

theorem udp_bind_cleans_up:
  assumes "\<not> fd_open w" "watch_socket_udp_bind h address w = (opened, w')"
  shows "case bind_failure h address of
      None \<Rightarrow> opened \<and> fd_open w'
    | Some e \<Rightarrow> \<not> opened \<and> \<not> fd_open w' \<and> errno w' = e"
  using assms
  by (auto simp: watch_socket_udp_bind_def bind_failure_def watch_socket_set_nonblocking_def
      watch_socket_close_def watch_socket_set_error_def Let_def split: option.splits if_splits)

theorem udp_bind_cleans_up_witness:
  "\<not> fd_open (snd (watch_socket_udp_bind
       \<lparr>socket_error = None, pton_matches = True, bind_error = Some 98, getfl_error = None, setfl_error = None,
        getfd_error = None, setfd_error = None, close_error = Some 4\<rparr>
       (Some ''127.0.0.1'') \<lparr>fd_open = False, errno = 0\<rparr>))
   \<and> errno (snd (watch_socket_udp_bind
       \<lparr>socket_error = None, pton_matches = True, bind_error = Some 98, getfl_error = None, setfl_error = None,
        getfd_error = None, setfd_error = None, close_error = Some 4\<rparr>
       (Some ''127.0.0.1'') \<lparr>fd_open = False, errno = 0\<rparr>)) = 98"
proof -
  let ?h = "\<lparr>socket_error = None, pton_matches = True, bind_error = Some 98, getfl_error = None,
      setfl_error = None, getfd_error = None, setfd_error = None, close_error = Some 4\<rparr>"
  obtain opened w' where r: "watch_socket_udp_bind ?h (Some ''127.0.0.1'') \<lparr>fd_open = False, errno = 0\<rparr> = (opened, w')"
    by fastforce
  from udp_bind_cleans_up [OF _ r] show ?thesis unfolding r by (simp add: bind_failure_def)
qed

text \<open>What is received or sent is checked first: a wrong argument reaches no system call.\<close>

lemma receive_guard:
  "buffer_null \<or> sender_null \<or> capacity = 0 \<or> capacity > 2147483647 \<Longrightarrow>
     watch_socket_receive_from recvfrom buffer_null sender_null capacity s w = (- 1, s, w\<lparr>errno := EINVAL\<rparr>)"
  by (simp add: watch_socket_receive_from_def watch_socket_set_error_def)

lemma send_whole:
  "fst (watch_socket_send_to sendto False False n w) = 0 \<Longrightarrow> sendto n = Inr (int (unat n))"
  by (auto simp: watch_socket_send_to_def split: if_splits sum.splits)

end
