(* ===== verification/ViewGraph.thy ===== *)
theory ViewGraph
  imports Axes PointMeter Socket "HOL-Library.Signed_Division"
begin

text \<open>
  The graphs of the viewer (\<^verbatim>\<open>VIEW_GRAPH\<close> in \<^verbatim>\<open>src/src/watch_viewer.c\<close>): the table of
  windows, its searches, opening and closing a window, its size, position, labels and theme. What
  the allocator, SDL and SDL_ttf answer is a parameter of each operation.
\<close>

abbreviation MAX_VIEWER_GRAPHS :: "'a::numeral" where "MAX_VIEWER_GRAPHS \<equiv> 32"
abbreviation INITIAL_WIDTH :: "'a::numeral" where "INITIAL_WIDTH \<equiv> 600"
abbreviation INITIAL_HEIGTH :: "'a::numeral" where "INITIAL_HEIGTH \<equiv> 400"
abbreviation RENDER_SUPERSAMPLE_SCALE :: "'a::numeral" where "RENDER_SUPERSAMPLE_SCALE \<equiv> 2"

section \<open>The state of a graph\<close>

text \<open>
  A slot of the table whose \<^verbatim>\<open>ready\<close> is false is \<^const>\<open>None\<close>: every access asks for
  \<^verbatim>\<open>ready\<close> first, and \<^verbatim>\<open>create_graph\<close> clears the slot before it fills it. A ready graph has
  its window and renderer, so they are only its \<^verbatim>\<open>window_id\<close>. The render target is its size.
\<close>

record VIEW_GRAPH =
  vg_config :: WATCH_MSG_CONFIG
  vg_sender :: watch_endpoint
  vg_window_id :: u32
  vg_width :: int
  vg_heigth :: int
  vg_render_target :: "(int \<times> int) option"
  vg_axis_label_density :: cfloat
  vg_x_axis_label :: "TEXT_LABEL option"
  vg_y_axis_label :: "TEXT_LABEL option"
  vg_tick_labels :: TICK_LABEL_CACHE
  vg_scope_streams :: "STREAM_TIME_BUFFER list option"
  vg_spectral_streams :: "STREAM_SPECTRAL_BUFFER list option"
  vg_ftable_streams :: "STREAM_FTABLE_BUFFER list option"
  vg_point_streams :: "STREAM_POINT_BUFFER list option"
  vg_meter_stream :: "STREAM_METER_BUFFER option"
  vg_clock :: SCOPE_CLOCK

type_synonym table = "VIEW_GRAPH option list"

definition no_tick_labels :: TICK_LABEL_CACHE where
  "no_tick_labels = \<lparr>tc_x = no_labels, tc_y = no_labels, tc_xmin = Fin 0, tc_xmax = Fin 0, tc_ymin = Fin 0,
     tc_ymax = Fin 0, tc_density = Fin 0, tc_x_format = TICK_FORMAT_NUMBER,
     tc_y_format = TICK_FORMAT_NUMBER, tc_ready = False\<rparr>"

definition zero_clock :: SCOPE_CLOCK where
  "zero_clock = \<lparr>display_end_sample = Fin 0, last_render_ns = 0, display_started = False\<rparr>"

text \<open>The answers of the host while a window is opened.\<close>

record WINDOW_HOST =
  buffers_mem :: bool
  window_made :: "u32 option"
  minimum_size_set :: bool
  output_size :: "(int \<times> int) option"
  window_points :: "(int \<times> int) option"
  axis_font :: LABEL_HOST

section \<open>Searching the table\<close>

text \<open>The first ready graph of this handle and sender, by its slot.\<close>

fun find_view_from :: "nat \<Rightarrow> (VIEW_GRAPH \<Rightarrow> bool) \<Rightarrow> table \<Rightarrow> nat option" where
  "find_view_from i P [] = None"
| "find_view_from i P (None # gs) = find_view_from (i + 1) P gs"
| "find_view_from i P (Some g # gs) = (if P g then Some i else find_view_from (i + 1) P gs)"

definition find_view_graph :: "table \<Rightarrow> u32 \<Rightarrow> watch_endpoint \<Rightarrow> nat option" where
  "find_view_graph gs gid sender =
     find_view_from 0 (\<lambda>g. graph_id (vg_config g) = gid
       \<and> watch_endpoint_equal (Some (vg_sender g)) (Some sender)) gs"

definition find_graph_by_window :: "table \<Rightarrow> u32 \<Rightarrow> nat option" where
  "find_graph_by_window gs window_id = find_view_from 0 (\<lambda>g. vg_window_id g = window_id) gs"

definition has_opened_graph :: "table \<Rightarrow> bool" where
  "has_opened_graph gs \<longleftrightarrow> (\<exists>g \<in> set gs. g \<noteq> None)"

definition destroy_view_graph :: "nat \<Rightarrow> table \<Rightarrow> table" where
  "destroy_view_graph i gs = gs[i := None]"

section \<open>Sizes and labels\<close>

definition update_graph_render_size :: "(int \<times> int) option \<Rightarrow> VIEW_GRAPH \<Rightarrow> VIEW_GRAPH" where
  "update_graph_render_size answer g =
     (case answer of
        None \<Rightarrow> g
      | Some (width, height) \<Rightarrow>
          if 0 < width \<and> 0 < height then g\<lparr>vg_width := width, vg_heigth := height\<rparr> else g)"

text \<open>\<open>made\<close> and \<open>scaled\<close> are the results of creating the texture and setting its scale mode.\<close>

definition ensure_graph_render_target :: "bool \<Rightarrow> bool \<Rightarrow> VIEW_GRAPH \<Rightarrow> bool \<times> VIEW_GRAPH" where
  "ensure_graph_render_target made scaled g =
     (if vg_width g \<le> 0 \<or> vg_heigth g \<le> 0
         \<or> vg_width g > 2147483647 div RENDER_SUPERSAMPLE_SCALE
         \<or> vg_heigth g > 2147483647 div RENDER_SUPERSAMPLE_SCALE then (False, g)
      else
        let target = (vg_width g * RENDER_SUPERSAMPLE_SCALE, vg_heigth g * RENDER_SUPERSAMPLE_SCALE) in
        if vg_render_target g = Some target then (True, g)
        else if \<not> made then (False, g\<lparr>vg_render_target := None\<rparr>)
        else if \<not> scaled then (False, g\<lparr>vg_render_target := None\<rparr>)
        else (True, g\<lparr>vg_render_target := Some target\<rparr>))"

text \<open>An empty text is not rendered.\<close>

definition create_axis_label :: "LABEL_HOST \<Rightarrow> string \<Rightarrow> TEXT_LABEL option" where
  "create_axis_label h t = (if t = [] then None else create_text_label h (AxisName t))"

definition prepare_axis_labels :: "LABEL_HOST \<Rightarrow> cfloat \<Rightarrow> VIEW_GRAPH \<Rightarrow> bool \<times> VIEW_GRAPH" where
  "prepare_axis_labels h density g =
     (if \<not> font_opens h then (False, g)
      else
        (case (create_axis_label h (x_axis_label (vg_config g)), create_axis_label h (y_axis_label (vg_config g))) of
           (Some new_x_label, Some new_y_label) \<Rightarrow>
             (True, g\<lparr>vg_x_axis_label := Some new_x_label, vg_y_axis_label := Some new_y_label,
               vg_axis_label_density := density\<rparr>)
         | _ \<Rightarrow> (False, g)))"

definition ensure_axis_labels :: "LABEL_HOST \<Rightarrow> (int \<times> int) option \<Rightarrow> VIEW_GRAPH \<Rightarrow> bool \<times> VIEW_GRAPH" where
  "ensure_axis_labels h points g =
     (let density = graph_pixel_density (vg_width g) (vg_heigth g) points in
      if vg_x_axis_label g \<noteq> None \<and> vg_y_axis_label g \<noteq> None
        \<and> fabsf (fsub f32 (vg_axis_label_density g) density) < fround f32 (1 / 100) then (True, g)
      else prepare_axis_labels h density g)"

text \<open>The place of a new window: the screen is divided into cells of at least the initial size, which
  the slots of the table fill in rows. \<open>bounds\<close> is the usable part of the display.\<close>

definition position_graph_window :: "(int \<times> int \<times> int \<times> int) option \<Rightarrow> nat \<Rightarrow> (int \<times> int) option" where
  "position_graph_window bounds graph_slot =
     (case bounds of
        None \<Rightarrow> None
      | Some (ux, uy, uw, uh) \<Rightarrow>
          let columns = (if uw > INITIAL_WIDTH then uw div INITIAL_WIDTH else 1);
              rows = (if uh > INITIAL_HEIGTH then uh div INITIAL_HEIGTH else 1);
              cell_count = columns * rows mod 4294967296;
              cell = (if cell_count > 0 then int graph_slot mod cell_count else 0);
              column = cell mod columns; row = cell div columns;
              cell_width = uw sdiv columns; cell_height = uh sdiv rows;
              horizontal_margin = (cell_width - INITIAL_WIDTH) sdiv 2;
              vertical_margin = (cell_height - INITIAL_HEIGTH) sdiv 2;
              horizontal_margin = (if horizontal_margin < 0 then 0 else horizontal_margin);
              vertical_margin = (if vertical_margin < 0 then 0 else vertical_margin) in
          Some (ux + column * cell_width + horizontal_margin, uy + row * cell_height + vertical_margin))"

section \<open>Opening a graph\<close>

text \<open>The buffers of the configuration's domain; nothing when the allocation fails or the domain is
  unknown.\<close>

definition with_buffers :: "bool \<Rightarrow> VIEW_GRAPH \<Rightarrow> VIEW_GRAPH option" where
  "with_buffers mem g =
     (let d = domain (vg_config g) in
      if is_time_domain d
      then (if mem then Some (g\<lparr>vg_scope_streams := Some (replicate MAX_STREAMS zero_scope)\<rparr>) else None)
      else if is_spectral_domain d
      then (if mem then Some (g\<lparr>vg_spectral_streams := Some (replicate MAX_STREAMS zero_spectral)\<rparr>) else None)
      else if is_ftable_domain d
      then (if mem then Some (g\<lparr>vg_ftable_streams := Some (replicate MAX_STREAMS zero_ftable)\<rparr>) else None)
      else if is_point_domain d
      then (if mem then Some (g\<lparr>vg_point_streams := Some (replicate MAX_STREAMS zero_point)\<rparr>) else None)
      else if is_meter_domain d
      then (if mem then Some (g\<lparr>vg_meter_stream := Some zero_meter\<rparr>) else None)
      else None)"

definition blank_graph :: "WATCH_MSG_CONFIG \<Rightarrow> watch_endpoint \<Rightarrow> VIEW_GRAPH" where
  "blank_graph c sender =
     \<lparr>vg_config = c, vg_sender = sender, vg_window_id = 0, vg_width = INITIAL_WIDTH,
      vg_heigth = INITIAL_HEIGTH, vg_render_target = None, vg_axis_label_density = Fin 0,
      vg_x_axis_label = None, vg_y_axis_label = None, vg_tick_labels = no_tick_labels,
      vg_scope_streams = None, vg_spectral_streams = None, vg_ftable_streams = None,
      vg_point_streams = None, vg_meter_stream = None, vg_clock = zero_clock\<rparr>"

text \<open>The result is the slot, or nothing; the window's position and foreground are output only.\<close>

definition create_view_graph ::
  "WINDOW_HOST \<Rightarrow> WATCH_MSG_CONFIG \<Rightarrow> watch_endpoint \<Rightarrow> table \<Rightarrow> nat option \<times> table" where
  "create_view_graph h c sender gs =
     (case first_free gs of
        None \<Rightarrow> (None, gs)
      | Some graph_slot \<Rightarrow>
          (case with_buffers (buffers_mem h) (blank_graph c sender) of
             None \<Rightarrow> (None, gs)
           | Some g \<Rightarrow>
               (case window_made h of
                  None \<Rightarrow> (None, gs)
                | Some window_id \<Rightarrow>
                    if \<not> minimum_size_set h then (None, gs)
                    else
                      let g1 = update_graph_render_size (output_size h) g;
                          (labelled, g2) = ensure_axis_labels (axis_font h) (window_points h) g1 in
                      if \<not> labelled then (None, gs)
                      else (Some graph_slot, gs[graph_slot := Some (g2\<lparr>vg_window_id := window_id\<rparr>)]))))"

text \<open>A new theme drops everything that was drawn in the old colours.\<close>

definition apply_graph_theme :: "u32 \<Rightarrow> VIEW_GRAPH \<Rightarrow> VIEW_GRAPH" where
  "apply_graph_theme th g =
     (if theme (vg_config g) = th then g
      else
        let g1 = g\<lparr>vg_config := (vg_config g)\<lparr>theme := th\<rparr>, vg_x_axis_label := None,
              vg_y_axis_label := None, vg_tick_labels := no_tick_labels, vg_axis_label_density := Fin 0\<rparr> in
        if domain (vg_config g1) = WATCH_DOMAIN_SPECTROGRAM
        then g1\<lparr>vg_spectral_streams := map_option (map clear_spectral_stream) (vg_spectral_streams g1)\<rparr>
        else g1)"

section \<open>Searches and the table contract\<close>

lemma find_view_from_Some:
  "find_view_from i P gs = Some j \<Longrightarrow> i \<le> j \<and> j - i < length gs \<and> (\<exists>g. gs ! (j - i) = Some g \<and> P g)"
proof (induction i P gs rule: find_view_from.induct)
  case (2 i P gs)
  then have "i + 1 \<le> j \<and> j - (i + 1) < length gs \<and> (\<exists>g. gs ! (j - (i + 1)) = Some g \<and> P g)" by simp
  then show ?case by (cases "j - i") (auto simp: diff_Suc split: nat.splits)
next
  case (3 i P g gs)
  show ?case
  proof (cases "P g")
    case False
    then have "i + 1 \<le> j \<and> j - (i + 1) < length gs \<and> (\<exists>g. gs ! (j - (i + 1)) = Some g \<and> P g)"
      using 3 by simp
    then show ?thesis by (cases "j - i") (auto simp: diff_Suc split: nat.splits)
  qed (use 3 in auto)
qed simp

lemma find_view_from_None: "find_view_from i P gs = None \<longleftrightarrow> (\<forall>g. Some g \<in> set gs \<longrightarrow> \<not> P g)"
  by (induction i P gs rule: find_view_from.induct) auto

text \<open>What identifies a graph: its handle and the session it belongs to.\<close>

definition view_key :: "VIEW_GRAPH \<Rightarrow> u32 \<times> endpoint_id option" where
  "view_key g = (graph_id (vg_config g), endpoint_key (vg_sender g))"

definition view_lookup :: "table \<Rightarrow> u32 \<times> endpoint_id option \<Rightarrow> nat option" where
  "view_lookup gs k = find_view_from 0 (\<lambda>g. view_key g = k) gs"

interpretation views: slot_table view_key view_lookup
proof
  show "view_lookup xs k = Some i \<Longrightarrow> i < length xs \<and> (\<exists>e. xs ! i = Some e \<and> view_key e = k)" for xs k i
    using find_view_from_Some [of 0 "\<lambda>g. view_key g = k" xs i] by (simp add: view_lookup_def)
  show "view_lookup xs k = None \<longleftrightarrow> (\<forall>e. Some e \<in> set xs \<longrightarrow> view_key e \<noteq> k)" for xs k
    by (simp add: view_lookup_def find_view_from_None)
qed

lemma find_view_graph_lookup:
  "find_view_graph gs gid sender =
     (if endpoint_key sender = None then None else view_lookup gs (gid, endpoint_key sender))"
proof (cases "endpoint_key sender = None")
  case True
  then show ?thesis
    by (auto simp: find_view_graph_def watch_endpoint_equal_key find_view_from_None simp del: not_None_eq)
next
  case False
  then have "(\<lambda>g. graph_id (vg_config g) = gid \<and> watch_endpoint_equal (Some (vg_sender g)) (Some sender))
      = (\<lambda>g. view_key g = (gid, endpoint_key sender))"
    by (auto simp: watch_endpoint_equal_key view_key_def)
  then show ?thesis using False unfolding find_view_graph_def view_lookup_def by (simp only: if_False)
qed

lemma find_view_graph_Some:
  assumes "find_view_graph gs gid sender = Some i"
  obtains g where "i < length gs" "gs ! i = Some g" "graph_id (vg_config g) = gid"
    "endpoint_key (vg_sender g) = endpoint_key sender" "endpoint_key sender \<noteq> None"
proof -
  have "endpoint_key sender \<noteq> None" and "view_lookup gs (gid, endpoint_key sender) = Some i"
    using assms by (simp_all add: find_view_graph_lookup split: if_splits)
  then show thesis using views.hit [of gs _ i] that by (auto simp: view_key_def)
qed

section \<open>A well-formed table\<close>

text \<open>A configuration the viewer has accepted.\<close>

definition accepted_config :: "WATCH_MSG_CONFIG \<Rightarrow> bool" where
  "accepted_config c \<longleftrightarrow> (\<exists>p r. validate_config_packet p r \<and> pk_config p = c)"

text \<open>A graph has the buffers of its domain, one for each stream, and no others.\<close>

definition buffers_match :: "VIEW_GRAPH \<Rightarrow> bool" where
  "buffers_match g \<longleftrightarrow>
     (let d = domain (vg_config g) in
      map_option length (vg_scope_streams g) = (if is_time_domain d then Some MAX_STREAMS else None)
      \<and> map_option length (vg_spectral_streams g) = (if is_spectral_domain d then Some MAX_STREAMS else None)
      \<and> map_option length (vg_ftable_streams g) = (if is_ftable_domain d then Some MAX_STREAMS else None)
      \<and> map_option length (vg_point_streams g) = (if is_point_domain d then Some MAX_STREAMS else None)
      \<and> (vg_meter_stream g \<noteq> None \<longleftrightarrow> is_meter_domain d))"

definition view_ok :: "VIEW_GRAPH \<Rightarrow> bool" where
  "view_ok g \<longleftrightarrow> accepted_config (vg_config g) \<and> endpoint_key (vg_sender g) \<noteq> None \<and> buffers_match g
     \<and> 0 < vg_width g \<and> 0 < vg_heigth g"

definition table_ok :: "table \<Rightarrow> bool" where
  "table_ok gs \<longleftrightarrow> length gs = MAX_VIEWER_GRAPHS \<and> keys_unique view_key gs
     \<and> (\<forall>g. Some g \<in> set gs \<longrightarrow> view_ok g)"

text \<open>What a session sees of the others: its own graphs are hidden.\<close>

definition foreign :: "endpoint_id option \<Rightarrow> VIEW_GRAPH option \<Rightarrow> VIEW_GRAPH option" where
  "foreign k slot = (case slot of None \<Rightarrow> None | Some g \<Rightarrow> if endpoint_key (vg_sender g) = k then None else Some g)"

lemma accepted_config_theme:
  assumes "accepted_config c" "th \<le> WATCH_THEME_DARK"
  shows "accepted_config (c\<lparr>theme := th\<rparr>)"
proof -
  obtain p r where p: "validate_config_packet p r" "pk_config p = c"
    using assms(1) by (auto simp: accepted_config_def)
  have "validate_config_packet (p\<lparr>pk_config := c\<lparr>theme := th\<rparr>\<rparr>) r"
    using p assms(2) unfolding validate_config_packet_def Let_def by (simp split: if_splits)
  then show ?thesis unfolding accepted_config_def by fastforce
qed

lemma accepted_domain:
  assumes "validate_config_packet p r"
  shows "domain (pk_config p) \<le> WATCH_DOMAIN_METER" "graph_id (pk_config p) \<noteq> 0"
    "theme (pk_config p) \<le> WATCH_THEME_DARK"
  using assms by (auto simp: validate_config_packet_def Let_def not_less split: if_splits)

lemma domain_cases:
  assumes "(d :: u32) \<le> WATCH_DOMAIN_METER"
  shows "is_time_domain d \<or> is_spectral_domain d \<or> is_ftable_domain d \<or> is_point_domain d \<or> is_meter_domain d"
proof -
  have "unat d \<le> 6" using assms by (simp add: word_le_nat_alt)
  then have "unat d \<in> {0, 1, 2, 3, 4, 5, 6}" by auto
  then have "of_nat (unat d) \<in> (of_nat ` {0, 1, 2, 3, 4, 5, 6} :: u32 set)" by (rule imageI)
  then have "d \<in> of_nat ` {0, 1, 2, 3, 4, 5, 6}" by simp
  then show ?thesis by (auto simp: domain_defs)
qed

text \<open>The domains exclude each other.\<close>

lemma domains_disjoint:
  "is_time_domain d \<Longrightarrow> \<not> is_spectral_domain d \<and> \<not> is_ftable_domain d \<and> \<not> is_point_domain d \<and> \<not> is_meter_domain d"
  "is_spectral_domain d \<Longrightarrow> \<not> is_ftable_domain d \<and> \<not> is_point_domain d \<and> \<not> is_meter_domain d"
  "is_ftable_domain d \<Longrightarrow> \<not> is_point_domain d \<and> \<not> is_meter_domain d"
  "is_point_domain d \<Longrightarrow> \<not> is_meter_domain d"
  by (auto simp: domain_defs)

section \<open>Opening, labelling and theming keep it\<close>

text \<open>What labels and sizes do not touch.\<close>

definition same_core :: "VIEW_GRAPH \<Rightarrow> VIEW_GRAPH \<Rightarrow> bool" where
  "same_core g g' \<longleftrightarrow> vg_config g' = vg_config g \<and> vg_sender g' = vg_sender g
     \<and> vg_scope_streams g' = vg_scope_streams g \<and> vg_spectral_streams g' = vg_spectral_streams g
     \<and> vg_ftable_streams g' = vg_ftable_streams g \<and> vg_point_streams g' = vg_point_streams g
     \<and> vg_meter_stream g' = vg_meter_stream g \<and> vg_window_id g' = vg_window_id g"

lemma same_core_size:
  "same_core g (update_graph_render_size a g)"
  "0 < vg_width g \<Longrightarrow> 0 < vg_width (update_graph_render_size a g)"
  "0 < vg_heigth g \<Longrightarrow> 0 < vg_heigth (update_graph_render_size a g)"
  by (auto simp: same_core_def update_graph_render_size_def split: option.split)

lemma same_core_labels:
  assumes "ensure_axis_labels h pts g = (ok, g')"
  shows "same_core g g'" "vg_width g' = vg_width g" "vg_heigth g' = vg_heigth g" "vg_clock g' = vg_clock g"
    "ok \<Longrightarrow> vg_x_axis_label g' \<noteq> None \<and> vg_y_axis_label g' \<noteq> None"
  using assms by (auto simp: same_core_def ensure_axis_labels_def prepare_axis_labels_def Let_def
      split: if_splits option.splits)

lemma with_buffers_match:
  assumes "with_buffers m (blank_graph c sender) = Some g"
  shows "buffers_match g" "vg_config g = c" "vg_sender g = sender" "0 < vg_width g" "0 < vg_heigth g"
proof -
  note w = assms [unfolded with_buffers_def Let_def]
  show "vg_config g = c" "vg_sender g = sender" "0 < vg_width g" "0 < vg_heigth g"
    using w by (auto simp: blank_graph_def split: if_splits)
  have c [simp]: "vg_config (blank_graph c sender) = c" by (simp add: blank_graph_def)
  note d = domains_disjoint [of "domain c"]
  consider "is_time_domain (domain c)" | "is_spectral_domain (domain c)" | "is_ftable_domain (domain c)"
    | "is_point_domain (domain c)" | "is_meter_domain (domain c)"
    using w by (auto split: if_splits)
  then show "buffers_match g"
  proof cases
    case 1
    then have "g = (blank_graph c sender)\<lparr>vg_scope_streams := Some (replicate MAX_STREAMS zero_scope)\<rparr>"
      using w by (simp split: if_splits)
    then show ?thesis using 1 d by (simp add: buffers_match_def blank_graph_def Let_def)
  next
    case 2
    then have "g = (blank_graph c sender)\<lparr>vg_spectral_streams := Some (replicate MAX_STREAMS zero_spectral)\<rparr>"
      using w d by (simp split: if_splits)
    then show ?thesis using 2 d by (auto simp: buffers_match_def blank_graph_def Let_def)
  next
    case 3
    then have "g = (blank_graph c sender)\<lparr>vg_ftable_streams := Some (replicate MAX_STREAMS zero_ftable)\<rparr>"
      using w d by (simp split: if_splits)
    then show ?thesis using 3 d by (auto simp: buffers_match_def blank_graph_def Let_def)
  next
    case 4
    then have "g = (blank_graph c sender)\<lparr>vg_point_streams := Some (replicate MAX_STREAMS zero_point)\<rparr>"
      using w d by (simp split: if_splits)
    then show ?thesis using 4 d by (auto simp: buffers_match_def blank_graph_def Let_def)
  next
    case 5
    then have "g = (blank_graph c sender)\<lparr>vg_meter_stream := Some zero_meter\<rparr>"
      using w d by (simp split: if_splits)
    then show ?thesis using 5 d by (auto simp: buffers_match_def blank_graph_def Let_def)
  qed
qed

lemma same_core_ok:
  assumes "same_core g g'" "view_ok g" "0 < vg_width g'" "0 < vg_heigth g'"
  shows "view_ok g'"
  using assms by (simp add: same_core_def view_ok_def buffers_match_def)

text \<open>Opening a graph fills the first free slot with a well-formed graph, or changes nothing.\<close>

lemma create_view_graph_spec:
  assumes "create_view_graph h c sender gs = (r, gs')"
  shows "r = None \<and> gs' = gs \<or> (\<exists>i g. r = Some i \<and> i < length gs \<and> gs ! i = None \<and> gs' = gs[i := Some g]
     \<and> vg_config g = c \<and> vg_sender g = sender \<and> buffers_match g \<and> 0 < vg_width g \<and> 0 < vg_heigth g
     \<and> window_made h = Some (vg_window_id g) \<and> vg_x_axis_label g \<noteq> None \<and> vg_y_axis_label g \<noteq> None)"
proof (cases r)
  case None
  then show ?thesis
    using assms by (auto simp: create_view_graph_def Let_def split: option.splits if_splits prod.splits)
next
  case (Some i)
  obtain g0 id g2 where slot: "first_free gs = Some i"
    and g0: "with_buffers (buffers_mem h) (blank_graph c sender) = Some g0" and id: "window_made h = Some id"
    and lab: "ensure_axis_labels (axis_font h) (window_points h) (update_graph_render_size (output_size h) g0) = (True, g2)"
    and gs': "gs' = gs[i := Some (g2\<lparr>vg_window_id := id\<rparr>)]"
    using assms Some by (auto simp: create_view_graph_def Let_def split: option.splits if_splits prod.splits)
  note l = same_core_labels [OF lab]
  have "buffers_match g2" "vg_config g2 = c" "vg_sender g2 = sender" "0 < vg_width g2" "0 < vg_heigth g2"
    using l with_buffers_match [OF g0] same_core_size [of g0 "output_size h"]
    by (simp_all add: same_core_def buffers_match_def)
  then show ?thesis
    using Some slot id l(5) gs' first_free_Some [of gs i]
    by (intro disjI2 exI [of _ i] exI [of _ "g2\<lparr>vg_window_id := id\<rparr>"]) (simp add: buffers_match_def)
qed

lemma apply_graph_theme_core:
  "vg_sender (apply_graph_theme th g) = vg_sender g"
  "vg_config (apply_graph_theme th g) = (vg_config g)\<lparr>theme := th\<rparr>"
  "buffers_match g \<Longrightarrow> buffers_match (apply_graph_theme th g)"
  "vg_width (apply_graph_theme th g) = vg_width g" "vg_heigth (apply_graph_theme th g) = vg_heigth g"
  by (auto simp: apply_graph_theme_def buffers_match_def Let_def option.map_comp comp_def)

lemma apply_graph_theme_ok:
  assumes "view_ok g" "th \<le> WATCH_THEME_DARK"
  shows "view_ok (apply_graph_theme th g)"
  using assms accepted_config_theme apply_graph_theme_core by (simp add: view_ok_def)

section \<open>Changes to one slot\<close>

lemma table_okD:
  assumes "table_ok gs" "i < length gs" "gs ! i = Some g"
  shows "view_ok g"
  using assms unfolding table_ok_def by (metis nth_mem)

lemma keys_unique_replace:
  assumes "keys_unique key xs" "i < length xs" "xs ! i = Some e" "key e' = key e"
  shows "keys_unique key (xs[i := Some e'])"
  unfolding keys_unique_def
proof (intro allI impI)
  fix j k a b
  assume *: "j < length (xs[i := Some e'])" "k < length (xs[i := Some e'])"
    "xs[i := Some e'] ! j = Some a" "xs[i := Some e'] ! k = Some b" "key a = key b"
  obtain a0 where a0: "xs ! j = Some a0" "key a0 = key a" using *(1,3) assms(3,4) by (cases "j = i") auto
  obtain b0 where b0: "xs ! k = Some b0" "key b0 = key b" using *(2,4) assms(3,4) by (cases "k = i") auto
  show "j = k" using keys_uniqueD [OF assms(1) _ _ a0(1) b0(1)] * a0 b0 by simp
qed

lemma table_ok_replace:
  assumes "table_ok gs" "i < length gs" "gs ! i = Some g" "view_key g' = view_key g" "view_ok g'"
  shows "table_ok (gs[i := Some g'])"
  using assms keys_unique_replace [of view_key gs i g g'] unfolding table_ok_def
  by (auto dest!: set_update_subset_insert [THEN subsetD])

lemma table_ok_clear:
  assumes "table_ok gs"
  shows "table_ok (gs[i := None])"
  using assms keys_unique_clear [of view_key gs i] unfolding table_ok_def
  by (auto dest!: set_update_subset_insert [THEN subsetD])

lemma table_ok_add:
  assumes "table_ok gs" "view_lookup gs (view_key g) = None" "view_ok g"
  shows "table_ok (gs[i := Some g])"
  using assms views.unique_insert [of gs g i] unfolding table_ok_def
  by (auto dest!: set_update_subset_insert [THEN subsetD])

lemma foreign_update:
  assumes "i < length gs" "foreign k (gs ! i) = foreign k y"
  shows "map (foreign k) (gs[i := y]) = map (foreign k) gs"
  using assms by (metis length_map list_update_id map_update nth_map)

section \<open>Windows on the screen\<close>

lemma div_mult_le: "0 < (b :: int) \<Longrightarrow> a div b * b \<le> a"
  using div_mult_mod_eq [of a b] pos_mod_sign [of b a] by linarith

lemma le_div_of_mult: "0 < (n :: int) \<Longrightarrow> n * l \<le> r \<Longrightarrow> l \<le> r div n"
  using zdiv_mono1 [of "n * l" r n] by simp

lemma sdiv_nonneg: "0 \<le> (a :: int) \<Longrightarrow> 0 < b \<Longrightarrow> a sdiv b = a div b"
  by (cases "a = 0") (auto simp: signed_divide_int_def)

text \<open>One direction of the grid: \<open>n\<close> cells of \<open>room div n\<close> hold a window of length \<open>l\<close> each.\<close>

definition cell_start :: "int \<Rightarrow> int \<Rightarrow> int \<Rightarrow> int \<Rightarrow> int" where
  "cell_start l room n k = k * (room div n) + (room div n - l) div 2"

lemma cell_start_in:
  assumes "0 < l" "l \<le> room" "0 \<le> k" "k < room div l"
  defines "n \<equiv> room div l"
  shows "0 \<le> cell_start l room n k" "cell_start l room n k + l \<le> room"
    "k < j \<Longrightarrow> cell_start l room n k + l \<le> cell_start l room n j"
proof -
  have n: "0 < n" using assms by simp
  have c: "l \<le> room div n" using n div_mult_le [OF assms(1), of room] by (intro le_div_of_mult) (simp_all add: n_def)
  have "(k + 1) * (room div n) \<le> n * (room div n)"
    using assms c by (intro mult_right_mono) auto
  also have "\<dots> \<le> room" using div_mult_le [OF n, of room] by (simp add: mult.commute)
  finally have up: "(k + 1) * (room div n) \<le> room" .
  show "0 \<le> cell_start l room n k" using assms(3) c assms(1) by (simp add: cell_start_def)
  show "cell_start l room n k + l \<le> room" using up c by (simp add: cell_start_def algebra_simps)
  show "cell_start l room n k + l \<le> cell_start l room n j" if "k < j"
  proof -
    have "(k + 1) * (room div n) \<le> j * (room div n)" using that c assms(1) by (intro mult_right_mono) auto
    then show ?thesis using c by (simp add: cell_start_def algebra_simps)
  qed
qed

lemma position_graph_window_cell:
  fixes uw uh :: int and slot :: nat
  assumes "INITIAL_WIDTH \<le> uw" "INITIAL_HEIGTH \<le> uh" "uw < 65536" "uh < 65536"
  defines "columns \<equiv> uw div INITIAL_WIDTH" and "rows \<equiv> uh div INITIAL_HEIGTH"
  assumes "int slot < columns * rows"
  shows "position_graph_window (Some (ux, uy, uw, uh)) slot =
    Some (ux + cell_start INITIAL_WIDTH uw columns (int slot mod columns),
          uy + cell_start INITIAL_HEIGTH uh rows (int slot div columns))"
proof -
  have c: "0 < columns" "columns \<le> 109" and r: "0 < rows" "rows \<le> 163"
    using assms(1-4) by (auto simp: columns_def rows_def)
  have "columns * rows \<le> 109 * 163" using c r by (intro mult_mono) auto
  then have m: "columns * rows mod 4294967296 = columns * rows" and p: "0 < columns * rows" using c r by simp_all
  have w: "(if INITIAL_WIDTH < uw then uw div INITIAL_WIDTH else 1) = columns"
    "(if INITIAL_HEIGTH < uh then uh div INITIAL_HEIGTH else 1) = rows"
    using assms(1,2) by (auto simp: columns_def rows_def)
  have "columns * INITIAL_WIDTH \<le> uw" "rows * INITIAL_HEIGTH \<le> uh"
    unfolding columns_def rows_def by (rule div_mult_le, simp)+
  then have big: "INITIAL_WIDTH \<le> uw div columns" "INITIAL_HEIGTH \<le> uh div rows"
    using c(1) r(1) by (simp_all add: le_div_of_mult)
  have s: "uw sdiv columns = uw div columns" "uh sdiv rows = uh div rows"
    "(uw div columns - INITIAL_WIDTH) sdiv 2 = (uw div columns - INITIAL_WIDTH) div 2"
    "(uh div rows - INITIAL_HEIGTH) sdiv 2 = (uh div rows - INITIAL_HEIGTH) div 2"
    using c r assms(1,2) big by (auto intro!: sdiv_nonneg)
  have cell: "int slot mod (columns * rows) = int slot" using assms(7) by simp
  show ?thesis
    unfolding position_graph_window_def Let_def prod.case option.case w m s cell
    using p big by (simp add: cell_start_def)
qed

text \<open>C40: New windows do not cover each other: as long as the slots of the table are fewer than the
  cells of the screen, every window lies within the usable part of the display, and the windows of
  two slots are side by side or one above the other.\<close>

theorem windows_tiled:
  fixes ux uy uw uh :: int and a b :: nat
  assumes "INITIAL_WIDTH \<le> uw" "INITIAL_HEIGTH \<le> uh" "uw < 65536" "uh < 65536"
    and "int a < (uw div INITIAL_WIDTH) * (uh div INITIAL_HEIGTH)"
    and "int b < (uw div INITIAL_WIDTH) * (uh div INITIAL_HEIGTH)" and "a \<noteq> b"
  shows "\<exists>xa ya xb yb. position_graph_window (Some (ux, uy, uw, uh)) a = Some (xa, ya)
    \<and> position_graph_window (Some (ux, uy, uw, uh)) b = Some (xb, yb)
    \<and> ux \<le> xa \<and> xa + INITIAL_WIDTH \<le> ux + uw \<and> uy \<le> ya \<and> ya + INITIAL_HEIGTH \<le> uy + uh
    \<and> (xa + INITIAL_WIDTH \<le> xb \<or> xb + INITIAL_WIDTH \<le> xa \<or> ya + INITIAL_HEIGTH \<le> yb \<or> yb + INITIAL_HEIGTH \<le> ya)"
proof -
  let ?n = "uw div INITIAL_WIDTH" and ?m = "uh div INITIAL_HEIGTH"
  have n: "0 < ?n" using assms(1) by simp
  have cells: "0 \<le> int s mod ?n" "int s mod ?n < ?n" "0 \<le> int s div ?n" "int s div ?n < ?m"
    if "int s < ?n * ?m" for s
  proof -
    show "0 \<le> int s mod ?n" "int s mod ?n < ?n" "0 \<le> int s div ?n"
      using n by (simp_all add: pos_imp_zdiv_nonneg_iff)
    show "int s div ?n < ?m"
    proof (rule ccontr)
      assume "\<not> int s div ?n < ?m"
      then have "?m * ?n \<le> int s div ?n * ?n" using n by (intro mult_right_mono) auto
      then show False using that div_mult_le [OF n, of "int s"] by (simp add: mult.commute)
    qed
  qed
  have apart: "int a mod ?n \<noteq> int b mod ?n \<or> int a div ?n \<noteq> int b div ?n"
    using assms(7) by (metis div_mult_mod_eq of_nat_eq_iff)
  note pa = position_graph_window_cell [OF assms(1-5), of ux uy]
  note pb = position_graph_window_cell [OF assms(1-4,6), of ux uy]
  note ca = cells [OF assms(5)] and cb = cells [OF assms(6)]
  define xa where "xa = cell_start INITIAL_WIDTH uw ?n (int a mod ?n)"
  define ya where "ya = cell_start INITIAL_HEIGTH uh ?m (int a div ?n)"
  define xb where "xb = cell_start INITIAL_WIDTH uw ?n (int b mod ?n)"
  define yb where "yb = cell_start INITIAL_HEIGTH uh ?m (int b div ?n)"
  note X = cell_start_in [of INITIAL_WIDTH uw, OF _ assms(1)] and Y = cell_start_in [of INITIAL_HEIGTH uh, OF _ assms(2)]
  have inside: "0 \<le> xa" "xa + INITIAL_WIDTH \<le> uw" "0 \<le> ya" "ya + INITIAL_HEIGTH \<le> uh"
    unfolding xa_def ya_def using X(1,2) [OF _ ca(1,2)] Y(1,2) [OF _ ca(3,4)] by simp_all
  have x: "xa + INITIAL_WIDTH \<le> xb \<or> xb + INITIAL_WIDTH \<le> xa" if "int a mod ?n \<noteq> int b mod ?n"
    unfolding xa_def xb_def using X(3) [OF _ ca(1,2)] X(3) [OF _ cb(1,2)] that by (metis neq_iff zero_less_numeral)
  have y: "ya + INITIAL_HEIGTH \<le> yb \<or> yb + INITIAL_HEIGTH \<le> ya" if "int a div ?n \<noteq> int b div ?n"
    unfolding ya_def yb_def using Y(3) [OF _ ca(3,4)] Y(3) [OF _ cb(3,4)] that by (metis neq_iff zero_less_numeral)
  have "ux + xa + INITIAL_WIDTH \<le> ux + xb \<or> ux + xb + INITIAL_WIDTH \<le> ux + xa
      \<or> uy + ya + INITIAL_HEIGTH \<le> uy + yb \<or> uy + yb + INITIAL_HEIGTH \<le> uy + ya"
    using x y apart by linarith
  then show ?thesis
    using pa pb inside unfolding xa_def [symmetric] ya_def [symmetric] xb_def [symmetric] yb_def [symmetric]
    by (intro exI [of _ "ux + xa"] exI [of _ "uy + ya"] exI [of _ "ux + xb"] exI [of _ "uy + yb"] conjI) simp_all
qed

theorem windows_tiled_witness:
  "\<exists>xa ya xb yb. position_graph_window (Some (0, 25, 1440, 875)) 1 = Some (xa, ya)
    \<and> position_graph_window (Some (0, 25, 1440, 875)) 2 = Some (xb, yb)
    \<and> 0 \<le> xa \<and> xa + INITIAL_WIDTH \<le> 1440 \<and> 25 \<le> ya \<and> ya + INITIAL_HEIGTH \<le> 900
    \<and> (xa + INITIAL_WIDTH \<le> xb \<or> xb + INITIAL_WIDTH \<le> xa \<or> ya + INITIAL_HEIGTH \<le> yb \<or> yb + INITIAL_HEIGTH \<le> ya)"
  using windows_tiled [of 1440 875 1 2 0 25] by simp

end
