(* ===== verification/Dispatch.thy ===== *)
theory Dispatch
  imports ViewGraph Validate
begin

text \<open>
  The handlers of the viewer's packets and the loop around them (\<^verbatim>\<open>process_config_packet\<close> to
  \<^verbatim>\<open>process_meter_packet\<close> and \<^verbatim>\<open>main\<close> in \<^verbatim>\<open>src/src/watch_viewer.c\<close>).
\<close>

abbreviation VIEWER_SHUTDOWN_DELAY_MS :: "'a::numeral" where "VIEWER_SHUTDOWN_DELAY_MS \<equiv> 500"
abbreviation CONFIG_FAILURE_LOG_INTERVAL_NS :: "'a::numeral" where "CONFIG_FAILURE_LOG_INTERVAL_NS \<equiv> 2000000000"
abbreviation MAX_PACKETS_PER_FRAME :: "'a::numeral" where "MAX_PACKETS_PER_FRAME \<equiv> 4096"

section \<open>The viewer's state\<close>

text \<open>\<open>answers\<close> are the acknowledgements sent, \<open>reports\<close> the diagnostics of a failed configuration.\<close>

record VIEWER =
  table_of :: table
  deadline_ns :: u64
  last_report_ns :: u64
  reports :: nat
  answers :: "(watch_endpoint \<times> packet) list"

text \<open>What the host answers while one packet is handled. A clock is read at most once.\<close>

record PACKET_HOST =
  window_host :: WINDOW_HOST
  spectral_host :: SPECTRAL_HOST
  stream_mem :: bool
  envelope_mem :: bool
  ack_sent :: bool
  ticks_ns :: u64
  host_sqrtf :: "cfloat \<Rightarrow> cfloat"
  host_log10f :: "cfloat \<Rightarrow> cfloat"

definition update_view :: "nat \<Rightarrow> (VIEW_GRAPH \<Rightarrow> VIEW_GRAPH) \<Rightarrow> table \<Rightarrow> table" where
  "update_view i f gs = (case gs ! i of None \<Rightarrow> gs | Some g \<Rightarrow> gs[i := Some (f g)])"

section \<open>Configuration\<close>

definition config_ack :: "packet \<Rightarrow> packet" where
  "config_ack p =
     zero_packet\<lparr>header := \<lparr>magic = WATCH_MAGIC, version = PROT_VERSION, msg_type = msg_code ACK,
         sequence = sequence (header p), payload_size = SIZEOF_ACK\<rparr>,
       pk_ack := \<lparr>ack_graph_id = graph_id (pk_config p)\<rparr>\<rparr>"

definition send_config_ack :: "bool \<Rightarrow> watch_endpoint \<Rightarrow> packet \<Rightarrow> VIEWER \<Rightarrow> bool \<times> VIEWER" where
  "send_config_ack delivered sender p v =
     (delivered, if delivered then v\<lparr>answers := answers v @ [(sender, config_ack p)]\<rparr> else v)"

definition should_report_config_failure :: "u64 \<Rightarrow> VIEWER \<Rightarrow> bool \<times> VIEWER" where
  "should_report_config_failure now_ns v =
     (if last_report_ns v \<noteq> 0 \<and> now_ns - last_report_ns v < CONFIG_FAILURE_LOG_INTERVAL_NS then (False, v)
      else (True, v\<lparr>last_report_ns := now_ns\<rparr>))"

definition report_config_failure :: "u64 \<Rightarrow> VIEWER \<Rightarrow> VIEWER" where
  "report_config_failure now_ns v =
     (let (report, v1) = should_report_config_failure now_ns v in
      if report then v1\<lparr>reports := reports v1 + 1\<rparr> else v1)"

definition process_config_packet :: "PACKET_HOST \<Rightarrow> packet \<Rightarrow> int \<Rightarrow> watch_endpoint \<Rightarrow> VIEWER \<Rightarrow> VIEWER" where
  "process_config_packet h p received sender v =
     (if \<not> validate_config_packet p received then v
      else
        let (graph, v1) =
              (case find_view_graph (table_of v) (graph_id (pk_config p)) sender of
                 None \<Rightarrow>
                   let (slot, gs) = create_view_graph (window_host h) (pk_config p) sender (table_of v) in
                   (slot, v\<lparr>table_of := gs\<rparr>)
               | Some i \<Rightarrow>
                   (Some i, v\<lparr>table_of := update_view i (apply_graph_theme (theme (pk_config p))) (table_of v)\<rparr>)) in
        if graph = None then report_config_failure (ticks_ns h) v1
        else
          let (delivered, v2) = send_config_ack (ack_sent h) sender p v1 in
          if \<not> delivered then report_config_failure (ticks_ns h) v2 else v2)"

section \<open>Closing\<close>

text \<open>The flag of a slot says whether the loop closes it.\<close>

definition closes_session :: "watch_endpoint \<Rightarrow> VIEW_GRAPH option \<Rightarrow> bool" where
  "closes_session sender slot =
     (case slot of None \<Rightarrow> False | Some g \<Rightarrow> watch_endpoint_equal (Some (vg_sender g)) (Some sender))"

definition process_session_close_packet ::
  "packet \<Rightarrow> int \<Rightarrow> watch_endpoint \<Rightarrow> table \<Rightarrow> nat \<times> table" where
  "process_session_close_packet p received sender gs =
     (if \<not> validate_session_close_packet p received then (0, gs)
      else (length (filter (closes_session sender) gs),
            map (\<lambda>slot. if closes_session sender slot then None else slot) gs))"

definition process_graph_close_packet :: "packet \<Rightarrow> int \<Rightarrow> watch_endpoint \<Rightarrow> table \<Rightarrow> table" where
  "process_graph_close_packet p received sender gs =
     (if \<not> validate_graph_close_packet p received then gs
      else
        (case find_view_graph gs (close_graph_id (pk_graph_close p)) sender of
           None \<Rightarrow> gs
         | Some i \<Rightarrow> destroy_view_graph i gs))"

section \<open>Data\<close>

text \<open>A handler that reads or writes one stream of a graph; \<^const>\<open>None\<close> is an undefined conversion.\<close>

definition process_data_packet ::
  "bool \<Rightarrow> packet \<Rightarrow> int \<Rightarrow> watch_endpoint \<Rightarrow> table \<Rightarrow> table option" where
  "process_data_packet mem p received sender gs =
     (let d = pk_data p in
      if \<not> validate_data_packet p received then Some gs
      else
        (case find_view_graph gs (data_graph_id d) sender of
           None \<Rightarrow> Some gs
         | Some i \<Rightarrow>
             (case gs ! i of
                None \<Rightarrow> Some gs
              | Some g \<Rightarrow>
                  (case vg_scope_streams g of
                     None \<Rightarrow> Some gs
                   | Some streams \<Rightarrow>
                       if \<not> is_time_domain (domain (vg_config g)) then Some gs
                       else
                         let c = set_time (settings (vg_config g)); (ymin, ymax) = resolve_scope_range c;
                             k = unat (data_stream_id d) in
                         (case ensure_scope_buffer mem (streams ! k) (win_size c) (data_sample_rate d) ymin ymax of
                            None \<Rightarrow> None
                          | Some (ensured, s) \<Rightarrow>
                              let s1 = (if ensured
                                then append_scope_samples (samples d) (unat (sample_count d)) (sequence (header p)) s
                                else s) in
                              Some (gs[i := Some (g\<lparr>vg_scope_streams := Some (streams[k := s1])\<rparr>)]))))))"

definition process_spectral_packet ::
  "SPECTRAL_HOST \<Rightarrow> (cfloat \<Rightarrow> u32 \<Rightarrow> cfloat) \<Rightarrow> packet \<Rightarrow> int \<Rightarrow> watch_endpoint \<Rightarrow> table \<Rightarrow> table" where
  "process_spectral_packet h display p received sender gs =
     (let d = pk_spectral p in
      if \<not> validate_spectral_data_packet p received then gs
      else
        (case find_view_graph gs (spec_graph_id d) sender of
           None \<Rightarrow> gs
         | Some i \<Rightarrow>
             update_view i (\<lambda>g.
               case vg_spectral_streams g of
                 None \<Rightarrow> g
               | Some streams \<Rightarrow>
                   if \<not> is_spectral_domain (domain (vg_config g)) then g
                   else
                     let k = unat (spec_stream_id d) in
                     g\<lparr>vg_spectral_streams := Some (streams[k :=
                       accept_spectral_chunk h display (vg_config g) p (streams ! k)])\<rparr>) gs))"

definition process_point_packet :: "bool \<Rightarrow> packet \<Rightarrow> int \<Rightarrow> watch_endpoint \<Rightarrow> table \<Rightarrow> table" where
  "process_point_packet mem p received sender gs =
     (let d = pk_data p in
      if \<not> validate_point_data_packet p received then gs
      else
        (case find_view_graph gs (data_graph_id d) sender of
           None \<Rightarrow> gs
         | Some i \<Rightarrow>
             update_view i (\<lambda>g.
               case vg_point_streams g of
                 None \<Rightarrow> g
               | Some streams \<Rightarrow>
                   if \<not> is_point_domain (domain (vg_config g)) then g
                   else
                     let k = unat (data_stream_id d) in
                     g\<lparr>vg_point_streams := Some (streams[k := accept_points mem d (streams ! k)])\<rparr>) gs))"

definition process_ftable_packet ::
  "bool \<Rightarrow> bool \<Rightarrow> packet \<Rightarrow> int \<Rightarrow> watch_endpoint \<Rightarrow> table \<Rightarrow> table" where
  "process_ftable_packet mem env p received sender gs =
     (let d = pk_ftable p in
      if \<not> validate_ftable_data_packet p received then gs
      else
        (case find_view_graph gs (ft_graph_id d) sender of
           None \<Rightarrow> gs
         | Some i \<Rightarrow>
             update_view i (\<lambda>g.
               case vg_ftable_streams g of
                 None \<Rightarrow> g
               | Some streams \<Rightarrow>
                   if \<not> is_ftable_domain (domain (vg_config g))
                     \<or> total_samples d \<noteq> ft_win_size (set_ftable (settings (vg_config g))) then g
                   else
                     let k = unat (ft_stream_id d) in
                     g\<lparr>vg_ftable_streams := Some (streams[k := accept_ftable_chunk mem env d (streams ! k)])\<rparr>) gs))"

definition process_meter_packet :: "u64 \<Rightarrow> packet \<Rightarrow> int \<Rightarrow> watch_endpoint \<Rightarrow> table \<Rightarrow> table" where
  "process_meter_packet now_ns p received sender gs =
     (let d = pk_meter p in
      if \<not> validate_meter_data_packet p received then gs
      else
        (case find_view_graph gs (meter_graph_id d) sender of
           None \<Rightarrow> gs
         | Some i \<Rightarrow>
             update_view i (\<lambda>g.
               case vg_meter_stream g of
                 None \<Rightarrow> g
               | Some s \<Rightarrow>
                   if \<not> is_meter_domain (domain (vg_config g)) then g
                   else g\<lparr>vg_meter_stream :=
                     Some (accept_levels (set_meter (settings (vg_config g))) d now_ns s)\<rparr>) gs))"

section \<open>Dispatch\<close>

text \<open>The body of the packet loop behind the receive call. The type is compared with the codes in the
  order of the \<^verbatim>\<open>switch\<close>; \<^const>\<open>None\<close> is undefined behaviour.\<close>

definition dispatch :: "PACKET_HOST \<Rightarrow> packet \<Rightarrow> int \<Rightarrow> watch_endpoint \<Rightarrow> VIEWER \<Rightarrow> VIEWER option" where
  "dispatch h p received sender v =
     (if \<not> validate_header (header p) received then Some v
      else if msg_type (header p) = msg_code CONFIG
      then
        let v1 = process_config_packet h p received sender v in
        Some (if has_opened_graph (table_of v1) then v1\<lparr>deadline_ns := 0\<rparr> else v1)
      else if msg_type (header p) = msg_code DATA
      then map_option (\<lambda>gs. v\<lparr>table_of := gs\<rparr>) (process_data_packet (stream_mem h) p received sender (table_of v))
      else if msg_type (header p) = msg_code SPECTRAL_DATA
      then Some (v\<lparr>table_of := process_spectral_packet (spectral_host h)
          (spectral_display_value (host_sqrtf h) (host_log10f h)) p received sender (table_of v)\<rparr>)
      else if msg_type (header p) = msg_code FTABLE_DATA
      then Some (v\<lparr>table_of := process_ftable_packet (stream_mem h) (envelope_mem h) p received sender (table_of v)\<rparr>)
      else if msg_type (header p) = msg_code POINT_DATA
      then Some (v\<lparr>table_of := process_point_packet (stream_mem h) p received sender (table_of v)\<rparr>)
      else if msg_type (header p) = msg_code METER_DATA
      then Some (v\<lparr>table_of := process_meter_packet (ticks_ns h) p received sender (table_of v)\<rparr>)
      else if msg_type (header p) = msg_code GRAPH_CLOSE
      then Some (v\<lparr>table_of := process_graph_close_packet p received sender (table_of v)\<rparr>)
      else if msg_type (header p) = msg_code SESSION_CLOSE
      then
        let (closed, gs) = process_session_close_packet p received sender (table_of v); v1 = v\<lparr>table_of := gs\<rparr> in
        Some (if 0 < closed \<and> \<not> has_opened_graph gs
              then v1\<lparr>deadline_ns := ticks_ns h + VIEWER_SHUTDOWN_DELAY_MS * 1000000\<rparr> else v1)
      else Some v)"

section \<open>A packet touches its own session only\<close>

text \<open>What the handlers of data do to the table: at most one graph of the sender changes, and keeps
  its identity and its shape.\<close>

definition own_update :: "watch_endpoint \<Rightarrow> table \<Rightarrow> table \<Rightarrow> bool" where
  "own_update sender gs gs' \<longleftrightarrow> gs' = gs \<or> (\<exists>i g g'. i < length gs \<and> gs ! i = Some g
     \<and> endpoint_key (vg_sender g) = endpoint_key sender \<and> gs' = gs[i := Some g']
     \<and> vg_sender g' = vg_sender g \<and> graph_id (vg_config g') = graph_id (vg_config g)
     \<and> (view_ok g \<longrightarrow> view_ok g'))"

lemma own_update_foreign:
  assumes "own_update sender gs gs'"
  shows "map (foreign (endpoint_key sender)) gs' = map (foreign (endpoint_key sender)) gs"
  using assms unfolding own_update_def by (auto simp: foreign_def intro!: foreign_update)

lemma own_update_ok:
  assumes "own_update sender gs gs'" "table_ok gs"
  shows "table_ok gs'"
  using assms unfolding own_update_def
  by (auto simp: view_key_def dest: table_okD intro!: table_ok_replace)

lemma opened_replace: "i < length gs \<Longrightarrow> gs ! i = Some g \<Longrightarrow> has_opened_graph (gs[i := Some g']) = has_opened_graph gs"
  by (auto simp: has_opened_graph_def) (metis nth_mem option.distinct(1), metis length_list_update nth_list_update_eq nth_mem option.distinct(1))

lemma own_update_opened: "own_update sender gs gs' \<Longrightarrow> has_opened_graph gs' = has_opened_graph gs"
  unfolding own_update_def by (auto simp: opened_replace)

lemma own_update_refl [simp]: "own_update sender gs gs"
  by (simp add: own_update_def)

lemma own_update_view:
  assumes "find_view_graph gs gid sender = Some i"
    and "\<And>g. vg_sender (f g) = vg_sender g" "\<And>g. graph_id (vg_config (f g)) = graph_id (vg_config g)"
    and "\<And>g. view_ok g \<Longrightarrow> view_ok (f g)"
  shows "own_update sender gs (update_view i f gs)"
proof -
  obtain g where g: "i < length gs" "gs ! i = Some g" "endpoint_key (vg_sender g) = endpoint_key sender"
    using find_view_graph_Some [OF assms(1)] by metis
  then show ?thesis
    unfolding own_update_def update_view_def using assms(2-4)
    by (intro disjI2 exI [of _ i] exI [of _ g] exI [of _ "f g"]) simp
qed

text \<open>A graph stays well formed when the streams of its domain change in place.\<close>

lemma view_ok_streams:
  "view_ok g \<Longrightarrow> vg_scope_streams g = Some xs \<Longrightarrow> view_ok (g\<lparr>vg_scope_streams := Some (xs[k := x])\<rparr>)"
  "view_ok g \<Longrightarrow> vg_spectral_streams g = Some ys \<Longrightarrow> view_ok (g\<lparr>vg_spectral_streams := Some (ys[k := y])\<rparr>)"
  "view_ok g \<Longrightarrow> vg_ftable_streams g = Some zs \<Longrightarrow> view_ok (g\<lparr>vg_ftable_streams := Some (zs[k := z])\<rparr>)"
  "view_ok g \<Longrightarrow> vg_point_streams g = Some ps \<Longrightarrow> view_ok (g\<lparr>vg_point_streams := Some (ps[k := p])\<rparr>)"
  "view_ok g \<Longrightarrow> vg_meter_stream g = Some m \<Longrightarrow> view_ok (g\<lparr>vg_meter_stream := Some m'\<rparr>)"
  by (auto simp: view_ok_def buffers_match_def Let_def)

lemma process_data_packet_own:
  assumes "process_data_packet mem p received sender gs = Some gs'"
  shows "own_update sender gs gs'"
proof (cases "gs' = gs")
  case False
  obtain i where i: "find_view_graph gs (data_graph_id (pk_data p)) sender = Some i"
    using assms False by (auto simp: process_data_packet_def Let_def split: if_splits option.splits)
  obtain g xs k x where g: "gs ! i = Some g" "vg_scope_streams g = Some xs"
    and gs': "gs' = gs[i := Some (g\<lparr>vg_scope_streams := Some (xs[k := x])\<rparr>)]"
    using assms False i by (auto simp: process_data_packet_def Let_def split: if_splits option.splits prod.splits)
  obtain g' where "i < length gs" "gs ! i = Some g'" "endpoint_key (vg_sender g') = endpoint_key sender"
    using find_view_graph_Some [OF i] by metis
  then show ?thesis
    unfolding own_update_def gs' using g view_ok_streams(1) [OF _ g(2)]
    by (intro disjI2 exI [of _ i] exI [of _ g] exI) auto
qed simp

lemma process_spectral_packet_own: "own_update sender gs (process_spectral_packet h disp p received sender gs)"
  unfolding process_spectral_packet_def Let_def
  by (auto split: option.split intro!: own_update_view intro: view_ok_streams)

lemma process_point_packet_own: "own_update sender gs (process_point_packet mem p received sender gs)"
  unfolding process_point_packet_def Let_def
  by (auto split: option.split prod.split intro!: own_update_view intro: view_ok_streams)

lemma process_ftable_packet_own: "own_update sender gs (process_ftable_packet mem env p received sender gs)"
  unfolding process_ftable_packet_def Let_def
  by (auto split: option.split intro!: own_update_view intro: view_ok_streams)

lemma process_meter_packet_own: "own_update sender gs (process_meter_packet now_ns p received sender gs)"
  unfolding process_meter_packet_def Let_def
  by (auto split: option.split intro!: own_update_view intro: view_ok_streams)

text \<open>A configuration: the sender's graph takes the theme, or a new graph of the sender appears.\<close>

lemma report_config_failure_frame [simp]:
  "table_of (report_config_failure t v) = table_of v" "answers (report_config_failure t v) = answers v"
  "deadline_ns (report_config_failure t v) = deadline_ns v"
  by (auto simp: report_config_failure_def should_report_config_failure_def Let_def)

lemma send_config_ack_frame [simp]:
  "table_of (snd (send_config_ack b s p v)) = table_of v"
  "deadline_ns (snd (send_config_ack b s p v)) = deadline_ns v"
  "fst (send_config_ack b s p v) = b"
  "answers (snd (send_config_ack b s p v)) = answers v @ (if b then [(s, config_ack p)] else [])"
  by (auto simp: send_config_ack_def)

definition config_shown :: "PACKET_HOST \<Rightarrow> packet \<Rightarrow> watch_endpoint \<Rightarrow> table \<Rightarrow> nat option \<times> table" where
  "config_shown h p sender gs =
     (case find_view_graph gs (graph_id (pk_config p)) sender of
        None \<Rightarrow> create_view_graph (window_host h) (pk_config p) sender gs
      | Some i \<Rightarrow> (Some i, update_view i (apply_graph_theme (theme (pk_config p))) gs))"

lemma process_config_packet_cases:
  assumes "validate_config_packet p received"
  shows "table_of (process_config_packet h p received sender v) = snd (config_shown h p sender (table_of v))"
    "answers (process_config_packet h p received sender v) = answers v @
       (if fst (config_shown h p sender (table_of v)) \<noteq> None \<and> ack_sent h then [(sender, config_ack p)] else [])"
    "deadline_ns (process_config_packet h p received sender v) = deadline_ns v"
  using assms unfolding process_config_packet_def config_shown_def Let_def
  by (auto split: option.splits prod.splits simp: send_config_ack_def)

text \<open>The graph a configuration shows is the one its key finds, with the packet's theme.\<close>

lemma config_shown_spec:
  assumes ok: "table_ok gs" and p: "validate_config_packet p received" and k: "endpoint_key sender \<noteq> None"
    and c: "config_shown h p sender gs = (r, gs')"
  shows "r = None \<and> gs' = gs \<or> (\<exists>i g. r = Some i \<and> i < length gs' \<and> gs' ! i = Some g
      \<and> view_key g = (graph_id (pk_config p), endpoint_key sender)
      \<and> theme (vg_config g) = theme (pk_config p) \<and> table_ok gs')"
proof (cases "find_view_graph gs (graph_id (pk_config p)) sender")
  case None
  then have look: "view_lookup gs (graph_id (pk_config p), endpoint_key sender) = None"
    using k by (simp add: find_view_graph_lookup)
  have "create_view_graph (window_host h) (pk_config p) sender gs = (r, gs')"
    using c None by (simp add: config_shown_def)
  from create_view_graph_spec [OF this] show ?thesis
  proof (elim disjE exE conjE)
    fix i g
    assume g: "r = Some i" "i < length gs" "gs ! i = None" "gs' = gs[i := Some g]" "vg_config g = pk_config p"
      "vg_sender g = sender" "buffers_match g" "0 < vg_width g" "0 < vg_heigth g"
    have key: "view_key g = (graph_id (pk_config p), endpoint_key sender)" using g by (simp add: view_key_def)
    have "view_ok g" using g p k unfolding view_ok_def accepted_config_def by auto
    then have "table_ok gs'" using table_ok_add [OF ok] look key g(4) by simp
    then show ?thesis using g key by simp
  qed simp
next
  case (Some i)
  then obtain g where g: "i < length gs" "gs ! i = Some g" "graph_id (vg_config g) = graph_id (pk_config p)"
    "endpoint_key (vg_sender g) = endpoint_key sender" by (elim find_view_graph_Some)
  let ?g = "apply_graph_theme (theme (pk_config p)) g"
  have r: "r = Some i" "gs' = gs[i := Some ?g]"
    using c Some g by (simp_all add: config_shown_def update_view_def)
  have key: "view_key ?g = view_key g" by (simp add: view_key_def apply_graph_theme_core)
  have "view_ok ?g"
    using apply_graph_theme_ok [OF table_okD [OF ok g(1,2)]] accepted_domain(3) [OF p] by simp
  then have "table_ok gs'" using table_ok_replace [OF ok g(1,2) key] r by simp
  then show ?thesis using r g key by (simp add: apply_graph_theme_core view_key_def)
qed

lemma config_shown_foreign:
  assumes "config_shown h p sender gs = (r, gs')"
  shows "map (foreign (endpoint_key sender)) gs' = map (foreign (endpoint_key sender)) gs"
proof (cases "find_view_graph gs (graph_id (pk_config p)) sender")
  case None
  then have "create_view_graph (window_host h) (pk_config p) sender gs = (r, gs')"
    using assms by (simp add: config_shown_def)
  from create_view_graph_spec [OF this] show ?thesis
    by (auto simp: foreign_def intro!: foreign_update)
next
  case (Some i)
  then obtain g where "i < length gs" "gs ! i = Some g" "endpoint_key (vg_sender g) = endpoint_key sender"
    by (elim find_view_graph_Some)
  then show ?thesis
    using assms Some by (auto simp: config_shown_def update_view_def foreign_def apply_graph_theme_core intro!: foreign_update)
qed

text \<open>Closing removes graphs of the sender.\<close>

lemma session_close_table:
  assumes "process_session_close_packet p received sender gs = (n, gs')"
  shows "map (foreign (endpoint_key sender)) gs' = map (foreign (endpoint_key sender)) gs"
    "table_ok gs \<Longrightarrow> table_ok gs'" "has_opened_graph gs' \<Longrightarrow> has_opened_graph gs" "n = 0 \<Longrightarrow> gs' = gs"
proof -
  let ?f = "\<lambda>slot. if closes_session sender slot then None else slot"
  have gs': "gs' = gs \<or> gs' = map ?f gs" and n: "n = 0 \<Longrightarrow> gs' = gs"
    using assms by (auto simp: process_session_close_packet_def filter_empty_conv map_idI split: if_splits)
  have c: "closes_session sender (Some g) \<longleftrightarrow> endpoint_key (vg_sender g) \<noteq> None
      \<and> endpoint_key (vg_sender g) = endpoint_key sender" for g
    by (simp add: closes_session_def watch_endpoint_equal_key)
  show "n = 0 \<Longrightarrow> gs' = gs" by (rule n)
  show "map (foreign (endpoint_key sender)) gs' = map (foreign (endpoint_key sender)) gs"
    using gs' by (auto simp: foreign_def c split: option.splits)
  show "has_opened_graph gs' \<Longrightarrow> has_opened_graph gs"
    using gs' by (auto simp: has_opened_graph_def split: if_splits)
  show "table_ok gs \<Longrightarrow> table_ok gs'"
    using gs'
  proof
    assume ok: "table_ok gs" and m: "gs' = map ?f gs"
    have kept: "gs ! i = Some g" if "i < length gs" "gs' ! i = Some g" for i g
      using that unfolding m by (auto split: if_splits)
    have "keys_unique view_key gs'"
      unfolding keys_unique_def
    proof (intro allI impI)
      fix i j a b
      assume *: "i < length gs'" "j < length gs'" "gs' ! i = Some a" "gs' ! j = Some b" "view_key a = view_key b"
      have "i < length gs" "j < length gs" using *(1,2) by (simp_all add: m)
      then show "i = j" using kept * ok unfolding table_ok_def by (blast dest: keys_uniqueD)
    qed
    moreover have "view_ok g" if g: "Some g \<in> set gs'" for g
    proof -
      obtain i where "i < length gs'" "gs' ! i = Some g" using g by (auto simp: in_set_conv_nth)
      moreover from this have "i < length gs" by (simp add: m)
      ultimately show ?thesis using ok kept by (blast intro: table_okD)
    qed
    ultimately show "table_ok gs'" using ok by (simp add: table_ok_def m)
  qed simp
qed

lemma graph_close_table:
  fixes gs p received sender
  defines "gs' \<equiv> process_graph_close_packet p received sender gs"
  shows "map (foreign (endpoint_key sender)) gs' = map (foreign (endpoint_key sender)) gs"
    "table_ok gs \<Longrightarrow> table_ok gs'" "has_opened_graph gs' \<Longrightarrow> has_opened_graph gs"
proof -
  have c: "gs' = gs \<or> (\<exists>i g. i < length gs \<and> gs ! i = Some g \<and> endpoint_key (vg_sender g) = endpoint_key sender
      \<and> gs' = gs[i := None])"
    unfolding gs'_def process_graph_close_packet_def destroy_view_graph_def
    by (auto split: option.splits elim: find_view_graph_Some)
  then show "map (foreign (endpoint_key sender)) gs' = map (foreign (endpoint_key sender)) gs"
    by (auto simp: foreign_def intro!: foreign_update)
  show "table_ok gs \<Longrightarrow> table_ok gs'" using c table_ok_clear by auto
  show "has_opened_graph gs' \<Longrightarrow> has_opened_graph gs"
    using c by (auto simp: has_opened_graph_def dest: set_update_subset_insert [THEN subsetD])
qed

section \<open>Every packet keeps the viewer's state\<close>

text \<open>The table is well formed, and a shutdown is pending only while no graph is open.\<close>

definition viewer_ok :: "VIEWER \<Rightarrow> bool" where
  "viewer_ok v \<longleftrightarrow> table_ok (table_of v) \<and> (deadline_ns v \<noteq> 0 \<longrightarrow> \<not> has_opened_graph (table_of v))"

text \<open>What one packet may do, by the handler it reaches.\<close>

lemma dispatch_config:
  assumes "msg_type (header p) = msg_code CONFIG" "dispatch h p received sender v = Some v'"
    and "validate_config_packet p received" "config_shown h p sender (table_of v) = (r, gs')"
  shows "table_of v' = gs'"
    "answers v' = answers v @ (if r \<noteq> None \<and> ack_sent h then [(sender, config_ack p)] else [])"
    "deadline_ns v' = (if has_opened_graph gs' then 0 else deadline_ns v)"
proof -
  have "validate_header (header p) received"
    using assms(3) by (auto simp: validate_config_packet_def Let_def split: if_splits)
  then show "table_of v' = gs'"
    "answers v' = answers v @ (if r \<noteq> None \<and> ack_sent h then [(sender, config_ack p)] else [])"
    "deadline_ns v' = (if has_opened_graph gs' then 0 else deadline_ns v)"
    using assms process_config_packet_cases [OF assms(3), of h sender v]
    by (auto simp: dispatch_def Let_def split: if_splits)
qed

lemma dispatch_config_rejected:
  assumes "msg_type (header p) = msg_code CONFIG" "dispatch h p received sender v = Some v'"
    and "\<not> validate_config_packet p received"
  shows "table_of v' = table_of v" "answers v' = answers v"
    "deadline_ns v' = deadline_ns v \<or> has_opened_graph (table_of v) \<and> deadline_ns v' = 0"
  using assms by (auto simp: dispatch_def process_config_packet_def Let_def split: if_splits)

lemma dispatch_other:
  assumes "msg_type (header p) \<noteq> msg_code CONFIG" "dispatch h p received sender v = Some v'"
  shows "answers v' = answers v"
    "own_update sender (table_of v) (table_of v') \<and> deadline_ns v' = deadline_ns v
     \<or> table_of v' = process_graph_close_packet p received sender (table_of v) \<and> deadline_ns v' = deadline_ns v
     \<or> (\<exists>n. process_session_close_packet p received sender (table_of v) = (n, table_of v')
        \<and> deadline_ns v' = (if 0 < n \<and> \<not> has_opened_graph (table_of v')
            then ticks_ns h + VIEWER_SHUTDOWN_DELAY_MS * 1000000 else deadline_ns v))"
proof -
  show "answers v' = answers v"
    using assms by (auto simp: dispatch_def Let_def split: if_splits prod.splits)
  show "own_update sender (table_of v) (table_of v') \<and> deadline_ns v' = deadline_ns v
     \<or> table_of v' = process_graph_close_packet p received sender (table_of v) \<and> deadline_ns v' = deadline_ns v
     \<or> (\<exists>n. process_session_close_packet p received sender (table_of v) = (n, table_of v')
        \<and> deadline_ns v' = (if 0 < n \<and> \<not> has_opened_graph (table_of v')
            then ticks_ns h + VIEWER_SHUTDOWN_DELAY_MS * 1000000 else deadline_ns v))"
    using assms process_data_packet_own [of "stream_mem h" p received sender "table_of v"]
      process_spectral_packet_own process_point_packet_own process_ftable_packet_own process_meter_packet_own
    by (auto simp: dispatch_def Let_def split: if_splits prod.splits)
qed

lemma dispatch_foreign:
  assumes "dispatch h p received sender v = Some v'"
  shows "map (foreign (endpoint_key sender)) (table_of v') = map (foreign (endpoint_key sender)) (table_of v)"
proof (cases "msg_type (header p) = msg_code CONFIG")
  case True
  show ?thesis
  proof (cases "validate_config_packet p received")
    case valid: True
    obtain r gs' where c: "config_shown h p sender (table_of v) = (r, gs')" by (cases "config_shown h p sender (table_of v)")
    then show ?thesis using dispatch_config [OF True assms valid c] config_shown_foreign [OF c] by simp
  qed (use dispatch_config_rejected [OF True assms] in simp)
next
  case False
  from dispatch_other(2) [OF this assms] show ?thesis
    by (elim disjE exE conjE) (auto simp: graph_close_table dest: own_update_foreign session_close_table)
qed

lemma dispatch_ok:
  assumes "dispatch h p received sender v = Some v'" "viewer_ok v" "endpoint_key sender \<noteq> None"
  shows "viewer_ok v'"
proof (cases "msg_type (header p) = msg_code CONFIG")
  case True
  show ?thesis
  proof (cases "validate_config_packet p received")
    case valid: True
    obtain r gs' where c: "config_shown h p sender (table_of v) = (r, gs')" by (cases "config_shown h p sender (table_of v)")
    then show ?thesis
      using dispatch_config [OF True assms(1) valid c] config_shown_spec [OF _ valid assms(3) c] assms(2)
      by (auto simp: viewer_ok_def)
  qed (use dispatch_config_rejected [OF True assms(1)] assms(2) in \<open>auto simp: viewer_ok_def\<close>)
next
  case False
  have ok: "table_ok (table_of v)" and d: "deadline_ns v \<noteq> 0 \<longrightarrow> \<not> has_opened_graph (table_of v)"
    using assms(2) by (simp_all add: viewer_ok_def)
  from dispatch_other(2) [OF False assms(1)] show ?thesis
  proof (elim disjE exE conjE)
    assume "own_update sender (table_of v) (table_of v')" "deadline_ns v' = deadline_ns v"
    then show ?thesis using ok d by (simp add: viewer_ok_def own_update_ok own_update_opened)
  next
    assume "table_of v' = process_graph_close_packet p received sender (table_of v)" "deadline_ns v' = deadline_ns v"
    then show ?thesis using ok d graph_close_table [where gs = "table_of v" and p = p and received = received and sender = sender] by (auto simp: viewer_ok_def)
  next
    fix n
    assume n: "process_session_close_packet p received sender (table_of v) = (n, table_of v')"
      and e: "deadline_ns v' = (if 0 < n \<and> \<not> has_opened_graph (table_of v')
            then ticks_ns h + VIEWER_SHUTDOWN_DELAY_MS * 1000000 else deadline_ns v)"
    show ?thesis
      using ok d session_close_table(2-4) [OF n] e unfolding viewer_ok_def by (auto split: if_splits)
  qed
qed

lemma dispatch_answers:
  assumes "dispatch h p received sender v = Some v'"
  shows "answers v' = answers v \<or> answers v' = answers v @ [(sender, config_ack p)]"
proof (cases "msg_type (header p) = msg_code CONFIG")
  case True
  then show ?thesis
    using assms dispatch_config [OF True assms] dispatch_config_rejected [OF True assms]
    by (cases "config_shown h p sender (table_of v)"; cases "validate_config_packet p received") (auto split: if_splits)
qed (use dispatch_other [OF _ assms] in simp)

end
