(* ===== verification/MainLoop.thy ===== *)
theory MainLoop
  imports Dispatch
begin

text \<open>
  The viewer's main loop (\<^verbatim>\<open>main\<close> and \<^verbatim>\<open>render_graph\<close> in
  \<^verbatim>\<open>src/src/watch_viewer.c\<close>), one frame at a time: window events, up to 4096 datagrams, the
  shutdown deadline, drawing and the pacing of frames. Of the drawing only what it changes in a graph
  is modelled.
\<close>

section \<open>Starting\<close>

text \<open>What \<^verbatim>\<open>main\<close> acquires before its loop, and what it holds when it gives up. The result is
  the exit code of a start that failed.\<close>

datatype resource = Video | Fonts | Network | Receiver

definition main_start :: "bool \<Rightarrow> bool \<Rightarrow> bool \<Rightarrow> bool \<Rightarrow> int option \<times> resource list" where
  "main_start sdl_init ttf_init net_init udp_bind =
     (if \<not> sdl_init then (Some 1, [])
      else
        let held = [Video] in
        if \<not> ttf_init then (Some 1, removeAll Video held)
        else
          let held = Fonts # held in
          if \<not> net_init then (Some 1, removeAll Video (removeAll Fonts held))
          else
            let held = Network # held in
            if \<not> udp_bind then (Some 1, removeAll Video (removeAll Fonts (removeAll Network held)))
            else (None, Receiver # held))"

section \<open>Window events\<close>

text \<open>The two events of a changed size have the same handler; its answer is the size in pixels.\<close>

datatype window_event = Quit | CloseRequested u32 | Resized u32 "(int \<times> int) option" | OtherEvent

fun handle_event :: "window_event \<Rightarrow> bool \<times> table \<Rightarrow> bool \<times> table" where
  "handle_event Quit (running, gs) = (False, gs)"
| "handle_event (CloseRequested window_id) (running, gs) =
     (case find_graph_by_window gs window_id of
        None \<Rightarrow> (running, gs)
      | Some i \<Rightarrow> let gs1 = destroy_view_graph i gs in (if has_opened_graph gs1 then running else False, gs1))"
| "handle_event (Resized window_id answer) (running, gs) =
     (case find_graph_by_window gs window_id of
        None \<Rightarrow> (running, gs)
      | Some i \<Rightarrow> (running, update_view i (update_graph_render_size answer) gs))"
| "handle_event OtherEvent (running, gs) = (running, gs)"

section \<open>Receiving\<close>

text \<open>A datagram as the receive call returns it: its length (negative on failure, also when there is
  none), its content, its sender, and the host's answers while it is handled. An empty list stands
  for a socket that has no more.\<close>

type_synonym arrival = "int \<times> packet \<times> watch_endpoint \<times> PACKET_HOST"

fun receive_packets :: "nat \<Rightarrow> arrival list \<Rightarrow> VIEWER \<Rightarrow> VIEWER option" where
  "receive_packets 0 inbox v = Some v"
| "receive_packets (Suc n) [] v = Some v"
| "receive_packets (Suc n) ((received, p, sender, h) # inbox) v =
     (if received < 0 then Some v
      else case dispatch h p received sender v of None \<Rightarrow> None | Some v1 \<Rightarrow> receive_packets n inbox v1)"

section \<open>Drawing\<close>

record RENDER_HOST =
  render_axis_font :: LABEL_HOST
  render_tick_font :: LABEL_HOST
  render_points :: "(int \<times> int) option"
  target_made :: bool
  target_scaled :: bool
  render_ns :: u64
  render_expf :: "cfloat \<Rightarrow> cfloat"

text \<open>\<^const>\<open>None\<close> is undefined behaviour: a conversion out of range, or a missing buffer.\<close>

definition render_view_graph :: "RENDER_HOST \<Rightarrow> VIEW_GRAPH \<Rightarrow> VIEW_GRAPH option" where
  "render_view_graph h g =
     (let (labelled, g1) = ensure_axis_labels (render_axis_font h) (render_points h) g in
      if \<not> labelled then Some g1
      else
        let c = vg_config g1;
            density = graph_pixel_density (vg_width g1) (vg_heigth g1) (render_points h) in
        if is_spectral_domain (domain c) \<and> vg_spectral_streams g1 = None
          \<or> is_time_domain (domain c) \<and> vg_scope_streams g1 = None then None
        else
          (case ensure_graph_tick_labels (render_tick_font h) c (vg_ftable_streams g1)
              (case vg_spectral_streams g1 of None \<Rightarrow> [] | Some s \<Rightarrow> s) density (vg_tick_labels g1) of
             None \<Rightarrow> None
           | Some (_, cache) \<Rightarrow>
               let (supersampled, g2) =
                     ensure_graph_render_target (target_made h) (target_scaled h) (g1\<lparr>vg_tick_labels := cache\<rparr>) in
               if is_time_domain (domain c)
               then
                 (case advance_scope_timeline (the (vg_scope_streams g2)) (render_ns h) (vg_clock g2) of
                    None \<Rightarrow> None
                  | Some (_, clock) \<Rightarrow> Some (g2\<lparr>vg_clock := clock\<rparr>))
               else if domain c = WATCH_DOMAIN_METER
               then Some (g2\<lparr>vg_meter_stream := map_option
                   (release_peaks (render_expf h) (set_meter (settings c)) (render_ns h)) (vg_meter_stream g2)\<rparr>)
               else Some g2))"

fun render_graphs :: "(nat \<Rightarrow> RENDER_HOST) \<Rightarrow> nat \<Rightarrow> table \<Rightarrow> table option" where
  "render_graphs hs i [] = Some []"
| "render_graphs hs i (None # gs) = map_option ((#) None) (render_graphs hs (i + 1) gs)"
| "render_graphs hs i (Some g # gs) =
     (case render_view_graph (hs i) g of
        None \<Rightarrow> None
      | Some g1 \<Rightarrow> map_option ((#) (Some g1)) (render_graphs hs (i + 1) gs))"

section \<open>A frame\<close>

text \<open>The time the next frame is due, and how long to wait for it.\<close>

definition frame_interval_ns :: u64 where
  "frame_interval_ns = 1000000000 div WATCH_VIEWER_REFRESH_HZ"

definition pace_frame :: "u64 \<Rightarrow> u64 \<Rightarrow> u64 \<times> u64" where
  "pace_frame next_frame_ns now_ns =
     (let due = next_frame_ns + frame_interval_ns in
      if due > now_ns then (due, due - now_ns)
      else if now_ns - due > frame_interval_ns then (now_ns, 0)
      else (due, 0))"

record LOOP =
  loop_viewer :: VIEWER
  loop_running :: bool
  next_frame_ns :: u64

record FRAME =
  frame_events :: "window_event list"
  frame_inbox :: "arrival list"
  deadline_clock :: u64
  render_hosts :: "nat \<Rightarrow> RENDER_HOST"
  pace_clock :: u64

definition frame_step :: "FRAME \<Rightarrow> LOOP \<Rightarrow> LOOP option" where
  "frame_step f l =
     (let v = loop_viewer l; (running, gs) = fold handle_event (frame_events f) (True, table_of v);
          v1 = v\<lparr>table_of := gs\<rparr> in
      if \<not> running then Some (l\<lparr>loop_viewer := v1, loop_running := False\<rparr>)
      else
        (case receive_packets MAX_PACKETS_PER_FRAME (frame_inbox f) v1 of
           None \<Rightarrow> None
         | Some v2 \<Rightarrow>
             if deadline_ns v2 \<noteq> 0 \<and> \<not> has_opened_graph (table_of v2) \<and> deadline_ns v2 \<le> deadline_clock f
             then Some (l\<lparr>loop_viewer := v2, loop_running := False\<rparr>)
             else
               (case render_graphs (render_hosts f) 0 (table_of v2) of
                  None \<Rightarrow> None
                | Some gs2 \<Rightarrow>
                    Some (l\<lparr>loop_viewer := v2\<lparr>table_of := gs2\<rparr>,
                      next_frame_ns := fst (pace_frame (next_frame_ns l) (pace_clock f))\<rparr>))))"

text \<open>The loop, frame after frame, until it stops.\<close>

fun run_frames :: "FRAME list \<Rightarrow> LOOP \<Rightarrow> LOOP option" where
  "run_frames [] l = Some l"
| "run_frames (f # fs) l =
     (if \<not> loop_running l then Some l
      else case frame_step f l of None \<Rightarrow> None | Some l1 \<Rightarrow> run_frames fs l1)"

text \<open>The state before the first frame.\<close>

definition loop_start :: "u64 \<Rightarrow> LOOP" where
  "loop_start now_ns =
     \<lparr>loop_viewer = \<lparr>table_of = replicate MAX_VIEWER_GRAPHS None, deadline_ns = 0, last_report_ns = 0,
        reports = 0, answers = []\<rparr>, loop_running = True, next_frame_ns = now_ns\<rparr>"

section \<open>Events and drawing keep the table\<close>

lemma main_start_releases: "fst (main_start a b c d) \<noteq> None \<Longrightarrow> snd (main_start a b c d) = []"
  by (auto simp: main_start_def Let_def split: if_splits)

lemma find_by_window_Some:
  assumes "find_graph_by_window gs w = Some i"
  obtains g where "i < length gs" "gs ! i = Some g" "vg_window_id g = w"
  using find_view_from_Some [of 0 "\<lambda>g. vg_window_id g = w" gs i] assms that
  by (auto simp: find_graph_by_window_def)

lemma find_by_window_closed: "\<not> has_opened_graph gs \<Longrightarrow> find_graph_by_window gs w = None"
  by (auto simp: find_graph_by_window_def find_view_from_None has_opened_graph_def)

lemma find_view_closed: "\<not> has_opened_graph gs \<Longrightarrow> find_view_graph gs gid sender = None"
  by (auto simp: find_view_graph_def find_view_from_None has_opened_graph_def)

lemma table_ok_view_update:
  assumes "table_ok gs" "i < length gs" "gs ! i = Some g" "same_core g (f g)"
    "0 < vg_width (f g)" "0 < vg_heigth (f g)"
  shows "table_ok (update_view i f gs)"
  using assms table_ok_replace [OF assms(1-3), of "f g"] same_core_ok [OF assms(4)] table_okD [OF assms(1-3)]
  by (simp add: update_view_def same_core_def view_key_def)

lemma update_view_opened:
  "i < length gs \<Longrightarrow> gs ! i = Some g \<Longrightarrow> has_opened_graph (update_view i f gs) = has_opened_graph gs"
  by (simp add: update_view_def opened_replace)

lemma destroy_opened: "has_opened_graph (destroy_view_graph i gs) \<Longrightarrow> has_opened_graph gs"
  by (auto simp: destroy_view_graph_def has_opened_graph_def dest: set_update_subset_insert [THEN subsetD])

text \<open>One event.\<close>

lemma handle_event_ok:
  assumes "handle_event e (r, gs) = (r', gs')"
  shows "table_ok gs \<Longrightarrow> table_ok gs'" "has_opened_graph gs' \<Longrightarrow> has_opened_graph gs"
    "r' \<Longrightarrow> r \<and> e \<noteq> Quit"
    "r \<Longrightarrow> \<not> r' \<Longrightarrow> e = Quit \<or> \<not> has_opened_graph gs' \<and> (\<exists>w. e = CloseRequested w)"
    "\<not> has_opened_graph gs \<Longrightarrow> gs' = gs"
    "\<not> has_opened_graph gs \<Longrightarrow> e \<noteq> Quit \<Longrightarrow> r' = r"
proof -
  show "table_ok gs \<Longrightarrow> table_ok gs'"
  proof (cases e)
    case (Resized w a)
    assume ok: "table_ok gs"
    show ?thesis
    proof (cases "find_graph_by_window gs w")
      case (Some i)
      then obtain g where g: "i < length gs" "gs ! i = Some g" by (elim find_by_window_Some)
      have "view_ok g" using ok g by (rule table_okD)
      then have "table_ok (update_view i (update_graph_render_size a) gs)"
        using table_ok_view_update [OF ok g] same_core_size by (simp add: view_ok_def)
      then show ?thesis using assms Resized Some by simp
    qed (use assms Resized ok in simp)
  qed (use assms table_ok_clear in \<open>auto simp: destroy_view_graph_def Let_def split: option.splits\<close>)
  show "has_opened_graph gs' \<Longrightarrow> has_opened_graph gs"
    using assms destroy_opened
    by (cases e) (auto simp: Let_def update_view_opened elim: find_by_window_Some split: option.splits)
  show "r' \<Longrightarrow> r \<and> e \<noteq> Quit"
    using assms by (cases e) (auto simp: Let_def split: option.splits if_splits)
  show "r \<Longrightarrow> \<not> r' \<Longrightarrow> e = Quit \<or> \<not> has_opened_graph gs' \<and> (\<exists>w. e = CloseRequested w)"
    using assms by (cases e) (auto simp: Let_def split: option.splits if_splits)
  show "\<not> has_opened_graph gs \<Longrightarrow> gs' = gs" "\<not> has_opened_graph gs \<Longrightarrow> e \<noteq> Quit \<Longrightarrow> r' = r"
    using assms by (cases e; simp add: find_by_window_closed)+
qed

lemma fold_events_all:
  "fold handle_event es (r, gs) = (r', gs') \<Longrightarrow>
    (table_ok gs \<longrightarrow> table_ok gs') \<and> (has_opened_graph gs' \<longrightarrow> has_opened_graph gs)
    \<and> (r \<longrightarrow> \<not> r' \<longrightarrow> Quit \<in> set es \<or> \<not> has_opened_graph gs' \<and> (\<exists>w. CloseRequested w \<in> set es))
    \<and> (\<not> has_opened_graph gs \<longrightarrow> gs' = gs) \<and> (\<not> has_opened_graph gs \<longrightarrow> Quit \<notin> set es \<longrightarrow> r' = r)
    \<and> (Quit \<in> set es \<longrightarrow> \<not> r') \<and> (\<not> r \<longrightarrow> \<not> r')"
proof (induction es arbitrary: r gs)
  case (Cons e es)
  obtain r1 gs1 where s: "handle_event e (r, gs) = (r1, gs1)" by (cases "handle_event e (r, gs)")
  have f: "fold handle_event es (r1, gs1) = (r', gs')" using Cons.prems s by simp
  note h = handle_event_ok [OF s] and IH = Cons.IH [OF f]
  have keep: "table_ok gs \<longrightarrow> table_ok gs'" "has_opened_graph gs' \<longrightarrow> has_opened_graph gs"
    using h(1,2) IH by blast+
  have stop: "Quit \<in> set (e # es) \<or> \<not> has_opened_graph gs' \<and> (\<exists>w. CloseRequested w \<in> set (e # es))"
    if "r" "\<not> r'"
  proof (cases r1)
    case True
    then show ?thesis using IH that(2) by (meson list.set_intros(2))
  next
    case False
    then show ?thesis using h(4) that(1) IH by (metis list.set_intros(1))
  qed
  have idle: "gs' = gs" "Quit \<notin> set (e # es) \<longrightarrow> r' = r" if "\<not> has_opened_graph gs"
  proof -
    have g1: "gs1 = gs" using h(5) that by blast
    then show "gs' = gs" using IH that by blast
    show "Quit \<notin> set (e # es) \<longrightarrow> r' = r"
      using IH that h(6) unfolding g1 by (metis list.set_intros)
  qed
  have "\<not> r'" if "Quit \<in> set (e # es)"
  proof (cases "e = Quit")
    case True
    then have "\<not> r1" using h(3) by blast
    then show ?thesis using IH by blast
  next
    case False
    then show ?thesis using that IH by (metis set_ConsD)
  qed
  moreover have "\<not> r'" if "\<not> r" using that h(3) IH by blast
  ultimately show ?case using keep stop idle by blast
qed auto

lemma fold_events:
  assumes "fold handle_event es (r, gs) = (r', gs')"
  shows "table_ok gs \<Longrightarrow> table_ok gs'" "has_opened_graph gs' \<Longrightarrow> has_opened_graph gs"
    "r \<Longrightarrow> \<not> r' \<Longrightarrow> Quit \<in> set es \<or> \<not> has_opened_graph gs' \<and> (\<exists>w. CloseRequested w \<in> set es)"
    "\<not> has_opened_graph gs \<Longrightarrow> gs' = gs" "\<not> has_opened_graph gs \<Longrightarrow> Quit \<notin> set es \<Longrightarrow> r' = r"
    "Quit \<in> set es \<Longrightarrow> \<not> r'"
  using fold_events_all [OF assms] by blast+

section \<open>Packets and drawing keep the state\<close>

definition known_senders :: "arrival list \<Rightarrow> bool" where
  "known_senders inbox \<longleftrightarrow> (\<forall>(received, p, sender, h) \<in> set inbox. endpoint_key sender \<noteq> None)"

lemma receive_packets_ok:
  "receive_packets n inbox v = Some v' \<Longrightarrow> viewer_ok v \<Longrightarrow> known_senders inbox \<Longrightarrow> viewer_ok v'"
  by (induction n inbox v rule: receive_packets.induct)
    (auto simp: known_senders_def split: if_splits option.splits intro: dispatch_ok)

text \<open>Drawing a graph keeps what identifies it and its shape.\<close>

definition redrawn :: "VIEW_GRAPH \<Rightarrow> VIEW_GRAPH \<Rightarrow> bool" where
  "redrawn g g' \<longleftrightarrow> view_key g' = view_key g \<and> vg_window_id g' = vg_window_id g \<and> (view_ok g \<longrightarrow> view_ok g')"

lemma same_core_redrawn:
  assumes "same_core g g'" "vg_width g' = vg_width g" "vg_heigth g' = vg_heigth g"
  shows "redrawn g g'"
  using assms same_core_ok [OF assms(1)] by (auto simp: redrawn_def same_core_def view_key_def view_ok_def)

lemma redrawn_trans: "redrawn g g1 \<Longrightarrow> redrawn g1 g2 \<Longrightarrow> redrawn g g2"
  by (simp add: redrawn_def)

lemma render_target_core:
  assumes "ensure_graph_render_target m s g = (ok, g')"
  shows "same_core g g'" "vg_width g' = vg_width g" "vg_heigth g' = vg_heigth g"
  using assms by (auto simp: ensure_graph_render_target_def same_core_def Let_def split: if_splits)

lemma redrawn_parts [simp]:
  "redrawn g g" "redrawn g (g\<lparr>vg_clock := c\<rparr>)"
  "redrawn g (g\<lparr>vg_meter_stream := map_option f (vg_meter_stream g)\<rparr>)"
  by (simp_all add: redrawn_def view_key_def view_ok_def buffers_match_def)

lemma render_view_graph_redrawn:
  assumes "render_view_graph h g = Some g'"
  shows "redrawn g g'"
proof -
  obtain ok g1 where l: "ensure_axis_labels (render_axis_font h) (render_points h) g = (ok, g1)"
    by (cases "ensure_axis_labels (render_axis_font h) (render_points h) g")
  have r1: "redrawn g g1" using same_core_labels [OF l] by (intro same_core_redrawn)
  show ?thesis
  proof (cases "g' = g1")
    case False
    obtain cache b g2 where t: "ensure_graph_render_target (target_made h) (target_scaled h)
        (g1\<lparr>vg_tick_labels := cache\<rparr>) = (b, g2)" and g': "redrawn g2 g'"
      using assms False l by (auto simp: render_view_graph_def Let_def split: if_splits option.splits prod.splits)
    have "same_core g1 (g1\<lparr>vg_tick_labels := cache\<rparr>)" by (simp add: same_core_def)
    then have "redrawn g1 (g1\<lparr>vg_tick_labels := cache\<rparr>)" by (rule same_core_redrawn) simp_all
    moreover have "redrawn (g1\<lparr>vg_tick_labels := cache\<rparr>) g2" using render_target_core [OF t] by (rule same_core_redrawn)
    ultimately show ?thesis using r1 g' redrawn_trans by blast
  qed (use r1 in simp)
qed

lemma render_graphs_rel:
  "render_graphs hs i gs = Some gs' \<Longrightarrow> list_all2 (rel_option redrawn) gs gs'"
  by (induction hs i gs arbitrary: gs' rule: render_graphs.induct)
    (auto split: option.splits dest: render_view_graph_redrawn)

lemma render_graphs_ok:
  assumes "render_graphs hs i gs = Some gs'"
  shows "has_opened_graph gs' = has_opened_graph gs" "table_ok gs \<Longrightarrow> table_ok gs'"
proof -
  have rel: "list_all2 (rel_option redrawn) gs gs'" using assms by (rule render_graphs_rel)
  then have len: "length gs' = length gs" by (simp add: list_all2_lengthD)
  have slot: "rel_option redrawn (gs ! j) (gs' ! j)" if "j < length gs" for j
    using rel that by (simp add: list_all2_nthD)
  have "(\<exists>j < length gs. gs' ! j \<noteq> None) \<longleftrightarrow> (\<exists>j < length gs. gs ! j \<noteq> None)"
    using slot by (metis option.rel_sel)
  then show "has_opened_graph gs' = has_opened_graph gs"
    unfolding has_opened_graph_def Bex_def in_set_conv_nth len by blast
  have kept: "\<exists>g. gs ! j = Some g \<and> redrawn g g'" if "j < length gs" "gs' ! j = Some g'" for j g'
    using slot [OF that(1)] that(2) by (cases "gs ! j") auto
  show "table_ok gs'" if ok: "table_ok gs"
    unfolding table_ok_def
  proof (intro conjI allI impI)
    show "length gs' = MAX_VIEWER_GRAPHS" using ok len by (simp add: table_ok_def)
    show "keys_unique view_key gs'"
      unfolding keys_unique_def
    proof (intro allI impI)
      fix j k a b
      assume *: "j < length gs'" "k < length gs'" "gs' ! j = Some a" "gs' ! k = Some b" "view_key a = view_key b"
      obtain a0 b0 where "gs ! j = Some a0" "view_key a = view_key a0" "gs ! k = Some b0" "view_key b = view_key b0"
        using kept [of j a] kept [of k b] * len by (auto simp: redrawn_def)
      then show "j = k" using ok * len unfolding table_ok_def by (metis keys_uniqueD)
    qed
    fix g'
    assume "Some g' \<in> set gs'"
    then obtain j where "j < length gs" "gs' ! j = Some g'" by (auto simp: in_set_conv_nth len)
    then show "view_ok g'" using kept [of j g'] table_okD [OF ok] by (auto simp: redrawn_def)
  qed
qed

lemma frame_step_ok:
  assumes "frame_step f l = Some l'" "viewer_ok (loop_viewer l)" "known_senders (frame_inbox f)"
  shows "viewer_ok (loop_viewer l')"
proof -
  obtain r gs where e: "fold handle_event (frame_events f) (True, table_of (loop_viewer l)) = (r, gs)"
    by (cases "fold handle_event (frame_events f) (True, table_of (loop_viewer l))")
  let ?v1 = "(loop_viewer l)\<lparr>table_of := gs\<rparr>"
  have v1: "viewer_ok ?v1" using fold_events(1,2) [OF e] assms(2) by (auto simp: viewer_ok_def)
  show ?thesis
  proof (cases r)
    case False
    then show ?thesis using assms(1) e v1 by (auto simp: frame_step_def)
  next
    case True
    obtain v2 where rcv: "receive_packets MAX_PACKETS_PER_FRAME (frame_inbox f) ?v1 = Some v2"
      using assms(1) e True by (auto simp: frame_step_def Let_def split: option.splits)
    have v2: "viewer_ok v2" using receive_packets_ok [OF rcv v1 assms(3)] .
    have "loop_viewer l' = v2 \<or> (\<exists>gs2. render_graphs (render_hosts f) 0 (table_of v2) = Some gs2
        \<and> loop_viewer l' = v2\<lparr>table_of := gs2\<rparr>)"
      using assms(1) e True rcv by (auto simp: frame_step_def Let_def split: option.splits if_splits)
    then show ?thesis using v2 render_graphs_ok unfolding viewer_ok_def by fastforce
  qed
qed

section \<open>Every reachable state is sound\<close>

text \<open>The states of a running viewer: frames with any events, any datagrams from senders of a known
  address family (the receiver is an IPv4 socket) and any answers of the host.\<close>

inductive viewer_reach :: "LOOP \<Rightarrow> bool" where
  viewer_starts: "viewer_reach (loop_start now_ns)"
| viewer_frame: "viewer_reach l \<Longrightarrow> loop_running l \<Longrightarrow> known_senders (frame_inbox f)
    \<Longrightarrow> frame_step f l = Some l' \<Longrightarrow> viewer_reach l'"

inductive_cases viewer_reachE: "viewer_reach l"

lemma loop_start_ok: "viewer_ok (loop_viewer (loop_start t))"
  by (simp add: loop_start_def viewer_ok_def table_ok_def keys_unique_def has_opened_graph_def)

lemma viewer_reach_ok: "viewer_reach l \<Longrightarrow> viewer_ok (loop_viewer l)"
  by (induction rule: viewer_reach.induct) (auto intro: loop_start_ok frame_step_ok)

section \<open>An idle viewer\<close>

text \<open>A frame in which nobody quits and no configuration arrives.\<close>

definition quiet_frame :: "FRAME \<Rightarrow> bool" where
  "quiet_frame f \<longleftrightarrow> Quit \<notin> set (frame_events f)
     \<and> (\<forall>(received, p, sender, h) \<in> set (frame_inbox f). msg_type (header p) \<noteq> msg_code CONFIG)"

lemma dispatch_idle:
  assumes "\<not> has_opened_graph (table_of v)" "msg_type (header p) \<noteq> msg_code CONFIG"
  shows "dispatch h p received sender v = Some v"
proof -
  note closed = find_view_closed [OF assms(1)]
  have s: "process_session_close_packet p received sender (table_of v) = (0, table_of v)"
  proof -
    have "closes_session sender g = False" if "g \<in> set (table_of v)" for g
      using that assms(1) by (auto simp: has_opened_graph_def closes_session_def split: option.splits)
    then show ?thesis by (simp add: process_session_close_packet_def filter_empty_conv map_idI)
  qed
  have d: "process_data_packet m p received sender (table_of v) = Some (table_of v)"
    "process_spectral_packet sh dv p received sender (table_of v) = table_of v"
    "process_ftable_packet m em p received sender (table_of v) = table_of v"
    "process_point_packet m p received sender (table_of v) = table_of v"
    "process_meter_packet t p received sender (table_of v) = table_of v"
    "process_graph_close_packet p received sender (table_of v) = table_of v" for m sh dv em t
    unfolding process_data_packet_def process_spectral_packet_def process_ftable_packet_def
      process_point_packet_def process_meter_packet_def process_graph_close_packet_def Let_def closed
    by simp_all
  show ?thesis using assms(2) by (simp add: dispatch_def d s)
qed

lemma receive_idle:
  "\<not> has_opened_graph (table_of v) \<Longrightarrow> \<forall>(received, p, sender, h) \<in> set inbox. msg_type (header p) \<noteq> msg_code CONFIG
    \<Longrightarrow> receive_packets n inbox v = Some v"
  by (induction n inbox v rule: receive_packets.induct) (auto simp: dispatch_idle)

lemma render_idle: "\<not> has_opened_graph gs \<Longrightarrow> render_graphs hs i gs = Some gs"
  by (induction hs i gs rule: render_graphs.induct) (auto simp: has_opened_graph_def)

lemma idle_frame:
  assumes "\<not> has_opened_graph (table_of (loop_viewer l))" "quiet_frame f" "loop_running l"
  shows "\<exists>l'. frame_step f l = Some l' \<and> loop_viewer l' = loop_viewer l
    \<and> (loop_running l' \<longleftrightarrow> \<not> (deadline_ns (loop_viewer l) \<noteq> 0 \<and> deadline_ns (loop_viewer l) \<le> deadline_clock f))"
proof -
  let ?v = "loop_viewer l"
  obtain r gs where e: "fold handle_event (frame_events f) (True, table_of ?v) = (r, gs)"
    by (cases "fold handle_event (frame_events f) (True, table_of ?v)")
  have rg: "r" "gs = table_of ?v"
    using fold_events(4,5) [OF e] assms(1,2) by (auto simp: quiet_frame_def)
  have v: "?v\<lparr>table_of := table_of ?v\<rparr> = ?v" by simp
  have rcv: "receive_packets n (frame_inbox f) ?v = Some ?v" for n
    using assms(1,2) by (intro receive_idle) (auto simp: quiet_frame_def)
  show ?thesis
    using e rg rcv assms(1,3) render_idle [OF assms(1)]
    by (auto simp: frame_step_def Let_def v)
qed

text \<open>Quiet frames before the deadline change nothing.\<close>

lemma idle_run:
  assumes "\<not> has_opened_graph (table_of (loop_viewer l))" "loop_running l"
    and "\<forall>f \<in> set fs. quiet_frame f
      \<and> \<not> (deadline_ns (loop_viewer l) \<noteq> 0 \<and> deadline_ns (loop_viewer l) \<le> deadline_clock f)"
  shows "\<exists>l'. run_frames fs l = Some l' \<and> loop_viewer l' = loop_viewer l \<and> loop_running l'"
  using assms
proof (induction fs arbitrary: l)
  case (Cons f fs)
  have "quiet_frame f" using Cons.prems(3) by simp
  then obtain l1 where s: "frame_step f l = Some l1" "loop_viewer l1 = loop_viewer l" "loop_running l1"
    using idle_frame [OF Cons.prems(1) _ Cons.prems(2)] Cons.prems(3) by (metis list.set_intros(1))
  have "\<exists>l'. run_frames fs l1 = Some l' \<and> loop_viewer l' = loop_viewer l1 \<and> loop_running l'"
    using Cons.prems s by (intro Cons.IH) auto
  then show ?case using s Cons.prems(2) by simp
qed simp

lemma run_frames_stopped: "\<not> loop_running l \<Longrightarrow> run_frames fs l = Some l"
  by (cases fs) simp_all

lemma run_frames_append:
  "run_frames (fs @ gs) l = (case run_frames fs l of None \<Rightarrow> None | Some l1 \<Rightarrow> run_frames gs l1)"
  by (induction fs l rule: run_frames.induct) (auto split: option.split simp: run_frames_stopped)

lemma idle_deadline:
  assumes "\<not> has_opened_graph (table_of (loop_viewer l))" "loop_running l"
    and "deadline_ns (loop_viewer l) \<noteq> 0" "\<forall>f \<in> set fs. quiet_frame f \<and> deadline_clock f < deadline_ns (loop_viewer l)"
    and "quiet_frame f" "deadline_ns (loop_viewer l) \<le> deadline_clock f"
  shows "\<exists>l'. run_frames (fs @ [f]) l = Some l' \<and> \<not> loop_running l'"
proof -
  obtain l1 where l1: "run_frames fs l = Some l1" "loop_viewer l1 = loop_viewer l" "loop_running l1"
    using idle_run [OF assms(1,2), of fs] assms(4) by (auto simp: not_le)
  then obtain l2 where "frame_step f l1 = Some l2" "\<not> loop_running l2"
    using idle_frame [of l1 f] assms(1,3,5,6) by auto
  then show ?thesis using l1 by (simp add: run_frames_append)
qed

section \<open>Properties\<close>

text \<open>A sample session: a table graph of sixteen samples.\<close>

definition demo_font :: LABEL_HOST where
  "demo_font = \<lparr>font_opens = True, entries_mem = True, text_size = \<lambda>_. Some (Fin 60, Fin 12)\<rparr>"

definition demo_host :: PACKET_HOST where
  "demo_host = \<lparr>window_host = \<lparr>buffers_mem = True, window_made = Some 7, minimum_size_set = True,
       output_size = Some (600, 400), window_points = None, axis_font = demo_font\<rparr>,
     spectral_host = \<lparr>assembly_mem = True, display_mem = True, column_mem = True, texture_made = True,
       max_texture_size = 8192, texture_updated = True\<rparr>,
     stream_mem = True, envelope_mem = True, ack_sent = True, ticks_ns = 1000, host_sqrtf = \<lambda>x. x,
     host_log10f = \<lambda>x. x\<rparr>"

definition demo_endpoint :: "u16 \<Rightarrow> watch_endpoint" where
  "demo_endpoint port = \<lparr>sa_family = AF_INET, sin_port = port, sin_addr = 2130706433, sin6_port = 0,
     sin6_scope_id = 0, sin6_addr = [], ep_size = 16\<rparr>"

definition demo_config :: packet where
  "demo_config = zero_packet\<lparr>
     header := \<lparr>magic = WATCH_MAGIC, version = PROT_VERSION, msg_type = msg_code CONFIG, sequence = 3,
       payload_size = SIZEOF_CONFIG\<rparr>,
     pk_config := zero_config\<lparr>graph_id := 1, domain := WATCH_DOMAIN_FTABLE,
       settings := zero_settings\<lparr>set_ftable := \<lparr>ft_win_size = 16, ft_yrange =
         \<lparr>is_min_auto = 1, is_max_auto = 1, range_min = Fin 0, range_max = Fin 0\<rparr>\<rparr>\<rparr>\<rparr>\<rparr>"

definition demo_close :: "MSG_TYPE \<Rightarrow> packet" where
  "demo_close t = zero_packet\<lparr>
     header := \<lparr>magic = WATCH_MAGIC, version = PROT_VERSION, msg_type = msg_code t, sequence = 0,
       payload_size = SIZEOF_CLOSE\<rparr>,
     pk_graph_close := \<lparr>close_graph_id = 1\<rparr>\<rparr>"

definition demo_frame :: "arrival list \<Rightarrow> u64 \<Rightarrow> FRAME" where
  "demo_frame inbox now_ns = \<lparr>frame_events = [], frame_inbox = inbox, deadline_clock = now_ns,
     render_hosts = \<lambda>_. \<lparr>render_axis_font = demo_font, render_tick_font = demo_font\<lparr>font_opens := False\<rparr>, render_points = None,
       target_made = True, target_scaled = True, render_ns = now_ns, render_expf = \<lambda>x. x\<rparr>,
     pace_clock = now_ns\<rparr>"

lemma demo_endpoint_key [simp]: "endpoint_key (demo_endpoint port) = Some (V4 port 2130706433)"
  by (simp add: endpoint_key_def demo_endpoint_def)

lemma demo_config_valid: "validate_config_packet demo_config 468"
  by (simp add: validate_config_packet_def validate_header_def demo_config_def domain_defs valid_title_def
      zero_config_def valid_range_def)

lemma receive_none [simp]: "receive_packets n [] v = Some v"
  by (cases n) simp_all

lemma receive_first:
  "0 \<le> received \<Longrightarrow> receive_packets MAX_PACKETS_PER_FRAME ((received, p, sender, h) # inbox) v =
     (case dispatch h p received sender v of None \<Rightarrow> None | Some v1 \<Rightarrow> receive_packets 4095 inbox v1)"
  using receive_packets.simps(3) [of 4095 received p sender h inbox v] by simp

lemma demo_opens:
  "\<exists>v1 g gs. dispatch demo_host demo_config 468 (demo_endpoint 5000) (loop_viewer (loop_start t)) = Some v1
    \<and> table_of v1 = Some g # gs \<and> \<not> has_opened_graph gs \<and> view_key g = (1, Some (V4 5000 2130706433))
    \<and> domain (vg_config g) = WATCH_DOMAIN_FTABLE"
proof -
  let ?gs = "table_of (loop_viewer (loop_start t))"
  have none: "find_view_graph ?gs gid s = None" for gid s
    by (rule find_view_closed) (simp add: loop_start_def has_opened_graph_def)
  have free: "first_free ?gs = Some 0" by (simp add: loop_start_def numeral_eq_Suc)
  obtain g where c: "create_view_graph (window_host demo_host) (pk_config demo_config) (demo_endpoint 5000) ?gs
      = (Some 0, ?gs[0 := Some g])" and g: "vg_config g = pk_config demo_config" "vg_sender g = demo_endpoint 5000"
  proof -
    obtain r gs' where rg: "create_view_graph (window_host demo_host) (pk_config demo_config) (demo_endpoint 5000) ?gs
      = (r, gs')" by fastforce
    moreover have "r = Some 0"
      using rg free
      by (auto simp: create_view_graph_def demo_host_def demo_config_def with_buffers_def blank_graph_def
          domain_defs ensure_axis_labels_def prepare_axis_labels_def create_axis_label_def create_text_label_def
          demo_font_def x_axis_label_def y_axis_label_def update_graph_render_size_def Let_def split: if_splits)
    ultimately show thesis using create_view_graph_spec [OF rg] that by auto
  qed
  have "table_of (process_config_packet demo_host demo_config 468 (demo_endpoint 5000) (loop_viewer (loop_start t)))
      = ?gs[0 := Some g]"
    using process_config_packet_cases(1) [OF demo_config_valid] c none by (simp add: config_shown_def)
  moreover have "?gs[0 := Some g] = Some g # replicate 31 None"
    by (simp add: loop_start_def numeral_eq_Suc)
  ultimately show ?thesis
    using g by (auto simp: dispatch_def demo_config_def validate_header_def view_key_def zero_config_def Let_def
        has_opened_graph_def)
qed

text \<open>C9: Whatever events and datagrams come, the viewer's table is sound: 32 slots; no two graphs of
  one handle and session; every graph has a configuration that passed the check, exactly the buffers
  of its domain, one per stream, and a positive size; a search finds every graph by its handle and
  sender; and a shutdown is pending only while no window is open.\<close>

theorem viewer_tables_sound:
  assumes "viewer_reach l"
  defines "gs \<equiv> table_of (loop_viewer l)"
  shows "length gs = MAX_VIEWER_GRAPHS \<and> keys_unique view_key gs
    \<and> (\<forall>i g. i < length gs \<longrightarrow> gs ! i = Some g \<longrightarrow> accepted_config (vg_config g) \<and> buffers_match g
        \<and> 0 < vg_width g \<and> 0 < vg_heigth g \<and> find_view_graph gs (graph_id (vg_config g)) (vg_sender g) = Some i)
    \<and> (deadline_ns (loop_viewer l) \<noteq> 0 \<longrightarrow> \<not> has_opened_graph gs)"
proof -
  have ok: "table_ok gs" and d: "deadline_ns (loop_viewer l) \<noteq> 0 \<longrightarrow> \<not> has_opened_graph gs"
    using viewer_reach_ok [OF assms(1)] by (simp_all add: viewer_ok_def gs_def)
  have "find_view_graph gs (graph_id (vg_config g)) (vg_sender g) = Some i" if "i < length gs" "gs ! i = Some g" for i g
    using views.lookup_entry [of gs i g] that ok table_okD [OF ok that]
    by (simp add: find_view_graph_lookup view_key_def table_ok_def view_ok_def)
  then show ?thesis using ok d table_okD [OF ok] by (simp add: table_ok_def view_ok_def)
qed

lemma render_table_graph:
  assumes "domain (vg_config g) = WATCH_DOMAIN_FTABLE" "\<not> font_opens (render_tick_font h)"
  shows "\<exists>g'. render_view_graph h g = Some g'"
proof -
  obtain b g1 where l: "ensure_axis_labels (render_axis_font h) (render_points h) g = (b, g1)"
    by (cases "ensure_axis_labels (render_axis_font h) (render_points h) g")
  have d: "domain (vg_config g1) = WATCH_DOMAIN_FTABLE" using same_core_labels(1) [OF l] assms(1) by (simp add: same_core_def)
  then show ?thesis
    using assms(2)
    by (auto simp: render_view_graph_def l ensure_graph_tick_labels_def ensure_tick_labels_def prepare_tick_labels_def
        domain_defs Let_def split: option.splits prod.splits)
qed

theorem viewer_tables_sound_witness:
  "\<exists>l g. viewer_reach l \<and> table_of (loop_viewer l) ! 0 = Some g \<and> buffers_match g
    \<and> find_view_graph (table_of (loop_viewer l)) (graph_id (vg_config g)) (vg_sender g) = Some 0"
proof -
  let ?f = "demo_frame [(468, demo_config, demo_endpoint 5000, demo_host)] 2000"
  obtain v1 g gs where d: "dispatch demo_host demo_config 468 (demo_endpoint 5000) (loop_viewer (loop_start 0)) = Some v1"
    and v1: "table_of v1 = Some g # gs" "\<not> has_opened_graph gs" "domain (vg_config g) = WATCH_DOMAIN_FTABLE"
    using demo_opens by blast
  have rcv: "receive_packets MAX_PACKETS_PER_FRAME (frame_inbox ?f) (loop_viewer (loop_start 0)) = Some v1"
    unfolding demo_frame_def FRAME.simps by (subst receive_first) (simp_all add: d)
  obtain g1 where g1: "render_view_graph (render_hosts ?f 0) g = Some g1"
    using render_table_graph [OF v1(3), of "render_hosts ?f 0"] by (auto simp: demo_frame_def)
  then have "render_graphs (render_hosts ?f) 0 (table_of v1) = Some (Some g1 # gs)"
    using v1 by (simp add: render_idle)
  moreover have "has_opened_graph (table_of v1)" by (simp add: v1 has_opened_graph_def)
  moreover have "(loop_viewer (loop_start 0))\<lparr>table_of := table_of (loop_viewer (loop_start 0))\<rparr> = loop_viewer (loop_start 0)"
    by simp
  moreover have "frame_events ?f = []" by (simp add: demo_frame_def)
  ultimately obtain l where l: "frame_step ?f (loop_start 0) = Some l" "table_of (loop_viewer l) = Some g1 # gs"
    using rcv by (auto simp: frame_step_def Let_def loop_start_def simp del: receive_packets.simps)
  have "viewer_reach l"
    using l(1) by (intro viewer_frame [OF viewer_starts [of 0], of ?f])
      (simp_all add: loop_start_def known_senders_def demo_frame_def)
  then show ?thesis using viewer_tables_sound [of l] l(2) by (intro exI [of _ l] exI [of _ g1]) auto
qed

text \<open>The graphs of one session, in their slots.\<close>

definition own_graphs :: "endpoint_id option \<Rightarrow> VIEW_GRAPH option \<Rightarrow> VIEW_GRAPH option" where
  "own_graphs k slot = (case slot of None \<Rightarrow> None | Some g \<Rightarrow> if endpoint_key (vg_sender g) = k then Some g else None)"

lemma own_graphs_foreign: "k' \<noteq> k \<Longrightarrow> own_graphs k' slot = own_graphs k' (foreign k slot)"
  by (auto simp: own_graphs_def foreign_def split: option.split)

lemma dispatch_isolated:
  assumes "dispatch h p received sender v = Some v'" "k \<noteq> endpoint_key sender"
  shows "map (own_graphs k) (table_of v') = map (own_graphs k) (table_of v)"
proof -
  have "map (own_graphs k) (table_of u) = map (own_graphs k) (map (foreign (endpoint_key sender)) (table_of u))" for u
    using own_graphs_foreign [OF assms(2)] by simp
  then show ?thesis using dispatch_foreign [OF assms(1)] by metis
qed

text \<open>C10: Sessions are isolated: datagrams never change a graph of a session they do not come from, nor
  open or close one, whatever they hold; and acknowledgements go only to senders of the datagrams.\<close>

theorem sessions_isolated:
  assumes "receive_packets n inbox v = Some v'"
    and "\<forall>(received, p, sender, h) \<in> set inbox. endpoint_key sender \<noteq> k"
  shows "map (own_graphs k) (table_of v') = map (own_graphs k) (table_of v)
    \<and> (\<exists>sent. answers v' = answers v @ sent \<and> (\<forall>(to, p) \<in> set sent. endpoint_key to \<noteq> k))"
  using assms
proof (induction n inbox v rule: receive_packets.induct)
  case (3 n received p sender h inbox v)
  show ?case
  proof (cases "received < 0")
    case False
    then obtain v1 where d: "dispatch h p received sender v = Some v1" and r: "receive_packets n inbox v1 = Some v'"
      using "3.prems"(1) by (auto split: option.splits)
    have k: "endpoint_key sender \<noteq> k" using "3.prems"(2) by simp
    have IH: "map (own_graphs k) (table_of v') = map (own_graphs k) (table_of v1)
      \<and> (\<exists>sent. answers v' = answers v1 @ sent \<and> (\<forall>(to, p) \<in> set sent. endpoint_key to \<noteq> k))"
      using "3.IH" [OF False d r] "3.prems"(2) by simp
    show ?thesis using IH dispatch_isolated [OF d k [symmetric]] dispatch_answers [OF d] k by fastforce
  qed (use "3.prems" in auto)
qed auto

theorem sessions_isolated_witness:
  fixes v :: VIEWER
  defines "v \<equiv> \<lparr>table_of = [Some (blank_graph (pk_config demo_config) (demo_endpoint 4000)),
      Some (blank_graph (pk_config demo_config) (demo_endpoint 5000))],
      deadline_ns = 0, last_report_ns = 0, reports = 0, answers = []\<rparr>"
  shows "\<exists>v'. receive_packets 2 [(28, demo_close SESSION_CLOSE, demo_endpoint 5000, demo_host)] v = Some v'
    \<and> table_of v' ! 1 = None
    \<and> map (own_graphs (Some (V4 4000 2130706433))) (table_of v') = map (own_graphs (Some (V4 4000 2130706433))) (table_of v)"
proof -
  have "process_session_close_packet (demo_close SESSION_CLOSE) 28 (demo_endpoint 5000) (table_of v)
      = (1, [Some (blank_graph (pk_config demo_config) (demo_endpoint 4000)), None])"
    by (simp add: v_def process_session_close_packet_def validate_session_close_packet_def validate_header_def
        demo_close_def closes_session_def watch_endpoint_equal_key blank_graph_def zero_packet_def)
  then obtain v' where v': "dispatch demo_host (demo_close SESSION_CLOSE) 28 (demo_endpoint 5000) v = Some v'"
    "table_of v' ! 1 = None"
    by (auto simp: dispatch_def demo_close_def validate_header_def has_opened_graph_def)
  have r: "receive_packets 2 [(28, demo_close SESSION_CLOSE, demo_endpoint 5000, demo_host)] v = Some v'"
    using v' by (simp add: numeral_eq_Suc)
  have "\<forall>(received, p, sender, h) \<in> set [(28, demo_close SESSION_CLOSE, demo_endpoint 5000, demo_host)].
      endpoint_key sender \<noteq> Some (V4 4000 2130706433)" by simp
  from sessions_isolated [OF r this] show ?thesis using r v'(2) by auto
qed

text \<open>What a session close does to a table that holds only graphs of its sender.\<close>

lemma close_only_session:
  assumes "validate_session_close_packet p received" "has_opened_graph gs" "endpoint_key sender \<noteq> None"
    and "\<forall>g. Some g \<in> set gs \<longrightarrow> endpoint_key (vg_sender g) = endpoint_key sender"
  shows "\<exists>n. process_session_close_packet p received sender gs = (Suc n, map (\<lambda>_. None) gs)"
proof -
  have c: "closes_session sender slot \<longleftrightarrow> slot \<noteq> None" if "slot \<in> set gs" for slot
    using that assms(3,4) by (auto simp: closes_session_def watch_endpoint_equal_key split: option.splits)
  have "filter (closes_session sender) gs \<noteq> []" using assms(2) c by (auto simp: has_opened_graph_def filter_empty_conv)
  then obtain n where "length (filter (closes_session sender) gs) = Suc n" by (cases "filter (closes_session sender) gs") auto
  moreover have "map (\<lambda>slot. if closes_session sender slot then None else slot) gs = map (\<lambda>_. None) gs"
    using c by auto
  ultimately show ?thesis using assms(1) by (simp add: process_session_close_packet_def)
qed

text \<open>C13: The end of the only session ends the viewer: a frame that receives its close message closes
  every window, and the first quiet frame half a second later stops the loop; until then it runs.\<close>

theorem session_close_ends_viewer:
  fixes l :: LOOP and f0 f :: FRAME and h :: PACKET_HOST
  defines "v \<equiv> loop_viewer l" and "due \<equiv> ticks_ns h + VIEWER_SHUTDOWN_DELAY_MS * 1000000"
  assumes l: "loop_running l" "has_opened_graph (table_of v)"
    and own: "\<forall>g. Some g \<in> set (table_of v) \<longrightarrow> endpoint_key (vg_sender g) = endpoint_key sender"
      "endpoint_key sender \<noteq> None"
    and f0: "frame_events f0 = []" "frame_inbox f0 = [(received, p, sender, h)]" "deadline_clock f0 < due"
    and p: "validate_session_close_packet p received"
    and quiet: "\<forall>g \<in> set fs. quiet_frame g \<and> deadline_clock g < due" "quiet_frame f" "due \<le> deadline_clock f"
  shows "(\<exists>l1. run_frames (f0 # fs) l = Some l1 \<and> loop_running l1 \<and> \<not> has_opened_graph (table_of (loop_viewer l1)))
    \<and> (\<exists>l2. run_frames (f0 # fs @ [f]) l = Some l2 \<and> \<not> loop_running l2)"
proof -
  obtain n where c: "process_session_close_packet p received sender (table_of v) = (Suc n, map (\<lambda>_. None) (table_of v))"
    using close_only_session [OF p l(2) own(2,1)] by blast
  have hd: "validate_header (header p) received" "msg_type (header p) = msg_code SESSION_CLOSE"
    using p by (simp_all add: validate_session_close_packet_def)
  have closed: "\<not> has_opened_graph (map (\<lambda>_. None) (table_of v))" by (simp add: has_opened_graph_def)
  define v1 where "v1 = v\<lparr>table_of := map (\<lambda>_. None) (table_of v), deadline_ns := due\<rparr>"
  have d: "dispatch h p received sender v = Some v1"
    using c closed hd by (simp add: dispatch_def v1_def due_def msg_code_inj)
  have "0 \<le> received" using hd(1) by (auto simp: validate_header_def)
  then have rcv: "receive_packets MAX_PACKETS_PER_FRAME (frame_inbox f0) v = Some v1"
    unfolding f0(2) by (subst receive_first) (simp_all add: d)
  have v1: "\<not> has_opened_graph (table_of v1)" "deadline_ns v1 = due" using closed by (simp_all add: v1_def)
  have "v\<lparr>table_of := table_of v\<rparr> = v" by simp
  moreover have "\<not> due \<le> deadline_clock f0" using f0(3) by simp
  ultimately obtain l0 where l0: "frame_step f0 l = Some l0" "loop_viewer l0 = v1" "loop_running l0"
    using rcv f0(1) l(1) v1 render_idle [OF v1(1), of "render_hosts f0" 0]
    by (auto simp: frame_step_def v_def Let_def)
  have "due \<noteq> 0" using f0(3) by auto
  then show ?thesis
    using l0 l(1) v1 idle_run [of l0 fs] idle_deadline [of l0 fs f] quiet by (auto simp: not_le)
qed

text \<open>C31: A viewer that is told about the end of a session only after the session's last graph was
  closed by a message does not stop: with no window left and no shutdown pending it runs through
  every further frame that brings no new configuration, session closes included.\<close>

theorem viewer_left_running:
  fixes l :: LOOP and f0 :: FRAME
  defines "v \<equiv> loop_viewer l"
  assumes l: "loop_running l" "deadline_ns v = 0"
    and last: "find_view_graph (table_of v) (close_graph_id (pk_graph_close p)) sender = Some i"
      "\<forall>j g. j < length (table_of v) \<longrightarrow> table_of v ! j = Some g \<longrightarrow> j = i"
    and f0: "frame_events f0 = []" "frame_inbox f0 = [(received, p, sender, h)]"
    and p: "validate_graph_close_packet p received"
    and quiet: "\<forall>f \<in> set fs. quiet_frame f"
  shows "\<exists>l'. run_frames (f0 # fs) l = Some l' \<and> loop_running l' \<and> \<not> has_opened_graph (table_of (loop_viewer l'))"
proof -
  have hd: "validate_header (header p) received" "msg_type (header p) = msg_code GRAPH_CLOSE"
    using p by (simp_all add: validate_graph_close_packet_def)
  define v1 where "v1 = v\<lparr>table_of := (table_of v)[i := None]\<rparr>"
  have d: "dispatch h p received sender v = Some v1"
    using last(1) hd p
    by (simp add: dispatch_def v1_def msg_code_inj process_graph_close_packet_def destroy_view_graph_def)
  have "(table_of v)[i := None] ! j = None" if "j < length (table_of v)" for j
    using that last(2) by (cases "j = i"; cases "table_of v ! j") auto
  then have v1: "\<not> has_opened_graph (table_of v1)" "deadline_ns v1 = 0"
    using l(2) by (auto simp: v1_def has_opened_graph_def in_set_conv_nth)
  have "0 \<le> received" using hd(1) by (auto simp: validate_header_def)
  then have rcv: "receive_packets MAX_PACKETS_PER_FRAME (frame_inbox f0) v = Some v1"
    unfolding f0(2) by (subst receive_first) (simp_all add: d)
  have "v\<lparr>table_of := table_of v\<rparr> = v" by simp
  then obtain l0 where l0: "frame_step f0 l = Some l0" "loop_viewer l0 = v1" "loop_running l0"
    using rcv f0(1) l(1) v1 render_idle [OF v1(1), of "render_hosts f0" 0]
    by (auto simp: frame_step_def v_def Let_def)
  then show ?thesis using l(1) v1 idle_run [of l0 fs] quiet by auto
qed

text \<open>A viewer that shows one graph.\<close>

definition demo_loop :: LOOP where
  "demo_loop = \<lparr>loop_viewer = \<lparr>table_of = [Some (blank_graph (pk_config demo_config) (demo_endpoint 5000)), None],
     deadline_ns = 0, last_report_ns = 0, reports = 0, answers = []\<rparr>, loop_running = True, next_frame_ns = 0\<rparr>"

lemma demo_close_valid:
  "validate_session_close_packet (demo_close SESSION_CLOSE) 28" "validate_graph_close_packet (demo_close GRAPH_CLOSE) 28"
  by (simp_all add: validate_session_close_packet_def validate_graph_close_packet_def validate_header_def demo_close_def
      zero_packet_def)

lemma demo_loop_simps:
  "loop_running demo_loop" "has_opened_graph (table_of (loop_viewer demo_loop))" "deadline_ns (loop_viewer demo_loop) = 0"
  "find_view_graph (table_of (loop_viewer demo_loop)) 1 (demo_endpoint 5000) = Some 0"
  "Some g \<in> set (table_of (loop_viewer demo_loop)) \<Longrightarrow> endpoint_key (vg_sender g) = Some (V4 5000 2130706433)"
  by (auto simp: demo_loop_def has_opened_graph_def find_view_graph_def watch_endpoint_equal_key blank_graph_def
      demo_config_def)

theorem session_close_ends_viewer_witness:
  "\<exists>l2. run_frames [demo_frame [(28, demo_close SESSION_CLOSE, demo_endpoint 5000, demo_host)] 2000,
      demo_frame [] 3000, demo_frame [] 600000000] demo_loop = Some l2 \<and> \<not> loop_running l2"
proof -
  have "ticks_ns demo_host = 1000" by (simp add: demo_host_def)
  then show ?thesis
    using session_close_ends_viewer [of demo_loop "demo_endpoint 5000"
        "demo_frame [(28, demo_close SESSION_CLOSE, demo_endpoint 5000, demo_host)] 2000" 28
        "demo_close SESSION_CLOSE" demo_host "[demo_frame [] 3000]" "demo_frame [] 600000000"]
      demo_loop_simps demo_close_valid
    by (simp add: demo_frame_def quiet_frame_def)
qed

theorem viewer_left_running_witness:
  "\<exists>l'. run_frames [demo_frame [(28, demo_close GRAPH_CLOSE, demo_endpoint 5000, demo_host)] 2000,
      demo_frame [(28, demo_close SESSION_CLOSE, demo_endpoint 5000, demo_host)] 4000000000] demo_loop = Some l'
    \<and> loop_running l' \<and> \<not> has_opened_graph (table_of (loop_viewer l'))"
proof -
  have one: "\<forall>j g. j < length (table_of (loop_viewer demo_loop)) \<longrightarrow> table_of (loop_viewer demo_loop) ! j = Some g \<longrightarrow> j = 0"
    by (auto simp: demo_loop_def nth_Cons split: nat.splits)
  have "close_graph_id (pk_graph_close (demo_close GRAPH_CLOSE)) = 1" by (simp add: demo_close_def)
  moreover have "msg_type (header (demo_close SESSION_CLOSE)) \<noteq> msg_code CONFIG" by (simp add: demo_close_def)
  ultimately show ?thesis
    using viewer_left_running [of demo_loop "demo_close GRAPH_CLOSE" "demo_endpoint 5000" 0
        "demo_frame [(28, demo_close GRAPH_CLOSE, demo_endpoint 5000, demo_host)] 2000" 28 demo_host
        "[demo_frame [(28, demo_close SESSION_CLOSE, demo_endpoint 5000, demo_host)] 4000000000]"]
      demo_loop_simps one demo_close_valid
    by (simp add: demo_frame_def quiet_frame_def)
qed

section \<open>Stopping and pacing\<close>

text \<open>The loop stops on a quit request, when the last window is closed by hand, or when the deadline
  of a finished session has passed; in the last two cases no window is open.\<close>

lemma frame_stops:
  assumes "frame_step f l = Some l'" "loop_running l" "\<not> loop_running l'"
  shows "Quit \<in> set (frame_events f) \<or> \<not> has_opened_graph (table_of (loop_viewer l'))
    \<and> ((\<exists>w. CloseRequested w \<in> set (frame_events f))
      \<or> deadline_ns (loop_viewer l') \<noteq> 0 \<and> deadline_ns (loop_viewer l') \<le> deadline_clock f)"
proof -
  obtain r gs where e: "fold handle_event (frame_events f) (True, table_of (loop_viewer l)) = (r, gs)"
    by (cases "fold handle_event (frame_events f) (True, table_of (loop_viewer l))")
  show ?thesis
  proof (cases r)
    case True
    then show ?thesis
      using assms e by (auto simp: frame_step_def Let_def split: option.splits if_splits)
  next
    case False
    then have "table_of (loop_viewer l') = gs" using assms(1) e by (auto simp: frame_step_def)
    then show ?thesis using fold_events(3) [OF e] False by auto
  qed
qed

text \<open>A frame that is late by more than an interval is not made up for: the next one is due at most
  one interval from now, and not more than one interval ago.\<close>

lemma pace_frame_bounds:
  assumes "pace_frame due0 now_ns = (due, wait_ns)" "due0 \<le> now_ns" "unat now_ns < 2 ^ 63"
  shows "due \<le> now_ns + frame_interval_ns" "now_ns \<le> due + frame_interval_ns" "now_ns + wait_ns \<le> now_ns + frame_interval_ns"
proof -
  have i: "unat frame_interval_ns = 16666666" by (simp add: frame_interval_ns_def)
  have u: "unat (due0 + frame_interval_ns) = unat due0 + 16666666"
    using assms(2,3) i by (subst unat_add_lem [THEN iffD1]) (simp_all add: word_le_nat_alt)
  have w: "unat (now_ns + frame_interval_ns) = unat now_ns + 16666666"
    using assms(3) i by (subst unat_add_lem [THEN iffD1]) simp_all
  have "unat due \<le> unat now_ns + 16666666 \<and> unat now_ns \<le> unat due + 16666666
      \<and> unat wait_ns \<le> 16666666 \<and> unat due \<le> unat now_ns + 16666666"
    using assms(1,2) u i
    by (auto simp: pace_frame_def Let_def word_le_nat_alt word_less_nat_alt unat_sub split: if_splits)
  moreover have "unat (due + frame_interval_ns) = unat due + 16666666" if "unat due \<le> unat now_ns + 16666666"
    using that assms(3) i by (subst unat_add_lem [THEN iffD1]) simp_all
  moreover have "unat (now_ns + wait_ns) = unat now_ns + unat wait_ns" if "unat wait_ns \<le> 16666666"
    using that assms(3) by (subst unat_add_lem [THEN iffD1]) simp_all
  ultimately show "due \<le> now_ns + frame_interval_ns" "now_ns \<le> due + frame_interval_ns"
    "now_ns + wait_ns \<le> now_ns + frame_interval_ns"
    using w by (simp_all add: word_le_nat_alt)
qed

end
