(* ===== verification/Handshake.thy ===== *)
theory Handshake
  imports Sender MainLoop
begin

text \<open>
  The two programs together: what the viewer does with a configuration the plugin's sender thread
  transmits (\<^verbatim>\<open>src/src/watch.c\<close>), and what its acknowledgement does in the plugin.
\<close>

text \<open>The plugin takes the viewer's acknowledgement of a registered graph's configuration.\<close>

lemma receive_config_ack:
  assumes "reg_ok m" "i < REGISTRY_SIZE" "graphs m ! i = Some g"
  shows "graphs (receive_acks [(config_ack (data_config g), 28)] m) ! i = Some (g\<lparr>is_config_acked := True\<rparr>)"
proof -
  have "find_slot (graphs m) (handle_of g) = Some i"
    using registry.lookup_entry [of "graphs m" i g] assms reg_okD(2) [OF assms(1)] by (simp add: reg_ok_def)
  then have "find_graph m (handle_of g) = Some i"
    using reg_okD(1,2) [OF assms(1)] by (simp add: find_graph_def)
  then have "accept_ack (config_ack (data_config g)) 28 m = update_graph i (\<lambda>g. g\<lparr>is_config_acked := True\<rparr>) m"
    using assms(3) by (simp add: accept_ack_def config_ack_def handle_of_def graph_at_def)
  then show ?thesis using assms reg_okD(2) [OF assms(1)] by (simp add: update_graph_def)
qed

text \<open>C11: The configuration handshake: when a configuration the viewer accepts arrives from the plugin,
  either the viewer cannot show the graph, and sends nothing, or it shows it under the graph's handle
  in the configuration's theme and answers; and that answer makes the plugin's registry count the
  configuration as acknowledged.\<close>

theorem config_handshake:
  assumes m: "reg_ok m" "i < REGISTRY_SIZE" "graphs m ! i = Some g"
    and p: "validate_config_packet (data_config g) received"
    and v: "viewer_ok v" "endpoint_key sender \<noteq> None" "ack_sent h"
    and d: "dispatch h (data_config g) received sender v = Some v'"
  shows "answers v' = answers v \<and> find_view_graph (table_of v') (handle_of g) sender = None
    \<or> (\<exists>j w ack. find_view_graph (table_of v') (handle_of g) sender = Some j \<and> table_of v' ! j = Some w
        \<and> theme (vg_config w) = theme (pk_config (data_config g))
        \<and> answers v' = answers v @ [(sender, ack)]
        \<and> graphs (receive_acks [(ack, 28)] m) ! i = Some (g\<lparr>is_config_acked := True\<rparr>))"
proof -
  have h: "msg_type (header (data_config g)) = msg_code CONFIG" and id: "handle_of g = graph_id (pk_config (data_config g))"
    using p by (auto simp: validate_config_packet_def Let_def handle_of_def split: if_splits)
  have ok: "table_ok (table_of v)" using v(1) by (simp add: viewer_ok_def)
  obtain r gs' where c: "config_shown h (data_config g) sender (table_of v) = (r, gs')" by fastforce
  note dc = dispatch_config [OF h d p c]
  from config_shown_spec [OF ok p v(2) c] show ?thesis
  proof (elim disjE exE conjE)
    assume r: "r = None" "gs' = table_of v"
    then have "find_view_graph (table_of v) (handle_of g) sender = None"
      using c id by (auto simp: config_shown_def split: option.splits)
    then show ?thesis using dc r by simp
  next
    fix j w
    assume r: "r = Some j" "j < length gs'" "gs' ! j = Some w"
      "view_key w = (graph_id (pk_config (data_config g)), endpoint_key sender)"
      "theme (vg_config w) = theme (pk_config (data_config g))" "table_ok gs'"
    have "find_view_graph gs' (handle_of g) sender = Some j"
      using views.lookup_entry [of gs' j w] r v(2) id by (simp add: find_view_graph_lookup table_ok_def)
    then show ?thesis using dc r v(3) receive_config_ack [OF m] by auto
  qed
qed

text \<open>A plugin with the sample session's graph.\<close>

definition demo_manager :: WATCH_MANAGER where
  "demo_manager = update_graph 0 (\<lambda>g. g\<lparr>data_config := demo_config\<rparr>) one_graph_manager"

lemma one_graph_handle: "handle_of (graph_at one_graph_manager 0) = 1"
  by code_simp

lemma demo_manager_simps:
  "reg_ok demo_manager"
  "graphs demo_manager ! 0 = Some ((graph_at one_graph_manager 0)\<lparr>data_config := demo_config\<rparr>)"
proof -
  have h: "handle_of (g\<lparr>data_config := demo_config\<rparr>) = 1" for g
    by (simp add: handle_of_def demo_config_def)
  show "reg_ok demo_manager"
    unfolding demo_manager_def
    by (rule reg_ok_update_graph [OF reg_ok_one_graph _ one_graph_slot]) (simp_all add: h one_graph_handle)
  show "graphs demo_manager ! 0 = Some ((graph_at one_graph_manager 0)\<lparr>data_config := demo_config\<rparr>)"
    using one_graph_slot reg_okD(2) [OF reg_ok_one_graph] by (simp add: demo_manager_def update_graph_def)
qed

theorem config_handshake_witness:
  "\<exists>v' ack. dispatch demo_host demo_config 468 (demo_endpoint 5000) (loop_viewer (loop_start 0)) = Some v'
    \<and> answers v' = [(demo_endpoint 5000, ack)]
    \<and> graphs (receive_acks [(ack, 28)] demo_manager) ! 0
        = Some ((graph_at one_graph_manager 0)\<lparr>data_config := demo_config, is_config_acked := True\<rparr>)"
proof -
  obtain v1 g gs where d: "dispatch demo_host demo_config 468 (demo_endpoint 5000) (loop_viewer (loop_start 0)) = Some v1"
    and v1: "table_of v1 = Some g # gs" "view_key g = (1, Some (V4 5000 2130706433))"
    using demo_opens by blast
  let ?g = "(graph_at one_graph_manager 0)\<lparr>data_config := demo_config\<rparr>"
  have "view_lookup (table_of v1) (1, Some (V4 5000 2130706433)) = Some 0"
    using v1 by (simp add: view_lookup_def)
  then have f: "find_view_graph (table_of v1) (handle_of ?g) (demo_endpoint 5000) \<noteq> None"
    by (simp add: find_view_graph_lookup handle_of_def demo_config_def)
  have "answers (loop_viewer (loop_start 0)) = []" "ack_sent demo_host" by (simp_all add: loop_start_def demo_host_def)
  then show ?thesis
    using config_handshake [OF demo_manager_simps(1) _ demo_manager_simps(2) _ loop_start_ok, of 468 "demo_endpoint 5000"
        demo_host 0 v1] demo_config_valid d f
    by auto
qed

end
