(* ===== verification/Colors.thy ===== *)
theory Colors
  imports Ranges
begin

text \<open>
  The palettes of the viewer (\<^verbatim>\<open>hsv_color\<close> to \<^verbatim>\<open>meter_peak_color\<close> in
  \<^verbatim>\<open>src/src/watch_viewer.c\<close>). \<^verbatim>\<open>powf\<close> is the C library's, a parameter; \<^verbatim>\<open>fmodf\<close> is
  exact. The two loops that darken and brighten a colour are partial functions: that they end
  for every colour of the palette is the theorem of this theory, proved with bounds on a grid of
  1024 steps that rounding respects.
\<close>

section \<open>Colours\<close>

record SDL_FColor =
  fc_r :: cfloat
  fc_g :: cfloat
  fc_b :: cfloat

type_synonym SDL_Color = "8 word \<times> 8 word \<times> 8 word"

fun fmodf :: "cfloat \<Rightarrow> cfloat \<Rightarrow> cfloat" where
  "fmodf (Fin a) (Fin b) = (if b = 0 then NaN else Fin (a - b * of_int (trunc_rat (a / b))))"
| "fmodf (Fin a) PInf = Fin a"
| "fmodf (Fin a) NInf = Fin a"
| "fmodf _ _ = NaN"

definition hsv_color :: "cfloat \<Rightarrow> cfloat \<Rightarrow> cfloat \<Rightarrow> SDL_FColor" where
  "hsv_color hue saturation val =
     (let sector = fdiv f32 hue (Fin 60);
          chroma = fmul f32 val saturation;
          x = fmul f32 chroma (fsub f32 (Fin 1) (fabsf (fsub f32 (fmodf sector (Fin 2)) (Fin 1))));
          (red, green, blue) =
            (if sector < Fin 1 then (chroma, x, Fin 0)
             else if sector < Fin 2 then (x, chroma, Fin 0)
             else if sector < Fin 3 then (Fin 0, chroma, x)
             else if sector < Fin 4 then (Fin 0, x, chroma)
             else if sector < Fin 5 then (x, Fin 0, chroma)
             else (chroma, Fin 0, x));
          minimum = fsub f32 val chroma in
      \<lparr>fc_r = fadd f32 red minimum, fc_g = fadd f32 green minimum, fc_b = fadd f32 blue minimum\<rparr>)"

text \<open>The literals, rounded to \<^verbatim>\<open>float\<close>.\<close>

abbreviation C0_94 :: cfloat where "C0_94 \<equiv> Fin (15770583 / 16777216)"
abbreviation C0_08 :: cfloat where "C0_08 \<equiv> Fin (5368709 / 67108864)"
abbreviation C0_04045 :: cfloat where "C0_04045 \<equiv> Fin (5429107 / 134217728)"
abbreviation C12_92 :: cfloat where "C12_92 \<equiv> Fin (6773801 / 524288)"
abbreviation C0_055 :: cfloat where "C0_055 \<equiv> Fin (7381975 / 134217728)"
abbreviation C1_055 :: cfloat where "C1_055 \<equiv> Fin (8849981 / 8388608)"
abbreviation C2_4 :: cfloat where "C2_4 \<equiv> Fin (5033165 / 2097152)"
abbreviation C0_2126 :: cfloat where "C0_2126 \<equiv> Fin (891709 / 4194304)"
abbreviation C0_7152 :: cfloat where "C0_7152 \<equiv> Fin (11999065 / 16777216)"
abbreviation C0_0722 :: cfloat where "C0_0722 \<equiv> Fin (1211315 / 16777216)"
abbreviation STREAM_COLOR_LIGHT_MAXIMUM :: cfloat where "STREAM_COLOR_LIGHT_MAXIMUM \<equiv> Fin (5200937 / 33554432)"
abbreviation STREAM_COLOR_DARK_MINIMUM :: cfloat where "STREAM_COLOR_DARK_MINIMUM \<equiv> Fin (5033165 / 16777216)"
abbreviation METER_PEAK_HUE :: cfloat where "METER_PEAK_HUE \<equiv> Fin 18"
abbreviation METER_PEAK_LIGHT_MAXIMUM :: cfloat where "METER_PEAK_LIGHT_MAXIMUM \<equiv> Fin (13421773 / 268435456)"
abbreviation METER_PEAK_DARK_MINIMUM :: cfloat where "METER_PEAK_DARK_MINIMUM \<equiv> Fin (9227469 / 16777216)"

text \<open>Rounding at a known exponent: \<open>q\<close> has 24 bits above \<open>2 powi e\<close>.\<close>

lemma ilog2_eqI: "2 powi e \<le> q \<Longrightarrow> q < 2 powi (e + 1) \<Longrightarrow> ilog2 q = e"
proof -
  assume q: "2 powi e \<le> q" "q < 2 powi (e + 1)"
  then have pos: "0 < q" using zero_less_power_int [of "2 :: rat" e] by linarith
  have "ilog2 q < e + 1" using pos q(2) by (rule ilog2_less)
  moreover have "\<not> ilog2 q + 1 \<le> e"
    using ilog2_bounds [OF pos] q(1) power_int_increasing [of "ilog2 q + 1" e "2 :: rat"] by force
  ultimately show ?thesis by linarith
qed

lemma round_even_near: "\<bar>x - of_int m\<bar> < 1 / 2 \<Longrightarrow> round_even x = m"
proof -
  assume x: "\<bar>x - of_int m\<bar> < 1 / 2"
  show ?thesis
  proof (cases "of_int m \<le> x")
    case True
    then have "\<lfloor>x\<rfloor> = m" using x by (auto intro: floor_unique)
    then show ?thesis using x True by (simp add: round_even_def Let_def)
  next
    case False
    then have "\<lfloor>x\<rfloor> = m - 1" using x by (auto intro!: floor_unique)
    then show ?thesis using x False by (simp add: round_even_def Let_def abs_if split: if_splits)
  qed
qed

lemma fround_f32_at:
  assumes q: "2 ^ 23 \<le> q * 2 ^ k" "q * 2 ^ k < 2 ^ 24" and k: "k \<le> 149"
    and m: "\<bar>q * 2 ^ k - of_int m\<bar> < 1 / 2" and x: "x * 2 ^ k = of_int m"
  shows "fround f32 q = Fin x"
proof -
  let ?e = "- int k"
  have scale: "2 powi (?e + n) * 2 ^ k = (2 :: rat) powi n" for n
    by (simp add: power_int_diff)
  have pos: "0 < q" using q(1) by (simp add: zero_less_mult_iff [of q, symmetric] del: zero_less_mult_iff)
      (metis less_le_trans zero_less_mult_pos2 zero_less_numeral zero_less_power)
  have "ilog2 q = ?e + 23"
  proof (rule ilog2_eqI)
    have "2 powi (?e + 23) * 2 ^ k \<le> q * 2 ^ k" unfolding scale using q(1) by simp
    then show "2 powi (?e + 23) \<le> q" by (rule mult_right_le_imp_le) simp
    have "q * 2 ^ k < 2 powi (?e + 24) * 2 ^ k" unfolding scale using q(2) by simp
    then show "q < 2 powi (?e + 23 + 1)" using mult_right_less_imp_less [of q "2 ^ k"] by (simp add: add.assoc)
  qed
  then have "ulp_exp f32 q = ?e" using pos k by (simp add: ulp_exp_def)
  moreover have "q / 2 powi ?e = q * 2 ^ k" by (simp add: power_int_minus field_simps)
  ultimately have "round_rat f32 q = of_int m * 2 powi ?e"
    using pos round_even_near [OF m] by (simp add: round_rat_def)
  also have "\<dots> = x" using x by (simp add: power_int_minus field_simps)
  finally have r: "round_rat f32 q = x" .
  have "q * 1 \<le> q * 2 ^ k" using pos by (intro mult_left_mono) auto
  moreover have "q * 2 ^ k < 16777216" using q(2) by simp
  ultimately have "q < 16777216" by linarith
  then have "\<bar>q\<bar> \<le> max_finite f32" using pos max_finite_big by simp
  then show ?thesis by (simp add: fround_f32_finite(1) r)
qed

lemma float_literals:
  "fround f32 (94 / 100) = C0_94" "fround f32 (8 / 100) = C0_08" "fround f32 (4045 / 100000) = C0_04045"
  "fround f32 (1292 / 100) = C12_92" "fround f32 (55 / 1000) = C0_055" "fround f32 (1055 / 1000) = C1_055"
  "fround f32 (24 / 10) = C2_4" "fround f32 (2126 / 10000) = C0_2126" "fround f32 (7152 / 10000) = C0_7152"
  "fround f32 (722 / 10000) = C0_0722" "fround f32 (155 / 1000) = STREAM_COLOR_LIGHT_MAXIMUM"
  "fround f32 (3 / 10) = STREAM_COLOR_DARK_MINIMUM" "fround f32 (5 / 100) = METER_PEAK_LIGHT_MAXIMUM"
  "fround f32 (55 / 100) = METER_PEAK_DARK_MINIMUM"
  "fround f32 (137507764 / 1000000) = Fin (9011709 / 65536)" "fround f32 (68 / 100) = Fin (11408507 / 16777216)"
  "fround f32 (86 / 100) = Fin (7214203 / 8388608)" "fround f32 (4 / 100) = Fin (5368709 / 134217728)"
  "fround f32 (92 / 100) = Fin (15435039 / 16777216)" "fround f32 (95 / 100) = Fin (15938355 / 16777216)"
  by (rule fround_f32_at [where k = 24 and m = 15770583], simp_all,
      rule fround_f32_at [where k = 27 and m = 10737418], simp_all,
      rule fround_f32_at [where k = 28 and m = 10858214], simp_all,
      rule fround_f32_at [where k = 20 and m = 13547602], simp_all,
      rule fround_f32_at [where k = 28 and m = 14763950], simp_all,
      rule fround_f32_at [where k = 23 and m = 8849981], simp_all,
      rule fround_f32_at [where k = 22 and m = 10066330], simp_all,
      rule fround_f32_at [where k = 26 and m = 14267344], simp_all,
      rule fround_f32_at [where k = 24 and m = 11999065], simp_all,
      rule fround_f32_at [where k = 27 and m = 9690520], simp_all,
      rule fround_f32_at [where k = 26 and m = 10401874], simp_all,
      rule fround_f32_at [where k = 25 and m = 10066330], simp_all,
      rule fround_f32_at [where k = 28 and m = 13421773], simp_all,
      rule fround_f32_at [where k = 24 and m = 9227469], simp_all,
      rule fround_f32_at [where k = 16 and m = 9011709], simp_all,
      rule fround_f32_at [where k = 24 and m = 11408507], simp_all,
      rule fround_f32_at [where k = 24 and m = 14428406], simp_all,
      rule fround_f32_at [where k = 28 and m = 10737418], simp_all,
      rule fround_f32_at [where k = 24 and m = 15435039], simp_all,
      rule fround_f32_at [where k = 24 and m = 15938355], simp_all)

section \<open>Luminance\<close>

definition linear_color_component :: "(cfloat \<Rightarrow> cfloat \<Rightarrow> cfloat) \<Rightarrow> cfloat \<Rightarrow> cfloat" where
  "linear_color_component powf component =
     (if component \<le> C0_04045 then fdiv f32 component C12_92
      else powf (fdiv f32 (fadd f32 component C0_055) C1_055) C2_4)"

definition color_luminance :: "(cfloat \<Rightarrow> cfloat \<Rightarrow> cfloat) \<Rightarrow> SDL_FColor \<Rightarrow> cfloat" where
  "color_luminance powf c =
     fadd f32 (fadd f32 (fmul f32 C0_2126 (linear_color_component powf (fc_r c)))
         (fmul f32 C0_7152 (linear_color_component powf (fc_g c))))
       (fmul f32 C0_0722 (linear_color_component powf (fc_b c)))"

text \<open>\<^verbatim>\<open>lrintf\<close> rounds to the nearest integer, ties to even.\<close>

fun lrintf :: "cfloat \<Rightarrow> int" where
  "lrintf (Fin q) = round_even q"
| "lrintf _ = 0"

definition color_byte :: "cfloat \<Rightarrow> 8 word" where
  "color_byte c = of_int (lrintf (fmul f32 (fmin (fmax c (Fin 0)) (Fin 1)) (Fin 255)))"

definition byte_color :: "SDL_FColor \<Rightarrow> SDL_Color" where
  "byte_color c = (color_byte (fc_r c), color_byte (fc_g c), color_byte (fc_b c))"

section \<open>One hue for two themes\<close>

definition darken :: "SDL_FColor \<Rightarrow> SDL_FColor" where
  "darken c = \<lparr>fc_r = fmul f32 (fc_r c) C0_94, fc_g = fmul f32 (fc_g c) C0_94, fc_b = fmul f32 (fc_b c) C0_94\<rparr>"

definition brighten_component :: "cfloat \<Rightarrow> cfloat" where
  "brighten_component c = fadd f32 c (fmul f32 (fsub f32 (Fin 1) c) C0_08)"

definition brighten :: "SDL_FColor \<Rightarrow> SDL_FColor" where
  "brighten c = \<lparr>fc_r = brighten_component (fc_r c), fc_g = brighten_component (fc_g c),
     fc_b = brighten_component (fc_b c)\<rparr>"

partial_function (option) darken_loop ::
  "(cfloat \<Rightarrow> cfloat \<Rightarrow> cfloat) \<Rightarrow> cfloat \<Rightarrow> SDL_FColor \<Rightarrow> SDL_FColor option" where
  "darken_loop powf light_maximum c =
     (if light_maximum < color_luminance powf c then darken_loop powf light_maximum (darken c) else Some c)"

partial_function (option) brighten_loop ::
  "(cfloat \<Rightarrow> cfloat \<Rightarrow> cfloat) \<Rightarrow> cfloat \<Rightarrow> SDL_FColor \<Rightarrow> SDL_FColor option" where
  "brighten_loop powf dark_minimum c =
     (if color_luminance powf c < dark_minimum then brighten_loop powf dark_minimum (brighten c) else Some c)"

definition themed_color_pair ::
  "(cfloat \<Rightarrow> cfloat \<Rightarrow> cfloat) \<Rightarrow> SDL_FColor \<Rightarrow> cfloat \<Rightarrow> cfloat \<Rightarrow> (SDL_Color \<times> SDL_Color) option" where
  "themed_color_pair powf base light_maximum dark_minimum =
     (case (darken_loop powf light_maximum base, brighten_loop powf dark_minimum base) of
        (Some light, Some dark) \<Rightarrow> Some (byte_color light, byte_color dark)
      | _ \<Rightarrow> None)"

text \<open>The colours of the streams, and of the peak marks.\<close>

definition stream_base_color :: "nat \<Rightarrow> SDL_FColor" where
  "stream_base_color i =
     hsv_color
       (fmodf (fadd f32 (Fin 210) (fmul f32 (Fin (of_nat i)) (Fin (9011709 / 65536)))) (Fin 360))
       (fadd f32 (Fin (11408507 / 16777216)) (fmul f32 C0_08 (Fin (of_nat (i mod 4)))))
       (fadd f32 (Fin (7214203 / 8388608)) (fmul f32 (Fin (5368709 / 134217728)) (Fin (of_nat (i div 4 mod 3)))))"

definition stream_colors :: "(cfloat \<Rightarrow> cfloat \<Rightarrow> cfloat) \<Rightarrow> nat \<Rightarrow> (SDL_Color \<times> SDL_Color) option" where
  "stream_colors powf i =
     themed_color_pair powf (stream_base_color i) STREAM_COLOR_LIGHT_MAXIMUM STREAM_COLOR_DARK_MINIMUM"

definition meter_peak_colors :: "(cfloat \<Rightarrow> cfloat \<Rightarrow> cfloat) \<Rightarrow> (SDL_Color \<times> SDL_Color) option" where
  "meter_peak_colors powf =
     themed_color_pair powf (hsv_color METER_PEAK_HUE (Fin (15435039 / 16777216)) (Fin (15938355 / 16777216)))
       METER_PEAK_LIGHT_MAXIMUM METER_PEAK_DARK_MINIMUM"

definition themed_color :: "u32 \<Rightarrow> SDL_Color \<times> SDL_Color \<Rightarrow> SDL_Color" where
  "themed_color th pair = (if th = WATCH_THEME_DARK then snd pair else fst pair)"

section \<open>The two loops return\<close>

text \<open>Components on a grid of 1024 steps: rounding keeps grid bounds.\<close>

definition lies :: "int \<Rightarrow> cfloat \<Rightarrow> int \<Rightarrow> bool" where
  "lies a x b \<longleftrightarrow> Fin (of_int a / 1024) \<le> x \<and> x \<le> Fin (of_int b / 1024)"

lemma lies_Fin [simp]: "lies a (Fin r) b \<longleftrightarrow> of_int a \<le> r * 1024 \<and> r * 1024 \<le> of_int b"
  by (simp add: lies_def field_simps)

lemma liesE: "lies a x b \<Longrightarrow> (\<And>r. x = Fin r \<Longrightarrow> of_int a \<le> r * 1024 \<Longrightarrow> r * 1024 \<le> of_int b \<Longrightarrow> P) \<Longrightarrow> P"
  using isfinite_between [of "of_int a / 1024" x "of_int b / 1024"]
  by (cases x) (auto simp: lies_def field_simps)

lemma fround_grid: "\<bar>a\<bar> < 16777216 \<Longrightarrow> fround f32 (of_int a / 1024) = Fin (of_int a / 1024)"
proof -
  assume a: "\<bar>a\<bar> < 16777216"
  have "round_rat f32 (of_int a * 2 powi (- 10)) = of_int a * 2 powi (- 10)"
    using a by (intro round_rat_representable) simp_all
  then have r: "round_rat f32 (of_int a / 1024) = of_int a / 1024" by (simp add: power_int_def field_simps)
  have "(of_int \<bar>a\<bar> :: rat) \<le> of_int 16777216" using a by (simp only: of_int_le_iff)
  then have "\<bar>of_int a / 1024 :: rat\<bar> \<le> max_finite f32" using max_finite_big by simp
  then show ?thesis by (simp add: fround_f32_finite(1) r)
qed

lemma fround_within:
  assumes "of_int a \<le> q * 1024" "q * 1024 \<le> of_int b" "\<bar>a\<bar> < 16777216" "\<bar>b\<bar> < 16777216"
  shows "lies a (fround f32 q) b"
  using fround_mono [of "of_int a / 1024" q f32] fround_mono [of q "of_int b / 1024" f32] assms
  by (simp add: lies_def fround_grid field_simps)

lemma fadd_within:
  "lies a x b \<Longrightarrow> lies a' y b' \<Longrightarrow> \<bar>a + a'\<bar> < 16777216 \<Longrightarrow> \<bar>b + b'\<bar> < 16777216 \<Longrightarrow>
    lies (a + a') (fadd f32 x y) (b + b')"
  by (elim liesE) (auto intro!: fround_within simp: algebra_simps)

lemma fmul_within:
  assumes "lies a x b" "0 \<le> a" "0 \<le> p" "of_int lo \<le> p * of_int a" "p * of_int b \<le> of_int hi"
    "\<bar>lo\<bar> < 16777216" "\<bar>hi\<bar> < 16777216"
  shows "lies lo (fmul f32 (Fin p) x) hi" "lies lo (fmul f32 x (Fin p)) hi"
proof -
  obtain r where r: "x = Fin r" "of_int a \<le> r * 1024" "r * 1024 \<le> of_int b" using assms(1) by (rule liesE)
  have "p * of_int a \<le> p * (r * 1024)" "p * (r * 1024) \<le> p * of_int b"
    using r assms(3) by (auto intro: mult_left_mono)
  then have "lies lo (fround f32 (p * r)) hi" using assms by (intro fround_within) (auto simp: algebra_simps)
  then show "lies lo (fmul f32 (Fin p) x) hi" "lies lo (fmul f32 x (Fin p)) hi"
    by (simp_all add: r(1) mult.commute)
qed

text \<open>What is asked of \<^verbatim>\<open>powf\<close>: a value between 0 and 8 for a base between 0 and 2 and
  the exponent 2.4, and at least 3/4 for a base of at least 920/1024 (whose power is 0.773).\<close>

definition powf_ok :: "(cfloat \<Rightarrow> cfloat \<Rightarrow> cfloat) \<Rightarrow> bool" where
  "powf_ok powf \<longleftrightarrow> (\<forall>q. 0 \<le> q \<and> q \<le> 2 \<longrightarrow> lies 0 (powf (Fin q) C2_4) 8192
     \<and> (920 / 1024 \<le> q \<longrightarrow> lies 768 (powf (Fin q) C2_4) 8192))"

definition components_within :: "int \<Rightarrow> SDL_FColor \<Rightarrow> int \<Rightarrow> bool" where
  "components_within a c b \<longleftrightarrow> lies a (fc_r c) b \<and> lies a (fc_g c) b \<and> lies a (fc_b c) b"

lemma linear_dark: "lies 0 x 41 \<Longrightarrow> lies 0 (linear_color_component powf x) 4"
  by (elim liesE) (auto simp: linear_color_component_def intro!: fround_within)

lemma dark_luminance:
  assumes "components_within 0 c 41"
  shows "lies 0 (color_luminance powf c) 5"
proof -
  have "lies (0 + 0 + 0) (color_luminance powf c) (1 + 3 + 1)"
    unfolding color_luminance_def using assms
    by (intro fadd_within fmul_within(1) [OF linear_dark]) (auto simp: components_within_def)
  then show ?thesis by simp
qed

lemma linear_bright:
  assumes "powf_ok powf" "lies 923 x 2048"
  shows "lies 768 (linear_color_component powf x) 8192"
proof -
  have "lies (923 + 56) (fadd f32 x C0_055) (2048 + 57)"
    using assms(2) by (rule fadd_within) auto
  then have "lies 927 (fdiv f32 (fadd f32 x C0_055) C1_055) 2048"
    by (elim liesE) (auto intro!: fround_within)
  moreover have "\<not> x \<le> C0_04045" using assms(2) by (auto elim!: liesE)
  ultimately show ?thesis
    using assms(1) by (auto simp: linear_color_component_def powf_ok_def elim!: liesE [of 927])
qed

lemma bright_luminance:
  assumes "powf_ok powf" "components_within 923 c 2048"
  shows "lies 767 (color_luminance powf c) 16384"
proof -
  have "lies (163 + 549 + 55) (color_luminance powf c) (2048 + 6144 + 8192)"
    unfolding color_luminance_def using assms
    by (intro fadd_within fmul_within(1) [OF linear_bright]) (auto simp: components_within_def)
  then show ?thesis by simp
qed

lemma linear_any:
  assumes "powf_ok powf" "lies 0 x 2048"
  shows "lies 0 (linear_color_component powf x) 8192"
proof -
  have "lies (0 + 56) (fadd f32 x C0_055) (2048 + 57)"
    using assms(2) by (rule fadd_within) auto
  then have "lies 0 (fdiv f32 (fadd f32 x C0_055) C1_055) 2048"
    by (elim liesE) (auto intro!: fround_within)
  moreover have "x \<le> C0_04045 \<Longrightarrow> lies 0 (fdiv f32 x C12_92) 8192"
    using assms(2) by (elim liesE) (auto intro!: fround_within)
  ultimately show ?thesis
    using assms(1) by (auto simp: linear_color_component_def powf_ok_def elim!: liesE [of 0 "fdiv _ _ _"])
qed

lemma any_luminance:
  assumes "powf_ok powf" "components_within 0 c 2048"
  shows "lies 0 (color_luminance powf c) 16384"
proof -
  have "lies (0 + 0 + 0) (color_luminance powf c) (2048 + 6144 + 8192)"
    unfolding color_luminance_def using assms
    by (intro fadd_within fmul_within(1) [OF linear_any]) (auto simp: components_within_def)
  then show ?thesis by simp
qed

text \<open>A step of either loop makes progress.\<close>

lemma darken_component: "lies 0 x b \<Longrightarrow> 34 \<le> b \<Longrightarrow> b \<le> 2048 \<Longrightarrow> lies 0 (fmul f32 x C0_94) (b - 1)"
  by (erule fmul_within(2)) auto

lemma darken_within: "components_within 0 c b \<Longrightarrow> 34 \<le> b \<Longrightarrow> b \<le> 2048 \<Longrightarrow> components_within 0 (darken c) (b - 1)"
  by (simp add: components_within_def darken_def darken_component)

lemma brighten_component_within:
  assumes x: "lies a x 2048" and a: "0 \<le> a" "a \<le> 922"
  shows "lies (a + 1) (brighten_component x) 2048"
proof -
  obtain r where r: "x = Fin r" "of_int a \<le> r * 1024" "r * 1024 \<le> 2048" using x by (auto elim: liesE)
  define b where "b = max (a + 1) \<lfloor>r * 1024\<rfloor>"
  consider (high) "1024 \<le> r * 1024" | (mid) "of_int (a + 1) \<le> r * 1024" "r * 1024 < 1024" | (low) "r * 1024 < of_int (a + 1)"
    by linarith
  then show ?thesis
  proof cases
    case high
    have "lies (- 1024) (fsub f32 (Fin 1) x) 0"
      unfolding fsub_def r(1) using r(3) high by (auto intro!: fround_within)
    then have "lies (- 82) (fmul f32 (fsub f32 (Fin 1) x) C0_08) 0"
      by (elim liesE) (auto intro!: fround_within)
    then have "lies (1024 + (- 82)) (brighten_component x) (2048 + 0)"
      unfolding brighten_component_def using r high by (intro fadd_within) auto
    then show ?thesis using a by (auto elim!: liesE)
  next
    case mid
    have "lies 0 (fsub f32 (Fin 1) x) 1024"
      unfolding fsub_def r(1) using mid a by (auto intro!: fround_within)
    then have "lies 0 (fmul f32 (fsub f32 (Fin 1) x) C0_08) 82"
      by (elim liesE) (auto intro!: fround_within)
    then have "lies (a + 1 + 0) (brighten_component x) (1024 + 82)"
      unfolding brighten_component_def using mid a r by (intro fadd_within) auto
    then show ?thesis by (auto elim!: liesE)
  next
    case low
    have "lies 101 (fsub f32 (Fin 1) x) 1024"
      unfolding fsub_def r(1) using low a r by (auto intro!: fround_within)
    then have "lies 1 (fmul f32 (fsub f32 (Fin 1) x) C0_08) 82"
      by (elim liesE) (auto intro!: fround_within)
    then have "lies (a + 1) (brighten_component x) (a + 1 + 82)"
      unfolding brighten_component_def using low a r by (intro fadd_within) auto
    then show ?thesis using a by (auto elim!: liesE)
  qed
qed

lemma brighten_within: "components_within a c 2048 \<Longrightarrow> 0 \<le> a \<Longrightarrow> a \<le> 922 \<Longrightarrow> components_within (a + 1) (brighten c) 2048"
  by (simp add: components_within_def brighten_def brighten_component_within)

text \<open>Both loops, from any colour of the unit cube.\<close>

lemma darken_loop_returns:
  assumes pw: "powf_ok powf" and m: "Fin (5 / 1024) \<le> light_maximum"
  shows "components_within 0 c (int b) \<Longrightarrow> b \<le> 2048 \<Longrightarrow>
    \<exists>l. darken_loop powf light_maximum c = Some l \<and> color_luminance powf l \<le> light_maximum"
proof (induction b arbitrary: c rule: less_induct)
  case (less b)
  show ?case
  proof (cases "light_maximum < color_luminance powf c")
    case False
    have "components_within 0 c 2048"
      using less.prems by (auto simp: components_within_def elim!: liesE)
    then have "lies 0 (color_luminance powf c) 16384" by (rule any_luminance [OF pw])
    then have "color_luminance powf c \<le> light_maximum"
      using False m by (cases light_maximum) (auto simp: less_eq_cfloat_def elim!: liesE)
    then show ?thesis using False by (simp add: darken_loop.simps)
  next
    case True
    have "41 < b"
    proof (rule ccontr)
      assume "\<not> 41 < b"
      then have "components_within 0 c 41"
        using less.prems(1) by (auto simp: components_within_def elim!: liesE)
      then have "lies 0 (color_luminance powf c) 5" by (rule dark_luminance)
      then show False using True m by (cases light_maximum) (auto simp: less_eq_cfloat_def elim!: liesE)
    qed
    then have "components_within 0 (darken c) (int (b - 1))"
      using darken_within [OF less.prems(1)] less.prems(2) by (simp add: of_nat_diff)
    moreover have "b - 1 < b" "b - 1 \<le> 2048" using \<open>41 < b\<close> less.prems(2) by auto
    ultimately obtain l where "darken_loop powf light_maximum (darken c) = Some l \<and> color_luminance powf l \<le> light_maximum"
      using less.IH by blast
    then show ?thesis using True by (simp add: darken_loop.simps [of powf light_maximum c])
  qed
qed

lemma brighten_loop_returns:
  assumes pw: "powf_ok powf" and m: "dark_minimum \<le> METER_PEAK_DARK_MINIMUM"
  shows "components_within (923 - int k) c 2048 \<Longrightarrow> k \<le> 923 \<Longrightarrow>
    \<exists>d. brighten_loop powf dark_minimum c = Some d \<and> dark_minimum \<le> color_luminance powf d"
proof (induction k arbitrary: c rule: less_induct)
  case (less k)
  have "components_within 0 c 2048" using less.prems by (auto simp: components_within_def elim!: liesE)
  then have lum: "lies 0 (color_luminance powf c) 16384" by (rule any_luminance [OF pw])
  show ?case
  proof (cases "color_luminance powf c < dark_minimum")
    case False
    then have "dark_minimum \<le> color_luminance powf c"
      using lum m by (cases dark_minimum) (auto simp: less_eq_cfloat_def elim!: liesE)
    then show ?thesis using False by (simp add: brighten_loop.simps)
  next
    case True
    have "k \<noteq> 0"
    proof
      assume "k = 0"
      then have "lies 767 (color_luminance powf c) 16384" using less.prems(1) pw by (intro bright_luminance) auto
      then show False using True m by (cases dark_minimum) (auto simp: less_eq_cfloat_def elim!: liesE)
    qed
    then have "components_within (923 - int (k - 1)) (brighten c) 2048"
      using brighten_within [OF less.prems(1)] less.prems(2) by (simp add: of_nat_diff algebra_simps)
    moreover have "k - 1 < k" "k - 1 \<le> 923" using \<open>k \<noteq> 0\<close> less.prems(2) by auto
    ultimately obtain d where "brighten_loop powf dark_minimum (brighten c) = Some d \<and> dark_minimum \<le> color_luminance powf d"
      using less.IH by blast
    then show ?thesis using True by (simp add: brighten_loop.simps [of powf dark_minimum c])
  qed
qed

lemma themed_color_pair_returns:
  assumes "powf_ok powf" and "components_within 0 base 2048"
    and "Fin (5 / 1024) \<le> light_maximum" and "dark_minimum \<le> METER_PEAK_DARK_MINIMUM"
  shows "\<exists>light dark. themed_color_pair powf base light_maximum dark_minimum = Some (byte_color light, byte_color dark)
    \<and> color_luminance powf light \<le> light_maximum \<and> dark_minimum \<le> color_luminance powf dark"
proof -
  obtain light where "darken_loop powf light_maximum base = Some light" "color_luminance powf light \<le> light_maximum"
    using darken_loop_returns [of powf light_maximum base 2048] assms by auto
  moreover obtain dark where "brighten_loop powf dark_minimum base = Some dark" "dark_minimum \<le> color_luminance powf dark"
    using brighten_loop_returns [of powf dark_minimum 923 base] assms by auto
  ultimately show ?thesis by (auto simp: themed_color_pair_def)
qed

text \<open>The base colours lie in the range: a hue below 360 and a saturation that keeps the chroma below
  the value.\<close>

lemma fmodf_range: "0 \<le> a \<Longrightarrow> 0 < b \<Longrightarrow> \<exists>r. fmodf (Fin a) (Fin b) = Fin r \<and> 0 \<le> r \<and> r < b"
proof -
  assume a: "0 \<le> a" and b: "0 < b"
  have "of_int \<lfloor>a / b\<rfloor> * b \<le> a" "a < (of_int \<lfloor>a / b\<rfloor> + 1) * b"
    using b by (rule floor_divide_lower, rule floor_divide_upper)
  then show ?thesis
    using a b by (intro exI [of _ "a - b * of_int \<lfloor>a / b\<rfloor>"]) (simp add: trunc_rat_def divide_nonneg_pos algebra_simps)
qed

lemma fmul_lies:
  assumes "lies 0 x a" "lies 0 y b" "0 \<le> c" "a * b \<le> c * 1024" "c < 16777216"
  shows "lies 0 (fmul f32 x y) c"
  using assms(1,2)
proof (elim liesE)
  fix r q assume x: "x = Fin r" "of_int 0 \<le> r * 1024" "r * 1024 \<le> of_int a"
    and y: "y = Fin q" "of_int 0 \<le> q * 1024" "q * 1024 \<le> of_int b"
  have "(r * 1024) * (q * 1024) \<le> of_int a * of_int b" using x y by (intro mult_mono) auto
  also have "\<dots> \<le> of_int (c * 1024)" using assms(4) by (simp only: of_int_mult [symmetric] of_int_le_iff)
  finally show ?thesis using x y assms(3,5) by (auto intro!: fround_within simp: mult.commute mult.left_commute)
qed

lemma hsv_color_within:
  assumes v: "lies a v 1024" "0 \<le> a" and c: "lies 0 (fmul f32 v s) a"
    and hue: "0 \<le> h" "h < 360"
  shows "components_within 0 (hsv_color (Fin h) s v) 2048"
proof -
  obtain sec where sec: "fdiv f32 (Fin h) (Fin 60) = Fin sec" "0 \<le> sec"
    using fround_within [of 0 "h / 60" 6144] hue by (auto elim!: liesE)
  obtain r where r: "fmodf (Fin sec) (Fin 2) = Fin r" "0 \<le> r" "r < 2"
    using fmodf_range [of sec 2] sec(2) by auto
  have chroma: "lies 0 (fmul f32 v s) 1024" using c v by (auto elim!: liesE)
  have "lies (- 1024) (fsub f32 (Fin r) (Fin 1)) 1024"
    unfolding fsub_def using r by (auto intro!: fround_within)
  then have "lies 0 (fsub f32 (Fin 1) (fabsf (fsub f32 (Fin r) (Fin 1)))) 1024"
    by (elim liesE) (auto simp: fsub_def intro!: fround_within)
  then have x: "lies 0 (fmul f32 (fmul f32 v s) (fsub f32 (Fin 1) (fabsf (fsub f32 (Fin r) (Fin 1))))) 1024"
    by (rule fmul_lies [OF chroma]) auto
  have "lies 0 (fsub f32 v (fmul f32 v s)) 1024"
    using v c unfolding fsub_def by (elim liesE) (auto intro!: fround_within)
  moreover have "lies 0 (Fin 0) 1024" by simp
  ultimately show ?thesis
    using x chroma fadd_within [of 0 _ 1024 0 _ 1024]
    by (simp add: hsv_color_def sec(1) r(1) Let_def components_within_def del: lies_Fin fdiv.simps fmodf.simps)
qed

lemma fround_nearby: "of_int a \<le> q * 1024 \<Longrightarrow> q * 1024 \<le> of_int b \<Longrightarrow> \<bar>a\<bar> < 16777216 \<Longrightarrow> \<bar>b\<bar> < 16777216 \<Longrightarrow>
    \<exists>r. fround f32 q = Fin r \<and> of_int a \<le> r * 1024 \<and> r * 1024 \<le> of_int b"
  using fround_within [of a q b] by (auto elim!: liesE)

lemma stream_base_color_within: "i < MAX_STREAMS \<Longrightarrow> components_within 0 (stream_base_color i) 2048"
proof -
  assume i: "i < 64"
  obtain t where t: "fmul f32 (Fin (of_nat i)) (Fin (9011709 / 65536)) = Fin t" "0 \<le> t" "t * 1024 \<le> 10000000"
    using fround_nearby [of 0 "of_nat i * (9011709 / 65536)" 10000000] i
    by (auto simp: of_nat_less_iff [of i 64, symmetric] simp del: of_nat_less_iff)
  obtain u where u: "fadd f32 (Fin 210) (Fin t) = Fin u" "0 \<le> u"
    using fround_nearby [of 0 "210 + t" 11000000] t by auto
  obtain h where h: "fmodf (Fin u) (Fin 360) = Fin h" "0 \<le> h" "h < 360"
    using fmodf_range [of u 360] u by auto
  let ?s = "fadd f32 (Fin (11408507 / 16777216)) (fmul f32 C0_08 (Fin (of_nat (i mod 4))))"
  let ?v = "fadd f32 (Fin (7214203 / 8388608)) (fmul f32 (Fin (5368709 / 134217728)) (Fin (of_nat (i div 4 mod 3))))"
  have "i mod 4 \<le> 3" by simp
  then have "(of_nat (i mod 4) :: rat) \<le> of_nat 3" by (simp only: of_nat_le_iff)
  then have "lies 0 (fmul f32 C0_08 (Fin (of_nat (i mod 4)))) 246"
    by (intro fmul_within(1) [of 0 _ 3072]) auto
  then have s: "lies 0 ?s 943" 
    using fadd_within [of 0 "Fin (11408507 / 16777216)" 697 0 _ 246] by simp
  consider "i div 4 mod 3 = 0" | "i div 4 mod 3 = 1" | "i div 4 mod 3 = 2" by arith
  then have "\<exists>a b. 0 \<le> a \<and> a \<le> 1024 \<and> b \<le> 1024 \<and> b * 943 \<le> a * 1024 \<and> lies a ?v b"
  proof cases
    case 1
    then have "lies (880 + 0) ?v (881 + 0)" by (intro fadd_within) (auto intro: fround_within)
    then show ?thesis by (intro exI [of _ 880] exI [of _ 881]) simp
  next
    case 2
    then have "lies (880 + 40) ?v (881 + 41)" by (intro fadd_within) (auto intro: fround_within)
    then show ?thesis by (intro exI [of _ 920] exI [of _ 922]) simp
  next
    case 3
    then have "lies (880 + 81) ?v (881 + 82)" by (intro fadd_within) (auto intro: fround_within)
    then show ?thesis by (intro exI [of _ 961] exI [of _ 963]) simp
  qed
  then obtain a b where v: "0 \<le> a" "a \<le> 1024" "b \<le> 1024" "b * 943 \<le> a * 1024" "lies a ?v b" by blast
  have "lies a ?v 1024" using v by (auto elim!: liesE)
  moreover have "lies 0 ?v b" using v by (auto elim!: liesE)
  then have "lies 0 (fmul f32 ?v ?s) a" using s v by (intro fmul_lies) auto
  ultimately show ?thesis
    unfolding stream_base_color_def t(1) u(1) h(1) using h v(1) by (intro hsv_color_within)
qed

lemma stream_colors_return:
  "powf_ok powf \<Longrightarrow> i < MAX_STREAMS \<Longrightarrow> \<exists>light dark. stream_colors powf i = Some (byte_color light, byte_color dark)
    \<and> color_luminance powf light \<le> STREAM_COLOR_LIGHT_MAXIMUM
    \<and> STREAM_COLOR_DARK_MINIMUM \<le> color_luminance powf dark"
  unfolding stream_colors_def using stream_base_color_within [of i] by (intro themed_color_pair_returns) auto

lemma meter_peak_colors_return:
  assumes "powf_ok powf"
  shows "\<exists>light dark. meter_peak_colors powf = Some (byte_color light, byte_color dark)
    \<and> color_luminance powf light \<le> METER_PEAK_LIGHT_MAXIMUM
    \<and> METER_PEAK_DARK_MINIMUM \<le> color_luminance powf dark"
proof -
  have "components_within 0 (hsv_color METER_PEAK_HUE (Fin (15435039 / 16777216)) (Fin (15938355 / 16777216))) 2048"
    by (intro hsv_color_within [where a = 900]) (auto intro: fround_within)
  then show ?thesis unfolding meter_peak_colors_def using assms by (intro themed_color_pair_returns) auto
qed

text \<open>C39: The viewer's palette can always be computed, whatever \<^verbatim>\<open>powf\<close> rounds to: for
  each of the 64 stream colours and for the colour of the peak marks both loops of
  \<^verbatim>\<open>themed_color_pair\<close> end, and the colours they end with stand out: the light one is at
  most as luminous as its limit, the dark one at least.\<close>

theorem palette_returns:
  assumes "powf_ok powf"
  shows "(i < MAX_STREAMS \<longrightarrow> (\<exists>light dark. stream_colors powf i = Some (byte_color light, byte_color dark)
      \<and> color_luminance powf light \<le> STREAM_COLOR_LIGHT_MAXIMUM
      \<and> STREAM_COLOR_DARK_MINIMUM \<le> color_luminance powf dark))
    \<and> (\<exists>light dark. meter_peak_colors powf = Some (byte_color light, byte_color dark)
      \<and> color_luminance powf light \<le> METER_PEAK_LIGHT_MAXIMUM
      \<and> METER_PEAK_DARK_MINIMUM \<le> color_luminance powf dark)"
  using stream_colors_return [OF assms] meter_peak_colors_return [OF assms] by blast

theorem palette_returns_witness:
  "\<exists>pair. stream_colors (\<lambda>x y. x) 63 = Some pair"
proof -
  have "powf_ok (\<lambda>x y. x)" by (simp add: powf_ok_def)
  from palette_returns [OF this, of 63] obtain light dark
    where "stream_colors (\<lambda>x y. x) 63 = Some (byte_color light, byte_color dark)" by auto
  then show ?thesis by blast
qed

end
