(* ===== verification/Draw.thy ===== *)
theory Draw
  imports Axes Colors
begin

text \<open>
  What the viewer draws, as the list of the calls to SDL's renderer: the grid, the scale of a
  meter, the labels, the lines of a waveform (\<^verbatim>\<open>set_themed_draw_color\<close>, \<^verbatim>\<open>draw_grid\<close>,
  \<^verbatim>\<open>draw_meter\<close>, \<^verbatim>\<open>draw_axis_labels\<close>, \<^verbatim>\<open>draw_tick_labels\<close>,
  \<^verbatim>\<open>draw_waveform_line\<close>, \<^verbatim>\<open>draw_scope_polyline\<close> in
  \<^verbatim>\<open>src/src/watch_viewer.c\<close>), and the state of the renderer that the calls change.
\<close>

section \<open>Calls to the renderer\<close>

record SDL_FRect =
  fr_x :: cfloat
  fr_y :: cfloat
  fr_w :: cfloat
  fr_h :: cfloat

record SDL_Rect =
  ir_x :: int
  ir_y :: int
  ir_w :: int
  ir_h :: int

type_synonym SDL_FPoint = "cfloat \<times> cfloat"

text \<open>The textures: a rendered text, the history of a spectrogram stream, the supersampled target.\<close>

datatype texture = TextTexture tick_text | HistoryTexture nat | TargetTexture

datatype draw =
    SetRenderDrawColor SDL_Color "8 word"
  | SetRenderClipRect "SDL_Rect option"
  | SetRenderTarget bool
  | SetRenderScale nat
  | RenderClear
  | RenderLine cfloat cfloat cfloat cfloat
  | RenderLines "SDL_FPoint list"
  | RenderPoint cfloat cfloat
  | RenderFillRect SDL_FRect
  | RenderRect SDL_FRect
  | RenderTexture texture "SDL_FRect option" "SDL_FRect option"
  | RenderTextureRotated texture SDL_FRect int
  | RenderPresent

text \<open>The palettes, as \<^verbatim>\<open>initialize_stream_colors\<close> and \<^verbatim>\<open>meter_peak_color\<close> keep them.\<close>

record PALETTE =
  pl_streams :: "nat \<Rightarrow> SDL_Color \<times> SDL_Color"
  pl_peak :: "SDL_Color \<times> SDL_Color"

text \<open>Computed once, before anything is drawn with them; \<^const>\<open>None\<close> would be a loop that does not
  end.\<close>

definition palette :: "(cfloat \<Rightarrow> cfloat \<Rightarrow> cfloat) \<Rightarrow> PALETTE option" where
  "palette powf =
     (if list_all (\<lambda>i. stream_colors powf i \<noteq> None) [0..<MAX_STREAMS] \<and> meter_peak_colors powf \<noteq> None
      then Some \<lparr>pl_streams = (\<lambda>i. the (stream_colors powf i)), pl_peak = the (meter_peak_colors powf)\<rparr>
      else None)"

lemma palette_exists:
  assumes "powf_ok powf"
  shows "\<exists>pal. palette powf = Some pal"
proof -
  have "stream_colors powf i \<noteq> None" if "i < MAX_STREAMS" for i
    using stream_colors_return [OF assms that] by (metis option.distinct(1))
  moreover have "meter_peak_colors powf \<noteq> None" using meter_peak_colors_return [OF assms] by (metis option.distinct(1))
  ultimately show ?thesis by (simp add: palette_def list_all_iff)
qed

definition set_themed_draw_color :: "u32 \<Rightarrow> 8 word \<Rightarrow> 8 word \<Rightarrow> draw" where
  "set_themed_draw_color th light_component alpha =
     (let c = themed_component th light_component in SetRenderDrawColor (c, c, c) alpha)"

definition set_stream_draw_color :: "PALETTE \<Rightarrow> u32 \<Rightarrow> nat \<Rightarrow> draw" where
  "set_stream_draw_color pal th stream_index =
     SetRenderDrawColor (themed_color th (pl_streams pal (stream_index mod MAX_STREAMS))) 255"

definition set_meter_peak_color :: "PALETTE \<Rightarrow> u32 \<Rightarrow> draw" where
  "set_meter_peak_color pal th = SetRenderDrawColor (themed_color th (pl_peak pal)) 255"

abbreviation METER_HEADROOM_ALPHA :: "8 word" where "METER_HEADROOM_ALPHA \<equiv> 28"

definition set_meter_headroom_color :: "PALETTE \<Rightarrow> u32 \<Rightarrow> draw" where
  "set_meter_headroom_color pal th = SetRenderDrawColor (themed_color th (pl_peak pal)) METER_HEADROOM_ALPHA"

section \<open>Grids\<close>

abbreviation TICK_MARK_LENGTH :: cfloat where "TICK_MARK_LENGTH \<equiv> Fin 5"
abbreviation TICK_LABEL_GAP :: cfloat where "TICK_LABEL_GAP \<equiv> Fin 3"
abbreviation AXIS_TICK_LABEL_GAP :: cfloat where "AXIS_TICK_LABEL_GAP \<equiv> Fin 6"

text \<open>The place of line \<open>i\<close>: \<^verbatim>\<open>start + i * step\<close> with an integer \<open>i\<close>.\<close>

definition grid_line :: "cfloat \<Rightarrow> cfloat \<Rightarrow> nat \<Rightarrow> cfloat" where
  "grid_line start step i = fadd f32 start (fmul f32 (fround f32 (of_nat i)) step)"

definition draw_grid :: "PLOT_AREA \<Rightarrow> cfloat \<Rightarrow> int \<Rightarrow> int \<Rightarrow> u32 \<Rightarrow> draw list" where
  "draw_grid p density nxticks nyticks th =
     (if nxticks \<le> 0 \<or> nyticks \<le> 0 then []
      else
        let xstep = fdiv f32 (pa_width p) (fround f32 (of_int nxticks));
            ystep = fdiv f32 (pa_heigth p) (fround f32 (of_int nyticks));
            mark_length = fmul f32 TICK_MARK_LENGTH density;
            x = grid_line (pa_left p) xstep; y = grid_line (pa_top p) ystep in
        [set_themed_draw_color th 0 25]
        @ map (\<lambda>i. RenderLine (x i) (pa_top p) (x i) (fsub f32 (pa_bottom p) (Fin 1))) [1..<nat nxticks]
        @ map (\<lambda>i. RenderLine (pa_left p) (y i) (fsub f32 (pa_right p) (Fin 1)) (y i)) [1..<nat nyticks]
        @ [set_themed_draw_color th 0 255]
        @ map (\<lambda>i. RenderLine (x i) (pa_bottom p) (x i) (fadd f32 (pa_bottom p) mark_length)) [0..<nat nxticks + 1]
        @ map (\<lambda>i. RenderLine (pa_left p) (y i) (fsub f32 (pa_left p) mark_length) (y i)) [0..<nat nyticks + 1])"

text \<open>The centre of a channel's slot: \<^verbatim>\<open>left + ((float) i + 0.5f) * slot\<close>.\<close>

definition slot_center :: "PLOT_AREA \<Rightarrow> cfloat \<Rightarrow> nat \<Rightarrow> cfloat" where
  "slot_center p slot i = fadd f32 (pa_left p) (fmul f32 (fadd f32 (fround f32 (of_nat i)) (Fin (1 / 2))) slot)"

definition draw_meter :: "PALETTE \<Rightarrow> PLOT_AREA \<Rightarrow> cfloat \<Rightarrow> u32 \<Rightarrow> int \<Rightarrow> u32 \<Rightarrow> draw list" where
  "draw_meter pal p density channels nyticks th =
     (if channels = 0 \<or> nyticks \<le> 0 then []
      else
        let slot = fdiv f32 (pa_width p) (of_u32 f32 channels);
            ystep = fdiv f32 (pa_heigth p) (fround f32 (of_int nyticks));
            mark_length = fmul f32 TICK_MARK_LENGTH density;
            y = grid_line (pa_top p) ystep; x = slot_center p slot in
        [set_meter_headroom_color pal th,
         RenderFillRect \<lparr>fr_x = pa_left p, fr_y = pa_top p, fr_w = pa_width p, fr_h = ystep\<rparr>,
         set_themed_draw_color th 0 25]
        @ map (\<lambda>i. RenderLine (pa_left p) (y i) (fsub f32 (pa_right p) (Fin 1)) (y i)) [1..<nat nyticks]
        @ [set_themed_draw_color th 0 255]
        @ map (\<lambda>i. RenderLine (pa_left p) (y i) (fsub f32 (pa_left p) mark_length) (y i)) [0..<nat nyticks + 1]
        @ map (\<lambda>i. RenderLine (x i) (pa_bottom p) (x i) (fadd f32 (pa_bottom p) mark_length)) [0..<unat channels])"

section \<open>Labels\<close>

definition draw_axis_labels ::
  "PLOT_AREA \<Rightarrow> cfloat \<Rightarrow> TICK_LABEL_CACHE \<Rightarrow> TEXT_LABEL \<Rightarrow> TEXT_LABEL \<Rightarrow> draw list" where
  "draw_axis_labels p density cache x_label y_label =
     (let half = (\<lambda>v. fmul f32 v (Fin (1 / 2)));
          mark_length = fmul f32 TICK_MARK_LENGTH density;
          tick_gap = fmul f32 TICK_LABEL_GAP density;
          axis_gap = fmul f32 AXIS_TICK_LABEL_GAP density;
          x_tick_height = maximum_tick_height (tc_x cache);
          x_destination =
            \<lparr>fr_x = fsub f32 (pa_x_center p) (half (lb_width x_label)),
             fr_y = fadd f32 (fadd f32 (fadd f32 (fadd f32 (pa_bottom p) mark_length) tick_gap) x_tick_height) axis_gap,
             fr_w = lb_width x_label, fr_h = lb_height x_label\<rparr>;
          y_tick_width = maximum_tick_width (tc_y cache);
          y_center_x = fsub f32 (fsub f32 (fsub f32 (fsub f32 (fsub f32 (pa_left p) mark_length) tick_gap) y_tick_width)
            axis_gap) (half (lb_height y_label));
          y_destination =
            \<lparr>fr_x = fsub f32 y_center_x (half (lb_width y_label)),
             fr_y = fsub f32 (pa_y_center p) (half (lb_height y_label)),
             fr_w = lb_width y_label, fr_h = lb_height y_label\<rparr> in
      [RenderTexture (TextTexture (lb_texture x_label)) None (Some x_destination),
       RenderTextureRotated (TextTexture (lb_texture y_label)) y_destination 270])"

text \<open>The labels of one axis together with their places.\<close>

definition placed :: "(TICK_LABEL_ENTRY \<Rightarrow> cfloat \<times> cfloat) \<Rightarrow> TICK_LABEL_ENTRY \<Rightarrow> (cfloat \<times> cfloat) \<times> TEXT_LABEL" where
  "placed edges e = (edges e, te_label e)"

definition draw_tick_labels :: "PLOT_AREA \<Rightarrow> cfloat \<Rightarrow> TICK_LABEL_CACHE \<Rightarrow> draw list" where
  "draw_tick_labels p density cache =
     (if \<not> tc_ready cache then []
      else
        let mark_length = fmul f32 TICK_MARK_LENGTH density;
            gap = fmul f32 TICK_LABEL_GAP density;
            xa = tc_x cache; ya = tc_y cache;
            last_x_left = fst (x_edges (pa_left p) (pa_width p) (ta_intervals xa) (last (ta_entries xa)));
            xs = draw_labels (placed (x_edges (pa_left p) (pa_width p) (ta_intervals xa)))
              (\<lambda>previous ((left, right), _).
                 left < fadd f32 (case previous of None \<Rightarrow> NInf | Some q \<Rightarrow> snd (fst q)) gap
                 \<or> last_x_left < fadd f32 right gap)
              (length (ta_entries xa)) 0 None (ta_entries xa);
            last_y_bottom = fadd f32 (pa_top p)
              (fmul f32 (lb_height (te_label (last (ta_entries ya)))) (Fin (1 / 2)));
            ys = draw_labels (placed (y_edges (pa_bottom p) (pa_heigth p) (ta_intervals ya)))
              (\<lambda>previous ((top, bottom), _).
                 (case previous of None \<Rightarrow> PInf | Some q \<Rightarrow> fst (fst q)) < fadd f32 bottom gap
                 \<or> fsub f32 top gap < last_y_bottom)
              (length (ta_entries ya)) 0 None (ta_entries ya) in
        map (\<lambda>((left, right), l). RenderTexture (TextTexture (lb_texture l)) None
            (Some \<lparr>fr_x = left, fr_y = fadd f32 (fadd f32 (pa_bottom p) mark_length) gap,
               fr_w = lb_width l, fr_h = lb_height l\<rparr>)) xs
        @ map (\<lambda>((top, bottom), l). RenderTexture (TextTexture (lb_texture l)) None
            (Some \<lparr>fr_x = fsub f32 (fsub f32 (fsub f32 (pa_left p) mark_length) gap) (lb_width l), fr_y = top,
               fr_w = lb_width l, fr_h = lb_height l\<rparr>)) ys)"

section \<open>The clip rectangle\<close>

text \<open>\<^verbatim>\<open>(int) x\<close>, and \<^verbatim>\<open>int\<close> results: undefined out of range.\<close>

definition int_result :: "int \<Rightarrow> int option" where
  "int_result z = (if - 2147483648 \<le> z \<and> z < 2147483648 then Some z else None)"

fun to_int :: "cfloat \<Rightarrow> int option" where
  "to_int (Fin q) = int_result (trunc_rat q)"
| "to_int _ = None"

definition get_plot_clip_rect :: "PLOT_AREA \<Rightarrow> SDL_Rect option" where
  "get_plot_clip_rect p =
     (case (to_int (ffloor (pa_left p)), to_int (ffloor (pa_top p)),
            Option.bind (to_int (ffloor (pa_right p))) (\<lambda>r. int_result (r + 1)),
            Option.bind (to_int (ffloor (pa_bottom p))) (\<lambda>b. int_result (b + 1))) of
        (Some l, Some t, Some r, Some b) \<Rightarrow>
          (case (int_result (r - l), int_result (b - t)) of
             (Some w, Some h) \<Rightarrow> Some \<lparr>ir_x = l, ir_y = t, ir_w = w, ir_h = h\<rparr>
           | _ \<Rightarrow> None)
      | _ \<Rightarrow> None)"

section \<open>Lines of a waveform\<close>

abbreviation WAVEFORM_LINE_RADIUS :: cfloat where "WAVEFORM_LINE_RADIUS \<equiv> Fin (3 / 2)"

definition line_radius :: "bool \<Rightarrow> cfloat" where
  "line_radius supersampled = (if supersampled then WAVEFORM_LINE_RADIUS else Fin 1)"

definition draw_waveform_line :: "cfloat \<Rightarrow> cfloat \<Rightarrow> cfloat \<Rightarrow> cfloat \<Rightarrow> bool \<Rightarrow> draw list" where
  "draw_waveform_line x1 y1 x2 y2 supersampled =
     (let radius = line_radius supersampled in
      [RenderLine x1 y1 x2 y2,
       RenderLine (fsub f32 x1 radius) y1 (fsub f32 x2 radius) y2,
       RenderLine (fadd f32 x1 radius) y1 (fadd f32 x2 radius) y2,
       RenderLine x1 (fsub f32 y1 radius) x2 (fsub f32 y2 radius),
       RenderLine x1 (fadd f32 y1 radius) x2 (fadd f32 y2 radius)])"

definition draw_waveform_point :: "cfloat \<Rightarrow> cfloat \<Rightarrow> bool \<Rightarrow> draw list" where
  "draw_waveform_point x y supersampled =
     (let radius = line_radius supersampled in
      [RenderPoint x y, RenderPoint (fsub f32 x radius) y, RenderPoint (fadd f32 x radius) y,
       RenderPoint x (fsub f32 y radius), RenderPoint x (fadd f32 y radius)])"

definition draw_scope_vertical :: "cfloat \<Rightarrow> cfloat \<Rightarrow> cfloat \<Rightarrow> bool \<Rightarrow> draw list" where
  "draw_scope_vertical x y_top y_bottom supersampled = draw_waveform_line x y_top x y_bottom supersampled"

text \<open>The polyline is drawn five times; its points are moved in place in between.\<close>

definition draw_scope_polyline :: "SDL_FPoint list \<Rightarrow> bool \<Rightarrow> draw list" where
  "draw_scope_polyline points0 supersampled =
     (let radius = line_radius supersampled;
          twice = fmul f32 (Fin 2) radius;
          points1 = map (\<lambda>(x, y). (fsub f32 x radius, y)) points0;
          points2 = map (\<lambda>(x, y). (fadd f32 x twice, y)) points1;
          points3 = map (\<lambda>(x, y). (fsub f32 x radius, fsub f32 y radius)) points2;
          points4 = map (\<lambda>(x, y). (x, fadd f32 y twice)) points3 in
      [RenderLines points0, RenderLines points1, RenderLines points2, RenderLines points3, RenderLines points4])"

end
