(* ===== verification/Plots.thy ===== *)
theory Plots
  imports Draw PointMeter
begin

text \<open>
  The drawing of each kind of stream (\<^verbatim>\<open>draw_scope_stream\<close>, \<^verbatim>\<open>render_spectrum\<close>,
  \<^verbatim>\<open>render_spectrogram\<close>, \<^verbatim>\<open>render_ftable\<close>, \<^verbatim>\<open>render_point\<close>,
  \<^verbatim>\<open>render_meter\<close> in \<^verbatim>\<open>src/src/watch_viewer.c\<close>) as lists of calls to the renderer.
  The array \<^verbatim>\<open>plot_points\<close> of a stream is written before it is read in every frame, so it
  is a list local to the frame here. \<^const>\<open>None\<close> is a conversion C leaves undefined.
\<close>

section \<open>Columns\<close>

text \<open>\<^verbatim>\<open>raster_width >= 0.0f ? (uint32_t) floorf(raster_width) + 1U : 0U\<close>.\<close>

definition raster_columns :: "cfloat \<Rightarrow> u32 option" where
  "raster_columns raster_width =
     (if Fin 0 \<le> raster_width then map_option (\<lambda>w. w + 1) (to_u32 (ffloor raster_width)) else Some 0)"

text \<open>The abscissa of a column; the quotient is not used when there is a single column.\<close>

definition column_x :: "cfloat \<Rightarrow> cfloat \<Rightarrow> nat \<Rightarrow> nat \<Rightarrow> cfloat" where
  "column_x first_x raster_width column_count column =
     (if column_count > 1
      then fadd f32 first_x (fdiv f32 (fmul f32 (fround f32 (of_nat column)) raster_width)
        (fround f32 (of_nat (column_count - 1))))
      else first_x)"

text \<open>A column of a waveform: a line from the end of the previous column to its first sample, then
  a vertical line over its range. A column is its abscissa, the ordinates of its maximum, minimum,
  first and last sample.\<close>

type_synonym column = "cfloat \<times> cfloat \<times> cfloat \<times> cfloat \<times> cfloat"

fun draw_columns :: "bool \<Rightarrow> SDL_FPoint option \<Rightarrow> column list \<Rightarrow> draw list" where
  "draw_columns supersampled previous [] = []"
| "draw_columns supersampled previous ((x, y_top, y_bottom, first_y, last_y) # cs) =
     (case previous of
        None \<Rightarrow> []
      | Some (previous_x, previous_y) \<Rightarrow> draw_waveform_line previous_x previous_y x first_y supersampled)
     @ draw_scope_vertical x y_top y_bottom supersampled
     @ draw_columns supersampled (Some (x, last_y)) cs"

section \<open>Scopes\<close>

definition sample_y :: "PLOT_AREA \<Rightarrow> cfloat \<Rightarrow> cfloat \<Rightarrow> cfloat \<Rightarrow> cfloat" where
  "sample_y p ymin ymax sample =
     (let normalized = fdiv f32 (fsub f32 sample ymin) (fsub f32 ymax ymin) in
      fsub f32 (pa_bottom p) (fmul f32 normalized (pa_heigth p)))"

definition scope_sample_y :: "PLOT_AREA \<Rightarrow> STREAM_TIME_BUFFER \<Rightarrow> cfloat \<Rightarrow> cfloat" where
  "scope_sample_y p s sample = sample_y p (sc_ymin s) (sc_ymax s) sample"

text \<open>The collapsed columns of the \<open>n\<close> visible samples from ring index \<open>first\<close> on, and the
  vertices of the polyline.\<close>

definition scope_columns ::
  "PLOT_AREA \<Rightarrow> STREAM_TIME_BUFFER \<Rightarrow> cfloat \<Rightarrow> nat \<Rightarrow> nat \<Rightarrow> nat \<Rightarrow> column list" where
  "scope_columns p s raster_width first n column_count =
     map (\<lambda>k. case scope_column s first n column_count k of (minimum, maximum, x0, x1) \<Rightarrow>
       (column_x (pa_left p) raster_width column_count k, scope_sample_y p s maximum, scope_sample_y p s minimum,
        scope_sample_y p s x0, scope_sample_y p s x1)) [0..<column_count]"

definition scope_vertices ::
  "PLOT_AREA \<Rightarrow> STREAM_TIME_BUFFER \<Rightarrow> cfloat \<Rightarrow> nat \<Rightarrow> nat \<Rightarrow> SDL_FPoint list" where
  "scope_vertices p s x_step first n =
     map (\<lambda>i. (fadd f32 (pa_left p) (fmul f32 (fround f32 (of_nat i)) x_step),
       scope_sample_y p s (scope_display_sample s first i))) [0..<n]"

text \<open>The trace of the visible samples: collapsed columns when several samples share one, otherwise a
  polyline, or a point.\<close>

definition scope_trace ::
  "PLOT_AREA \<Rightarrow> STREAM_TIME_BUFFER \<Rightarrow> cfloat \<Rightarrow> cfloat \<Rightarrow> nat \<Rightarrow> nat \<Rightarrow> nat \<Rightarrow> bool \<Rightarrow> draw list" where
  "scope_trace p s x_step raster_width first point_count column_count supersampled =
     (if column_count > 0 \<and> point_count > column_count * 2
      then draw_columns supersampled None (scope_columns p s raster_width first point_count column_count)
      else
        let points = scope_vertices p s x_step first point_count in
        if point_count = 1
        then draw_waveform_point (fst (points ! 0)) (snd (points ! 0)) supersampled
        else draw_scope_polyline points supersampled)"

definition draw_scope_stream ::
  "PALETTE \<Rightarrow> PLOT_AREA \<Rightarrow> STREAM_TIME_BUFFER \<Rightarrow> nat \<Rightarrow> cfloat \<Rightarrow> bool \<Rightarrow> u32 \<Rightarrow> draw list option" where
  "draw_scope_stream pal p s stream_index graph_display_end_sample supersampled th =
     (if sc_buffer s = None \<or> sc_points s = None \<or> sc_valid_samples s = 0 then Some []
      else
        case to_i64 graph_display_end_sample of
          None \<Rightarrow> None
        | Some display_end \<Rightarrow>
            (case scope_visible s display_end of
               None \<Rightarrow> Some []
             | Some (first_sample, point_count) \<Rightarrow>
                 let first_buffer_index = scope_buffer_index s first_sample;
                     x_step = (if sc_window_samples s > 1
                       then fdiv f32 (pa_width p) (fround f32 (of_nat (sc_window_samples s - 1))) else Fin 0);
                     first_x = pa_left p;
                     last_x = fadd f32 first_x (fmul f32 (fround f32 (of_nat (point_count - 1))) x_step);
                     raster_width = fsub f32 last_x first_x in
                 map_option (\<lambda>columns. set_stream_draw_color pal th stream_index #
                     scope_trace p s x_step raster_width first_buffer_index point_count (unat columns) supersampled)
                   (raster_columns raster_width)))"

section \<open>Spectra\<close>

definition spectrum_vertices ::
  "(cfloat \<Rightarrow> cfloat) \<Rightarrow> (cfloat \<Rightarrow> cfloat) \<Rightarrow> PLOT_AREA \<Rightarrow> WATCH_MSG_SPECTRAL_CONFIG
     \<Rightarrow> STREAM_SPECTRAL_BUFFER \<Rightarrow> BIN_RANGE \<Rightarrow> SDL_FPoint list" where
  "spectrum_vertices sqrtf log10f p c s b =
     (let (minimum_value, maximum_value) = resolve_spectral_static_range c;
          point_count = unat (last_bin b - first_bin b + 1) in
      map (\<lambda>i.
        let bin = first_bin b + of_nat i;
            frequency = to_float (fdiv f64 (fmul f64 (of_u32 f64 bin) (of_u32 f64 (sb_sample_rate s)))
              (of_u32 f64 (sb_fft_size s)));
            v = spectral_display_value sqrtf log10f (the (sb_display_bins s) ! unat bin) (spec_scale c);
            x_normalized = fdiv f32 (fsub f32 frequency (minimum_frequency b))
              (fsub f32 (maximum_frequency b) (minimum_frequency b));
            y_normalized = fdiv f32 (fsub f32 v minimum_value) (fsub f32 maximum_value minimum_value) in
        (fadd f32 (pa_left p) (fmul f32 x_normalized (pa_width p)),
         fsub f32 (pa_bottom p) (fmul f32 y_normalized (pa_heigth p)))) [0..<point_count])"

definition draw_spectrum_stream ::
  "(cfloat \<Rightarrow> cfloat) \<Rightarrow> (cfloat \<Rightarrow> cfloat) \<Rightarrow> PALETTE \<Rightarrow> PLOT_AREA \<Rightarrow> WATCH_MSG_SPECTRAL_CONFIG \<Rightarrow> u32
     \<Rightarrow> bool \<Rightarrow> nat \<Rightarrow> STREAM_SPECTRAL_BUFFER \<Rightarrow> draw list option" where
  "draw_spectrum_stream sqrtf log10f pal p c th supersampled stream_index s =
     (if \<not> sb_display_ready s \<or> sb_display_bins s = None \<or> sb_plot_points s = None then Some []
      else
        case spectral_bin_range c s of
          None \<Rightarrow> None
        | Some None \<Rightarrow> Some [set_stream_draw_color pal th stream_index]
        | Some (Some b) \<Rightarrow>
            let points = spectrum_vertices sqrtf log10f p c s b in
            Some (set_stream_draw_color pal th stream_index #
              (if length points = 1
               then draw_waveform_point (fst (points ! 0)) (snd (points ! 0)) supersampled
               else draw_scope_polyline points supersampled)))"

text \<open>The lists of all streams, joined.\<close>

fun each_stream :: "(nat \<Rightarrow> 's \<Rightarrow> draw list option) \<Rightarrow> nat \<Rightarrow> 's list \<Rightarrow> draw list option" where
  "each_stream f i [] = Some []"
| "each_stream f i (s # ss) =
     (case f i s of
        None \<Rightarrow> None
      | Some ds \<Rightarrow> map_option (\<lambda>rest. ds @ rest) (each_stream f (i + 1) ss))"

definition grid_ticks :: "nat \<Rightarrow> u32 \<Rightarrow> int" where
  "grid_ticks dflt n = (if n = 0 then int dflt else sint n)"

definition render_spectrum ::
  "(cfloat \<Rightarrow> cfloat) \<Rightarrow> (cfloat \<Rightarrow> cfloat) \<Rightarrow> PALETTE \<Rightarrow> cfloat \<Rightarrow> PLOT_AREA \<Rightarrow> WATCH_MSG_SPECTRAL_CONFIG
     \<Rightarrow> u32 \<Rightarrow> bool \<Rightarrow> STREAM_SPECTRAL_BUFFER list \<Rightarrow> draw list option" where
  "render_spectrum sqrtf log10f pal density p c th supersampled streams =
     (case (get_plot_clip_rect p, each_stream (draw_spectrum_stream sqrtf log10f pal p c th supersampled) 0 streams) of
        (Some clip, Some ds) \<Rightarrow>
          Some (draw_grid p density (grid_ticks DEFAULT_X_TICKS (spec_nxticks c)) (grid_ticks DEFAULT_Y_TICKS (spec_nyticks c)) th
            @ [SetRenderClipRect (Some clip)] @ ds @ [SetRenderClipRect None])
      | _ \<Rightarrow> None)"

section \<open>Spectrograms\<close>

text \<open>The parts of the history texture and where they are drawn: until the history is full one part,
  at the right edge; then the part from the oldest column on and the part written since.\<close>

definition history_parts ::
  "PLOT_AREA \<Rightarrow> STREAM_SPECTRAL_BUFFER \<Rightarrow> BIN_RANGE \<Rightarrow> (SDL_FRect \<times> SDL_FRect) list" where
  "history_parts p s b =
     (let source_y = of_u32 f32 (sb_total_bins s - 1 - last_bin b);
          source_height = of_u32 f32 (last_bin b - first_bin b + 1);
          flt = (\<lambda>n. fround f32 (of_nat n)) in
      if sb_valid_history_frames s < sb_history_capacity s
      then
        let fraction = fdiv f32 (flt (sb_valid_history_frames s)) (flt (sb_history_capacity s)) in
        [(\<lparr>fr_x = Fin 0, fr_y = source_y, fr_w = flt (sb_valid_history_frames s), fr_h = source_height\<rparr>,
          \<lparr>fr_x = fsub f32 (pa_right p) (fmul f32 (pa_width p) fraction), fr_y = pa_top p,
           fr_w = fmul f32 (pa_width p) fraction, fr_h = pa_heigth p\<rparr>)]
      else
        let oldest = sb_history_write_index s;
            first_count = sb_history_capacity s - oldest;
            first_fraction = fdiv f32 (flt first_count) (flt (sb_history_capacity s)) in
        (if first_count > 0
         then [(\<lparr>fr_x = flt oldest, fr_y = source_y, fr_w = flt first_count, fr_h = source_height\<rparr>,
                \<lparr>fr_x = pa_left p, fr_y = pa_top p, fr_w = fmul f32 (pa_width p) first_fraction,
                 fr_h = pa_heigth p\<rparr>)]
         else [])
        @ (if oldest > 0
           then [(\<lparr>fr_x = Fin 0, fr_y = source_y, fr_w = flt oldest, fr_h = source_height\<rparr>,
                  \<lparr>fr_x = fadd f32 (pa_left p) (fmul f32 (pa_width p) first_fraction), fr_y = pa_top p,
                   fr_w = fmul f32 (pa_width p) (fsub f32 (Fin 1) first_fraction), fr_h = pa_heigth p\<rparr>)]
           else []))"

definition render_spectrogram_history ::
  "PLOT_AREA \<Rightarrow> WATCH_MSG_SPECTRAL_CONFIG \<Rightarrow> nat \<Rightarrow> STREAM_SPECTRAL_BUFFER \<Rightarrow> draw list option" where
  "render_spectrogram_history p c stream_index s =
     (if sb_history_texture s = None \<or> sb_valid_history_frames s = 0 then Some []
      else
        case spectral_bin_range c s of
          None \<Rightarrow> None
        | Some None \<Rightarrow> Some []
        | Some (Some b) \<Rightarrow>
            Some (map (\<lambda>(src, dst). RenderTexture (HistoryTexture stream_index) (Some src) (Some dst))
              (history_parts p s b)))"

definition render_spectrogram ::
  "cfloat \<Rightarrow> PLOT_AREA \<Rightarrow> WATCH_MSG_SPECTRAL_CONFIG \<Rightarrow> u32 \<Rightarrow> STREAM_SPECTRAL_BUFFER list \<Rightarrow> draw list option" where
  "render_spectrogram density p c th streams =
     map_option (\<lambda>ds. ds @ draw_grid p density (grid_ticks DEFAULT_X_TICKS (spec_nxticks c))
         (grid_ticks DEFAULT_Y_TICKS (spec_nyticks c)) th)
       (each_stream (render_spectrogram_history p c) 0 streams)"

section \<open>Tables\<close>

definition ftable_sample_y :: "PLOT_AREA \<Rightarrow> cfloat \<Rightarrow> cfloat \<Rightarrow> cfloat \<Rightarrow> cfloat" where
  "ftable_sample_y p sample ymin ymax = sample_y p ymin ymax sample"

text \<open>The buckets of the envelope that fall into a column, at least one.\<close>

definition ftable_column_end :: "STREAM_FTABLE_BUFFER \<Rightarrow> nat \<Rightarrow> nat \<Rightarrow> nat" where
  "ftable_column_end s column_count column =
     (let first = bucket_start (fb_envelope_count s) column_count column;
          end0 = bucket_start (fb_envelope_count s) column_count (column + 1) in
      if end0 \<le> first then first + 1 else end0)"

definition ftable_column_range :: "STREAM_FTABLE_BUFFER \<Rightarrow> nat \<Rightarrow> nat \<Rightarrow> cfloat \<times> cfloat" where
  "ftable_column_range s column_count column =
     (let first = bucket_start (fb_envelope_count s) column_count column;
          mins = the (fb_envelope_minimums s); maxs = the (fb_envelope_maximums s) in
      fold (\<lambda>i (mn, mx). (fmin mn (mins ! i), fmax mx (maxs ! i)))
        [first + 1..<ftable_column_end s column_count column] (mins ! first, maxs ! first))"

definition ftable_columns ::
  "PLOT_AREA \<Rightarrow> cfloat \<Rightarrow> cfloat \<Rightarrow> STREAM_FTABLE_BUFFER \<Rightarrow> cfloat \<Rightarrow> nat \<Rightarrow> column list" where
  "ftable_columns p ymin ymax s raster_width column_count =
     (let y = (\<lambda>v. ftable_sample_y p v ymin ymax); n = unat (fb_total_samples s); smps = the (fb_samples s) in
      map (\<lambda>k. case ftable_column_range s column_count k of (minimum, maximum) \<Rightarrow>
        (column_x (pa_left p) raster_width column_count k, y maximum, y minimum,
         y (smps ! bucket_start n column_count k), y (smps ! (bucket_start n column_count (k + 1) - 1))))
        [0..<column_count])"

definition ftable_vertices ::
  "PLOT_AREA \<Rightarrow> cfloat \<Rightarrow> cfloat \<Rightarrow> STREAM_FTABLE_BUFFER \<Rightarrow> SDL_FPoint list" where
  "ftable_vertices p ymin ymax s =
     (let n = unat (fb_total_samples s);
          x_step = fdiv f32 (pa_width p) (fround f32 (of_nat (n - 1))) in
      (pa_left p, ftable_sample_y p (the (fb_samples s) ! 0) ymin ymax)
      # map (\<lambda>i. (fadd f32 (pa_left p) (fmul f32 (fround f32 (of_nat i)) x_step),
          ftable_sample_y p (the (fb_samples s) ! i) ymin ymax)) [1..<n])"

text \<open>Consecutive points, joined one by one.\<close>

fun draw_segments :: "bool \<Rightarrow> SDL_FPoint list \<Rightarrow> draw list" where
  "draw_segments supersampled ((x1, y1) # (x2, y2) # ps) =
     draw_waveform_line x1 y1 x2 y2 supersampled @ draw_segments supersampled ((x2, y2) # ps)"
| "draw_segments supersampled _ = []"

definition draw_ftable_stream ::
  "PALETTE \<Rightarrow> PLOT_AREA \<Rightarrow> cfloat \<Rightarrow> cfloat \<Rightarrow> nat \<Rightarrow> u32 \<Rightarrow> bool \<Rightarrow> nat \<Rightarrow> STREAM_FTABLE_BUFFER \<Rightarrow> draw list option" where
  "draw_ftable_stream pal p ymin ymax column_count th supersampled stream_index s =
     (if \<not> fb_display_ready s \<or> fb_samples s = None \<or> fb_total_samples s = 0 then Some []
      else
        let n = unat (fb_total_samples s) in
        Some (set_stream_draw_color pal th stream_index #
          (if column_count > 0 \<and> n > column_count * 2
           then draw_columns supersampled None
             (ftable_columns p ymin ymax s (fsub f32 (pa_right p) (pa_left p)) column_count)
           else if n = 1
           then draw_waveform_point (pa_left p) (ftable_sample_y p (the (fb_samples s) ! 0) ymin ymax) supersampled
           else draw_segments supersampled (ftable_vertices p ymin ymax s))))"

text \<open>The line of the value zero.\<close>

definition zero_line :: "PLOT_AREA \<Rightarrow> cfloat \<Rightarrow> cfloat \<Rightarrow> u32 \<Rightarrow> cfloat \<Rightarrow> draw list" where
  "zero_line p ymin ymax th zero =
     (if ymin \<le> Fin 0 \<and> Fin 0 \<le> ymax
      then [set_themed_draw_color th 0 255, RenderLine (pa_left p) zero (fsub f32 (pa_right p) (Fin 1)) zero]
      else [])"

definition render_ftable ::
  "PALETTE \<Rightarrow> cfloat \<Rightarrow> PLOT_AREA \<Rightarrow> WATCH_MSG_FTABLE_CONFIG \<Rightarrow> u32 \<Rightarrow> bool \<Rightarrow> STREAM_FTABLE_BUFFER list
     \<Rightarrow> draw list option" where
  "render_ftable pal density p c th supersampled streams =
     (let grid = draw_grid p density DEFAULT_X_TICKS DEFAULT_Y_TICKS th in
      case resolve_ftable_range c (Some streams) of
        None \<Rightarrow> Some grid
      | Some (ymin, ymax) \<Rightarrow>
          (case (get_plot_clip_rect p, raster_columns (fsub f32 (pa_right p) (pa_left p))) of
             (Some clip, Some columns) \<Rightarrow>
               map_option (\<lambda>ds. grid @ zero_line p ymin ymax th (ftable_sample_y p (Fin 0) ymin ymax)
                   @ [SetRenderClipRect (Some clip)] @ ds @ [SetRenderClipRect None])
                 (each_stream (draw_ftable_stream pal p ymin ymax (unat columns) th supersampled) 0 streams)
           | _ \<Rightarrow> None))"

section \<open>Points\<close>

abbreviation POINT_TRAIL_MIN_ALPHA :: cfloat where "POINT_TRAIL_MIN_ALPHA \<equiv> Fin 40"
abbreviation POINT_HEAD_SIZE :: cfloat where "POINT_HEAD_SIZE \<equiv> Fin 5"

definition point_axis_x :: "PLOT_AREA \<Rightarrow> cfloat \<Rightarrow> cfloat \<Rightarrow> cfloat \<Rightarrow> cfloat" where
  "point_axis_x p v minimum maximum =
     fadd f32 (pa_left p) (fmul f32 (fdiv f32 (fsub f32 v minimum) (fsub f32 maximum minimum)) (pa_width p))"

definition point_axis_y :: "PLOT_AREA \<Rightarrow> cfloat \<Rightarrow> cfloat \<Rightarrow> cfloat \<Rightarrow> cfloat" where
  "point_axis_y p v minimum maximum =
     fsub f32 (pa_bottom p) (fmul f32 (fdiv f32 (fsub f32 v minimum) (fsub f32 maximum minimum)) (pa_heigth p))"

text \<open>The opacity of segment \<open>i\<close> of a trail of \<open>n\<close> points, which ends in point \<open>i\<close>.\<close>

definition segment_alpha :: "nat \<Rightarrow> nat \<Rightarrow> 8 word" where
  "segment_alpha n i =
     (let age = (if n > 1 then fdiv f32 (fround f32 (of_nat i)) (fround f32 (of_nat (n - 1))) else Fin 1) in
      of_int (lrintf (fadd f32 POINT_TRAIL_MIN_ALPHA
        (fmul f32 (fsub f32 (Fin 255) POINT_TRAIL_MIN_ALPHA) age))))"

definition draw_point_stream ::
  "PALETTE \<Rightarrow> cfloat \<Rightarrow> PLOT_AREA \<Rightarrow> cfloat \<times> cfloat \<Rightarrow> cfloat \<times> cfloat \<Rightarrow> u32 \<Rightarrow> bool \<Rightarrow> nat
     \<Rightarrow> STREAM_POINT_BUFFER \<Rightarrow> draw list option" where
  "draw_point_stream pal density p xrange yrange th supersampled stream_index s =
     (if pb_coordinates s = None \<or> pb_plot_points s = None \<or> pb_valid_points s = 0 then Some []
      else
        let points = map (\<lambda>(x, y). (point_axis_x p x (fst xrange) (snd xrange),
              point_axis_y p y (fst yrange) (snd yrange))) (trail_points s);
            color = themed_color th (pl_streams pal (stream_index mod MAX_STREAMS));
            n = pb_valid_points s;
            head = points ! (n - 1);
            sz = fmul f32 (fmul f32 POINT_HEAD_SIZE density) (if supersampled then Fin 1 else fround f32 (8 / 10)) in
        Some ([set_stream_draw_color pal th stream_index]
          @ concat (map (\<lambda>i. [SetRenderDrawColor color (segment_alpha n i),
              RenderLine (fst (points ! (i - 1))) (snd (points ! (i - 1))) (fst (points ! i)) (snd (points ! i))])
              [1..<n])
          @ [SetRenderDrawColor color 255,
             RenderFillRect \<lparr>fr_x = fsub f32 (fst head) (fmul f32 sz (Fin (1 / 2))),
               fr_y = fsub f32 (snd head) (fmul f32 sz (Fin (1 / 2))), fr_w = sz, fr_h = sz\<rparr>]))"

definition render_point ::
  "PALETTE \<Rightarrow> cfloat \<Rightarrow> PLOT_AREA \<Rightarrow> WATCH_MSG_POINT_CONFIG \<Rightarrow> u32 \<Rightarrow> bool \<Rightarrow> STREAM_POINT_BUFFER list
     \<Rightarrow> draw list option" where
  "render_point pal density p c th supersampled streams =
     (let grid = draw_grid p density POINT_TICKS POINT_TICKS th;
          (xmin, xmax) = resolve_point_range (point_xrange c);
          (ymin, ymax) = resolve_point_range (point_yrange c) in
      if \<not> xmin < xmax \<or> \<not> ymin < ymax then Some grid
      else
        let zero_y = point_axis_y p (Fin 0) ymin ymax; zero_x = point_axis_x p (Fin 0) xmin xmax;
            axes = [set_themed_draw_color th 0 255]
              @ (if ymin \<le> Fin 0 \<and> Fin 0 \<le> ymax
                 then [RenderLine (pa_left p) zero_y (fsub f32 (pa_right p) (Fin 1)) zero_y] else [])
              @ (if xmin \<le> Fin 0 \<and> Fin 0 \<le> xmax
                 then [RenderLine zero_x (pa_top p) zero_x (fsub f32 (pa_bottom p) (Fin 1))] else []) in
        (case get_plot_clip_rect p of
           None \<Rightarrow> None
         | Some clip \<Rightarrow>
             map_option (\<lambda>ds. grid @ axes @ [SetRenderClipRect (Some clip)] @ ds @ [SetRenderClipRect None])
               (each_stream (draw_point_stream pal density p (xmin, xmax) (ymin, ymax) th supersampled) 0 streams)))"

section \<open>Meters\<close>

text \<open>\<^verbatim>\<open>0.62f\<close>.\<close>

abbreviation METER_BAR_FILL :: cfloat where "METER_BAR_FILL \<equiv> Fin (10401874 / 16777216)"
abbreviation METER_PEAK_THICKNESS :: cfloat where "METER_PEAK_THICKNESS \<equiv> Fin 3"

definition meter_value_y :: "PLOT_AREA \<Rightarrow> cfloat \<Rightarrow> cfloat \<Rightarrow> cfloat \<Rightarrow> cfloat" where
  "meter_value_y p value0 ymin ymax =
     (let v = fmin (fmax value0 ymin) ymax in
      fsub f32 (pa_bottom p) (fmul f32 (fdiv f32 (fsub f32 v ymin) (fsub f32 ymax ymin)) (pa_heigth p)))"

text \<open>The bar and the peak mark of a channel with this level and peak.\<close>

definition draw_meter_channel ::
  "PALETTE \<Rightarrow> cfloat \<Rightarrow> PLOT_AREA \<Rightarrow> WATCH_MSG_METER_CONFIG \<Rightarrow> u32 \<Rightarrow> nat \<Rightarrow> cfloat \<Rightarrow> cfloat \<Rightarrow> draw list" where
  "draw_meter_channel pal density p c th i level_value peak_value =
     (let (ymin, ytop, divisions) = resolve_meter_axis c;
          slot = fdiv f32 (pa_width p) (of_u32 f32 (nchnls c));
          bar_width = fmul f32 slot METER_BAR_FILL;
          peak_thickness = fmax (fmul f32 METER_PEAK_THICKNESS density) (Fin 1);
          bar_left = fsub f32 (slot_center p slot i) (fmul f32 bar_width (Fin (1 / 2)));
          level_y = meter_value_y p level_value ymin ytop;
          peak_y = meter_value_y p peak_value ymin ytop in
      (if ymin < level_value
       then [set_stream_draw_color pal th 0,
             RenderFillRect \<lparr>fr_x = bar_left, fr_y = level_y, fr_w = bar_width, fr_h = fsub f32 (pa_bottom p) level_y\<rparr>]
       else [])
      @ (if ymin < peak_value
         then [set_meter_peak_color pal th,
               RenderFillRect \<lparr>fr_x = bar_left, fr_y = fsub f32 peak_y (fmul f32 peak_thickness (Fin (1 / 2))),
                 fr_w = bar_width, fr_h = peak_thickness\<rparr>]
         else []))"

text \<open>One turn of the loop: the peak is released, then the channel is drawn.\<close>

definition meter_turn ::
  "(cfloat \<Rightarrow> cfloat) \<Rightarrow> PALETTE \<Rightarrow> cfloat \<Rightarrow> PLOT_AREA \<Rightarrow> WATCH_MSG_METER_CONFIG \<Rightarrow> u32 \<Rightarrow> cfloat \<Rightarrow> cfloat \<Rightarrow> u64
     \<Rightarrow> nat \<Rightarrow> draw list \<times> STREAM_METER_BUFFER \<Rightarrow> draw list \<times> STREAM_METER_BUFFER" where
  "meter_turn expf pal density p c th ymin elapsed now_ns i acc =
     (let (ds, s) = acc; s1 = release_peak expf ymin elapsed now_ns i s in
      (ds @ draw_meter_channel pal density p c th i (mb_level s1 ! i) (mb_peak s1 ! i), s1))"

definition render_meter ::
  "(cfloat \<Rightarrow> cfloat) \<Rightarrow> PALETTE \<Rightarrow> cfloat \<Rightarrow> PLOT_AREA \<Rightarrow> WATCH_MSG_METER_CONFIG \<Rightarrow> u32 \<Rightarrow> u64
     \<Rightarrow> STREAM_METER_BUFFER option \<Rightarrow> (draw list \<times> STREAM_METER_BUFFER option) option" where
  "render_meter expf pal density p c th now_ns stream =
     (let (ymin, ytop, divisions) = resolve_meter_axis c;
          scale = draw_meter pal p density (nchnls c) (sint divisions) th in
      case stream of
        None \<Rightarrow> Some (scale, None)
      | Some s \<Rightarrow>
          if \<not> mb_has_frame s \<or> nchnls c = 0 \<or> \<not> ymin < ytop then Some (scale, Some s)
          else
            let elapsed0 = seconds_since now_ns (mb_last_frame_ns s);
                elapsed = (if \<not> Fin 0 < elapsed0 \<or> Fin 1 < elapsed0 then Fin 0 else elapsed0) in
            (case get_plot_clip_rect p of
               None \<Rightarrow> None
             | Some clip \<Rightarrow>
                 let (ds, s1) = fold (meter_turn expf pal density p c th ymin elapsed now_ns) [0..<unat (nchnls c)]
                       ([], s\<lparr>mb_last_frame_ns := now_ns\<rparr>) in
                 Some (scale @ [SetRenderClipRect (Some clip)] @ ds @ [SetRenderClipRect None], Some s1)))"

end
