(* ===== verification/PlotLaws.thy ===== *)
theory PlotLaws
  imports Plots
begin

text \<open>
  What the drawing of \<open>Plots\<close> shows: values keep their order on the screen, a scope shows every
  sample, the bars and peak marks of a meter stay on their scale, the trail of a point fades towards
  its end, a spectrogram shows its frames in order, and the labels are those of \<open>Ticks\<close>.
\<close>

section \<open>Values keep their order on the screen\<close>

lemma fround_not_nan [simp]: "fround fmt q \<noteq> NaN"
  by (simp add: fround_def Let_def)

lemma le_PInf [simp]: "x \<noteq> NaN \<Longrightarrow> x \<le> PInf"
  by (cases x) (auto simp: less_eq_cfloat_def)

lemma NInf_le [simp]: "x \<noteq> NaN \<Longrightarrow> NInf \<le> x"
  by (cases x) (auto simp: less_eq_cfloat_def)

lemma le_cfloat_cases:
  "(x :: cfloat) \<le> y \<Longrightarrow> (\<And>a b. x = Fin a \<Longrightarrow> y = Fin b \<Longrightarrow> a \<le> b \<Longrightarrow> P) \<Longrightarrow> (x = NInf \<Longrightarrow> y \<noteq> NaN \<Longrightarrow> P)
    \<Longrightarrow> (y = PInf \<Longrightarrow> x \<noteq> NaN \<Longrightarrow> P) \<Longrightarrow> P"
  by (cases x; cases y) (auto simp: less_eq_cfloat_def)

lemma fsub_mono: "x \<le> y \<Longrightarrow> fsub f32 x (Fin a) \<le> fsub f32 y (Fin a)"
proof (erule le_cfloat_cases)
  assume "x = NInf" "y \<noteq> NaN" then show ?thesis by (cases y) (auto simp: fsub_def)
next
  assume "y = PInf" "x \<noteq> NaN" then show ?thesis by (cases x) (auto simp: fsub_def)
qed (auto simp: fsub_def intro!: fround_mono)

lemma fsub_antimono: "x \<le> y \<Longrightarrow> fsub f32 (Fin a) y \<le> fsub f32 (Fin a) x"
proof (erule le_cfloat_cases)
  assume "x = NInf" "y \<noteq> NaN" then show ?thesis by (cases y) (auto simp: fsub_def)
next
  assume "y = PInf" "x \<noteq> NaN" then show ?thesis by (cases x) (auto simp: fsub_def)
qed (auto simp: fsub_def intro!: fround_mono)

lemma fdiv_mono: "x \<le> y \<Longrightarrow> 0 < r \<Longrightarrow> fdiv f32 x (Fin r) \<le> fdiv f32 y (Fin r)"
proof (erule le_cfloat_cases)
  assume "x = NInf" "y \<noteq> NaN" "0 < r" then show ?thesis by (cases y) (auto simp: inf_signed_def)
next
  assume "y = PInf" "x \<noteq> NaN" "0 < r" then show ?thesis by (cases x) (auto simp: inf_signed_def)
qed (auto simp: divide_right_mono intro!: fround_mono)

lemma fmul_mono: "x \<le> y \<Longrightarrow> 0 < r \<Longrightarrow> fmul f32 x (Fin r) \<le> fmul f32 y (Fin r)"
proof (erule le_cfloat_cases)
  assume "x = NInf" "y \<noteq> NaN" "0 < r" then show ?thesis by (cases y) (auto simp: inf_signed_def)
next
  assume "y = PInf" "x \<noteq> NaN" "0 < r" then show ?thesis by (cases x) (auto simp: inf_signed_def)
qed (auto simp: mult_right_mono intro!: fround_mono)

text \<open>A plot area and a range whose sizes are numbers.\<close>

definition plottable :: "PLOT_AREA \<Rightarrow> cfloat \<Rightarrow> cfloat \<Rightarrow> bool" where
  "plottable p ymin ymax \<longleftrightarrow> (\<exists>b h r a. pa_bottom p = Fin b \<and> pa_heigth p = Fin h \<and> 0 < h \<and> ymin = Fin a
     \<and> fsub f32 ymax ymin = Fin r \<and> 0 < r)"

lemma sample_y_antimono: "plottable p ymin ymax \<Longrightarrow> v \<le> w \<Longrightarrow> sample_y p ymin ymax w \<le> sample_y p ymin ymax v"
  by (auto simp: plottable_def sample_y_def Let_def intro!: fsub_antimono fmul_mono fdiv_mono fsub_mono)

section \<open>A scope shows every sample\<close>

text \<open>The columns draw their vertical lines.\<close>

lemma vertical_line: "RenderLine x y_top x y_bottom \<in> set (draw_scope_vertical x y_top y_bottom ss)"
  by (simp add: draw_scope_vertical_def draw_waveform_line_def Let_def)

lemma draw_columns_vertical:
  "c \<in> set cs \<Longrightarrow> RenderLine (fst c) (fst (snd c)) (fst c) (fst (snd (snd c))) \<in> set (draw_columns ss previous cs)"
  by (induction ss previous cs rule: draw_columns.induct) (auto simp: vertical_line)

lemma scope_columns_vertical:
  assumes "k < count" "scope_column s first n count k = (mn, mx, x0, x1)"
  shows "RenderLine (column_x (pa_left p) w count k) (scope_sample_y p s mx) (column_x (pa_left p) w count k)
      (scope_sample_y p s mn) \<in> set (draw_columns ss previous (scope_columns p s w first n count))"
proof -
  have "(column_x (pa_left p) w count k, scope_sample_y p s mx, scope_sample_y p s mn, scope_sample_y p s x0,
      scope_sample_y p s x1) \<in> set (scope_columns p s w first n count)"
    unfolding scope_columns_def set_map by (rule image_eqI [of _ _ k]) (use assms in simp_all)
  from draw_columns_vertical [OF this] show ?thesis by simp
qed

lemma polyline_vertices: "RenderLines ps \<in> set (draw_scope_polyline ps ss)"
  by (simp add: draw_scope_polyline_def Let_def)

text \<open>What is drawn at the ordinate \<open>y\<close>: a vertical line across it, a vertex of a polyline, or a
  point.\<close>

definition marks :: "draw list \<Rightarrow> cfloat \<Rightarrow> bool" where
  "marks ds y \<longleftrightarrow> (\<exists>x y_top y_bottom. RenderLine x y_top x y_bottom \<in> set ds \<and> y_top \<le> y \<and> y \<le> y_bottom)
     \<or> (\<exists>ps x. RenderLines ps \<in> set ds \<and> (x, y) \<in> set ps) \<or> (\<exists>x. RenderPoint x y \<in> set ds)"

lemma scope_trace_marks:
  assumes fin: "\<forall>k < n. isfinite (scope_display_sample s f k)" and ok: "plottable p (sc_ymin s) (sc_ymax s)" and k: "k < n"
  shows "marks (scope_trace p s x_step w f n count ss) (scope_sample_y p s (scope_display_sample s f k))"
proof -
  let ?v = "scope_display_sample s f k"
  show ?thesis
  proof (cases "count > 0 \<and> n > count * 2")
    case True
    then have c: "0 < count" "count \<le> n" by auto
    obtain j mn mx x0 x1 where j: "j < count" "scope_column s f n count j = (mn, mx, x0, x1)" "mn \<le> ?v" "?v \<le> mx"
      using conjunct1 [OF scope_columns_cover [OF fin c]] k by blast
    have "scope_sample_y p s mx \<le> scope_sample_y p s ?v" "scope_sample_y p s ?v \<le> scope_sample_y p s mn"
      using j(3,4) ok unfolding scope_sample_y_def by (auto intro: sample_y_antimono)
    moreover have "scope_trace p s x_step w f n count ss = draw_columns ss None (scope_columns p s w f n count)"
      using True by (simp add: scope_trace_def)
    ultimately show ?thesis using scope_columns_vertical [OF j(1,2), of p w ss None] unfolding marks_def by metis
  next
    case poly: False
    show ?thesis
    proof (cases "n = 1")
      case True
      then show ?thesis using k poly
        by (auto simp: marks_def scope_trace_def draw_waveform_point_def scope_vertices_def Let_def)
    next
      case False
      have "(fadd f32 (pa_left p) (fmul f32 (fround f32 (of_nat k)) x_step), scope_sample_y p s ?v)
          \<in> set (scope_vertices p s x_step f n)"
        unfolding scope_vertices_def set_map by (rule image_eqI [of _ _ k]) (use k in simp_all)
      moreover have "RenderLines (scope_vertices p s x_step f n) \<in> set (scope_trace p s x_step w f n count ss)"
        using False poly unfolding scope_trace_def Let_def by (simp only: if_False polyline_vertices)
      ultimately show ?thesis unfolding marks_def by blast
    qed
  qed
qed

lemma scope_visible_active:
  "scope_visible s e = Some v \<Longrightarrow> \<not> (sc_buffer s = None \<or> sc_points s = None \<or> sc_valid_samples s = 0)"
  by (rule notI) (simp add: scope_visible_def split: if_split_asm)

lemma marks_Cons: "marks ds y \<Longrightarrow> marks (d # ds) y"
  unfolding marks_def by (metis list.set_intros(2))

text \<open>C24: A scope shows every sample it has to show, whether it draws columns, a polyline or a point:
  at the height of each visible sample there is a vertical line across it, a vertex of the polyline,
  or the point.\<close>

theorem scope_drawing_complete:
  assumes "draw_scope_stream pal p s i e ss th = Some ds"
    and "to_i64 e = Some display_end" "scope_visible s display_end = Some (first, n)"
    and "\<forall>k < n. isfinite (scope_display_sample s (scope_buffer_index s first) k)"
    and "plottable p (sc_ymin s) (sc_ymax s)" and "k < n"
  shows "marks ds (scope_sample_y p s (scope_display_sample s (scope_buffer_index s first) k))"
proof -
  have "\<exists>x_step w count. ds = set_stream_draw_color pal th i # scope_trace p s x_step w (scope_buffer_index s first) n count ss"
    using assms(1-3) scope_visible_active [OF assms(3)] unfolding draw_scope_stream_def Let_def if_not_P [OF scope_visible_active [OF assms(3)]]
    by (simp split: option.splits) (metis option.distinct(1) option.inject option.map_sel)
  then show ?thesis using scope_trace_marks [OF assms(4-6)] by (auto intro: marks_Cons)
qed

text \<open>Three samples in a small plot area.\<close>

lemma fround_f32_numeral [simp]:
  "numeral n < (16777216 :: int) \<Longrightarrow> fround f32 (numeral n) = Fin (numeral n)" "fround f32 0 = Fin 0" "fround f32 1 = Fin 1"
  using fround_f32_int [of "numeral n"] fround_f32_int [of 0] fround_f32_int [of 1] by simp_all

definition demo_area :: PLOT_AREA where
  "demo_area = \<lparr>pa_left = Fin 10, pa_right = Fin 14, pa_top = Fin 2, pa_bottom = Fin 18, pa_width = Fin 4,
     pa_heigth = Fin 16, pa_x_center = Fin 12, pa_y_center = Fin 10\<rparr>"

definition demo_trace :: STREAM_TIME_BUFFER where
  "demo_trace = zero_scope\<lparr>sc_buffer := Some [Fin 1, Fin 7, Fin 2], sc_points := Some [], sc_capacity := 3,
     sc_window_samples := 3, sc_valid_samples := 3, sc_ymin := Fin 0, sc_ymax := Fin 8, sc_next_sequence := 3,
     sc_has_sequence := True\<rparr>"

definition demo_palette :: PALETTE where
  "demo_palette = \<lparr>pl_streams = (\<lambda>i. ((0, 0, of_nat i), (255, 255, of_nat i))), pl_peak = ((255, 0, 0), (255, 128, 0))\<rparr>"

lemma demo_plottable: "plottable demo_area (Fin 0) (Fin 8)"
  by (simp add: plottable_def demo_area_def fsub_def)

theorem scope_drawing_complete_witness:
  "\<exists>ds. draw_scope_stream demo_palette demo_area demo_trace 0 (Fin 3) True WATCH_THEME_LIGHT = Some ds
    \<and> marks ds (scope_sample_y demo_area demo_trace (Fin 7))"
proof -
  have v: "scope_visible demo_trace 3 = Some (0, 3)" "scope_buffer_index demo_trace 0 = 0"
    by (simp_all add: scope_visible_def scope_buffer_index_def demo_trace_def zero_scope_def)
  have "draw_scope_stream demo_palette demo_area demo_trace 0 (Fin 3) True WATCH_THEME_LIGHT \<noteq> None"
    using v by (simp add: draw_scope_stream_def demo_trace_def demo_area_def raster_columns_def fsub_def trunc_rat_def
        i64_def INT64_MAX_def Let_def)
  then obtain ds where ds: "draw_scope_stream demo_palette demo_area demo_trace 0 (Fin 3) True WATCH_THEME_LIGHT = Some ds" by auto
  have smp: "scope_display_sample demo_trace 0 0 = Fin 1" "scope_display_sample demo_trace 0 1 = Fin 7"
    "scope_display_sample demo_trace 0 2 = Fin 2"
    by (simp_all add: scope_display_sample_def demo_trace_def)
  have fin: "\<forall>k < 3. isfinite (scope_display_sample demo_trace (scope_buffer_index demo_trace 0) k)"
    using smp by (auto simp: v(2) numeral_3_eq_3 less_Suc_eq numeral_2_eq_2)
  have ok: "plottable demo_area (sc_ymin demo_trace) (sc_ymax demo_trace)"
    using demo_plottable by (simp add: demo_trace_def)
  have e: "to_i64 (Fin 3) = Some 3" by (simp add: trunc_rat_def i64_def INT64_MAX_def)
  have "marks ds (scope_sample_y demo_area demo_trace (scope_display_sample demo_trace (scope_buffer_index demo_trace 0) 1))"
    using scope_drawing_complete [OF ds e v(1) fin ok, of 1] by simp
  then show ?thesis unfolding v(2) smp using ds by simp
qed

section \<open>Bars and peak marks of a meter\<close>

text \<open>A size that is a float.\<close>

definition float_size :: "cfloat \<Rightarrow> bool" where
  "float_size x \<longleftrightarrow> (\<exists>q. x = Fin q \<and> fround f32 q = Fin q)"

lemma fmin_mono: "x \<le> y \<Longrightarrow> z \<noteq> NaN \<Longrightarrow> fmin x z \<le> fmin y z"
  by (cases x; cases y; cases z) (auto simp: fmin_def less_eq_cfloat_def)

lemma fmax_mono: "x \<le> y \<Longrightarrow> z \<noteq> NaN \<Longrightarrow> fmax x z \<le> fmax y z"
  by (cases x; cases y; cases z) (auto simp: fmax_def less_eq_cfloat_def)

lemma meter_value_y_antimono:
  "plottable p ymin ymax \<Longrightarrow> ymax \<noteq> NaN \<Longrightarrow> v \<le> w \<Longrightarrow> meter_value_y p w ymin ymax \<le> meter_value_y p v ymin ymax"
  by (auto simp: plottable_def meter_value_y_def Let_def
      intro!: fsub_antimono fmul_mono fdiv_mono fsub_mono fmin_mono fmax_mono)

lemma plottable_le: "plottable p (Fin a) (Fin b) \<Longrightarrow> a \<le> b"
proof (rule ccontr)
  assume "plottable p (Fin a) (Fin b)" and "\<not> a \<le> b"
  then have "fround f32 (b - a) \<le> fround f32 0" by (intro fround_mono) simp_all
  then show False using \<open>plottable p (Fin a) (Fin b)\<close> by (auto simp: plottable_def fsub_def)
qed

lemma meter_value_y_ends:
  assumes ok: "plottable p (Fin a) (Fin b)" and s: "float_size (pa_bottom p)" "float_size (pa_heigth p)"
  shows "meter_value_y p (Fin a) (Fin a) (Fin b) = pa_bottom p"
    "meter_value_y p (Fin b) (Fin a) (Fin b) = fsub f32 (pa_bottom p) (pa_heigth p)"
proof -
  obtain c h r where p: "pa_bottom p = Fin c" "pa_heigth p = Fin h" "fsub f32 (Fin b) (Fin a) = Fin r" "0 < r"
    "fround f32 c = Fin c" "fround f32 h = Fin h" using ok s by (auto simp: plottable_def float_size_def)
  have "a \<le> b" using ok by (rule plottable_le)
  then have ends: "fmin (fmax (Fin a) (Fin a)) (Fin b) = Fin a" "fmin (fmax (Fin b) (Fin a)) (Fin b) = Fin b"
    by (auto simp: fmin_def fmax_def)
  have "fsub f32 (Fin a) (Fin a) = Fin 0" by (simp add: fsub_def)
  then show "meter_value_y p (Fin a) (Fin a) (Fin b) = pa_bottom p"
    unfolding meter_value_y_def Let_def ends p(1-3) using p(4,5) by (simp add: fsub_def)
  show "meter_value_y p (Fin b) (Fin a) (Fin b) = fsub f32 (pa_bottom p) (pa_heigth p)"
    unfolding meter_value_y_def Let_def ends p(1-3) using p(4,6) by simp
qed

lemma meter_value_y_clamped:
  assumes "plottable p (Fin a) (Fin b)" "v \<noteq> NaN"
  shows "meter_value_y p v (Fin a) (Fin b) \<le> meter_value_y p (Fin a) (Fin a) (Fin b)"
    "meter_value_y p (Fin b) (Fin a) (Fin b) \<le> meter_value_y p v (Fin a) (Fin b)"
proof -
  obtain c h r where p: "pa_bottom p = Fin c" "pa_heigth p = Fin h" "0 < h" "fsub f32 (Fin b) (Fin a) = Fin r" "0 < r"
    using assms by (auto simp: plottable_def)
  have "fmin (fmax (Fin a) (Fin a)) (Fin b) \<le> fmin (fmax v (Fin a)) (Fin b)"
    "fmin (fmax v (Fin a)) (Fin b) \<le> fmin (fmax (Fin b) (Fin a)) (Fin b)"
    using assms(2) by (cases v; auto simp: fmin_def fmax_def)+
  then show "meter_value_y p v (Fin a) (Fin b) \<le> meter_value_y p (Fin a) (Fin a) (Fin b)"
    "meter_value_y p (Fin b) (Fin a) (Fin b) \<le> meter_value_y p v (Fin a) (Fin b)"
    unfolding meter_value_y_def Let_def p(1,2,4) using p(3,5)
    by (blast intro: fsub_antimono fmul_mono fdiv_mono fsub_mono)+
qed

text \<open>C29: A meter's bar stands on the bottom of the plot and ends within it, wherever its level lies on
  or off the scale: at the bottom for the minimum, at the top for the end of the scale and beyond, and
  a higher level never ends lower. Its peak mark has the bar's place and width, is as thick as the display's
  density asks for but at least a pixel, and is centred where a bar of the peak's level would end, which
  is no lower than the bar's own end and not above the plot.\<close>

theorem meter_bars_on_scale:
  assumes "resolve_meter_axis c = (ymin, ytop, divisions)" and "plottable p ymin ytop" "isfinite ytop"
    and "float_size (pa_bottom p)" "float_size (pa_heigth p)"
    and "ymin < level" "isfinite level" "level \<le> peak" "peak \<noteq> NaN"
  shows "\<exists>bar mark.
    draw_meter_channel pal density p c th i level peak =
      [set_stream_draw_color pal th 0, RenderFillRect bar, set_meter_peak_color pal th, RenderFillRect mark]
    \<and> fr_y bar = meter_value_y p level ymin ytop \<and> meter_value_y p ymin ymin ytop = pa_bottom p
    \<and> fr_h bar = fsub f32 (pa_bottom p) (fr_y bar)
    \<and> fsub f32 (pa_bottom p) (pa_heigth p) \<le> fr_y bar \<and> fr_y bar \<le> pa_bottom p
    \<and> (ytop \<le> level \<longrightarrow> fr_y bar = fsub f32 (pa_bottom p) (pa_heigth p))
    \<and> (\<forall>level' \<le> level. fr_y bar \<le> meter_value_y p level' ymin ytop)
    \<and> fr_x mark = fr_x bar \<and> fr_w mark = fr_w bar
    \<and> fr_h mark = fmax (fmul f32 METER_PEAK_THICKNESS density) (Fin 1)
    \<and> fr_y mark = fsub f32 (meter_value_y p peak ymin ytop) (fmul f32 (fr_h mark) (Fin (1 / 2)))
    \<and> meter_value_y p peak ymin ytop \<le> fr_y bar
    \<and> fsub f32 (pa_bottom p) (pa_heigth p) \<le> meter_value_y p peak ymin ytop
    \<and> (ytop \<le> peak \<longrightarrow> meter_value_y p peak ymin ytop = fsub f32 (pa_bottom p) (pa_heigth p))"
proof -
  obtain a b where ab: "ymin = Fin a" "ytop = Fin b"
    using assms(2,3) by (auto simp: plottable_def isfinite_cases)
  note ok = assms(2) [unfolded ab]
  let ?y = "\<lambda>v. meter_value_y p v ymin ytop"
  let ?slot = "fdiv f32 (pa_width p) (of_u32 f32 (nchnls c))"
  let ?w = "fmul f32 ?slot METER_BAR_FILL"
  let ?left = "fsub f32 (slot_center p ?slot i) (fmul f32 ?w (Fin (1 / 2)))"
  let ?t = "fmax (fmul f32 METER_PEAK_THICKNESS density) (Fin 1)"
  have "ymin < peak" using assms(6,8) by (rule less_le_cfloat)
  then have draw: "draw_meter_channel pal density p c th i level peak =
      [set_stream_draw_color pal th 0,
       RenderFillRect \<lparr>fr_x = ?left, fr_y = ?y level, fr_w = ?w, fr_h = fsub f32 (pa_bottom p) (?y level)\<rparr>,
       set_meter_peak_color pal th,
       RenderFillRect \<lparr>fr_x = ?left, fr_y = fsub f32 (?y peak) (fmul f32 ?t (Fin (1 / 2))), fr_w = ?w, fr_h = ?t\<rparr>]"
    using assms(1,6) by (simp add: draw_meter_channel_def Let_def)
  have lvl: "level \<noteq> NaN" using assms(7) by auto
  note ends = meter_value_y_ends [OF ok assms(4,5), folded ab]
  have "?y level \<le> pa_bottom p" "fsub f32 (pa_bottom p) (pa_heigth p) \<le> ?y level"
    "fsub f32 (pa_bottom p) (pa_heigth p) \<le> ?y peak"
    using meter_value_y_clamped [OF ok lvl, folded ab] meter_value_y_clamped [OF ok assms(9), folded ab] ends by simp_all
  moreover have top: "?y v = fsub f32 (pa_bottom p) (pa_heigth p)" if "ytop \<le> v" for v
  proof -
    have "a \<le> b" using ok by (rule plottable_le)
    then have "fmin (fmax v ymin) ytop = ytop"
      using that by (cases v) (auto simp: ab fmin_def fmax_def less_eq_cfloat_def)
    moreover have "fmin (fmax ytop ymin) ytop = ytop" using \<open>a \<le> b\<close> by (auto simp: ab fmin_def fmax_def)
    ultimately show ?thesis using ends(2) by (simp add: meter_value_y_def)
  qed
  moreover have "?y level \<le> ?y level'" if "level' \<le> level" for level'
    using meter_value_y_antimono [OF assms(2) _ that] ab by simp
  moreover have "?y peak \<le> ?y level" using meter_value_y_antimono [OF assms(2) _ assms(8)] ab by simp
  ultimately show ?thesis using ends(1) unfolding draw by (intro exI conjI, (rule refl | simp)+)
qed

definition demo_meter_config :: WATCH_MSG_METER_CONFIG where
  "demo_meter_config = \<lparr>nchnls = 2, meter_nyticks = 7, meter_scale = WATCH_SCALE_LINEAR_GAIN,
     meter_yrange = \<lparr>is_min_auto = 0, is_max_auto = 0, range_min = Fin 0, range_max = Fin 7\<rparr>\<rparr>"

theorem meter_bars_on_scale_witness:
  "\<exists>bar mark.
    draw_meter_channel demo_palette (Fin 1) demo_area demo_meter_config WATCH_THEME_DARK 1 (Fin 9) (Fin 10) =
      [set_stream_draw_color demo_palette WATCH_THEME_DARK 0, RenderFillRect bar,
       set_meter_peak_color demo_palette WATCH_THEME_DARK, RenderFillRect mark]
    \<and> fr_y bar = Fin 2 \<and> fr_y mark = fsub f32 (Fin 2) (fmul f32 (fr_h mark) (Fin (1 / 2)))"
proof -
  have axis: "resolve_meter_axis demo_meter_config = (Fin 0, Fin 8, 8)"
    by (simp add: resolve_meter_axis_def resolve_meter_range_def demo_meter_config_def of_u32_def fsub_def)
  have area: "float_size (pa_bottom demo_area)" "float_size (pa_heigth demo_area)"
    by (simp_all add: float_size_def demo_area_def)
  have "fsub f32 (pa_bottom demo_area) (pa_heigth demo_area) = Fin 2" by (simp add: demo_area_def fsub_def)
  then show ?thesis
    using meter_bars_on_scale [OF axis demo_plottable _ area, of "Fin 9" "Fin 10" demo_palette "Fin 1" WATCH_THEME_DARK 1]
    by force
qed

section \<open>The trail of a point\<close>

text \<open>The opacity as a number.\<close>

lemma segment_alpha_value:
  assumes "1 \<le> i" "i < n" "n \<le> 16384"
  shows "\<exists>r v. fdiv f32 (fround f32 (of_nat i)) (fround f32 (of_nat (n - 1))) = Fin r
    \<and> r = round_rat f32 (of_nat i / of_nat (n - 1))
    \<and> fadd f32 (Fin 40) (fmul f32 (Fin 215) (Fin r)) = Fin v \<and> 40 \<le> v \<and> v \<le> 255
    \<and> segment_alpha n i = of_int (round_even v)"
proof -
  have nat: "fround f32 (of_nat k) = Fin (of_nat k)" if "k < 16384" for k
    using fround_f32_int [of "int k"] that by simp
  obtain m where m: "n - 1 = m" "0 < m" "i \<le> m" "m < 16384" using assms by simp
  have q: "0 \<le> of_nat i / (of_nat m :: rat)" "of_nat i / (of_nat m :: rat) \<le> 1"
    using m by (simp_all add: divide_le_eq_1)
  then have b: "\<bar>of_nat i / of_nat m\<bar> \<le> max_finite f32" using max_finite_big by (simp only: abs_of_nonneg)
  let ?r = "round_rat f32 (of_nat i / of_nat m)"
  have nz: "of_nat m \<noteq> (0 :: rat)" using m by simp
  have r: "fdiv f32 (fround f32 (of_nat i)) (fround f32 (of_nat m)) = Fin ?r"
    using nat [of i] nat [of m] m nz by (simp add: fround_f32_finite(1) [OF b])
  have "lies 0 (fround f32 x) 1024" if "0 \<le> x" "x \<le> 1" for x
    using that by (intro fround_within) auto
  from this [OF q] have lr: "lies 0 (Fin ?r) 1024" by (simp only: fround_f32_finite(1) [OF b])
  have "lies (40960 + 0) (fadd f32 (Fin 40) (fmul f32 (Fin 215) (Fin ?r))) (40960 + 220160)"
    by (intro fadd_within fmul_within(1) [OF lr]) auto
  then obtain v where v: "fadd f32 (Fin 40) (fmul f32 (Fin 215) (Fin ?r)) = Fin v" "40 \<le> v" "v \<le> 255"
    by (elim liesE) auto
  have "fsub f32 (Fin 255) (Fin 40) = Fin 215" by (simp add: fsub_def)
  then have "segment_alpha n i = of_int (round_even v)"
    using assms r v(1) unfolding segment_alpha_def m(1) by simp
  then show ?thesis unfolding m(1) using r v by blast
qed

lemma fadd_mono: "x \<le> y \<Longrightarrow> fadd f32 (Fin a) x \<le> fadd f32 (Fin a) y"
proof (erule le_cfloat_cases)
  assume "x = NInf" "y \<noteq> NaN" then show ?thesis by (cases y) auto
next
  assume "y = PInf" "x \<noteq> NaN" then show ?thesis by (cases x) auto
qed (auto intro!: fround_mono)

lemma unat_byte: "0 \<le> z \<Longrightarrow> z < 256 \<Longrightarrow> unat (of_int z :: 8 word) = nat z"
  by (simp add: unat_eq_nat_uint uint_word_of_int)

text \<open>The trail of a point graph fades towards its oldest end: every segment is drawn at least with
  the minimal opacity, none more transparent than an older one, and the newest is opaque.\<close>

theorem trail_fades:
  assumes "1 \<le> i" "i \<le> j" "j < n" "n \<le> POINT_TRAIL_MAX_SAMPLES"
  shows "40 \<le> segment_alpha n i \<and> segment_alpha n i \<le> segment_alpha n j \<and> segment_alpha n (n - 1) = 255"
proof -
  obtain r v where i: "r = round_rat f32 (of_nat i / of_nat (n - 1))" "fadd f32 (Fin 40) (fmul f32 (Fin 215) (Fin r)) = Fin v"
    "40 \<le> v" "v \<le> 255" "segment_alpha n i = of_int (round_even v)"
    using segment_alpha_value [of i n] assms by auto
  obtain s w where j: "s = round_rat f32 (of_nat j / of_nat (n - 1))" "fadd f32 (Fin 40) (fmul f32 (Fin 215) (Fin s)) = Fin w"
    "40 \<le> w" "w \<le> 255" "segment_alpha n j = of_int (round_even w)"
    using segment_alpha_value [of j n] assms by auto
  have "r \<le> s" unfolding i(1) j(1) using assms by (intro round_rat_mono divide_right_mono) auto
  then have "fmul f32 (Fin 215) (Fin r) \<le> fmul f32 (Fin 215) (Fin s)" by (auto intro: fround_mono)
  then have "Fin v \<le> Fin w" unfolding i(2) [symmetric] j(2) [symmetric] by (rule fadd_mono)
  then have "round_even v \<le> round_even w" by (intro round_even_mono) simp
  moreover have "round_even 40 \<le> round_even v" "round_even w \<le> round_even 255"
    using i(3) j(4) by (auto intro: round_even_mono)
  then have "40 \<le> round_even v" "round_even w \<le> 255"
    using round_even_of_int [of 40] round_even_of_int [of 255] by simp_all
  ultimately have "unat (40 :: 8 word) \<le> unat (of_int (round_even v) :: 8 word)"
    "unat (of_int (round_even v) :: 8 word) \<le> unat (of_int (round_even w) :: 8 word)"
    using unat_byte [of "round_even v"] unat_byte [of "round_even w"] by simp_all
  moreover have "segment_alpha n (n - 1) = 255"
  proof -
    have "round_rat f32 1 = 1" using round_rat_representable [of 1 f32 0] by simp
    moreover have pos: "1 \<le> n - 1" "n - 1 < n" using assms by linarith+
    then have "of_nat (n - 1) / of_nat (n - 1) = (1 :: rat)" by (intro divide_self) simp
    moreover obtain r u where "r = round_rat f32 (of_nat (n - 1) / of_nat (n - 1))"
      "fadd f32 (Fin 40) (fmul f32 (Fin 215) (Fin r)) = Fin u" "segment_alpha n (n - 1) = of_int (round_even u)"
      using segment_alpha_value [OF pos assms(4)] by blast
    ultimately have "Fin u = Fin 255" "segment_alpha n (n - 1) = of_int (round_even u)" by simp_all
    then have "segment_alpha n (n - 1) = of_int (round_even 255)" by simp
    then show ?thesis using round_even_of_int [of 255] by simp
  qed
  ultimately show ?thesis unfolding i(5) j(5) by (simp add: word_le_nat_alt)
qed

theorem trail_fades_witness:
  "40 \<le> segment_alpha 4 1 \<and> segment_alpha 4 1 \<le> segment_alpha 4 2 \<and> segment_alpha 4 3 = 255"
  using trail_fades [of 1 2 4] by simp


section \<open>The history of a spectrogram\<close>

text \<open>The columns of the texture that a source rectangle covers.\<close>

fun part_columns :: "rgba list list \<Rightarrow> SDL_FRect \<Rightarrow> rgba list list" where
  "part_columns t \<lparr>fr_x = Fin x, fr_y = _, fr_w = Fin w, fr_h = _\<rparr> = take (nat \<lfloor>w\<rfloor>) (drop (nat \<lfloor>x\<rfloor>) t)"
| "part_columns t _ = []"

definition shown_columns :: "PLOT_AREA \<Rightarrow> BIN_RANGE \<Rightarrow> STREAM_SPECTRAL_BUFFER \<Rightarrow> rgba list list" where
  "shown_columns p b s = concat (map (\<lambda>(src, dst). part_columns (the (sb_history_texture s)) src) (history_parts p s b))"

text \<open>A texture that is not full has been written from its left edge on.\<close>

definition filling :: "STREAM_SPECTRAL_BUFFER \<Rightarrow> bool" where
  "filling s \<longleftrightarrow> (sb_valid_history_frames s < sb_history_capacity s \<longrightarrow> sb_history_write_index s = sb_valid_history_frames s)"

lemma put_column_filling: "texture_ok s \<Longrightarrow> filling s \<Longrightarrow> filling (put_column x s)"
  by (auto simp: filling_def put_column_def texture_ok_def)

lemma put_columns_filling: "texture_ok s \<Longrightarrow> filling s \<Longrightarrow> filling (fold put_column cols s)"
  by (induction cols arbitrary: s) (simp_all add: put_column_filling texture.put_ok)

lemma ring_window_filling: "v \<le> length t \<Longrightarrow> ring_window t v v = take v t"
  by (rule nth_equalityI) (simp_all add: nth_ring_window)

lemma ring_window_full:
  assumes "w < length t"
  shows "ring_window t w (length t) = drop w t @ take w t"
proof (rule nth_equalityI)
  fix i assume "i < length (ring_window t w (length t))"
  then have i: "i < length t" by simp
  show "ring_window t w (length t) ! i = (drop w t @ take w t) ! i"
  proof (cases "w + i < length t")
    case True
    then have "i < length t - w" by linarith
    then show ?thesis using i True nth_ring_window [OF i order_refl, of w] assms by (simp add: nth_append)
  next
    case False
    then have "(w + i) mod length t = w + i - length t" using i assms by (simp add: mod_if)
    moreover have "i - (length t - w) = w + i - length t" "w + i - length t < w" "\<not> i < length t - w"
      using i assms False by linarith+
    ultimately show ?thesis using nth_ring_window [OF i order_refl, of w] assms by (simp add: nth_append)
  qed
qed (use assms in simp)

lemma fround_f32_nat: "n < 16777216 \<Longrightarrow> fround f32 (of_nat n) = Fin (of_nat n)"
  using fround_f32_int [of "int n"] by simp

lemma shown_columns_items:
  assumes "texture_ok s" "filling s" "sb_history_capacity s < 16777216"
  shows "shown_columns p b s = texture_items s"
proof -
  obtain t where t: "sb_history_texture s = Some t" "length t = sb_history_capacity s" "0 < length t"
    "sb_history_write_index s < length t" "sb_valid_history_frames s \<le> length t"
    using assms(1) by (auto simp: texture_ok_def)
  show ?thesis
  proof (cases "sb_valid_history_frames s < sb_history_capacity s")
    case True
    then show ?thesis
      using t assms(2,3) ring_window_filling [OF t(5)]
      by (simp add: shown_columns_def history_parts_def texture_items_def filling_def fround_f32_nat Let_def)
  next
    case False
    then have v: "sb_valid_history_frames s = length t" using t by simp
    have "sb_history_capacity s - sb_history_write_index s > 0" using t by simp
    then show ?thesis
      using t v assms(3) ring_window_full [OF t(4)] False
      by (auto simp: shown_columns_def history_parts_def texture_items_def fround_f32_nat Let_def simp del: of_nat_diff)
  qed
qed

text \<open>Where the parts go: over the whole height of the plot, each beginning where its left neighbour
  ends. A history that is not full is drawn against the right edge, a full one from the left edge on;
  a part is as wide as its share of the history.\<close>

definition parts_tile :: "PLOT_AREA \<Rightarrow> nat \<Rightarrow> nat \<Rightarrow> (SDL_FRect \<times> SDL_FRect) list \<Rightarrow> bool" where
  "parts_tile p capacity n parts \<longleftrightarrow>
     (let share = (\<lambda>src. fdiv f32 (fr_w src) (fround f32 (of_nat capacity))) in
      (\<forall>(src, dst) \<in> set parts. fr_y dst = pa_top p \<and> fr_h dst = pa_heigth p)
      \<and> (case parts of
           [(src, dst)] \<Rightarrow> fr_w dst = fmul f32 (pa_width p) (share src)
             \<and> fr_x dst = (if n < capacity then fsub f32 (pa_right p) (fr_w dst) else pa_left p)
         | [(src, dst), (src', dst')] \<Rightarrow> capacity \<le> n \<and> fr_x dst = pa_left p
             \<and> fr_w dst = fmul f32 (pa_width p) (share src)
             \<and> fr_x dst' = fadd f32 (fr_x dst) (fr_w dst) \<and> fr_x dst \<le> fr_x dst'
             \<and> fr_w dst' = fmul f32 (pa_width p) (fsub f32 (Fin 1) (share src))
         | _ \<Rightarrow> False))"

lemma fadd_nonneg_le: "float_size x \<Longrightarrow> Fin 0 \<le> y \<Longrightarrow> x \<le> fadd f32 x y"
proof -
  assume "float_size x" "Fin 0 \<le> y"
  then obtain q where q: "x = Fin q" "fround f32 q = Fin q" "Fin 0 \<le> y" by (auto simp: float_size_def)
  show ?thesis
  proof (cases y)
    case (Fin r)
    then have "fround f32 q \<le> fround f32 (q + r)" using q by (intro fround_mono) simp_all
    then show ?thesis using q Fin by simp
  qed (use q in \<open>auto simp: less_eq_cfloat_def\<close>)
qed

lemma share_nonneg:
  assumes "pa_width p = Fin w" "0 \<le> w" "n \<le> c" "0 < c" "c < 16777216"
  shows "Fin 0 \<le> fmul f32 (pa_width p) (fdiv f32 (fround f32 (of_nat n)) (fround f32 (of_nat c)))"
proof -
  have "fround f32 (of_nat n) = Fin (of_nat n)" "fround f32 (of_nat c) = Fin (of_nat c)"
    using assms by (simp_all add: fround_f32_nat)
  moreover obtain x where x: "fround f32 (of_nat n / of_nat c) = Fin x" "0 \<le> x"
    using fround_within [of 0 "of_nat n / of_nat c" 1024] assms(3,4) by (auto simp: divide_le_eq elim!: liesE)
  moreover have "fround f32 0 \<le> fround f32 (w * x)" using x(2) assms(2) by (intro fround_mono) simp_all
  ultimately show ?thesis using assms(1,4) by simp
qed

lemma history_parts_tile:
  assumes "texture_ok s" "sb_history_capacity s < 16777216" "float_size (pa_left p)" "pa_width p = Fin w" "0 \<le> w"
  shows "parts_tile p (sb_history_capacity s) (sb_valid_history_frames s) (history_parts p s b)"
proof -
  have t: "0 < sb_history_capacity s" "sb_history_write_index s < sb_history_capacity s"
    "sb_valid_history_frames s \<le> sb_history_capacity s"
    using assms(1) by (auto simp: texture_ok_def)
  let ?o = "sb_history_write_index s" and ?c = "sb_history_capacity s"
  have "pa_left p \<le> fadd f32 (pa_left p) (fmul f32 (pa_width p)
      (fdiv f32 (fround f32 (of_nat (?c - ?o))) (fround f32 (of_nat ?c))))"
    by (intro fadd_nonneg_le assms(3) share_nonneg [OF assms(4,5) _ t(1) assms(2)]) simp
  then show ?thesis using t
    by (auto simp: parts_tile_def history_parts_def Let_def simp del: of_nat_diff)
qed

lemma parts_tile_min: "parts_tile p c (min c n) xs = parts_tile p c n xs"
proof -
  have "(min c n < c) = (n < c)" "(c \<le> min c n) = (c \<le> n)" by auto
  then show ?thesis by (simp only: parts_tile_def)
qed

text \<open>C27: A spectrogram shows its newest frames, as many as its history holds, oldest to the left: the
  parts of the texture that are drawn hold, one after the other, the columns of the last frames in the
  order in which they were put there, whether or not the history has wrapped around, and they lie side
  by side on the plot in this order, from the left edge on when the history is full and else up to the
  right edge, each as wide as its share of the history.\<close>

theorem spectrogram_shows_history:
  assumes "texture_ok s" "sb_valid_history_frames s = 0" "sb_history_write_index s = 0"
    and "sb_history_capacity s < 16777216" "cols \<noteq> []"
    and "float_size (pa_left p)" "pa_width p = Fin w" "0 \<le> w"
  defines "s' \<equiv> fold put_column cols s"
  assumes bins: "spectral_bin_range c s' = Some (Some b)"
  shows "\<exists>parts. render_spectrogram_history p c i s'
        = Some (map (\<lambda>(src, dst). RenderTexture (HistoryTexture i) (Some src) (Some dst)) parts)
    \<and> concat (map (\<lambda>(src, dst). part_columns (the (sb_history_texture s')) src) parts)
        = lastn (sb_history_capacity s) cols
    \<and> parts_tile p (sb_history_capacity s) (length cols) parts"
proof -
  note put = texture.puts [OF assms(1), of cols, folded s'_def]
  have f: "filling s" using assms(2,3) by (simp add: filling_def)
  have items: "texture_items s' = lastn (sb_history_capacity s) cols"
    using put(1) assms(2) by (simp add: texture_items_def [of s] ring_window_def)
  have "length (texture_items s') = sb_valid_history_frames s'" by (simp add: texture_items_def)
  then have v: "sb_valid_history_frames s' = min (sb_history_capacity s) (length cols)" unfolding items by simp
  have cap: "0 < sb_history_capacity s" using assms(1) by (auto simp: texture_ok_def)
  obtain u where "sb_history_texture s' = Some u" using put(3) by (auto simp: texture_ok_def)
  moreover have "sb_valid_history_frames s' \<noteq> 0" using v cap assms(5) by simp
  ultimately have r: "render_spectrogram_history p c i s'
      = Some (map (\<lambda>(src, dst). RenderTexture (HistoryTexture i) (Some src) (Some dst)) (history_parts p s' b))"
    by (simp add: render_spectrogram_history_def bins)
  have sh: "shown_columns p b s' = lastn (sb_history_capacity s) cols"
    using shown_columns_items [OF put(3) put_columns_filling [OF assms(1) f, of cols, folded s'_def], of p b] put(2) assms(4) items
    by simp
  have "parts_tile p (sb_history_capacity s) (sb_valid_history_frames s') (history_parts p s' b)"
    using history_parts_tile [OF put(3) _ assms(6-8), of b] put(2) assms(4) by simp
  then have tile: "parts_tile p (sb_history_capacity s) (length cols) (history_parts p s' b)"
    unfolding v by (simp only: parts_tile_min)
  show ?thesis
    by (intro exI [of _ "history_parts p s' b"] conjI r tile sh [unfolded shown_columns_def])
qed

definition demo_history :: STREAM_SPECTRAL_BUFFER where
  "demo_history = zero_spectral\<lparr>sb_history_texture := Some (replicate 2 []), sb_history_capacity := 2,
     sb_sample_rate := 4, sb_fft_size := 2, sb_total_bins := 2\<rparr>"

theorem spectrogram_shows_history_witness:
  "\<exists>parts. concat (map (\<lambda>(src, dst). part_columns (the (sb_history_texture
        (fold put_column [[(1, 1, 1, 255)], [(2, 2, 2, 255)], [(3, 3, 3, 255)]] demo_history))) src) parts)
      = [[(2, 2, 2, 255)], [(3, 3, 3, 255)]] \<and> parts_tile demo_area 2 3 parts"
proof -
  let ?cols = "[[(1, 1, 1, 255)], [(2, 2, 2, 255)], [(3, 3, 3, 255)]] :: rgba list list"
  have ok: "texture_ok demo_history" "sb_valid_history_frames demo_history = 0"
    "sb_history_write_index demo_history = 0" "sb_history_capacity demo_history = 2"
    by (simp_all add: texture_ok_def demo_history_def zero_spectral_def)
  then have c: "sb_history_capacity demo_history < 16777216" by simp
  have area: "float_size (pa_left demo_area)" "pa_width demo_area = Fin 4" by (simp_all add: float_size_def demo_area_def)
  let ?r = "\<lparr>is_min_auto = 1, is_max_auto = 1, range_min = Fin 0, range_max = Fin 0\<rparr>"
  let ?c = "\<lparr>history_seconds = Fin 1, spec_nxticks = 0, spec_nyticks = 0, spec_scale = 0, frequency_range = ?r,
     value_range = ?r\<rparr>"
  have f64: "fround f64 (of_int m) = Fin (of_int m)" if "\<bar>m\<bar> < 100" for m
    using round_rat_representable [of m f64 0] that by (simp add: fround_def f64_def max_finite_def Let_def) linarith
  have "sb_sample_rate (fold put_column ?cols demo_history) = 4" "sb_fft_size (fold put_column ?cols demo_history) = 2"
    "sb_total_bins (fold put_column ?cols demo_history) = 2"
    by (simp_all add: put_column_def demo_history_def)
  then obtain b where b: "spectral_bin_range ?c (fold put_column ?cols demo_history) = Some (Some b)"
    using f64 [of 0] f64 [of 1] f64 [of 2] f64 [of 4]
    by (simp add: spectral_bin_range_def of_u32_def trunc_rat_def Let_def)
  have cols: "?cols \<noteq> []" "lastn 2 ?cols = [[(2, 2, 2, 255)], [(3, 3, 3, 255)]]" "length ?cols = 3"
    and w: "(0 :: rat) \<le> 4" by (simp_all add: lastn_def)
  from spectrogram_shows_history [OF ok(1-3) c cols(1) area w b, where i = 0, unfolded ok(4) cols(2,3)]
  show ?thesis by (elim exE conjE) (intro exI conjI, assumption+)
qed

section \<open>Labels\<close>

lemma draw_labels_placed:
  "map fst (draw_labels (placed edges) (\<lambda>previous q. crowded (map_option fst previous) (fst q)) n i previous es)
     = draw_labels edges crowded n i (map_option fst previous) es"
  by (induction es arbitrary: i previous) (simp_all add: placed_def Let_def)

text \<open>The labels that are drawn are at the places of \<^const>\<open>draw_x_labels\<close> and
  \<^const>\<open>draw_y_labels\<close>.\<close>

lemma draw_tick_labels_places:
  fixes p :: PLOT_AREA and density :: cfloat
  assumes "tc_ready cache"
  defines "gap \<equiv> fmul f32 TICK_LABEL_GAP density"
  shows "\<exists>xs ys fx fy. draw_tick_labels p density cache = map fx xs @ map fy ys
    \<and> map fst xs = draw_x_labels (pa_left p) (pa_width p) gap (tc_x cache)
    \<and> map fst ys = draw_y_labels (pa_top p) (pa_bottom p) (pa_heigth p) gap (tc_y cache)
    \<and> (\<forall>e (l :: TEXT_LABEL). \<exists>y. fx (e, l) = RenderTexture (TextTexture (lb_texture l)) None
          (Some \<lparr>fr_x = fst e, fr_y = y, fr_w = lb_width l, fr_h = lb_height l\<rparr>))
    \<and> (\<forall>e (l :: TEXT_LABEL). \<exists>x. fy (e, l) = RenderTexture (TextTexture (lb_texture l)) None
          (Some \<lparr>fr_x = x, fr_y = fst e, fr_w = lb_width l, fr_h = lb_height l\<rparr>))"
proof -
  let ?ex = "x_edges (pa_left p) (pa_width p) (ta_intervals (tc_x cache))"
  let ?ey = "y_edges (pa_bottom p) (pa_heigth p) (ta_intervals (tc_y cache))"
  let ?cx = "\<lambda>previous (left, right). left < fadd f32 (case previous of None \<Rightarrow> NInf | Some q \<Rightarrow> snd q) gap
     \<or> fst (?ex (last (ta_entries (tc_x cache)))) < fadd f32 right gap"
  let ?cy = "\<lambda>previous (top, bottom). (case previous of None \<Rightarrow> PInf | Some q \<Rightarrow> fst q) < fadd f32 bottom gap
     \<or> fsub f32 top gap < fadd f32 (pa_top p) (fmul f32 (lb_height (te_label (last (ta_entries (tc_y cache))))) (Fin (1 / 2)))"
  let ?xs = "draw_labels (placed ?ex) (\<lambda>previous q. ?cx (map_option fst previous) (fst q))
     (length (ta_entries (tc_x cache))) 0 None (ta_entries (tc_x cache))"
  let ?ys = "draw_labels (placed ?ey) (\<lambda>previous q. ?cy (map_option fst previous) (fst q))
     (length (ta_entries (tc_y cache))) 0 None (ta_entries (tc_y cache))"
  have c: "(\<lambda>previous q. ?cx (map_option fst previous) (fst q)) =
      (\<lambda>previous ((left, right), (_ :: TEXT_LABEL)). left < fadd f32 (case previous of None \<Rightarrow> NInf | Some q \<Rightarrow> snd (fst q)) gap
        \<or> fst (?ex (last (ta_entries (tc_x cache)))) < fadd f32 right gap)"
    "(\<lambda>previous q. ?cy (map_option fst previous) (fst q)) =
      (\<lambda>previous ((top, bottom), (_ :: TEXT_LABEL)). (case previous of None \<Rightarrow> PInf | Some q \<Rightarrow> fst (fst q)) < fadd f32 bottom gap
        \<or> fsub f32 top gap < fadd f32 (pa_top p) (fmul f32 (lb_height (te_label (last (ta_entries (tc_y cache))))) (Fin (1 / 2))))"
    by (auto simp: fun_eq_iff split: option.splits)
  have xs: "map fst ?xs = draw_x_labels (pa_left p) (pa_width p) gap (tc_x cache)"
    and ys: "map fst ?ys = draw_y_labels (pa_top p) (pa_bottom p) (pa_heigth p) gap (tc_y cache)"
    using draw_labels_placed [of ?ex ?cx _ 0 None] draw_labels_placed [of ?ey ?cy _ 0 None]
    by (simp_all only: draw_x_labels_def draw_y_labels_def Let_def option.map)
  let ?fx = "\<lambda>((left, right), l :: TEXT_LABEL). RenderTexture (TextTexture (lb_texture l)) None
     (Some \<lparr>fr_x = left, fr_y = fadd f32 (fadd f32 (pa_bottom p) (fmul f32 TICK_MARK_LENGTH density)) gap,
        fr_w = lb_width l, fr_h = lb_height l\<rparr>)"
  let ?fy = "\<lambda>((top, bottom), l :: TEXT_LABEL). RenderTexture (TextTexture (lb_texture l)) None
     (Some \<lparr>fr_x = fsub f32 (fsub f32 (fsub f32 (pa_left p) (fmul f32 TICK_MARK_LENGTH density)) gap) (lb_width l),
        fr_y = top, fr_w = lb_width l, fr_h = lb_height l\<rparr>)"
  have drawn: "draw_tick_labels p density cache = map ?fx ?xs @ map ?fy ?ys"
    using assms(1) unfolding c by (simp add: draw_tick_labels_def gap_def Let_def)
  have fx: "\<forall>e (l :: TEXT_LABEL). \<exists>y. ?fx (e, l) = RenderTexture (TextTexture (lb_texture l)) None
      (Some \<lparr>fr_x = fst e, fr_y = y, fr_w = lb_width l, fr_h = lb_height l\<rparr>)"
    and fy: "\<forall>e (l :: TEXT_LABEL). \<exists>x. ?fy (e, l) = RenderTexture (TextTexture (lb_texture l)) None
      (Some \<lparr>fr_x = x, fr_y = fst e, fr_w = lb_width l, fr_h = lb_height l\<rparr>)" by auto
  show ?thesis by (intro exI conjI) (rule drawn xs ys fx fy)+
qed

end
