(* ===== verification/DrawGraph.thy ===== *)
theory DrawGraph
  imports Plots MainLoop
begin

text \<open>
  A whole frame of a window (\<^verbatim>\<open>render_graph\<close> in \<^verbatim>\<open>src/src/watch_viewer.c\<close>): the calls
  to the renderer together with the graph they leave behind, which is the one of
  \<open>render_view_graph\<close> in \<open>MainLoop\<close>; and the state the renderer is in between two frames.
\<close>

section \<open>A frame\<close>

text \<open>What the host answers: to the calls that prepare the frame, whether the target and the scale can
  be set, and the library functions. The palettes are those of \<open>Colors\<close>.\<close>

record DRAW_HOST = RENDER_HOST +
  target_set :: bool
  scale_set :: bool
  draw_sqrtf :: "cfloat \<Rightarrow> cfloat"
  draw_log10f :: "cfloat \<Rightarrow> cfloat"
  draw_palette :: PALETTE

text \<open>The target of the frame: whether it is supersampled, and the calls that select it.\<close>

definition select_target :: "bool \<Rightarrow> DRAW_HOST \<Rightarrow> bool \<times> draw list" where
  "select_target available h =
     (if available \<and> target_set h \<and> scale_set h
      then (True, [SetRenderTarget True, SetRenderScale RENDER_SUPERSAMPLE_SCALE])
      else (False, (if available \<and> target_set h then [SetRenderTarget True] else [])
             @ [SetRenderTarget False, SetRenderScale 1]))"

definition present_target :: "bool \<Rightarrow> draw list" where
  "present_target supersampled =
     (if supersampled then [SetRenderTarget False, SetRenderScale 1, RenderTexture TargetTexture None None] else [])
     @ [RenderPresent]"

text \<open>The curves of a graph of a time domain.\<close>

definition render_time ::
  "PALETTE \<Rightarrow> cfloat \<Rightarrow> PLOT_AREA \<Rightarrow> WATCH_MSG_TIME_CONFIG \<Rightarrow> u32 \<Rightarrow> bool \<Rightarrow> u64 \<Rightarrow> STREAM_TIME_BUFFER list
     \<Rightarrow> SCOPE_CLOCK \<Rightarrow> (draw list \<times> SCOPE_CLOCK) option" where
  "render_time pal density p c th supersampled now_ns streams clock =
     (let (ymin, ymax) = resolve_scope_range c in
      case (get_plot_clip_rect p, advance_scope_timeline streams now_ns clock) of
        (Some clip, Some (advanced, clock1)) \<Rightarrow>
          map_option (\<lambda>ds. (draw_grid p density (grid_ticks DEFAULT_X_TICKS (time_nxticks c))
                (grid_ticks DEFAULT_Y_TICKS (time_nyticks c)) th
              @ zero_line p ymin ymax th (sample_y p ymin ymax (Fin 0))
              @ [SetRenderClipRect (Some clip)] @ ds @ [SetRenderClipRect None], clock1))
            (if advanced
             then each_stream (\<lambda>i s. draw_scope_stream pal p s i (display_end_sample clock1) supersampled th) 0 streams
             else Some [])
      | _ \<Rightarrow> None)"

text \<open>The content of the plot area by domain, and what it changes in the graph.\<close>

definition render_content ::
  "DRAW_HOST \<Rightarrow> cfloat \<Rightarrow> PLOT_AREA \<Rightarrow> bool \<Rightarrow> VIEW_GRAPH \<Rightarrow> (draw list \<times> VIEW_GRAPH) option" where
  "render_content h density p supersampled g =
     (let c = vg_config g; th = theme c; pal = draw_palette h in
      if is_time_domain (domain c)
      then
        (case vg_scope_streams g of
           None \<Rightarrow> None
         | Some ss \<Rightarrow>
             map_option (\<lambda>(ds, clock). (ds, g\<lparr>vg_clock := clock\<rparr>))
               (render_time pal density p (set_time (settings c)) th supersampled (render_ns h) ss (vg_clock g)))
      else if domain c = WATCH_DOMAIN_SPECTRUM
      then
        (case vg_spectral_streams g of
           None \<Rightarrow> None
         | Some ss \<Rightarrow>
             map_option (\<lambda>ds. (ds, g)) (render_spectrum (draw_sqrtf h) (draw_log10f h) pal density p
               (set_spectral (settings c)) th supersampled ss))
      else if domain c = WATCH_DOMAIN_SPECTROGRAM
      then
        (case vg_spectral_streams g of
           None \<Rightarrow> None
         | Some ss \<Rightarrow> map_option (\<lambda>ds. (ds, g)) (render_spectrogram density p (set_spectral (settings c)) th ss))
      else if domain c = WATCH_DOMAIN_FTABLE
      then
        (case vg_ftable_streams g of
           None \<Rightarrow> None
         | Some ss \<Rightarrow>
             map_option (\<lambda>ds. (ds, g)) (render_ftable pal density p (set_ftable (settings c)) th supersampled ss))
      else if domain c = WATCH_DOMAIN_POINT
      then
        (case vg_point_streams g of
           None \<Rightarrow> None
         | Some ss \<Rightarrow>
             map_option (\<lambda>ds. (ds, g)) (render_point pal density p (set_point (settings c)) th supersampled ss))
      else if domain c = WATCH_DOMAIN_METER
      then
        map_option (\<lambda>(ds, s). (ds, g\<lparr>vg_meter_stream := s\<rparr>))
          (render_meter (render_expf h) pal density p (set_meter (settings c)) th (render_ns h) (vg_meter_stream g))
      else Some ([], g))"

text \<open>The area a graph is drawn in. A graph with labels has both of its names.\<close>

definition graph_plot_area :: "cfloat \<Rightarrow> VIEW_GRAPH \<Rightarrow> PLOT_AREA" where
  "graph_plot_area density g =
     (let plot = get_plot_area density (vg_width g) (vg_heigth g) (lb_height (the (vg_x_axis_label g)))
            (lb_height (the (vg_y_axis_label g))) (vg_tick_labels g) in
      if is_point_domain (domain (vg_config g)) then square_plot_area plot else plot)"

definition render_graph :: "DRAW_HOST \<Rightarrow> VIEW_GRAPH \<Rightarrow> (draw list \<times> VIEW_GRAPH) option" where
  "render_graph h g =
     (let (labelled, g1) = ensure_axis_labels (render_axis_font h) (render_points h) g in
      if \<not> labelled then Some ([], g1)
      else
        let c = vg_config g1; th = theme c;
            density = graph_pixel_density (vg_width g1) (vg_heigth g1) (render_points h) in
        if is_spectral_domain (domain c) \<and> vg_spectral_streams g1 = None then None
        else
          (case ensure_graph_tick_labels (render_tick_font h) c (vg_ftable_streams g1)
              (case vg_spectral_streams g1 of None \<Rightarrow> [] | Some s \<Rightarrow> s) density (vg_tick_labels g1) of
             None \<Rightarrow> None
           | Some (_, cache) \<Rightarrow>
               let (available, g2) = ensure_graph_render_target (target_made h) (target_scaled h)
                     (g1\<lparr>vg_tick_labels := cache\<rparr>);
                   (supersampled, selection) = select_target available h;
                   plot = graph_plot_area density g2;
                   border = \<lparr>fr_x = pa_left plot, fr_y = pa_top plot, fr_w = pa_width plot, fr_h = pa_heigth plot\<rparr> in
               map_option (\<lambda>(content, g3).
                   (selection
                    @ [set_themed_draw_color th 224 255, RenderClear, set_themed_draw_color th 255 255,
                       RenderFillRect border, set_themed_draw_color th 0 255, RenderRect border]
                    @ content
                    @ [set_themed_draw_color th 0 255, RenderRect border]
                    @ draw_tick_labels plot density (vg_tick_labels g3)
                    @ draw_axis_labels plot density (vg_tick_labels g3) (the (vg_x_axis_label g3)) (the (vg_y_axis_label g3))
                    @ present_target supersampled, g3))
                 (render_content h density plot supersampled g2)))"

section \<open>The renderer between frames\<close>

text \<open>The state of SDL's renderer that outlives a frame. The clip rectangle and the scale belong to
  the render target they are set on (\<^verbatim>\<open>include/SDL3/SDL_render.h\<close>: each render target has its
  own clip rectangle, its own scale; \<^verbatim>\<open>SDL_SetRenderTarget\<close> selects the view of the texture or of
  the window), so there is one \<open>RENDER_VIEW\<close> for the window and one for the graph's texture.
  A frame is shown only when the window is the target: \<^verbatim>\<open>SDL_RenderPresent\<close> refuses to present on a
  texture.\<close>

record RENDER_VIEW =
  rv_clip :: "SDL_Rect option"
  rv_scale :: nat

record RENDERER =
  rn_window :: RENDER_VIEW
  rn_texture :: RENDER_VIEW
  rn_target :: bool
  rn_presented :: nat

definition current_view :: "RENDERER \<Rightarrow> RENDER_VIEW" where
  "current_view s = (if rn_target s then rn_texture s else rn_window s)"

definition change_view :: "(RENDER_VIEW \<Rightarrow> RENDER_VIEW) \<Rightarrow> RENDERER \<Rightarrow> RENDERER" where
  "change_view f s =
     (if rn_target s then s\<lparr>rn_texture := f (rn_texture s)\<rparr> else s\<lparr>rn_window := f (rn_window s)\<rparr>)"

fun exec_draw :: "draw \<Rightarrow> RENDERER \<Rightarrow> RENDERER" where
  "exec_draw (SetRenderClipRect r) s = change_view (\<lambda>v. v\<lparr>rv_clip := r\<rparr>) s"
| "exec_draw (SetRenderTarget t) s = s\<lparr>rn_target := t\<rparr>"
| "exec_draw (SetRenderScale n) s = change_view (\<lambda>v. v\<lparr>rv_scale := n\<rparr>) s"
| "exec_draw RenderPresent s = (if rn_target s then s else s\<lparr>rn_presented := rn_presented s + 1\<rparr>)"
| "exec_draw _ s = s"

text \<open>Calls that only draw.\<close>

fun only_draws :: "draw \<Rightarrow> bool" where
  "only_draws (SetRenderClipRect r) = False"
| "only_draws (SetRenderTarget t) = False"
| "only_draws (SetRenderScale n) = False"
| "only_draws RenderPresent = False"
| "only_draws _ = True"

lemma exec_only_draws: "only_draws d \<Longrightarrow> exec_draw d s = s"
  by (cases d) auto

lemma fold_only_draws [simp]: "\<forall>d \<in> set ds. only_draws d \<Longrightarrow> fold exec_draw ds s = s"
  by (induction ds arbitrary: s) (auto simp: exec_only_draws)

text \<open>Every list of calls below only draws, apart from the clip rectangle and the target.\<close>

lemma draw_colors [simp]:
  "only_draws (set_themed_draw_color th l a)" "only_draws (set_stream_draw_color pal th i)"
  "only_draws (set_meter_peak_color pal th)" "only_draws (set_meter_headroom_color pal th)"
  by (simp_all add: set_themed_draw_color_def set_stream_draw_color_def set_meter_peak_color_def
      set_meter_headroom_color_def Let_def)

lemma draw_grid_draws: "d \<in> set (draw_grid p density nx ny th) \<Longrightarrow> only_draws d"
  by (auto simp: draw_grid_def Let_def split: if_splits)

lemma draw_meter_draws: "d \<in> set (draw_meter pal p density channels ny th) \<Longrightarrow> only_draws d"
  by (auto simp: draw_meter_def Let_def split: if_splits)

lemma draw_labels_draws:
  "d \<in> set (draw_tick_labels p density cache) \<Longrightarrow> only_draws d"
  "d \<in> set (draw_axis_labels p density cache x y) \<Longrightarrow> only_draws d"
  by (auto simp: draw_tick_labels_def draw_axis_labels_def Let_def split: if_splits)

lemma waveform_draws:
  "d \<in> set (draw_waveform_line x1 y1 x2 y2 ss) \<Longrightarrow> only_draws d"
  "d \<in> set (draw_waveform_point x y ss) \<Longrightarrow> only_draws d"
  "d \<in> set (draw_scope_vertical x y1 y2 ss) \<Longrightarrow> only_draws d"
  "d \<in> set (draw_scope_polyline ps ss) \<Longrightarrow> only_draws d"
  by (auto simp: draw_waveform_line_def draw_waveform_point_def draw_scope_vertical_def
      draw_scope_polyline_def Let_def)

lemma draw_columns_draws: "d \<in> set (draw_columns ss previous cs) \<Longrightarrow> only_draws d"
  by (induction ss previous cs rule: draw_columns.induct) (auto simp: waveform_draws split: option.splits)

lemma draw_segments_draws: "d \<in> set (draw_segments ss ps) \<Longrightarrow> only_draws d"
  by (induction ss ps rule: draw_segments.induct) (auto simp: waveform_draws)

lemma zero_line_draws: "d \<in> set (zero_line p a b th z) \<Longrightarrow> only_draws d"
  by (auto simp: zero_line_def split: if_splits)

lemmas lists_draw = draw_grid_draws draw_meter_draws draw_labels_draws waveform_draws draw_columns_draws
  draw_segments_draws zero_line_draws

lemma each_stream_draws:
  assumes "each_stream f i ss = Some ds" "\<And>j s es d. f j s = Some es \<Longrightarrow> d \<in> set es \<Longrightarrow> only_draws d"
    "d \<in> set ds"
  shows "only_draws d"
  using assms(1,3)
proof (induction ss arbitrary: i ds)
  case (Cons s ss)
  then show ?case using assms(2) by (fastforce split: option.splits)
qed simp

lemma scope_trace_draws: "d \<in> set (scope_trace p s x_step w first n count ss) \<Longrightarrow> only_draws d"
  by (auto simp: scope_trace_def Let_def lists_draw split: if_split_asm)

lemma draw_scope_stream_draws:
  "draw_scope_stream pal p s i e ss th = Some ds \<Longrightarrow> d \<in> set ds \<Longrightarrow> only_draws d"
  by (auto simp: draw_scope_stream_def Let_def scope_trace_draws split: if_split_asm option.splits prod.splits)

lemma draw_spectrum_stream_draws:
  "draw_spectrum_stream sq lg pal p c th ss i s = Some ds \<Longrightarrow> d \<in> set ds \<Longrightarrow> only_draws d"
  by (auto simp: draw_spectrum_stream_def Let_def lists_draw split: if_splits option.splits)

lemma spectrogram_history_draws:
  "render_spectrogram_history p c i s = Some ds \<Longrightarrow> d \<in> set ds \<Longrightarrow> only_draws d"
  by (auto simp: render_spectrogram_history_def split: if_splits option.splits)

lemma draw_ftable_stream_draws:
  "draw_ftable_stream pal p a b n th ss i s = Some ds \<Longrightarrow> d \<in> set ds \<Longrightarrow> only_draws d"
  by (auto simp: draw_ftable_stream_def Let_def lists_draw split: if_splits)

lemma draw_point_stream_draws:
  "draw_point_stream pal density p xr yr th ss i s = Some ds \<Longrightarrow> d \<in> set ds \<Longrightarrow> only_draws d"
  by (auto simp: draw_point_stream_def Let_def split: if_splits)

lemma draw_meter_channel_draws: "d \<in> set (draw_meter_channel pal density p c th i l k) \<Longrightarrow> only_draws d"
  by (auto simp: draw_meter_channel_def Let_def split: if_splits prod.splits)

lemma meter_turns_draw:
  "(\<forall>d \<in> set (fst acc). only_draws d) \<Longrightarrow>
    \<forall>d \<in> set (fst (fold (meter_turn expf pal density p c th ymin elapsed now_ns) is acc)). only_draws d"
proof (induction "is" arbitrary: acc)
  case (Cons i "is")
  have "\<forall>d \<in> set (fst (meter_turn expf pal density p c th ymin elapsed now_ns i acc)). only_draws d"
    using Cons.prems draw_meter_channel_draws by (auto simp: meter_turn_def Let_def split: prod.splits)
  then show ?case using Cons.IH by simp
qed simp

text \<open>The content of the plot area leaves the renderer as it was.\<close>

definition restores :: "draw list \<Rightarrow> bool" where
  "restores ds \<longleftrightarrow> (\<forall>s. rv_clip (current_view s) = None \<longrightarrow> fold exec_draw ds s = s)"

lemma clip_cleared:
  "rv_clip (current_view s) = None \<Longrightarrow>
    change_view (\<lambda>v. v\<lparr>rv_clip := None\<rparr>) (change_view (\<lambda>v. v\<lparr>rv_clip := r\<rparr>) s) = s"
  by (cases s) (auto simp: current_view_def change_view_def)

lemma restores_draws: "(\<And>d. d \<in> set ds \<Longrightarrow> only_draws d) \<Longrightarrow> restores ds"
  by (simp add: restores_def)

lemma restores_append: "restores xs \<Longrightarrow> restores ys \<Longrightarrow> restores (xs @ ys)"
  by (simp add: restores_def)

lemma restores_clip:
  "(\<And>d. d \<in> set ds \<Longrightarrow> only_draws d) \<Longrightarrow> restores (SetRenderClipRect r # ds @ [SetRenderClipRect None])"
  by (simp add: restores_def clip_cleared)

lemma restores_Cons [simp]: "only_draws d \<Longrightarrow> restores (d # ds) \<longleftrightarrow> restores ds"
  by (simp add: restores_def exec_only_draws)

lemma restores_clip_Nil: "restores [SetRenderClipRect r, SetRenderClipRect None]"
  using restores_clip [of "[]" r] by simp

lemmas restores_intros = restores_append restores_clip restores_clip_Nil

lemma lists_restore [simp]:
  "restores (draw_grid p density nx ny th)" "restores (draw_meter pal p density channels ny th)"
  "restores (zero_line p a b th z)" "restores (draw_tick_labels p density cache)"
  "restores (draw_axis_labels p density cache x y)"
  by (auto intro: restores_draws lists_draw)

lemma each_stream_restores:
  "each_stream f i ss = Some ds \<Longrightarrow> (\<And>j s es d. f j s = Some es \<Longrightarrow> d \<in> set es \<Longrightarrow> only_draws d) \<Longrightarrow> restores ds"
  by (rule restores_draws) (rule each_stream_draws)

lemma render_time_restores:
  "render_time pal density p c th ss now streams clock = Some (ds, clock1) \<Longrightarrow> restores ds"
  by (auto simp: render_time_def split: if_splits option.splits prod.splits
      intro!: restores_intros dest: each_stream_draws [OF _ draw_scope_stream_draws])

lemma render_spectrum_restores:
  "render_spectrum sq lg pal density p c th ss streams = Some ds \<Longrightarrow> restores ds"
  by (auto simp: render_spectrum_def split: option.splits
      intro!: restores_intros dest: each_stream_draws [OF _ draw_spectrum_stream_draws])

lemma render_spectrogram_restores:
  "render_spectrogram density p c th streams = Some ds \<Longrightarrow> restores ds"
  by (auto simp: render_spectrogram_def
      intro!: restores_append dest: each_stream_restores [OF _ spectrogram_history_draws])

lemma render_ftable_restores:
  "render_ftable pal density p c th ss streams = Some ds \<Longrightarrow> restores ds"
  by (auto simp: render_ftable_def Let_def split: option.splits
      intro!: restores_intros dest: each_stream_draws [OF _ draw_ftable_stream_draws])

lemma render_point_restores:
  "render_point pal density p c th ss streams = Some ds \<Longrightarrow> restores ds"
  by (auto simp: render_point_def Let_def split: if_split_asm option.splits prod.splits
      intro!: restores_intros dest: each_stream_draws [OF _ draw_point_stream_draws])

lemma render_meter_restores:
  assumes "render_meter expf pal density p c th now_ns stream = Some (ds, s1)"
  shows "restores ds"
proof -
  have "\<forall>d \<in> set ds. only_draws d" if "fold (meter_turn expf pal density p c th ymin elapsed now_ns) is ([], s) = (ds, s1)"
    for ymin elapsed "is" s ds s1
    using meter_turns_draw [of "([], s)" expf pal density p c th ymin elapsed now_ns "is"] that by simp
  then show ?thesis
    using assms by (auto simp: render_meter_def Let_def split: if_split_asm option.splits prod.splits intro!: restores_intros)
qed

lemma render_content_restores:
  "render_content h density p ss g = Some (ds, g1) \<Longrightarrow> restores ds"
  by (auto simp: render_content_def Let_def restores_def split: if_split_asm option.splits
      dest: render_time_restores [unfolded restores_def] render_spectrum_restores [unfolded restores_def]
        render_spectrogram_restores [unfolded restores_def] render_ftable_restores [unfolded restores_def]
        render_point_restores [unfolded restores_def] render_meter_restores [unfolded restores_def])

section \<open>A frame changes what the main loop says it changes\<close>

lemma meter_turns_release:
  "snd (fold (meter_turn expf pal density p c th ymin elapsed now_ns) is acc)
     = fold (release_peak expf ymin elapsed now_ns) is (snd acc)"
  by (induction "is" arbitrary: acc) (auto simp: meter_turn_def Let_def split: prod.splits)

lemma render_meter_release:
  assumes "render_meter expf pal density p c th now_ns stream = Some (ds, s1)"
  shows "s1 = map_option (release_peaks expf c now_ns) stream"
proof (cases stream)
  case (Some s)
  have "snd (fold (meter_turn expf pal density p c th ymin elapsed now_ns) is ([], s)) = fold (release_peak expf ymin elapsed now_ns) is s"
    for ymin elapsed "is" s using meter_turns_release [of expf pal density p c th ymin elapsed now_ns "is" "([], s)"] by simp
  then show ?thesis
    using assms Some
    by (auto simp: render_meter_def release_peaks_def Let_def split: if_split_asm option.splits prod.splits) (metis snd_conv)+
qed (use assms in \<open>auto simp: render_meter_def Let_def split: prod.splits\<close>)

lemma render_time_clock:
  "render_time pal density p c th ss now streams clock = Some (ds, clock1) \<Longrightarrow>
    \<exists>advanced. advance_scope_timeline streams now clock = Some (advanced, clock1)"
  by (auto simp: render_time_def split: if_split_asm option.splits prod.splits)

lemma render_content_graph:
  assumes "render_content h density p ss g = Some (ds, g1)"
  shows "if is_time_domain (domain (vg_config g))
    then \<exists>ss advanced clock. vg_scope_streams g = Some ss
      \<and> advance_scope_timeline ss (render_ns h) (vg_clock g) = Some (advanced, clock) \<and> g1 = g\<lparr>vg_clock := clock\<rparr>
    else if domain (vg_config g) = WATCH_DOMAIN_METER
    then g1 = g\<lparr>vg_meter_stream := map_option
      (release_peaks (render_expf h) (set_meter (settings (vg_config g))) (render_ns h)) (vg_meter_stream g)\<rparr>
    else g1 = g"
  using assms
  by (auto simp: render_content_def Let_def domain_defs split: if_split_asm option.splits
      dest!: render_time_clock render_meter_release)

lemma graph_kept:
  assumes "ensure_axis_labels lh points g = (True, g1)"
  shows "vg_scope_streams g1 = vg_scope_streams g"
  using assms by (auto simp: ensure_axis_labels_def prepare_axis_labels_def Let_def split: if_split_asm option.splits)

lemma render_graph_view:
  assumes "render_graph h g = Some (ds, g1)"
  shows "render_view_graph (RENDER_HOST.truncate h) g = Some g1"
proof -
  obtain labelled g2 where l: "ensure_axis_labels (render_axis_font h) (render_points h) g = (labelled, g2)"
    by (cases "ensure_axis_labels (render_axis_font h) (render_points h) g")
  show ?thesis
  proof (cases labelled)
    case False
    then show ?thesis using assms l by (simp add: render_graph_def render_view_graph_def RENDER_HOST.defs)
  next
    case True
    define density where "density = graph_pixel_density (vg_width g2) (vg_heigth g2) (render_points h)"
    obtain b cache where cache: "ensure_graph_tick_labels (render_tick_font h) (vg_config g2) (vg_ftable_streams g2)
        (case vg_spectral_streams g2 of None \<Rightarrow> [] | Some s \<Rightarrow> s) density (vg_tick_labels g2) = Some (b, cache)"
      and spectral: "\<not> (is_spectral_domain (domain (vg_config g2)) \<and> vg_spectral_streams g2 = None)"
      using assms l True by (auto simp: render_graph_def density_def Let_def split: if_split_asm option.splits)
    obtain available g3 where target: "ensure_graph_render_target (target_made h) (target_scaled h)
        (g2\<lparr>vg_tick_labels := cache\<rparr>) = (available, g3)"
      by (cases "ensure_graph_render_target (target_made h) (target_scaled h) (g2\<lparr>vg_tick_labels := cache\<rparr>)")
    have same: "vg_config g3 = vg_config g2" "vg_scope_streams g3 = vg_scope_streams g2"
      using target by (auto simp: ensure_graph_render_target_def Let_def split: if_split_asm)
    obtain ss content where content: "render_content h density (graph_plot_area density g3) ss g3 = Some (content, g1)"
      using assms l True cache spectral target
      by (auto simp: render_graph_def density_def Let_def split: prod.splits option.splits)
    show ?thesis
      using render_content_graph [OF content] l True cache spectral target same
      by (auto simp: render_view_graph_def RENDER_HOST.defs density_def Let_def split: if_split_asm)
  qed
qed

lemma select_target_exec:
  assumes "select_target available h = (ss, sel)" and "rv_scale (rn_window s) = 1"
  shows "fold exec_draw sel s =
    (if ss then s\<lparr>rn_target := True, rn_texture := (rn_texture s)\<lparr>rv_scale := RENDER_SUPERSAMPLE_SCALE\<rparr>\<rparr>
     else s\<lparr>rn_target := False\<rparr>)"
  using assms by (auto simp: select_target_def change_view_def split: if_split_asm)

lemma present_target_exec:
  "rn_target s = ss \<Longrightarrow> rv_scale (rn_window s) = 1 \<Longrightarrow>
    fold exec_draw (present_target ss) s = s\<lparr>rn_target := False, rn_presented := rn_presented s + 1\<rparr>"
  by (auto simp: present_target_def change_view_def)

text \<open>A renderer as it is between frames: the window is the target, drawn to at scale 1, and neither
  the window nor the texture clips. (The texture keeps the scale it was last drawn with; every frame
  that draws to it sets it again.)\<close>

definition idle :: "RENDERER \<Rightarrow> bool" where
  "idle s \<longleftrightarrow> \<not> rn_target s \<and> rv_scale (rn_window s) = 1
     \<and> rv_clip (rn_window s) = None \<and> rv_clip (rn_texture s) = None"

text \<open>C12: Whatever graph is drawn and however the host answers, a frame leaves the renderer ready for
  the next: the window is its target again, at scale 1, and neither the window nor the texture keeps
  a clip rectangle. When the names of the graph's axes can be made the frame presents exactly once,
  as its last call and on the window; when they cannot, it makes no call at all. The graph it leaves
  behind is the one the main loop goes on with.\<close>

theorem render_graph_restores:
  assumes "render_graph h g = Some (ds, g1)" and "idle s"
  defines "shown \<equiv> fst (ensure_axis_labels (render_axis_font h) (render_points h) g)"
  shows "idle (fold exec_draw ds s)
    \<and> rn_window (fold exec_draw ds s) = rn_window s
    \<and> rn_presented (fold exec_draw ds s) = rn_presented s + (if shown then 1 else 0)
    \<and> (if shown then last ds = RenderPresent else ds = [])
    \<and> render_view_graph (RENDER_HOST.truncate h) g = Some g1"
proof -
  obtain labelled g2 where l: "ensure_axis_labels (render_axis_font h) (render_points h) g = (labelled, g2)"
    by (cases "ensure_axis_labels (render_axis_font h) (render_points h) g")
  have "idle (fold exec_draw ds s) \<and> rn_window (fold exec_draw ds s) = rn_window s
    \<and> rn_presented (fold exec_draw ds s) = rn_presented s + (if labelled then 1 else 0)
    \<and> (if labelled then last ds = RenderPresent else ds = [])"
  proof (cases labelled)
    case False
    then show ?thesis using assms(1,2) l by (simp add: render_graph_def)
  next
    case True
    obtain density plot ss content sel available g3 g4 pre post where
      content: "render_content h density plot ss g3 = Some (content, g4)"
      and sel: "select_target available h = (ss, sel)"
      and ds: "ds = sel @ pre @ content @ post @ present_target ss" "restores pre" "restores post"
    proof -
      from assms(1) l True obtain density plot ss content sel available g3 g4 where
        "render_content h density plot ss g3 = Some (content, g4)" "select_target available h = (ss, sel)"
        and "ds = sel @ [set_themed_draw_color (theme (vg_config g2)) 224 255, RenderClear,
            set_themed_draw_color (theme (vg_config g2)) 255 255,
            RenderFillRect \<lparr>fr_x = pa_left plot, fr_y = pa_top plot, fr_w = pa_width plot, fr_h = pa_heigth plot\<rparr>,
            set_themed_draw_color (theme (vg_config g2)) 0 255,
            RenderRect \<lparr>fr_x = pa_left plot, fr_y = pa_top plot, fr_w = pa_width plot, fr_h = pa_heigth plot\<rparr>]
          @ content
          @ ([set_themed_draw_color (theme (vg_config g2)) 0 255,
              RenderRect \<lparr>fr_x = pa_left plot, fr_y = pa_top plot, fr_w = pa_width plot, fr_h = pa_heigth plot\<rparr>]
            @ draw_tick_labels plot density (vg_tick_labels g4)
            @ draw_axis_labels plot density (vg_tick_labels g4) (the (vg_x_axis_label g4)) (the (vg_y_axis_label g4)))
          @ present_target ss"
        by (auto simp: render_graph_def Let_def split: if_split_asm option.splits prod.splits)
      then show thesis
        by (rule that) (auto intro: restores_append simp: restores_def [of "[]"])
    qed
    define s1 where "s1 = fold exec_draw sel s"
    have s1: "s1 = (if ss then s\<lparr>rn_target := True, rn_texture := (rn_texture s)\<lparr>rv_scale := RENDER_SUPERSAMPLE_SCALE\<rparr>\<rparr>
        else s\<lparr>rn_target := False\<rparr>)"
      using select_target_exec [OF sel] assms(2) by (simp add: s1_def idle_def)
    then have "rv_clip (current_view s1) = None" using assms(2) by (simp add: current_view_def idle_def)
    then have "fold exec_draw (pre @ content @ post) s1 = s1"
      using ds(2,3) render_content_restores [OF content] by (simp add: restores_def)
    then have "fold exec_draw ds s = fold exec_draw (present_target ss) s1" by (simp add: ds(1) s1_def)
    also have "\<dots> = s1\<lparr>rn_target := False, rn_presented := rn_presented s1 + 1\<rparr>"
      using present_target_exec [of s1 ss] s1 assms(2) by (simp add: idle_def)
    finally show ?thesis using s1 assms(2) True ds(1) by (simp add: idle_def present_target_def)
  qed
  then show ?thesis using render_graph_view [OF assms(1)] l by (simp add: shown_def)
qed

text \<open>A meter that has not received anything yet, in a window with labels.\<close>

definition demo_label :: TEXT_LABEL where
  "demo_label = \<lparr>lb_texture = AxisName ''Channel'', lb_width = Fin 40, lb_height = Fin 12\<rparr>"

definition demo_meter :: VIEW_GRAPH where
  "demo_meter = (blank_graph (zero_config\<lparr>domain := WATCH_DOMAIN_METER\<rparr>) (demo_endpoint 5000))
     \<lparr>vg_axis_label_density := Fin 1, vg_x_axis_label := Some demo_label, vg_y_axis_label := Some demo_label,
      vg_meter_stream := Some zero_meter\<rparr>"

definition demo_draw_host :: DRAW_HOST where
  "demo_draw_host = \<lparr>render_axis_font = demo_font, render_tick_font = demo_font\<lparr>font_opens := False\<rparr>,
     render_points = None, target_made = True, target_scaled = True, render_ns = 0, render_expf = (\<lambda>x. x),
     target_set = True, scale_set = False, draw_sqrtf = (\<lambda>x. x), draw_log10f = (\<lambda>x. x),
     draw_palette = \<lparr>pl_streams = (\<lambda>i. ((0, 0, 0), (0, 0, 0))), pl_peak = ((0, 0, 0), (0, 0, 0))\<rparr>\<rparr>"

definition demo_renderer :: "nat \<Rightarrow> RENDERER" where
  "demo_renderer n = \<lparr>rn_window = \<lparr>rv_clip = None, rv_scale = 1\<rparr>, rn_texture = \<lparr>rv_clip = None, rv_scale = 2\<rparr>,
     rn_target = False, rn_presented = n\<rparr>"

theorem render_graph_restores_witness:
  "\<exists>ds g1 r. render_graph demo_draw_host demo_meter = Some (ds, g1)
    \<and> r = fold exec_draw ds (demo_renderer 7) \<and> idle r \<and> rn_presented r = 8"
proof -
  have "fround f32 (1 / 100) = Fin (5368709 / 536870912)"
    by (rule fround_f32_at [where k = 30 and m = 10737418]) simp_all
  then have l: "ensure_axis_labels (render_axis_font demo_draw_host) (render_points demo_draw_host) demo_meter = (True, demo_meter)"
    by (simp add: ensure_axis_labels_def demo_meter_def demo_draw_host_def graph_pixel_density_def fsub_def fround_def
        max_finite_f32_pos [THEN less_not_sym] max_finite_f32_pos [THEN less_imp_not_less])
  have "domain (vg_config demo_meter) = WATCH_DOMAIN_METER" "vg_meter_stream demo_meter = Some zero_meter"
    by (simp_all add: demo_meter_def blank_graph_def zero_config_def)
  then have "render_graph demo_draw_host demo_meter \<noteq> None"
    using l
    by (auto simp: render_graph_def ensure_graph_tick_labels_def ensure_tick_labels_def prepare_tick_labels_def
        demo_draw_host_def render_content_def render_meter_def zero_meter_def ensure_graph_render_target_def
        domain_defs Let_def split: option.splits prod.splits)
  then obtain ds g1 where r: "render_graph demo_draw_host demo_meter = Some (ds, g1)" by auto
  show ?thesis
    using render_graph_restores [OF r, of "demo_renderer 7"] r l
    by (auto simp: idle_def demo_renderer_def)
qed

end
