(* ===== verification/Windows.thy ===== *)
theory Windows
  imports Launch Socket
begin

text \<open>
  The Windows variants of \<^verbatim>\<open>src/src/watch_process.c\<close> and \<^verbatim>\<open>src/src/watch_socket.c\<close>. Paths are
  strings of 16-bit units; the functions of the system that fill a buffer are parameters that give
  the length they return and the text they leave. The search is shown to take the first usable
  program in the order \<^verbatim>\<open>watch_process.h\<close> documents, and opening the viewer's socket to leave
  none behind when it fails.
\<close>

section \<open>Paths\<close>

type_synonym wide = "16 word list"

abbreviation wide_text :: "string \<Rightarrow> wide" where "wide_text \<equiv> map of_char"

abbreviation WATCH_PROCESS_PATH_CAPACITY :: "'a::numeral" where "WATCH_PROCESS_PATH_CAPACITY \<equiv> 32768"

definition viewer_fname_w :: wide where
  "viewer_fname_w = wide_text ''watch_viewer.exe''"

definition risset_suffix_w :: wide where
  "risset_suffix_w = wide_text [CHR 0x5C] @ wide_text ''risset'' @ wide_text [CHR 0x5C] @ wide_text ''assets''
     @ wide_text [CHR 0x5C] @ wide_text ''watch'' @ wide_text [CHR 0x5C] @ viewer_fname_w"

lemma viewer_fname_w_length [simp]: "length viewer_fname_w = 16"
  by (simp add: viewer_fname_w_def)

lemma risset_suffix_w_length [simp]: "length risset_suffix_w = 37"
  by (simp add: risset_suffix_w_def)

abbreviation INVALID_FILE_ATTRIBUTES :: u32 where "INVALID_FILE_ATTRIBUTES \<equiv> 0xFFFFFFFF"
abbreviation FILE_ATTRIBUTE_DIRECTORY :: u32 where "FILE_ATTRIBUTE_DIRECTORY \<equiv> 0x10"
abbreviation ERROR_FILE_NOT_FOUND :: int where "ERROR_FILE_NOT_FOUND \<equiv> 2"

text \<open>The system's answers. The functions with a buffer are asked for \<^verbatim>\<open>32768\<close> units and return a
  length and the text of the buffer; \<open>CreateProcessW\<close> answers an error code or none.\<close>

record WIN_HOST =
  GetFileAttributesW :: "wide \<Rightarrow> u32"
  GetModuleHandleExW :: bool
  GetModuleFileNameW :: "nat \<times> wide"
  GetEnvironmentVariableW :: "string \<Rightarrow> nat \<times> wide"
  SearchPathW :: "wide \<Rightarrow> nat \<times> wide"
  CreateProcessW :: "wide \<Rightarrow> u32 option"

definition existing_file :: "WIN_HOST \<Rightarrow> wide \<Rightarrow> bool" where
  "existing_file h path =
     (let attributes = GetFileAttributesW h path in
      attributes \<noteq> INVALID_FILE_ATTRIBUTES \<and> attributes AND FILE_ATTRIBUTE_DIRECTORY = 0)"

definition is_separator :: "16 word \<Rightarrow> bool" where
  "is_separator c \<longleftrightarrow> c = 0x5C \<or> c = 0x2F"

text \<open>The offset behind the last separator of the first \<open>n\<close> units.\<close>

primrec separator_loop :: "wide \<Rightarrow> nat \<Rightarrow> nat" where
  "separator_loop path 0 = 0"
| "separator_loop path (Suc n) = (if \<not> is_separator (path ! n) then separator_loop path n else Suc n)"

definition sibling_viewer_path_w :: "WIN_HOST \<Rightarrow> wide option" where
  "sibling_viewer_path_w h =
     (if \<not> GetModuleHandleExW h then None
      else
        let (len, path) = GetModuleFileNameW h in
        if len = 0 \<or> len \<ge> WATCH_PROCESS_PATH_CAPACITY then None
        else
          let directory_length = separator_loop path len in
          if directory_length = 0 then None
          else if directory_length + length viewer_fname_w \<ge> WATCH_PROCESS_PATH_CAPACITY then None
          else
            let path1 = take directory_length path @ viewer_fname_w in
            if existing_file h path1 then Some path1 else None)"

definition risset_viewer_path_w :: "WIN_HOST \<Rightarrow> wide option" where
  "risset_viewer_path_w h =
     (let (len, path) = GetEnvironmentVariableW h ''LOCALAPPDATA'' in
      if len = 0 \<or> len \<ge> WATCH_PROCESS_PATH_CAPACITY then None
      else if len + length risset_suffix_w \<ge> WATCH_PROCESS_PATH_CAPACITY then None
      else
        let path1 = take len path @ risset_suffix_w in
        if existing_file h path1 then Some path1 else None)"

definition resolve_viewer_path_w :: "WIN_HOST \<Rightarrow> wide option" where
  "resolve_viewer_path_w h =
     (let (environment_length, path) = GetEnvironmentVariableW h ''CSOUND_WATCH_VIEWER'' in
      if environment_length > 0 \<and> environment_length < WATCH_PROCESS_PATH_CAPACITY \<and> existing_file h path
      then Some path
      else
        (case sibling_viewer_path_w h of
           Some path \<Rightarrow> Some path
         | None \<Rightarrow>
             (case risset_viewer_path_w h of
                Some path \<Rightarrow> Some path
              | None \<Rightarrow>
                  let (len, path) = SearchPathW h viewer_fname_w in
                  if len > 0 \<and> len < WATCH_PROCESS_PATH_CAPACITY \<and> existing_file h path
                  then Some path else None)))"

text \<open>The program that runs, and the handles the plugin holds.\<close>

record WIN_STATE =
  running :: "wide option"
  handles :: nat

definition CloseHandle :: "WIN_STATE \<Rightarrow> WIN_STATE" where
  "CloseHandle w = w\<lparr>handles := handles w - 1\<rparr>"

text \<open>A new process comes with a handle of its own and one of its thread. The result is zero or an
  error code, cast to \<^verbatim>\<open>int32_t\<close>.\<close>

definition watch_process_launch_viewer_w :: "WIN_HOST \<Rightarrow> WIN_STATE \<Rightarrow> int \<times> WIN_STATE" where
  "watch_process_launch_viewer_w h w =
     (case resolve_viewer_path_w h of
        None \<Rightarrow> (ERROR_FILE_NOT_FOUND, w)
      | Some executable \<Rightarrow>
          (case CreateProcessW h executable of
             Some error_code \<Rightarrow> (sint error_code, w)
           | None \<Rightarrow> (0, CloseHandle (CloseHandle (w\<lparr>running := Some executable, handles := handles w + 2\<rparr>)))))"

section \<open>The first usable program is started\<close>

text \<open>The documented answer of a function that copies a text to a buffer: zero for no text, its length
  when it fits with the terminator, else at least the capacity.\<close>

definition answers :: "nat \<times> wide \<Rightarrow> wide option \<Rightarrow> bool" where
  "answers answer t \<longleftrightarrow>
     (case t of
        None \<Rightarrow> fst answer = 0
      | Some t \<Rightarrow>
          if length t < WATCH_PROCESS_PATH_CAPACITY then answer = (length t, t)
          else fst answer \<ge> WATCH_PROCESS_PATH_CAPACITY)"

text \<open>What is on the machine: its environment, the file of the plugin, the program found in
  \<^verbatim>\<open>PATH\<close>.\<close>

record WIN_FACTS =
  environment :: "string \<Rightarrow> wide option"
  module_file :: "wide option"
  found_in_path :: "wide option"

definition documented :: "WIN_HOST \<Rightarrow> WIN_FACTS \<Rightarrow> bool" where
  "documented h e \<longleftrightarrow>
     (\<forall>v. answers (GetEnvironmentVariableW h v) (environment e v))
     \<and> (if GetModuleHandleExW h then answers (GetModuleFileNameW h) (module_file e) else module_file e = None)
     \<and> answers (SearchPathW h viewer_fname_w) (found_in_path e)"

definition text_fits :: "wide \<Rightarrow> bool" where
  "text_fits t \<longleftrightarrow> t \<noteq> [] \<and> length t < WATCH_PROCESS_PATH_CAPACITY"

text \<open>The directory of a file with its separator, empty when the name has none.\<close>

definition directory_of :: "wide \<Rightarrow> wide" where
  "directory_of f = rev (dropWhile (\<lambda>c. \<not> is_separator c) (rev f))"

definition texts :: "(wide \<Rightarrow> wide) \<Rightarrow> wide option \<Rightarrow> wide list" where
  "texts g t = (case t of None \<Rightarrow> [] | Some t \<Rightarrow> if text_fits t then [g t] else [])"

text \<open>The programs that are considered, in the documented order.\<close>

definition candidates_w :: "WIN_FACTS \<Rightarrow> wide list" where
  "candidates_w e =
     filter text_fits
       (texts id (environment e ''CSOUND_WATCH_VIEWER'')
        @ (if texts directory_of (module_file e) = [[]] then []
           else map (\<lambda>d. d @ viewer_fname_w) (texts directory_of (module_file e)))
        @ texts (\<lambda>t. t @ risset_suffix_w) (environment e ''LOCALAPPDATA'')
        @ texts id (found_in_path e))"

lemma separator_loop_take: "n \<le> length f \<Longrightarrow> take (separator_loop f n) f = directory_of (take n f)"
  by (induction n) (auto simp: directory_of_def take_Suc_conv_app_nth)

lemma separator_loop_le: "separator_loop f n \<le> n"
  by (induction n) auto

lemma separator_loop_directory: "separator_loop f (length f) = length (directory_of f)"
  using arg_cong [OF separator_loop_take [of "length f" f], of length] separator_loop_le [of f "length f"] by simp

lemma answers_texts:
  assumes "answers (len, path) t"
  shows "(if len = 0 \<or> len \<ge> WATCH_PROCESS_PATH_CAPACITY then [] else [g path]) = texts g t"
    "\<not> (len = 0 \<or> len \<ge> WATCH_PROCESS_PATH_CAPACITY) \<Longrightarrow> t = Some path \<and> len = length path \<and> text_fits path"
    "len = 0 \<or> len \<ge> WATCH_PROCESS_PATH_CAPACITY \<Longrightarrow> texts g t = []"
  using assms by (auto simp: answers_def texts_def text_fits_def split: option.splits if_splits)

text \<open>One attempt: the text the system gives, completed to a program, when it exists.\<close>

lemma find_texts:
  assumes "answers (len, path) t"
  shows "find (existing_file h) (filter text_fits (texts g t)) =
    (if len = 0 \<or> len \<ge> WATCH_PROCESS_PATH_CAPACITY \<or> \<not> text_fits (g path) then None
     else if existing_file h (g path) then Some (g path) else None)"
  using assms by (auto simp: answers_def texts_def text_fits_def split: option.splits if_splits)

lemma sibling_w_first:
  assumes "documented h e"
  shows "sibling_viewer_path_w h = find (existing_file h) (filter text_fits
     (if texts directory_of (module_file e) = [[]] then []
      else map (\<lambda>d. d @ viewer_fname_w) (texts directory_of (module_file e))))"
proof (cases "GetModuleHandleExW h")
  case True
  obtain len path where g: "GetModuleFileNameW h = (len, path)" by fastforce
  then have a: "answers (len, path) (module_file e)" using assms True by (simp add: documented_def)
  show ?thesis
  proof (cases "len = 0 \<or> len \<ge> WATCH_PROCESS_PATH_CAPACITY")
    case True
    then show ?thesis using answers_texts(3) [OF a True] \<open>GetModuleHandleExW h\<close> g
      by (simp add: sibling_viewer_path_w_def)
  next
    case False
    note t = answers_texts(2) [OF a False]
    then have d: "take (separator_loop path len) path = directory_of path"
      using separator_loop_take [of len path] by simp
    show ?thesis using t False d \<open>GetModuleHandleExW h\<close> g
      by (auto simp: sibling_viewer_path_w_def texts_def text_fits_def separator_loop_directory Let_def)
  qed
next
  case False
  then show ?thesis using assms by (simp add: sibling_viewer_path_w_def documented_def texts_def)
qed

lemma risset_w_first:
  assumes "documented h e"
  shows "risset_viewer_path_w h = find (existing_file h) (filter text_fits
     (texts (\<lambda>t. t @ risset_suffix_w) (environment e ''LOCALAPPDATA'')))"
proof -
  obtain len path where g: "GetEnvironmentVariableW h ''LOCALAPPDATA'' = (len, path)" by fastforce
  then have a: "answers (len, path) (environment e ''LOCALAPPDATA'')" using assms unfolding documented_def by metis
  show ?thesis using answers_texts(2) [OF a]
    by (subst find_texts [OF a]) (auto simp: risset_viewer_path_w_def g Let_def text_fits_def)
qed

lemma resolve_w_first:
  assumes "documented h e"
  shows "resolve_viewer_path_w h = find (existing_file h) (candidates_w e)"
proof -
  obtain l1 p1 where g1: "GetEnvironmentVariableW h ''CSOUND_WATCH_VIEWER'' = (l1, p1)" by fastforce
  obtain l2 p2 where g2: "SearchPathW h viewer_fname_w = (l2, p2)" by fastforce
  have a: "answers (l1, p1) (environment e ''CSOUND_WATCH_VIEWER'')" "answers (l2, p2) (found_in_path e)"
    using assms unfolding documented_def g1 [symmetric] g2 [symmetric] by auto
  note t = answers_texts(2) [OF a(1)] answers_texts(2) [OF a(2)]
  show ?thesis
    unfolding candidates_w_def filter_append find_append sibling_w_first [OF assms, symmetric]
      risset_w_first [OF assms, symmetric] find_texts [OF a(1)] find_texts [OF a(2)] resolve_viewer_path_w_def
    using t by (auto simp: g1 g2 split: option.splits)
qed

text \<open>The program that is started is the first existing one of the documented places, the call
  reports its absence or the error of the system, and no handle stays open.\<close>

theorem windows_launch_first_candidate:
  assumes "documented h e"
  shows "watch_process_launch_viewer_w h w =
    (case find (existing_file h) (candidates_w e) of
       None \<Rightarrow> (ERROR_FILE_NOT_FOUND, w)
     | Some p \<Rightarrow>
         (case CreateProcessW h p of
            Some error_code \<Rightarrow> (sint error_code, w)
          | None \<Rightarrow> (0, w\<lparr>running := Some p\<rparr>)))"
  by (simp add: watch_process_launch_viewer_w_def resolve_w_first [OF assms] CloseHandle_def split: option.split)

theorem windows_launch_first_candidate_witness:
  "fst (watch_process_launch_viewer_w
      \<lparr>GetFileAttributesW = (\<lambda>p. if p = wide_text ''C:/watch_viewer.exe'' then 0x20 else 0x10),
       GetModuleHandleExW = True, GetModuleFileNameW = (8, wide_text ''C:/w.dll''),
       GetEnvironmentVariableW = (\<lambda>v. (40000, [])), SearchPathW = (\<lambda>f. (0, [])), CreateProcessW = (\<lambda>p. None)\<rparr>
      \<lparr>running = None, handles = 0\<rparr>) = 0"
proof -
  let ?h = "\<lparr>GetFileAttributesW = (\<lambda>p. if p = wide_text ''C:/watch_viewer.exe'' then 0x20 else 0x10),
       GetModuleHandleExW = True, GetModuleFileNameW = (8, wide_text ''C:/w.dll''),
       GetEnvironmentVariableW = (\<lambda>v. (40000, [])), SearchPathW = (\<lambda>f. (0, [])), CreateProcessW = (\<lambda>p. None)\<rparr>"
  let ?e = "\<lparr>environment = (\<lambda>v. Some (replicate 40000 1)), module_file = Some (wide_text ''C:/w.dll''),
       found_in_path = None\<rparr>"
  have d: "documented ?h ?e" by (simp add: documented_def answers_def)
  have "candidates_w ?e = [wide_text ''C:/watch_viewer.exe'']"
    by (simp add: candidates_w_def texts_def text_fits_def directory_of_def is_separator_def viewer_fname_w_def)
  then show ?thesis
    unfolding windows_launch_first_candidate [OF d] by (simp add: existing_file_def)
qed

section \<open>Sockets\<close>

abbreviation WSAEINVAL :: int where "WSAEINVAL \<equiv> 10022"
abbreviation WSAEWOULDBLOCK :: int where "WSAEWOULDBLOCK \<equiv> 10035"

text \<open>The answers of Winsock, an error code or none; the last error is the state's \<open>errno\<close>.
  \<open>WSAStartup\<close> is counted by the system, and so are the cleanups.\<close>

record WSA_HOST =
  WSAStartup_answer :: int
  wsa_socket_error :: "int option"
  wsa_pton_matches :: bool
  wsa_bind_error :: "int option"
  ioctlsocket_error :: "int option"
  closesocket_error :: "int option"

definition watch_net_init_w :: "WSA_HOST \<Rightarrow> nat \<Rightarrow> int \<times> nat" where
  "watch_net_init_w h uses = (if WSAStartup_answer h = 0 then (0, uses + 1) else (- 1, uses))"

definition watch_net_cleanup_w :: "nat \<Rightarrow> nat" where
  "watch_net_cleanup_w uses = uses - 1"

definition watch_socket_last_error :: "SOCKET_STATE \<Rightarrow> int" where
  "watch_socket_last_error w = errno w"

definition watch_socket_close_w :: "WSA_HOST \<Rightarrow> SOCKET_STATE \<Rightarrow> int \<times> SOCKET_STATE" where
  "watch_socket_close_w h w =
     (case closesocket_error h of
        None \<Rightarrow> (0, w\<lparr>fd_open := False\<rparr>)
      | Some e \<Rightarrow> (- 1, w\<lparr>fd_open := False, errno := e\<rparr>))"

definition watch_socket_set_nonblocking_w :: "WSA_HOST \<Rightarrow> SOCKET_STATE \<Rightarrow> int \<times> SOCKET_STATE" where
  "watch_socket_set_nonblocking_w h w =
     (case ioctlsocket_error h of None \<Rightarrow> (0, w) | Some e \<Rightarrow> (- 1, w\<lparr>errno := e\<rparr>))"

definition watch_socket_udp_bind_w :: "WSA_HOST \<Rightarrow> string option \<Rightarrow> SOCKET_STATE \<Rightarrow> bool \<times> SOCKET_STATE" where
  "watch_socket_udp_bind_w h address w =
     (if address = None then (False, watch_socket_set_error WSAEINVAL w)
      else
        (case wsa_socket_error h of
           Some e \<Rightarrow> (False, w\<lparr>errno := e\<rparr>)
         | None \<Rightarrow>
             let w1 = w\<lparr>fd_open := True\<rparr> in
             if \<not> wsa_pton_matches h
             then (False, watch_socket_set_error WSAEINVAL (snd (watch_socket_close_w h w1)))
             else
               (case wsa_bind_error h of
                  Some e \<Rightarrow>
                    let w2 = w1\<lparr>errno := e\<rparr>; error_code = watch_socket_last_error w2 in
                    (False, watch_socket_set_error error_code (snd (watch_socket_close_w h w2)))
                | None \<Rightarrow>
                    let (r, w2) = watch_socket_set_nonblocking_w h w1 in
                    if r \<noteq> 0
                    then let error_code = watch_socket_last_error w2 in
                      (False, watch_socket_set_error error_code (snd (watch_socket_close_w h w2)))
                    else (True, w2))))"

text \<open>\<open>recvfrom\<close> and \<open>sendto\<close> return an \<^verbatim>\<open>int\<close>, or the error behind \<^verbatim>\<open>SOCKET_ERROR\<close>.\<close>

definition watch_socket_receive_from_w ::
  "(u32 \<Rightarrow> int + int \<times> watch_endpoint) \<Rightarrow> bool \<Rightarrow> bool \<Rightarrow> u32 \<Rightarrow> watch_endpoint \<Rightarrow> SOCKET_STATE
     \<Rightarrow> int \<times> watch_endpoint \<times> SOCKET_STATE" where
  "watch_socket_receive_from_w recvfrom buffer_null sender_null capacity sender w =
     (if buffer_null \<or> sender_null \<or> capacity = 0 \<or> capacity > 2147483647
      then (- 1, sender, watch_socket_set_error WSAEINVAL w)
      else
        let cleared = \<lparr>sa_family = 0, sin_port = 0, sin_addr = 0, sin6_port = 0, sin6_scope_id = 0,
              sin6_addr = replicate 16 0, ep_size = 128\<rparr> in
        (case recvfrom capacity of
           Inl e \<Rightarrow> (- 1, cleared, w\<lparr>errno := e\<rparr>)
         | Inr (received, s) \<Rightarrow> (received, s, w)))"

definition watch_socket_send_to_w ::
  "(u32 \<Rightarrow> int + int) \<Rightarrow> bool \<Rightarrow> bool \<Rightarrow> u32 \<Rightarrow> SOCKET_STATE \<Rightarrow> int \<times> SOCKET_STATE" where
  "watch_socket_send_to_w sendto buffer_null destination_null n w =
     (if buffer_null \<or> destination_null \<or> n = 0 \<or> n > 2147483647
      then (- 1, watch_socket_set_error WSAEINVAL w)
      else
        (case sendto n of
           Inl e \<Rightarrow> (- 1, w\<lparr>errno := e\<rparr>)
         | Inr taken \<Rightarrow> (if taken = sint n then 0 else - 1, w)))"

definition watch_socket_would_block_w :: "int \<Rightarrow> bool" where
  "watch_socket_would_block_w error_code \<longleftrightarrow> error_code = WSAEWOULDBLOCK"

definition bind_failure_w :: "WSA_HOST \<Rightarrow> string option \<Rightarrow> int option" where
  "bind_failure_w h address = first_error
     [if address = None then Some WSAEINVAL else None, wsa_socket_error h,
      if wsa_pton_matches h then None else Some WSAEINVAL, wsa_bind_error h, ioctlsocket_error h]"

lemmas socket_w_defs = watch_socket_close_w_def watch_socket_set_nonblocking_w_def watch_socket_last_error_def
  watch_socket_set_error_def

theorem udp_bind_w_cleans_up:
  assumes "\<not> fd_open w" "watch_socket_udp_bind_w h address w = (opened, w')"
  shows "case bind_failure_w h address of
      None \<Rightarrow> opened \<and> fd_open w'
    | Some e \<Rightarrow> \<not> opened \<and> \<not> fd_open w' \<and> watch_socket_last_error w' = e"
  using assms
  by (auto simp: watch_socket_udp_bind_w_def bind_failure_w_def socket_w_defs Let_def split: option.splits if_splits)

text \<open>Where a transfer is not refused, the two platforms agree: an \<^verbatim>\<open>int\<close> holds every size that
  passes the check.\<close>

lemma sint_size: "n \<le> (2147483647 :: u32) \<Longrightarrow> sint n = int (unat n)"
proof -
  assume "n \<le> 2147483647"
  then have n: "uint n < 2 ^ 31" by (simp add: word_le_def)
  then have "\<not> bit (uint n) 31" by (simp add: bit_iff_odd div_pos_pos_trivial)
  then show ?thesis using n by (simp add: sint_uint signed_take_bit_eq_if_positive take_bit_int_eq_self)
qed

lemma send_to_platforms_agree:
  "n \<noteq> 0 \<Longrightarrow> n \<le> 2147483647 \<Longrightarrow>
     watch_socket_send_to_w sendto False False n w = watch_socket_send_to sendto False False n w"
  by (simp add: watch_socket_send_to_w_def watch_socket_send_to_def sint_size linorder_not_less split: sum.split)

end
