(* ===== verification/Spec2Isabelle.thy ===== *)
theory Spec2Isabelle
  imports Session Opcodes Sender Manager TimeFeed FrameFeed FtableAssembly SpectralAssembly
    PointMeter Axes Launch Socket MainLoop Handshake Colors PlotLaws DrawGraph Windows
begin

text \<open>
  \<^bold>\<open>csound-watch\<close> is a plugin for Csound that plots signals in a separate process. Opcodes of the
  plugin (\<^verbatim>\<open>src/src/watch.c\<close>, \<^verbatim>\<open>watch.h\<close>) create graphs and feed them; a sender thread
  transmits configurations, samples and close messages over UDP on the local host
  (\<^verbatim>\<open>watch_protocol.h\<close>, \<^verbatim>\<open>watch_socket.c\<close>), starting the viewer when nobody answers
  (\<^verbatim>\<open>watch_process.c\<close>). The viewer (\<^verbatim>\<open>watch_viewer.c\<close>) checks each datagram,
  opens a window per graph, assembles samples, spectral frames and tables, and draws 60 frames per
  second. One viewer serves several sessions.

  \<^bold>\<open>The parts and their theories.\<close>

  Shared: \<open>Prelude\<close> (machine integers, ring buffers, tables of slots with the locale \<open>slot_table\<close>),
  \<open>CFloat\<close> (\<^verbatim>\<open>float\<close> and \<^verbatim>\<open>double\<close> as rationals with infinities and NaN, rounded to nearest
  even at the format's precision, conversions to \<^verbatim>\<open>uint32_t\<close> undefined out of range), \<open>Protocol\<close>
  (limits, messages, layout), \<open>Validate\<close> (the viewer's checks of a packet).

  Plugin: \<open>StreamQueue\<close> (\<^verbatim>\<open>WATCH_STREAM\<close>: the packet ring of one opcode, the sender's pass over
  it, the table transfer), \<open>TimeFeed\<close> (\<^verbatim>\<open>watch_add_a/_k/_p\<close>), \<open>FrameFeed\<close>
  (\<^verbatim>\<open>watch_add_f\<close>, \<^verbatim>\<open>watch_meter\<close>), \<open>Registry\<close> (the table of graphs with
  \<^verbatim>\<open>register_graph\<close>, \<^verbatim>\<open>create_stream\<close>, \<^verbatim>\<open>release_stream\<close>, \<^verbatim>\<open>watch_theme\<close>),
  \<open>Opcodes\<close> (the initialisation and deinitialisation of every opcode with its error returns),
  \<open>Sender\<close> (rounds of \<^verbatim>\<open>sender_thread\<close>), \<open>Manager\<close> (construction and reset), \<open>Instances\<close>
  (the rows of \<^verbatim>\<open>localops\<close>: the initialisation, performance and deinitialisation pass of
  every opcode that holds a stream, over the memory its instance owns), \<open>Session\<close> (the passes of any
  number of instances, the calls of the other opcodes, sender rounds and resets interleaved as an
  inductive step relation).

  Viewer: \<open>Window\<close> (rings of the last values), \<open>ScopeBuffer\<close> (time streams and their display clock),
  \<open>SpectralAssembly\<close>, \<open>FtableAssembly\<close>, \<open>PointMeter\<close> (the buffers of the other domains),
  \<open>Ranges\<close>, \<open>Ticks\<close>, \<open>Axes\<close> (axis ranges, tick labels, the plot area), \<open>ViewGraph\<close>
  (\<^verbatim>\<open>VIEW_GRAPH\<close> and the table of windows), \<open>Dispatch\<close> (the handler of each message),
  \<open>MainLoop\<close> (\<^verbatim>\<open>main\<close>, frame by frame). \<open>Launch\<close> is the search for the viewer's program and its
  start, \<open>Socket\<close> the wrappers of the socket calls, \<open>Windows\<close> the variants of both for Windows,
  \<open>Handshake\<close> joins the two programs.

  Drawing: \<open>Colors\<close> (the palettes and the loops that fit their luminance), \<open>Draw\<close> (each call of SDL's
  renderer as a value of \<open>draw\<close>; grid, meter, labels, lines), \<open>Plots\<close> (\<^verbatim>\<open>draw_scope_stream\<close>,
  \<^verbatim>\<open>render_spectrum\<close>, \<^verbatim>\<open>render_spectrogram\<close>, \<^verbatim>\<open>render_ftable\<close>,
  \<^verbatim>\<open>render_point\<close>, \<^verbatim>\<open>render_meter\<close>), \<open>PlotLaws\<close> (what these lists of calls show),
  \<open>DrawGraph\<close> (\<^verbatim>\<open>render_graph\<close>, a whole frame: the calls it makes and the graph it leaves).

  \<^bold>\<open>How state is represented.\<close> A struct is a record with the source's fields; a nullable pointer to
  one is an option. The plugin's streams live in a heap from addresses to streams, because an opcode
  and the registry share them; using a freed one is \<^const>\<open>None\<close>, and so is every conversion the C
  standard leaves undefined. A viewer slot whose \<^verbatim>\<open>ready\<close> is false is \<^const>\<open>None\<close>. Counters and
  sequence numbers keep their width where they can wrap (\<^verbatim>\<open>u32\<close>, \<^verbatim>\<open>u64\<close> words); array indices
  bounded by the code are naturals. The operating system, Csound, SDL and SDL_ttf are parameters:
  records of their answers (\<open>HOST\<close>, \<open>WINDOW_HOST\<close>, \<open>PACKET_HOST\<close>, ...), about which nothing is
  assumed unless a theorem says so. The C library's \<^verbatim>\<open>sqrtf\<close>, \<^verbatim>\<open>log10f\<close>,
  \<^verbatim>\<open>expf\<close> and \<^verbatim>\<open>powf\<close> are function parameters. SDL's renderer keeps a clip
  rectangle and a scale for each render target, as \<^verbatim>\<open>SDL_render.h\<close> documents (\<open>RENDERER\<close> in
  \<open>DrawGraph\<close>). A function that draws returns the list of
  its calls of the renderer, in order; \<open>MainLoop\<close> uses of a frame only what it changes in the graph.

  \<^bold>\<open>What the theorems show.\<close> Nothing is lost silently between an opcode and the socket, for every
  interleaving with the sender, and what is sent passes the viewer's checks (\<open>TimeFeed\<close>, \<open>FrameFeed\<close>;
  the ring refines a bounded queue). The registry stays consistent, no opcode of
  any kind is left with a dangling stream, and a graph whose streams have been released drains and leaves (\<open>Registry\<close>, \<open>Sender\<close>, \<open>Session\<close>). Buffers of the
  viewer refine what was sent: a time line, the newest complete spectral frame, the whole table
  (round trip with the plugin's transfer), the last points, held peaks. The axis of a table
  that is displayed is never empty, also for a constant table (up to \<open>2 ^ 126\<close> in magnitude); an inner
  label is drawn only where it keeps its distance from the label before it and from the last one, the
  first and the last always; windows do not cover each other. The viewer's table is sound in every reachable
  state of its loop, sessions cannot disturb each other, a configuration is acknowledged exactly when
  it is shown, and the viewer ends with its last session. The palettes can be computed; a frame draws
  every sample a scope holds, keeps the bars and peak marks of a meter at their levels, shows the columns of
  a spectrogram side by side in the order they came, and leaves neither the window nor the texture it may
  draw to with a clip rectangle, and the window at scale 1. Some theorems record surprises:
  \<open>spectral_reinit_keeps_old_stream\<close>, \<open>meter_config_accepted\<close>, \<open>time_config_accepted\<close>,
  \<open>meter_names_overwritten\<close>, \<open>viewer_left_running\<close>, \<open>watch_add_f_publishes\<close> (packets the viewer
  accepts only within limits the opcode does not check), and the lemmas \<open>range_collapses\<close> and
  \<open>huge_constant_table\<close>.

  \<^bold>\<open>Bounds and fuel.\<close> The performance loops of \<^verbatim>\<open>watch_add_a/_k/_p\<close>, which restart a round after
  they publish a packet, are \<^theory_text>\<open>partial_function (option)\<close>; their theorems say that they return.
  So are the two loops of \<^verbatim>\<open>themed_color_pair\<close>, which run until a luminance is reached in
  floating point; \<open>palette_returns\<close> shows that they end, given bounds on \<^verbatim>\<open>powf\<close>.
  \<^verbatim>\<open>send_stream_loop\<close> counts the eight packets of a pass, \<^verbatim>\<open>receive_packets\<close> the 4096 of a
  frame, \<^verbatim>\<open>allocate_loop\<close> the registry's capacity plus one, as the code does. Everything else recurses
  structurally or over a decreasing measure.

  \<^bold>\<open>Concurrency.\<close> The registry's mutex makes initialisation and deinitialisation passes and sender
  rounds atomic; they are steps of \<open>Session\<close>, and so is a performance pass as a whole. The ring between an audio opcode and the sender is shared without the mutex: its
  theorem covers every interleaving of producer and consumer operations under sequential
  consistency; memory ordering of the atomics below that is not modelled.

  \<^bold>\<open>Not modelled.\<close> What SDL paints for a call of its renderer; the rendering of text and fonts;
  the digits \<^verbatim>\<open>printf\<close> produces; log messages; the release of memory without another effect;
  Csound's own calls beyond their results.
\<close>

end
